(* ===== verification/Prelude.thy ===== *)
theory Prelude
  imports Main "HOL-Library.Word" "HOL-Library.Sublist"
begin

text \<open>
  Shared ground of the development: the parts of the C++ string and stream library the
  server uses (\<^verbatim>\<open>std::string::find\<close>, \<^verbatim>\<open>rfind\<close>, \<^verbatim>\<open>find_first_not_of\<close>, \<^verbatim>\<open>std::getline\<close>,
  \<^verbatim>\<open>operator>>\<close>, \<^verbatim>\<open>std::to_string\<close>, \<^verbatim>\<open>std::from_chars\<close>, \<^verbatim>\<open>std::stoi\<close>, \<^verbatim>\<open>toupper\<close> and
  \<^verbatim>\<open>tolower\<close> in the C locale), the calls a session makes on the event loop, the exceptions
  a handler can raise, and the contract of a machine that is driven one event at a time.
  A byte is a \<^typ>\<open>char\<close> and a C++ string a \<^typ>\<open>string\<close>, so lengths count bytes.
\<close>

section \<open>Collections of facts\<close>

named_theorems cpp_simps \<open>rewrite rules for the C++ library functions\<close>
named_theorems step_simps \<open>unfolding rules for handlers and steps\<close>
named_theorems inv_intros \<open>preservation lemmas of the component invariants\<close>

section \<open>Characters\<close>

abbreviation CR :: char where "CR \<equiv> CHR 0x0D"
abbreviation LF :: char where "LF \<equiv> CHR 0x0A"
abbreviation TAB :: char where "TAB \<equiv> CHR 0x09"
abbreviation NUL :: char where "NUL \<equiv> CHR 0x00"
abbreviation DQ :: char where "DQ \<equiv> CHR 0x22"
abbreviation BS :: char where "BS \<equiv> CHR 0x5C"
abbreviation crlf :: string where "crlf \<equiv> [CR, LF]"

definition toupper :: "char \<Rightarrow> char" where
  "toupper c = (let n = (of_char c :: nat) in
     if 97 \<le> n \<and> n \<le> 122 then char_of (n - 32) else c)"

definition tolower :: "char \<Rightarrow> char" where
  "tolower c = (let n = (of_char c :: nat) in
     if 65 \<le> n \<and> n \<le> 90 then char_of (n + 32) else c)"

definition isdigit :: "char \<Rightarrow> bool" where
  "isdigit c = (let n = (of_char c :: nat) in 48 \<le> n \<and> n \<le> 57)"

definition isalnum :: "char \<Rightarrow> bool" where
  "isalnum c = (let n = (of_char c :: nat) in
     (48 \<le> n \<and> n \<le> 57) \<or> (65 \<le> n \<and> n \<le> 90) \<or> (97 \<le> n \<and> n \<le> 122))"

definition isspace :: "char \<Rightarrow> bool" where
  "isspace c = (c = CHR '' '' \<or> c = TAB \<or> c = LF \<or> c = CHR 0x0B \<or> c = CHR 0x0C \<or> c = CR)"

abbreviation upper :: "string \<Rightarrow> string" where "upper \<equiv> map toupper"
abbreviation lower :: "string \<Rightarrow> string" where "lower \<equiv> map tolower"

lemma of_char_less_256 [simp]: "(of_char c :: nat) < 256"
proof -
  have "(of_char c :: nat) = of_char c mod 256" by simp
  then show ?thesis by (metis mod_less_divisor zero_less_numeral)
qed

lemma of_char_char_of_small: "n < 256 \<Longrightarrow> (of_char (char_of n) :: nat) = n"
  by simp

lemma tolower_idem [simp]: "tolower (tolower c) = tolower c"
  by (auto simp: tolower_def Let_def)

lemma toupper_idem [simp]: "toupper (toupper c) = toupper c"
  by (auto simp: toupper_def Let_def)

lemma lower_idem [simp]: "lower (lower s) = lower s"
  by simp

lemma isalnum_not_special:
  assumes "isalnum c"
  shows "c \<noteq> CHR ''/''" "c \<noteq> CHR ''.''" "c \<noteq> NUL" "c \<noteq> CHR ''@''" "\<not> isspace c"
  using assms by (auto simp: isalnum_def isspace_def)

text \<open>Only letters are results of a change of case.\<close>

lemma tolower_eq_other:
  assumes "\<not> (97 \<le> (of_char d :: nat) \<and> (of_char d :: nat) \<le> 122)" "\<not> (65 \<le> (of_char d :: nat) \<and> (of_char d :: nat) \<le> 90)"
  shows "tolower c = d \<longleftrightarrow> c = d"
proof (cases "65 \<le> (of_char c :: nat) \<and> (of_char c :: nat) \<le> 90")
  case True
  then have "(of_char (tolower c) :: nat) = of_char c + 32" by (simp add: tolower_def Let_def of_char_char_of_small)
  with True assms show ?thesis by auto
next
  case False
  then show ?thesis by (auto simp: tolower_def Let_def)
qed

lemma tolower_eq_at [simp]: "tolower c = CHR ''@'' \<longleftrightarrow> c = CHR ''@''"
  by (rule tolower_eq_other) simp_all

section \<open>Searching in strings\<close>

fun find_ch :: "char \<Rightarrow> string \<Rightarrow> nat option" where
  "find_ch c [] = None"
| "find_ch c (x # xs) = (if x = c then Some 0 else map_option Suc (find_ch c xs))"

definition rfind_ch :: "char \<Rightarrow> string \<Rightarrow> nat option" where
  "rfind_ch c s = map_option (\<lambda>i. length s - 1 - i) (find_ch c (rev s))"

definition starts_with :: "string \<Rightarrow> string \<Rightarrow> bool" where
  "starts_with p s = (take (length p) s = p)"

fun find_sub :: "string \<Rightarrow> string \<Rightarrow> nat option" where
  "find_sub p [] = (if p = [] then Some 0 else None)"
| "find_sub p (x # xs) =
     (if starts_with p (x # xs) then Some 0 else map_option Suc (find_sub p xs))"

definition has_sub :: "string \<Rightarrow> string \<Rightarrow> bool" where
  "has_sub p s = (find_sub p s \<noteq> None)"

lemma find_ch_None [cpp_simps]: "find_ch c s = None \<longleftrightarrow> c \<notin> set s"
  by (induction s) auto

lemma find_ch_SomeD:
  assumes "find_ch c s = Some i"
  shows "i < length s" "s ! i = c" "take i s = takeWhile (\<lambda>x. x \<noteq> c) s"
    "drop i s = c # drop (Suc i) s" "c \<notin> set (take i s)"
  using assms
proof (induction s arbitrary: i)
  case (Cons x xs)
  {
    case 1 with Cons show ?case by (auto split: if_splits)
  next
    case 2 with Cons show ?case by (auto split: if_splits)
  next
    case 3 with Cons show ?case by (auto split: if_splits)
  next
    case 4 with Cons show ?case by (auto split: if_splits)
  next
    case 5 with Cons show ?case by (auto split: if_splits)
  }
qed auto

lemma find_ch_append:
  "c \<notin> set xs \<Longrightarrow> find_ch c (xs @ c # ys) = Some (length xs)"
  by (induction xs) auto

lemma rfind_ch_None [cpp_simps]: "rfind_ch c s = None \<longleftrightarrow> c \<notin> set s"
  by (simp add: rfind_ch_def find_ch_None)

lemma rfind_ch_SomeD:
  assumes "rfind_ch c s = Some i"
  shows "i < length s" "s ! i = c" "c \<notin> set (drop (Suc i) s)"
proof -
  from assms obtain j where j: "find_ch c (rev s) = Some j" and i: "i = length s - 1 - j"
    by (auto simp: rfind_ch_def)
  from find_ch_SomeD[OF j] have jl: "j < length s" and jc: "rev s ! j = c"
    and nin: "c \<notin> set (take j (rev s))" by auto
  from jl i show "i < length s" by simp
  from jl jc i show "s ! i = c" by (simp add: rev_nth)
  have "Suc i = length s - j" using i jl by simp
  then have "rev (drop (Suc i) s) = take j (rev s)" using jl by (simp add: take_rev)
  with nin show "c \<notin> set (drop (Suc i) s)" by (metis set_rev)
qed

lemma rfind_ch_append:
  assumes "c \<notin> set ys"
  shows "rfind_ch c (xs @ c # ys) = Some (length xs)"
proof -
  have "find_ch c (rev ys @ c # rev xs) = Some (length (rev ys))"
    by (rule find_ch_append) (simp add: assms)
  then show ?thesis by (simp add: rfind_ch_def)
qed

lemma starts_with_iff: "starts_with p s \<longleftrightarrow> (\<exists>r. s = p @ r)"
proof
  assume "starts_with p s"
  then have "s = p @ drop (length p) s"
    unfolding starts_with_def by (metis append_take_drop_id)
  then show "\<exists>r. s = p @ r" by blast
qed (auto simp: starts_with_def)

lemma find_sub_SomeD:
  "find_sub p s = Some i \<Longrightarrow> i \<le> length s \<and> starts_with p (drop i s)"
  by (induction s arbitrary: i) (auto simp: starts_with_def split: if_splits)

lemma has_sub_iff: "has_sub p s \<longleftrightarrow> (\<exists>u v. s = u @ p @ v)"
proof (induction s)
  case Nil
  then show ?case by (simp add: has_sub_def)
next
  case (Cons x xs)
  have "has_sub p (x # xs) \<longleftrightarrow> starts_with p (x # xs) \<or> has_sub p xs"
    by (auto simp: has_sub_def)
  also have "\<dots> \<longleftrightarrow> (\<exists>u v. x # xs = u @ p @ v)"
  proof
    assume "starts_with p (x # xs) \<or> has_sub p xs"
    then show "\<exists>u v. x # xs = u @ p @ v"
    proof
      assume "starts_with p (x # xs)"
      then show ?thesis by (metis append_Nil starts_with_iff)
    next
      assume "has_sub p xs"
      then obtain u v where "xs = u @ p @ v" using Cons by blast
      then show ?thesis by (metis append_Cons)
    qed
  next
    assume "\<exists>u v. x # xs = u @ p @ v"
    then obtain u v where e: "x # xs = u @ p @ v" by blast
    show "starts_with p (x # xs) \<or> has_sub p xs"
    proof (cases u)
      case Nil
      with e show ?thesis by (metis append_Nil starts_with_iff)
    next
      case (Cons a list)
      with e have "xs = list @ p @ v" by simp
      with Cons.IH show ?thesis by blast
    qed
  qed
  finally show ?case .
qed

lemma has_sub_sublist: "has_sub p s \<longleftrightarrow> sublist p s"
  by (simp add: has_sub_iff sublist_def)

section \<open>Trimming\<close>

definition find_first_not_of :: "string \<Rightarrow> string \<Rightarrow> nat option" where
  "find_first_not_of ws s =
     (let n = length (takeWhile (\<lambda>c. c \<in> set ws) s) in if n < length s then Some n else None)"

definition find_last_not_of :: "string \<Rightarrow> string \<Rightarrow> nat option" where
  "find_last_not_of ws s = map_option (\<lambda>i. length s - 1 - i) (find_first_not_of ws (rev s))"

definition trim_set :: "string \<Rightarrow> string \<Rightarrow> string \<Rightarrow> string" where
  "trim_set l r s = (case find_first_not_of l s of None \<Rightarrow> []
     | Some a \<Rightarrow> (case find_last_not_of r s of None \<Rightarrow> drop a s
        | Some b \<Rightarrow> take (b + 1 - a) (drop a s)))"

abbreviation trim_of :: "string \<Rightarrow> string \<Rightarrow> string" where
  "trim_of ws \<equiv> trim_set ws ws"

lemma find_first_not_of_None [cpp_simps]:
  "find_first_not_of ws s = None \<longleftrightarrow> set s \<subseteq> set ws"
proof -
  have "find_first_not_of ws s = None \<longleftrightarrow> takeWhile (\<lambda>c. c \<in> set ws) s = s"
    unfolding find_first_not_of_def Let_def
    by (metis length_takeWhile_le linorder_not_less nat_less_le nth_equalityI option.distinct(1)
        takeWhile_eq_take take_all)
  then show ?thesis by (auto simp: takeWhile_eq_all_conv)
qed

lemma find_first_not_of_SomeD:
  assumes "find_first_not_of ws s = Some n"
  shows "n < length s" "drop n s = dropWhile (\<lambda>c. c \<in> set ws) s" "s ! n \<notin> set ws"
proof -
  from assms have n: "n = length (takeWhile (\<lambda>c. c \<in> set ws) s)" and l: "n < length s"
    by (auto simp: find_first_not_of_def Let_def split: if_splits)
  from l show "n < length s" .
  from n show "drop n s = dropWhile (\<lambda>c. c \<in> set ws) s" by (simp add: dropWhile_eq_drop)
  from n l show "s ! n \<notin> set ws" using nth_length_takeWhile by blast
qed

lemma find_first_not_of_Some_dropWhile:
  "find_first_not_of ws s = Some n \<Longrightarrow> n = length s - length (dropWhile (\<lambda>c. c \<in> set ws) s)"
  by (metis find_first_not_of_SomeD(1,2) diff_diff_cancel length_drop less_imp_le_nat)

lemma find_last_not_of_SomeD:
  assumes "find_last_not_of ws s = Some n"
  shows "n < length s" "s ! n \<notin> set ws" "set (drop (Suc n) s) \<subseteq> set ws"
proof -
  from assms obtain j where j: "find_first_not_of ws (rev s) = Some j" and n: "n = length s - 1 - j"
    by (auto simp: find_last_not_of_def)
  from find_first_not_of_SomeD[OF j] have jl: "j < length s" and jc: "rev s ! j \<notin> set ws" by auto
  from jl n show "n < length s" by simp
  from jl jc n show "s ! n \<notin> set ws" by (simp add: rev_nth)
  from j have "j = length (takeWhile (\<lambda>c. c \<in> set ws) (rev s))"
    by (auto simp: find_first_not_of_def Let_def split: if_splits)
  then have t: "take j (rev s) = takeWhile (\<lambda>c. c \<in> set ws) (rev s)"
    by (metis takeWhile_eq_take)
  have "Suc n = length s - j" using n jl by simp
  then have "rev (drop (Suc n) s) = take j (rev s)" using jl by (simp add: take_rev)
  then show "set (drop (Suc n) s) \<subseteq> set ws"
    using t by (metis set_rev set_takeWhileD subsetI)
qed

lemma trim_set_subset: "set (trim_set l r s) \<subseteq> set s"
  by (auto simp: trim_set_def split: option.splits dest!: in_set_takeD in_set_dropD)

lemma length_trim_set: "length (trim_set l r s) \<le> length s"
  by (auto simp: trim_set_def split: option.splits)

lemma find_first_not_of_hd: "c \<notin> set ws \<Longrightarrow> find_first_not_of ws (c # s) = Some 0"
  by (simp add: find_first_not_of_def)

lemma find_last_not_of_last: "s \<noteq> [] \<Longrightarrow> last s \<notin> set ws \<Longrightarrow> find_last_not_of ws s = Some (length s - 1)"
  by (cases s rule: rev_cases) (simp_all add: find_last_not_of_def find_first_not_of_hd)

lemma trim_set_id: "s \<noteq> [] \<Longrightarrow> hd s \<notin> set l \<Longrightarrow> last s \<notin> set r \<Longrightarrow> trim_set l r s = s"
  by (cases s) (simp_all add: trim_set_def find_first_not_of_hd find_last_not_of_last)

lemma trim_set_lead:
  assumes "c \<in> set l" "s \<noteq> []" "hd s \<notin> set l" "last s \<notin> set r"
  shows "trim_set l r (c # s) = s"
proof -
  obtain d t where s: "s = d # t" using assms(2) by (cases s) auto
  have "find_first_not_of l (c # s) = Some 1" using assms(1,3) s by (simp add: find_first_not_of_def)
  moreover have "find_last_not_of r (c # s) = Some (length s)"
    using find_last_not_of_last[of "c # s" r] assms(2,4) by simp
  ultimately show ?thesis by (simp add: trim_set_def)
qed

lemma trim_set_Nil [simp]: "trim_set l r [] = []"
  by (simp add: trim_set_def find_first_not_of_def)

section \<open>Streams\<close>

text \<open>\<open>getlines d s\<close> is the sequence of lines \<^verbatim>\<open>while (std::getline(ss, line, d))\<close> sees.\<close>

fun getlines :: "char \<Rightarrow> string \<Rightarrow> string list" where
  "getlines d [] = []"
| "getlines d (x # xs) =
     (if x = d then [] # getlines d xs
      else (case getlines d xs of [] \<Rightarrow> [[x]] | l # ls \<Rightarrow> (x # l) # ls))"

lemma getlines_Nil_iff [simp]: "getlines d s = [] \<longleftrightarrow> s = []"
  by (cases s) (auto split: list.splits)

lemma getlines_line:
  "d \<notin> set l \<Longrightarrow> getlines d (l @ d # r) = l # getlines d r"
  by (induction l) (auto split: list.splits)

lemma getlines_no_delim [simp]:
  "d \<notin> set s \<Longrightarrow> s \<noteq> [] \<Longrightarrow> getlines d s = [s]"
proof (induction s)
  case (Cons x xs)
  then show ?case by (cases xs) auto
qed simp

lemma getlines_delim: "l \<in> set (getlines d s) \<Longrightarrow> d \<notin> set l"
  by (induction s arbitrary: l) (auto split: if_splits list.splits)

lemma getlines_split:
  "getlines d (r @ d # s) = getlines d (r @ [d]) @ getlines d s"
proof (induction r)
  case (Cons x r)
  obtain l ls where l: "getlines d (r @ [d]) = l # ls" by (cases "getlines d (r @ [d])") auto
  with Cons show ?case by simp
qed simp

lemma getlines_snoc_delim:
  "getlines d (r @ [d]) = (if r = [] \<or> last r = d then getlines d r @ [[]] else getlines d r)"
proof (induction r)
  case (Cons x r)
  show ?case
  proof (cases r)
    case (Cons y ys)
    then obtain l ls where "getlines d r = l # ls" by (metis getlines_Nil_iff list.exhaust list.discI)
    with Cons.IH Cons show ?thesis by auto
  qed simp
qed simp

lemma getlines_join:
  "\<forall>l \<in> set ls. d \<notin> set l \<Longrightarrow> getlines d (concat (map (\<lambda>l. l @ [d]) ls)) = ls"
  by (induction ls) (auto simp: getlines_line)

lemma getlines_join_last:
  "\<forall>p \<in> set ps. d \<notin> set p \<Longrightarrow> d \<notin> set l \<Longrightarrow> l \<noteq> [] \<Longrightarrow>
     getlines d (concat (map (\<lambda>p. p @ [d]) ps) @ l) = ps @ [l]"
  by (induction ps) (auto simp: getlines_line)

lemma getlines_sum_length:
  "l \<in> set (getlines d s) \<Longrightarrow> length l \<le> length s"
  by (induction s arbitrary: l) (fastforce split: if_splits list.splits)+

text \<open>A C function that is given \<^verbatim>\<open>s.c_str()\<close> reads up to the first NUL byte.\<close>

definition c_str :: "string \<Rightarrow> string" where
  "c_str s = takeWhile (\<lambda>c. c \<noteq> NUL) s"

text \<open>The idiom \<^verbatim>\<open>if (!line.empty() && line.back() == '\r') line.pop_back();\<close> after a line was read.\<close>

definition strip_cr :: "string \<Rightarrow> string" where
  "strip_cr l = (if l \<noteq> [] \<and> last l = CR then butlast l else l)"

text \<open>
  \<open>next_token s\<close> is \<^verbatim>\<open>ss >> token\<close>: the token and the rest of the stream. An empty token stands
  for a failed extraction, which leaves the (initially empty) variable as it was.
\<close>

definition next_token :: "string \<Rightarrow> string \<times> string" where
  "next_token s = (let s' = dropWhile isspace s in
     (takeWhile (\<lambda>c. \<not> isspace c) s', dropWhile (\<lambda>c. \<not> isspace c) s'))"

text \<open>\<^verbatim>\<open>std::getline(ss, line)\<close> once: the rest of the stream up to the next line feed.\<close>

definition rest_line :: "string \<Rightarrow> string" where
  "rest_line s = takeWhile (\<lambda>c. c \<noteq> LF) s"

lemma next_token_length: "next_token s = (t, r) \<Longrightarrow> t \<noteq> [] \<Longrightarrow> length r < length s"
proof -
  assume a: "next_token s = (t, r)" and t: "t \<noteq> []"
  let ?s = "dropWhile isspace s"
  from a have t': "t = takeWhile (\<lambda>c. \<not> isspace c) ?s"
    and r': "r = dropWhile (\<lambda>c. \<not> isspace c) ?s"
    by (auto simp: next_token_def Let_def)
  have "length t + length r = length ?s"
    unfolding t' r' by (metis length_append takeWhile_dropWhile_id)
  moreover have "length ?s \<le> length s" by (rule length_dropWhile_le)
  ultimately show "length r < length s" using t by (cases t) auto
qed

text \<open>\<^verbatim>\<open>while (ss >> token)\<close>: all whitespace-separated tokens.\<close>

function tokens :: "string \<Rightarrow> string list" where
  "tokens s = (case next_token s of (t, r) \<Rightarrow> if t = [] then [] else t # tokens r)"
  by pat_completeness auto
termination
  by (relation "measure length") (auto simp: next_token_length[OF sym])

declare tokens.simps [simp del]

lemma next_token_no_space:
  "next_token s = (t, r) \<Longrightarrow> c \<in> set t \<Longrightarrow> \<not> isspace c"
  by (auto simp: next_token_def Let_def dest: set_takeWhileD)

lemma tokens_no_space:
  "t \<in> set (tokens s) \<Longrightarrow> t \<noteq> [] \<and> (\<forall>c \<in> set t. \<not> isspace c)"
proof (induction s rule: tokens.induct)
  case (1 s)
  obtain u r where u: "next_token s = (u, r)" by fastforce
  show ?case
  proof (cases "u = []")
    case True
    with u "1.prems" show ?thesis by (simp add: tokens.simps[of s])
  next
    case False
    with u "1.prems" have "t = u \<or> t \<in> set (tokens r)" by (simp add: tokens.simps[of s])
    then show ?thesis
    proof
      assume "t = u"
      with False next_token_no_space[OF u] show ?thesis by blast
    next
      assume "t \<in> set (tokens r)"
      with "1.IH"[OF u[symmetric] False] show ?thesis by blast
    qed
  qed
qed

section \<open>Numbers\<close>

text \<open>\<^verbatim>\<open>std::to_string\<close> of a non-negative value.\<close>

fun dec :: "nat \<Rightarrow> string" where
  "dec n = (if n < 10 then [char_of (48 + n)] else dec (n div 10) @ [char_of (48 + n mod 10)])"

declare dec.simps [simp del]

text \<open>\<^verbatim>\<open>std::to_string\<close> of a signed value.\<close>

definition dec_int :: "int \<Rightarrow> string" where
  "dec_int i = (if i < 0 then CHR ''-'' # dec (nat (- i)) else dec (nat i))"

definition digit_val :: "char \<Rightarrow> nat" where
  "digit_val c = of_char c - 48"

definition digits_val :: "string \<Rightarrow> nat" where
  "digits_val s = foldl (\<lambda>a c. 10 * a + digit_val c) 0 s"

lemma isdigit_char_of [simp]: "(d :: nat) < 10 \<Longrightarrow> isdigit (char_of (48 + d))"
  by (simp add: isdigit_def Let_def)

lemma digit_val_char_of [simp]: "(d :: nat) < 10 \<Longrightarrow> digit_val (char_of (48 + d)) = d"
  by (simp add: digit_val_def)

lemma dec_digits: "c \<in> set (dec n) \<Longrightarrow> isdigit c"
proof (induction n rule: dec.induct)
  case (1 n)
  then show ?case by (cases "n < 10") (auto simp: dec.simps[of n])
qed

lemma dec_nonempty [simp]: "dec n \<noteq> []"
  by (subst dec.simps) simp

lemma digits_val_snoc [simp]: "digits_val (s @ [c]) = 10 * digits_val s + digit_val c"
  by (simp add: digits_val_def)

lemma digits_val_dec [simp]: "digits_val (dec n) = n"
proof (induction n rule: dec.induct)
  case (1 n)
  show ?case
  proof (cases "n < 10")
    case True
    then show ?thesis by (simp add: dec.simps[of n] digits_val_def)
  next
    case False
    with "1.IH" have "digits_val (dec (n div 10)) = n div 10" by simp
    with False show ?thesis by (simp add: dec.simps[of n])
  qed
qed

lemma dec_inject [simp]: "dec m = dec n \<longleftrightarrow> m = n"
  by (metis digits_val_dec)

text \<open>
  \<^verbatim>\<open>std::from_chars\<close> on an unsigned type of \<open>w\<close> bits: the longest digit prefix is read;
  \<^verbatim>\<open>invalid_argument\<close> with no digit, \<^verbatim>\<open>result_out_of_range\<close> when it does not fit. In both
  error cases (\<open>None\<close>) the destination variable keeps its value.
\<close>

definition from_chars :: "nat \<Rightarrow> string \<Rightarrow> nat option" where
  "from_chars w s = (let ds = takeWhile isdigit s in
     if ds = [] \<or> digits_val ds \<ge> 2 ^ w then None else Some (digits_val ds))"

lemma from_chars_dec:
  assumes "n < 2 ^ w" and "s = [] \<or> \<not> isdigit (hd s)"
  shows "from_chars w (dec n @ s) = Some n"
proof -
  have "takeWhile isdigit (dec n @ s) = dec n @ takeWhile isdigit s"
    by (rule takeWhile_append2) (rule dec_digits)
  moreover have "takeWhile isdigit s = []" using assms(2) by (cases s) auto
  ultimately show ?thesis using assms(1) by (simp add: from_chars_def)
qed

section \<open>Exceptions\<close>

datatype cpp_exn = Out_of_range | Invalid_argument | Bad_optional_access | Length_error | Bad_alloc
  | Runtime_error string | Logic_error string | Undefined_behaviour

type_synonym 'a cpp = "cpp_exn + 'a"

text \<open>Code that changes a state and may raise: the state reached and the exception, if any.\<close>

type_synonym 'st run = "'st \<times> cpp_exn option"

definition and_then :: "'st run \<Rightarrow> ('st \<Rightarrow> 'st run) \<Rightarrow> 'st run" where
  "and_then r f = (case r of (s, None) \<Rightarrow> f s | (s, Some e) \<Rightarrow> (s, Some e))"

text \<open>\<^verbatim>\<open>catch (const std::exception&)\<close>; undefined behaviour is not an exception.\<close>

definition catch_with :: "'st run \<Rightarrow> ('st \<Rightarrow> 'st run) \<Rightarrow> 'st run" where
  "catch_with r h = (case r of (s, None) \<Rightarrow> (s, None)
     | (s, Some e) \<Rightarrow> if e = Undefined_behaviour then (s, Some e) else h s)"

lemma and_then_simps [simp]: "and_then (s, None) f = f s" "and_then (s, Some e) f = (s, Some e)"
  by (simp_all add: and_then_def)

text \<open>A property of every state a run ends in without an exception.\<close>

definition ends_in :: "('st \<Rightarrow> bool) \<Rightarrow> 'st run \<Rightarrow> bool" where
  "ends_in P r \<longleftrightarrow> (snd r = None \<longrightarrow> P (fst r))"

lemma ends_in_pair [simp]: "ends_in P (s, None) = P s" "ends_in P (s, Some e)"
  by (simp_all add: ends_in_def)

lemma ends_in_and_then: "ends_in P r \<Longrightarrow> (\<And>s. P s \<Longrightarrow> ends_in Q (f s)) \<Longrightarrow> ends_in Q (and_then r f)"
  by (cases r; cases "snd r") (auto simp: ends_in_def)

text \<open>
  \<^verbatim>\<open>std::stoi\<close>, \<^verbatim>\<open>std::stoul\<close>, \<^verbatim>\<open>std::stoull\<close> and \<^verbatim>\<open>std::stoll\<close> in base 10: leading white space and a
  sign, then the longest digit prefix; the value must lie in the given range.
\<close>

definition sto :: "int \<Rightarrow> int \<Rightarrow> string \<Rightarrow> int cpp" where
  "sto lo hi s = (let s1 = dropWhile isspace s;
       neg = (s1 \<noteq> [] \<and> hd s1 = CHR ''-'');
       s2 = (if s1 \<noteq> [] \<and> (hd s1 = CHR ''-'' \<or> hd s1 = CHR ''+'') then tl s1 else s1);
       ds = takeWhile isdigit s2;
       v = (if neg then - int (digits_val ds) else int (digits_val ds))
     in if ds = [] then Inl Invalid_argument
        else if v < lo \<or> hi < v then Inl Out_of_range else Inr v)"

definition stoi :: "string \<Rightarrow> int cpp" where
  "stoi = sto (- (2 ^ 31)) (2 ^ 31 - 1)"

lemma stoi_range: "stoi s = Inr v \<Longrightarrow> - (2 ^ 31) \<le> v \<and> v < 2 ^ 31"
  by (auto simp: stoi_def sto_def Let_def split: if_splits)

lemma sto_dec:
  assumes "lo \<le> int n" "int n \<le> hi"
  shows "sto lo hi (dec n) = Inr (int n)"
proof -
  obtain c cs where d: "dec n = c # cs" by (cases "dec n") simp_all
  then have "isdigit c" using dec_digits[of c n] by simp
  then have c: "\<not> isspace c" "c \<noteq> CHR ''-''" "c \<noteq> CHR ''+''"
    by (auto simp: isdigit_def isspace_def)
  have t: "takeWhile isdigit (dec n) = dec n" by (auto simp: takeWhile_eq_all_conv dec_digits)
  have "dropWhile isspace (dec n) = dec n" "hd (dec n) = c" using c d by simp_all
  with c assms show ?thesis by (simp add: sto_def Let_def t del: takeWhile_eq_all_conv)
qed

lemma stoi_dec: "n < 2 ^ 31 \<Longrightarrow> stoi (dec n) = Inr (int n)"
  by (simp add: stoi_def sto_dec)

section \<open>The event loop as a session sees it\<close>

text \<open>
  A session calls \<^verbatim>\<open>submit_write\<close>, \<^verbatim>\<open>submit_close\<close> and \<^verbatim>\<open>upgrade_tls\<close> on the loop it belongs to.
  Its model keeps the calls it made in order, so replies can be stated and counted.
\<close>

datatype loop_call = Write string | Close | Upgrade_TLS

text \<open>Calls that only write more, and calls of which the first that writes or closes is a write.\<close>

definition wrote :: "loop_call list \<Rightarrow> loop_call list \<Rightarrow> bool" where
  "wrote cs cs' \<longleftrightarrow> (\<exists>ts. cs' = cs @ map Write ts)"

lemma wrote_refl [simp]: "wrote cs cs"
  unfolding wrote_def by (rule exI[of _ "[]"]) simp

lemma wrote_trans: "wrote cs cs' \<Longrightarrow> wrote cs' cs'' \<Longrightarrow> wrote cs cs''"
  unfolding wrote_def using map_append by (metis append_assoc)

lemma wrote_snoc [simp]: "wrote cs (cs @ [Write t])"
  unfolding wrote_def by (rule exI[of _ "[t]"]) simp

fun write_first :: "loop_call list \<Rightarrow> bool" where
  "write_first [] = True"
| "write_first (Write d # ks) = True"
| "write_first (Close # ks) = False"
| "write_first (Upgrade_TLS # ks) = write_first ks"

lemma write_first_append: "write_first ks \<Longrightarrow> write_first ks' \<Longrightarrow> write_first (ks @ ks')"
  by (induction ks rule: write_first.induct) auto

lemma write_first_writes: "write_first ks' \<Longrightarrow> write_first (map Write ts @ ks')"
  by (cases ts) auto

lemma write_first_wrote: "write_first cs \<Longrightarrow> wrote cs cs' \<Longrightarrow> write_first cs'"
  using write_first_append write_first_writes[of "[]"] by (auto simp: wrote_def)


section \<open>The lines a client has sent\<close>

lemma suffix_snoc: "suffix xs ys \<Longrightarrow> suffix (xs @ [b]) (ys @ [b])"
  by (auto simp: suffix_def)

text \<open>\<open>sent_line l seen\<close>: the bytes \<open>seen\<close> contain \<open>l\<close> with the end of a line behind it.\<close>

definition sent_line :: "string \<Rightarrow> string \<Rightarrow> bool" where
  "sent_line l seen \<longleftrightarrow> sublist (l @ [LF]) seen \<or> sublist (l @ crlf) seen"

lemma sent_line_more: "sent_line l seen \<Longrightarrow> sent_line l (seen @ r)"
  unfolding sent_line_def by (metis prefix_def prefix_imp_sublist sublist_order.order_trans)

lemma line_sent: "suffix b seen \<Longrightarrow> sent_line (strip_cr b) (seen @ [LF])"
proof -
  assume "suffix b seen"
  then have "sublist (b @ [LF]) (seen @ [LF])" by (intro suffix_imp_sublist suffix_snoc)
  moreover have "b = strip_cr b \<or> b = strip_cr b @ [CR]" by (metis append_butlast_last_id strip_cr_def)
  ultimately show ?thesis by (metis append.assoc append_Cons append_Nil sent_line_def)
qed

section \<open>Machines driven one event at a time\<close>

locale event_machine =
  fixes step :: "'s \<Rightarrow> 'e \<Rightarrow> 's"
    and invar :: "'s \<Rightarrow> bool"
  assumes invar_step: "invar s \<Longrightarrow> invar (step s e)"
begin

lemma invar_run: "invar s \<Longrightarrow> invar (foldl step s es)"
  by (induction es arbitrary: s) (auto intro: invar_step)

end

end
