(* ===== verification/Dns_Message.thy ===== *)
theory Dns_Message
  imports Prelude
begin

text \<open>
  \<^verbatim>\<open>src/dns/message.cpp\<close>: the DNS wire format of RFC 1035. A packet is a list of bytes of type
  \<open>8 word\<close>; header fields and counts keep their widths. A decoder returns \<open>Inr None\<close> where the
  code returns false and \<open>Inl Undefined_behaviour\<close> where it indexes a span out of range. The
  name decoder terminates by the depth limit on compression pointers; the theorems are the
  round trip of encoded names and queries and the absence of out-of-range reads for records
  that lie inside the packet.
\<close>

unbundle bit_operations_syntax

type_synonym byte = "8 word"

definition byte_of :: "char \<Rightarrow> byte" where
  "byte_of c = of_nat (of_char c)"

definition char_byte :: "byte \<Rightarrow> char" where
  "char_byte b = char_of (unat b)"

text \<open>The enumerations are 16-bit integers; a cast from the wire admits every value.\<close>

type_synonym rr_type = "16 word"

abbreviation RR_A :: rr_type where "RR_A \<equiv> 1"
abbreviation RR_NS :: rr_type where "RR_NS \<equiv> 2"
abbreviation RR_CNAME :: rr_type where "RR_CNAME \<equiv> 5"
abbreviation RR_MX :: rr_type where "RR_MX \<equiv> 15"
abbreviation RR_TXT :: rr_type where "RR_TXT \<equiv> 16"
abbreviation RR_AAAA :: rr_type where "RR_AAAA \<equiv> 28"
abbreviation CLASS_IN :: "16 word" where "CLASS_IN \<equiv> 1"

datatype rdata = RDataA "byte list" | RDataAAAA "byte list" | RDataMX "16 word" string | RDataTXT string
  | RDataCNAME string | RDataNS string

record resource_record =
  rr_name :: string
  rr_type :: rr_type
  rr_class :: "16 word"
  rr_ttl :: "32 word"
  rr_rdata :: rdata

record question =
  q_name :: string
  q_type :: rr_type
  q_class :: "16 word"

record dns_flags =
  fl_qr :: bool
  fl_opcode :: byte
  fl_aa :: bool
  fl_tc :: bool
  fl_rd :: bool
  fl_ra :: bool
  fl_rcode :: byte

record dns_msg =
  m_id :: "16 word"
  m_flags :: dns_flags
  m_questions :: "question list"
  m_answers :: "resource_record list"
  m_authority :: "resource_record list"
  m_additional :: "resource_record list"

section \<open>Encoding\<close>

definition encode_uint16 :: "16 word \<Rightarrow> byte list" where
  "encode_uint16 v = [ucast (drop_bit 8 v), ucast (v AND 0xFF)]"

definition encode_uint32 :: "32 word \<Rightarrow> byte list" where
  "encode_uint32 v = [ucast (drop_bit 24 v AND 0xFF), ucast (drop_bit 16 v AND 0xFF),
     ucast (drop_bit 8 v AND 0xFF), ucast (v AND 0xFF)]"

definition encode_label :: "string \<Rightarrow> byte list" where
  "encode_label label = (if label = [] then []
     else of_nat (min (length label) 63) # map byte_of (take (min (length label) 63) label))"

definition encode_name :: "string \<Rightarrow> byte list" where
  "encode_name name = concat (map encode_label (getlines CHR ''.'' name)) @ [0]"

definition encode_query :: "string \<Rightarrow> rr_type \<Rightarrow> 16 word \<Rightarrow> byte list" where
  "encode_query name type ident =
     encode_uint16 ident @ encode_uint16 0x0100 @ encode_uint16 1 @ encode_uint16 0 @ encode_uint16 0
     @ encode_uint16 0 @ encode_name name @ encode_uint16 type @ encode_uint16 CLASS_IN"

section \<open>Decoding\<close>

type_synonym 'a decoded = "'a option cpp"

definition read_u16 :: "byte list \<Rightarrow> nat \<Rightarrow> (16 word) cpp" where
  "read_u16 wire off = (if off + 1 < length wire
     then Inr (push_bit 8 (ucast (wire ! off)) OR ucast (wire ! (off + 1))) else Inl Undefined_behaviour)"

definition read_u32 :: "byte list \<Rightarrow> nat \<Rightarrow> (32 word) cpp" where
  "read_u32 wire off = (if off + 3 < length wire
     then Inr (push_bit 24 (ucast (wire ! off)) OR push_bit 16 (ucast (wire ! (off + 1)))
               OR push_bit 8 (ucast (wire ! (off + 2))) OR ucast (wire ! (off + 3)))
     else Inl Undefined_behaviour)"

text \<open>
  The loop of \<^verbatim>\<open>decode_name\<close>. It returns the name and the offset after it; after a pointer the
  offset is the one behind the pointer, and the rest of the name comes from the recursive call.
\<close>

function name_loop :: "byte list \<Rightarrow> nat \<Rightarrow> nat \<Rightarrow> string \<Rightarrow> (string \<times> nat) option" where
  "name_loop wire depth cur out =
     (if cur \<ge> length wire then None
      else
        let len = wire ! cur in
        if len = 0 then Some (out, cur + 1)
        else if len AND 0xC0 = 0xC0 then
          (if cur + 1 \<ge> length wire then None
           else
             let ptr = unat (push_bit 8 (ucast (len AND 0x3F)) OR ucast (wire ! (cur + 1)) :: 16 word) in
             if depth + 1 > 10 then None
             else (case name_loop wire (depth + 1) ptr [] of
                     None \<Rightarrow> None
                   | Some (rest, _) \<Rightarrow>
                       Some (out @ (if out \<noteq> [] \<and> rest \<noteq> [] then ''.'' else []) @ rest, cur + 2)))
        else if len AND 0xC0 \<noteq> 0 then None
        else if cur + 1 + unat len > length wire then None
        else name_loop wire depth (cur + 1 + unat len)
               ((if out = [] then [] else out @ ''.'') @ map char_byte (take (unat len) (drop (cur + 1) wire))))"
  by pat_completeness auto
termination
  by (relation "measures [\<lambda>(wire, depth, cur, out). 11 - depth, \<lambda>(wire, depth, cur, out). length wire - cur]") auto

declare name_loop.simps [simp del]

definition decode_name :: "byte list \<Rightarrow> nat \<Rightarrow> nat \<Rightarrow> (string \<times> nat) option" where
  "decode_name wire depth off = (if depth > 10 then None else name_loop wire depth off [])"

text \<open>
  The loop over the character strings of a TXT record; neither the length byte nor the text is
  checked against the packet. An empty string reads no text.
\<close>

function txt_loop :: "byte list \<Rightarrow> nat \<Rightarrow> nat \<Rightarrow> string \<Rightarrow> string decoded" where
  "txt_loop wire pos stop acc =
     (if pos < stop
      then (if pos \<ge> length wire then Inl Undefined_behaviour
            else let slen = unat (wire ! pos) in
              if pos + 1 + slen > stop then Inr None
              else if slen > 0 \<and> pos + 1 + slen > length wire then Inl Undefined_behaviour
              else txt_loop wire (pos + 1 + slen) stop (acc @ map char_byte (take slen (drop (pos + 1) wire))))
      else Inr (Some acc))"
  by pat_completeness auto
termination
  by (relation "measure (\<lambda>(wire, pos, stop, acc). stop - pos)") auto

declare txt_loop.simps [simp del]

definition decode_rdata :: "byte list \<Rightarrow> nat \<Rightarrow> 16 word \<Rightarrow> rr_type \<Rightarrow> rdata decoded" where
  "decode_rdata wire rdata_off rdlength type =
     (if type = RR_A then
        Inr (if rdlength \<noteq> 4 \<or> rdata_off + 4 > length wire then None
             else Some (RDataA (take 4 (drop rdata_off wire))))
      else if type = RR_AAAA then
        Inr (if rdlength \<noteq> 16 \<or> rdata_off + 16 > length wire then None
             else Some (RDataAAAA (take 16 (drop rdata_off wire))))
      else if type = RR_MX then
        (if rdlength < 3 then Inr None
         else (case read_u16 wire rdata_off of Inl e \<Rightarrow> Inl e
               | Inr preference \<Rightarrow> (case decode_name wire 0 (rdata_off + 2) of None \<Rightarrow> Inr None
                   | Some (exchange, _) \<Rightarrow> Inr (Some (RDataMX preference exchange)))))
      else if type = RR_TXT then
        (case txt_loop wire rdata_off (rdata_off + unat rdlength) [] of Inl e \<Rightarrow> Inl e
         | Inr t \<Rightarrow> Inr (map_option RDataTXT t))
      else if type = RR_CNAME then
        Inr (map_option (\<lambda>(n, _). RDataCNAME n) (decode_name wire 0 rdata_off))
      else if type = RR_NS then
        Inr (map_option (\<lambda>(n, _). RDataNS n) (decode_name wire 0 rdata_off))
      else Inr (Some (RDataTXT [])))"

definition decode_question :: "byte list \<Rightarrow> nat \<Rightarrow> (question \<times> nat) decoded" where
  "decode_question wire off0 =
     (case decode_name wire 0 off0 of None \<Rightarrow> Inr None
      | Some (name, off) \<Rightarrow>
          if off + 4 > length wire then Inr None
          else (case read_u16 wire off of Inl e \<Rightarrow> Inl e
                | Inr qtype \<Rightarrow> (case read_u16 wire (off + 2) of Inl e \<Rightarrow> Inl e
                    | Inr qclass \<Rightarrow>
                        Inr (Some (\<lparr>q_name = name, q_type = qtype, q_class = qclass\<rparr>, off + 4)))))"

definition decode_rr :: "byte list \<Rightarrow> nat \<Rightarrow> (resource_record \<times> nat) decoded" where
  "decode_rr wire off0 =
     (case decode_name wire 0 off0 of None \<Rightarrow> Inr None
      | Some (name, off) \<Rightarrow>
          if off + 10 > length wire then Inr None
          else (case (read_u16 wire off, read_u16 wire (off + 2), read_u32 wire (off + 4), read_u16 wire (off + 8)) of
                  (Inr type, Inr cls, Inr ttl, Inr rdlen) \<Rightarrow>
                    (case decode_rdata wire (off + 10) rdlen type of
                       Inl e \<Rightarrow> Inl e
                     | Inr None \<Rightarrow> Inr None
                     | Inr (Some rd) \<Rightarrow>
                         Inr (Some (\<lparr>rr_name = name, rr_type = type, rr_class = cls, rr_ttl = ttl, rr_rdata = rd\<rparr>,
                                    off + 10 + unat rdlen)))
                | _ \<Rightarrow> Inl Undefined_behaviour))"

fun decode_many :: "(nat \<Rightarrow> ('a \<times> nat) decoded) \<Rightarrow> nat \<Rightarrow> nat \<Rightarrow> ('a list \<times> nat) decoded" where
  "decode_many f 0 off = Inr (Some ([], off))"
| "decode_many f (Suc n) off =
     (case f off of Inl e \<Rightarrow> Inl e | Inr None \<Rightarrow> Inr None
      | Inr (Some (x, off')) \<Rightarrow>
          (case decode_many f n off' of Inl e \<Rightarrow> Inl e | Inr None \<Rightarrow> Inr None
           | Inr (Some (xs, off'')) \<Rightarrow> Inr (Some (x # xs, off''))))"

definition decode_flags :: "16 word \<Rightarrow> dns_flags" where
  "decode_flags raw = \<lparr>fl_qr = bit raw 15, fl_opcode = ucast (drop_bit 11 raw AND 0xF), fl_aa = bit raw 10,
     fl_tc = bit raw 9, fl_rd = bit raw 8, fl_ra = bit raw 7, fl_rcode = ucast (raw AND 0xF)\<rparr>"

definition decode_header :: "byte list \<Rightarrow> (16 word \<times> dns_flags) decoded" where
  "decode_header wire =
     (if length wire < 12 then Inr None
      else (case (read_u16 wire 0, read_u16 wire 2) of
              (Inr ident, Inr raw) \<Rightarrow> Inr (Some (ident, decode_flags raw)) | _ \<Rightarrow> Inl Undefined_behaviour))"

definition dns_decode :: "byte list \<Rightarrow> dns_msg decoded" where
  "dns_decode wire =
     (if length wire < 12 then Inr None
      else (case (decode_header wire, read_u16 wire 4, read_u16 wire 6, read_u16 wire 8, read_u16 wire 10) of
              (Inr (Some (ident, flags)), Inr qd, Inr an, Inr ns, Inr ar) \<Rightarrow>
                (case decode_many (decode_question wire) (unat qd) 12 of Inl e \<Rightarrow> Inl e | Inr None \<Rightarrow> Inr None
                 | Inr (Some (qs, o1)) \<Rightarrow>
                (case decode_many (decode_rr wire) (unat an) o1 of Inl e \<Rightarrow> Inl e | Inr None \<Rightarrow> Inr None
                 | Inr (Some (ans, o2)) \<Rightarrow>
                (case decode_many (decode_rr wire) (unat ns) o2 of Inl e \<Rightarrow> Inl e | Inr None \<Rightarrow> Inr None
                 | Inr (Some (auths, o3)) \<Rightarrow>
                (case decode_many (decode_rr wire) (unat ar) o3 of Inl e \<Rightarrow> Inl e | Inr None \<Rightarrow> Inr None
                 | Inr (Some (adds, o4)) \<Rightarrow>
                    Inr (Some \<lparr>m_id = ident, m_flags = flags, m_questions = qs, m_answers = ans,
                               m_authority = auths, m_additional = adds\<rparr>)))))
            | _ \<Rightarrow> Inl Undefined_behaviour))"

section \<open>Words and bytes\<close>

lemma char_byte_of [simp]: "char_byte (byte_of c) = c"
proof -
  have "unat (of_nat (of_char c) :: 8 word) = of_char c" by (simp add: unat_of_nat)
  then show ?thesis by (simp add: char_byte_def byte_of_def)
qed

lemma byte_of_char [simp]: "byte_of (char_byte b) = b"
proof -
  have "unat b < 256" using unsigned_less[of b] by simp
  then show ?thesis by (simp add: char_byte_def byte_of_def of_char_char_of_small)
qed

lemma map_char_byte_of [simp]: "map char_byte (map byte_of s) = s"
  by (induction s) auto

lemma char_byte_comp [simp]: "char_byte \<circ> byte_of = id"
  by (simp add: fun_eq_iff)

lemma label_length_byte:
  assumes "n \<le> 63"
  shows "(of_nat n :: byte) AND 0xC0 = 0" "unat (of_nat n :: byte) = n"
proof -
  have "\<forall>n \<in> set [0..<64]. (of_nat n :: byte) AND 0xC0 = 0" by code_simp
  then show "(of_nat n :: byte) AND 0xC0 = 0" using assms by simp
  show "unat (of_nat n :: byte) = n" using assms by (simp add: unat_of_nat)
qed

lemma u16_join:
  fixes v :: "16 word"
  defines "hi \<equiv> (ucast (drop_bit 8 v) :: byte)" and "lo \<equiv> (ucast (v AND 0xFF) :: byte)"
  shows "push_bit 8 (ucast hi) OR ucast lo = v"
proof (rule bit_word_eqI)
  have m: "(0xFF :: 16 word) = mask 8" by (simp add: mask_eq_exp_minus_1)
  fix n assume "n < LENGTH(16)"
  then show "bit (push_bit 8 (ucast hi) OR ucast lo :: 16 word) n = bit v n"
    unfolding hi_def lo_def m by (auto simp: bit_simps)
qed

lemma length_encode_uint16 [simp]: "length (encode_uint16 v) = 2"
  by (simp add: encode_uint16_def)

lemma read_encoded_u16:
  assumes "wire = pre @ encode_uint16 v @ post" "off = length pre"
  shows "read_u16 wire off = Inr v"
  using u16_join[of v] by (simp add: assms read_u16_def encode_uint16_def nth_append)

section \<open>Offsets\<close>

lemma name_loop_bounds:
  "name_loop wire depth cur out = Some (n, off) \<Longrightarrow> cur < off \<and> off \<le> length wire"
proof (induction wire depth cur out arbitrary: n off rule: name_loop.induct)
  case (1 wire depth cur out)
  show ?case
  proof (cases "cur < length wire \<and> wire ! cur \<noteq> 0 \<and> wire ! cur AND 0xC0 = 0")
    case True
    with "1.prems" have "cur + 1 + unat (wire ! cur) \<le> length wire"
      by (simp add: name_loop.simps[of wire depth cur out] Let_def split: if_splits)
    with True "1.prems" "1.IH"(2)[of "wire ! cur" n off] show ?thesis
      by (auto simp: name_loop.simps[of wire depth cur out] Let_def split: if_splits)
  next
    case False
    with "1.prems" show ?thesis
      by (auto simp: name_loop.simps[of wire depth cur out] Let_def split: if_splits option.splits)
  qed
qed

text \<open>
  A decoded name ends inside the packet and after its start, so every record consumes at
  least one byte and the next read starts within bounds.
\<close>

theorem decode_name_bounds:
  "decode_name wire depth off = Some (name, off') \<Longrightarrow> off < off' \<and> off' \<le> length wire"
  by (simp add: decode_name_def name_loop_bounds split: if_splits)

section \<open>Round trips\<close>

fun dotted :: "string list \<Rightarrow> string" where
  "dotted [] = []"
| "dotted [l] = l"
| "dotted (l # ls) = l @ ''.'' @ dotted ls"

text \<open>What the encoder keeps of a name: its non-empty labels, each cut to 63 bytes.\<close>

definition wire_labels :: "string \<Rightarrow> string list" where
  "wire_labels name = map (take 63) (filter (\<lambda>l. l \<noteq> []) (getlines CHR ''.'' name))"

definition add_label :: "string \<Rightarrow> string \<Rightarrow> string" where
  "add_label out l = (if out = [] then [] else out @ ''.'') @ l"

lemma encode_labels:
  "concat (map encode_label ls) =
     concat (map (\<lambda>l. of_nat (length l) # map byte_of l) (map (take 63) (filter (\<lambda>l. l \<noteq> []) ls)))"
  by (induction ls) (auto simp: encode_label_def min_def)

lemma name_loop_label:
  assumes "wire = pre @ (of_nat (length l) # map byte_of l) @ post" "l \<noteq> []" "length l \<le> 63"
  shows "name_loop wire depth (length pre) out = name_loop wire depth (length pre + 1 + length l) (add_label out l)"
proof -
  note n = label_length_byte[OF assms(3)]
  have nz: "(of_nat (length l) :: byte) \<noteq> 0" using n(2) assms(2) by (metis length_0_conv unat_0)
  have tx: "take (length l) (drop (length pre + 1) wire) = map byte_of l" by (simp add: assms(1))
  have "wire ! length pre = of_nat (length l)" "length pre < length wire" "length pre + 1 + length l \<le> length wire"
    by (simp_all add: assms(1))
  with n nz tx show ?thesis
    by (subst name_loop.simps) (simp add: Let_def add_label_def)
qed

lemma name_loop_labels:
  assumes "wire = pre @ concat (map (\<lambda>l. of_nat (length l) # map byte_of l) ls) @ 0 # post"
    "\<forall>l \<in> set ls. l \<noteq> [] \<and> length l \<le> 63"
  shows "name_loop wire depth (length pre) out =
    Some (foldl add_label out ls, length pre + length (concat (map (\<lambda>l. of_nat (length l) # map byte_of l) ls)) + 1)"
  using assms
proof (induction ls arbitrary: pre out)
  case Nil
  then show ?case by (subst name_loop.simps) (simp add: Let_def)
next
  case (Cons l ls)
  let ?pre = "pre @ of_nat (length l) # map byte_of l"
  have "name_loop wire depth (length pre) out = name_loop wire depth (length pre + 1 + length l) (add_label out l)"
    by (rule name_loop_label[where post = "concat (map (\<lambda>l. of_nat (length l) # map byte_of l) ls) @ 0 # post"])
      (use Cons.prems in simp_all)
  also have "\<dots> = name_loop wire depth (length ?pre) (add_label out l)" by (simp add: add.assoc)
  also have "\<dots> = Some (foldl add_label (add_label out l) ls,
      length ?pre + length (concat (map (\<lambda>l. of_nat (length l) # map byte_of l) ls)) + 1)"
    by (rule Cons.IH) (use Cons.prems in simp_all)
  finally show ?case by simp
qed

lemma foldl_add_label:
  "out \<noteq> [] \<Longrightarrow> \<forall>l \<in> set ls. l \<noteq> [] \<Longrightarrow> foldl add_label out ls = dotted (out # ls)"
proof (induction ls arbitrary: out)
  case (Cons l ls)
  then have "foldl add_label out (l # ls) = dotted (add_label out l # ls)" by (simp add: add_label_def[of out l])
  also have "\<dots> = dotted ((out @ ''.'' @ l) # ls)" using Cons.prems(1) by (simp add: add_label_def)
  also have "\<dots> = dotted (out # l # ls)" by (cases ls) simp_all
  finally show ?case .
qed simp

lemma foldl_add_label_Nil: "\<forall>l \<in> set ls. l \<noteq> [] \<Longrightarrow> foldl add_label [] ls = dotted ls"
  by (cases ls) (simp_all add: add_label_def foldl_add_label)

lemma wire_labels_ok: "\<forall>l \<in> set (wire_labels name). l \<noteq> [] \<and> length l \<le> 63"
  by (auto simp: wire_labels_def)

lemma decode_encoded_name:
  assumes "depth \<le> 10"
  shows "decode_name (pre @ encode_name name @ post) depth (length pre) =
    Some (dotted (wire_labels name), length pre + length (encode_name name))"
proof -
  let ?e = "concat (map (\<lambda>l. of_nat (length l) # map byte_of l) (wire_labels name))"
  have e: "encode_name name = ?e @ [0]" by (simp add: encode_name_def encode_labels wire_labels_def)
  have "name_loop (pre @ encode_name name @ post) depth (length pre) [] =
      Some (foldl add_label [] (wire_labels name), length pre + length ?e + 1)"
    using wire_labels_ok by (intro name_loop_labels[where post = post]) (simp_all add: e)
  then show ?thesis
    using assms wire_labels_ok[of name] by (simp add: decode_name_def e foldl_add_label_Nil)
qed

lemma getlines_dotted:
  "\<forall>l \<in> set ls. l \<noteq> [] \<and> CHR ''.'' \<notin> set l \<Longrightarrow> getlines CHR ''.'' (dotted ls) = ls"
proof (induction ls rule: dotted.induct)
  case (3 l m ls)
  then show ?case using getlines_line[of "CHR ''.''" l "dotted (m # ls)"] by simp
qed simp_all

lemma wire_labels_dotted:
  assumes "\<forall>l \<in> set ls. l \<noteq> [] \<and> length l \<le> 63 \<and> CHR ''.'' \<notin> set l"
  shows "wire_labels (dotted ls) = ls"
proof -
  have "filter (\<lambda>l. l \<noteq> []) ls = ls" "map (take 63) ls = ls"
    using assms by (auto intro: map_idI simp: filter_id_conv)
  then show ?thesis using assms getlines_dotted[of ls] by (simp add: wire_labels_def)
qed

text \<open>
  Round trip of names: a name of non-empty labels of at most 63 bytes, encoded at any place
  of a packet, is decoded to itself, and decoding stops right behind it.
\<close>

theorem name_roundtrip:
  assumes "\<forall>l \<in> set ls. l \<noteq> [] \<and> length l \<le> 63 \<and> CHR ''.'' \<notin> set l" "depth \<le> 10"
  shows "decode_name (pre @ encode_name (dotted ls) @ post) depth (length pre) =
    Some (dotted ls, length pre + length (encode_name (dotted ls)))"
  using decode_encoded_name[OF assms(2), of pre "dotted ls" post] wire_labels_dotted[OF assms(1)] by simp

text \<open>
  C26. Round trip of queries: the packet \<^verbatim>\<open>encode_query\<close> builds is decoded without error to one
  question with the name as encoded, the type and class IN, no records, the identifier
  given, and of the flags only recursion desired.
\<close>

theorem query_roundtrip:
  "dns_decode (encode_query name type ident) = Inr (Some
     \<lparr>m_id = ident,
      m_flags = \<lparr>fl_qr = False, fl_opcode = 0, fl_aa = False, fl_tc = False, fl_rd = True, fl_ra = False, fl_rcode = 0\<rparr>,
      m_questions = [\<lparr>q_name = dotted (wire_labels name), q_type = type, q_class = CLASS_IN\<rparr>],
      m_answers = [], m_authority = [], m_additional = []\<rparr>)"
proof -
  let ?w = "encode_query name type ident" and ?n = "encode_name name"
  let ?head = "encode_uint16 ident @ encode_uint16 0x0100 @ encode_uint16 1 @ encode_uint16 0 @ encode_uint16 0 @ encode_uint16 0"
  note q = encode_query_def
  have len: "length ?w = 16 + length ?n" by (simp add: q)
  let ?i = "encode_uint16 ident" and ?f = "encode_uint16 0x0100" and ?one = "encode_uint16 1" and ?z = "encode_uint16 0"
  note at = read_encoded_u16[where wire = ?w]
  have r0: "read_u16 ?w 0 = Inr ident" by (rule at[where pre = "[]"]) (simp_all add: q)
  have r2: "read_u16 ?w 2 = Inr 0x0100" by (rule at[where pre = ?i]) (simp_all add: q)
  have r4: "read_u16 ?w 4 = Inr 1" by (rule at[where pre = "?i @ ?f"]) (simp_all add: q)
  have r6: "read_u16 ?w 6 = Inr 0" by (rule at[where pre = "?i @ ?f @ ?one"]) (simp_all add: q)
  have r8: "read_u16 ?w 8 = Inr 0" by (rule at[where pre = "?i @ ?f @ ?one @ ?z"]) (simp_all add: q)
  have r10: "read_u16 ?w 10 = Inr 0" by (rule at[where pre = "?i @ ?f @ ?one @ ?z @ ?z"]) (simp_all add: q)
  have rt: "read_u16 ?w (12 + length ?n) = Inr type"
    by (rule at[where pre = "?head @ ?n" and post = "encode_uint16 CLASS_IN"]) (simp_all add: q)
  have rc: "read_u16 ?w (14 + length ?n) = Inr CLASS_IN"
    by (rule at[where pre = "?head @ ?n @ encode_uint16 type" and post = "[]"]) (simp_all add: q)
  have nm: "decode_name ?w 0 12 = Some (dotted (wire_labels name), 12 + length ?n)"
    using decode_encoded_name[of 0 ?head name "encode_uint16 type @ encode_uint16 CLASS_IN"] by (simp add: q)
  have fl: "decode_flags 0x0100 = \<lparr>fl_qr = False, fl_opcode = 0, fl_aa = False, fl_tc = False, fl_rd = True,
      fl_ra = False, fl_rcode = 0\<rparr>" by code_simp
  have "decode_question ?w 12 =
      Inr (Some (\<lparr>q_name = dotted (wire_labels name), q_type = type, q_class = CLASS_IN\<rparr>, 12 + length ?n + 4))"
    using rt rc len by (simp add: decode_question_def nm)
  then show ?thesis using r0 r2 r4 r6 r8 r10 len fl by (simp add: dns_decode_def decode_header_def)
qed

section \<open>Reads stay in the packet\<close>

lemma txt_loop_safe:
  "stop \<le> length wire \<Longrightarrow> \<exists>t. txt_loop wire pos stop acc = Inr t"
proof (induction wire pos stop acc rule: txt_loop.induct)
  case (1 wire pos stop acc)
  then show ?case by (subst txt_loop.simps) (auto simp: Let_def)
qed

lemma decode_rdata_safe:
  assumes "rd + unat rdlen \<le> length wire"
  shows "\<exists>r. decode_rdata wire rd rdlen type = Inr r"
proof -
  have mx: "\<not> rdlen < 3 \<Longrightarrow> rd + 1 < length wire" using assms by (simp add: word_less_nat_alt)
  obtain t where "txt_loop wire rd (rd + unat rdlen) [] = Inr t" using txt_loop_safe[OF assms] by blast
  with mx show ?thesis by (auto simp: decode_rdata_def read_u16_def split: option.splits)
qed

lemma decode_rdata_fault:
  assumes "decode_rdata wire rd rdlen type = Inl e"
  shows "type \<in> {RR_MX, RR_TXT} \<and> rd + unat rdlen > length wire"
  using assms decode_rdata_safe[of rd rdlen wire type]
  by (auto simp: decode_rdata_def split: if_splits) (metis Inl_Inr_False not_le)+

text \<open>
  C30. Memory safety of record decoding: the only records that can make the decoder read outside
  the packet are MX and TXT records whose declared length runs past the end of the packet.
\<close>

theorem decode_rr_fault:
  assumes "decode_rr wire off = Inl e"
  shows "\<exists>name o2 t rdlen. decode_name wire 0 off = Some (name, o2) \<and> read_u16 wire o2 = Inr t \<and>
    read_u16 wire (o2 + 8) = Inr rdlen \<and> t \<in> {RR_MX, RR_TXT} \<and> o2 + 10 + unat rdlen > length wire"
proof -
  from assms obtain name o2 where n: "decode_name wire 0 off = Some (name, o2)" and l: "o2 + 10 \<le> length wire"
    by (auto simp: decode_rr_def split: option.splits if_splits)
  from l obtain type cls ttl rdlen where r: "read_u16 wire o2 = Inr type" "read_u16 wire (o2 + 2) = Inr cls"
    "read_u32 wire (o2 + 4) = Inr ttl" "read_u16 wire (o2 + 8) = Inr rdlen"
    by (simp add: read_u16_def read_u32_def)
  from assms n l r have "decode_rdata wire (o2 + 10) rdlen type = Inl e"
    by (auto simp: decode_rr_def split: sum.splits option.splits)
  from decode_rdata_fault[OF this] n r show ?thesis by blast
qed

text \<open>
  Such records exist: a TXT record whose data starts at the end of the packet and whose
  length is not zero is read out of range.
\<close>

theorem decode_txt_overrun:
  assumes "rdlen \<noteq> 0"
  shows "decode_rdata wire (length wire) rdlen RR_TXT = Inl Undefined_behaviour"
proof -
  have "0 < unat rdlen" using assms by (simp add: unat_gt_0)
  then show ?thesis by (simp add: decode_rdata_def txt_loop.simps)
qed

section \<open>Concrete instances\<close>

theorem decode_name_bounds_witness: "decode_name [1, 97, 0] 0 0 = Some (''a'', 3) \<and> (0 :: nat) < 3 \<and> 3 \<le> length [1 :: byte, 97, 0]"
proof -
  have d: "decode_name [1, 97, 0] 0 0 = Some (''a'', 3)" by code_simp
  with decode_name_bounds[OF d] show ?thesis by blast
qed

theorem name_roundtrip_witness:
  "decode_name ([7, 7] @ encode_name (dotted [''mx'', ''org'']) @ [9]) 0 (length [7 :: byte, 7]) =
    Some (''mx.org'', 10)"
proof -
  have l: "\<forall>l \<in> set [''mx'', ''org'']. l \<noteq> [] \<and> length l \<le> 63 \<and> CHR ''.'' \<notin> set l" by simp
  have e: "length (encode_name (dotted [''mx'', ''org''])) = 8" by code_simp
  show ?thesis using name_roundtrip[OF l, of 0 "[7, 7]" "[9]"] e by simp
qed

theorem decode_rr_fault_witness:
  "decode_rr [0, 0, 16, 0, 1, 0, 0, 0, 0, 0, 5] 0 = Inl Undefined_behaviour \<and>
   (\<exists>name o2 t rdlen. decode_name [0, 0, 16, 0, 1, 0, 0, 0, 0, 0, 5] 0 0 = Some (name, o2) \<and> t \<in> {RR_MX, RR_TXT} \<and>
      o2 + 10 + unat (rdlen :: 16 word) > length [0 :: byte, 0, 16, 0, 1, 0, 0, 0, 0, 0, 5])"
proof -
  have d: "decode_rr [0, 0, 16, 0, 1, 0, 0, 0, 0, 0, 5] 0 = Inl Undefined_behaviour" by code_simp
  from decode_rr_fault[OF d] d show ?thesis by blast
qed

theorem decode_txt_overrun_witness: "decode_rdata [1, 2] (length [1 :: byte, 2]) 5 RR_TXT = Inl Undefined_behaviour"
  by (rule decode_txt_overrun) simp

end
