(* ===== verification/Dns_Resolver.thy ===== *)
theory Dns_Resolver
  imports Dns_Message
begin

text \<open>
  \<^verbatim>\<open>src/dns/resolver.cpp\<close>: the stub resolver. Queries wait in \<^verbatim>\<open>pending_\<close> under their transaction
  identifier, receive contexts in \<^verbatim>\<open>recv_ctxs_\<close>; a callback is represented by the number of the
  \<^verbatim>\<open>resolve\<close> call it belongs to, and \<open>rs_done\<close> is the list of callback invocations. The random
  generator is the list of its next draws: \<open>Inl\<close>-free operations that need a draw return \<open>None\<close>
  only when the list is used up. The invariant counts callbacks: each is pending once or was
  invoked once.
\<close>

datatype resolve_status = OK | NXDomain | ServFail | Timeout | Truncated | ParseError

record resolve_result =
  rres_status :: resolve_status
  rres_records :: "resource_record list"

abbreviation answer :: "resolve_status \<Rightarrow> resolve_result" where
  "answer st \<equiv> \<lparr>rres_status = st, rres_records = []\<rparr>"

section \<open>Packing of completions\<close>

datatype dns_op = Send | Recv | TimeoutOp

fun dns_op_code :: "dns_op \<Rightarrow> 64 word" where
  "dns_op_code Send = 0"
| "dns_op_code Recv = 1"
| "dns_op_code TimeoutOp = 2"

definition dns_is_completion :: "64 word \<Rightarrow> bool" where
  "dns_is_completion ud \<longleftrightarrow> drop_bit 60 ud = 0xD"

definition dns_encode_userdata :: "dns_op \<Rightarrow> 16 word \<Rightarrow> 64 word" where
  "dns_encode_userdata oper txid = push_bit 60 0xD OR push_bit 48 (dns_op_code oper) OR ucast txid"

definition dns_decode_op :: "64 word \<Rightarrow> dns_op option" where
  "dns_decode_op ud =
     (let c = (ucast (drop_bit 48 ud AND 0xFFF) :: 8 word)
      in if c = 0 then Some Send else if c = 1 then Some Recv else if c = 2 then Some TimeoutOp else None)"

definition dns_decode_txid :: "64 word \<Rightarrow> 16 word" where
  "dns_decode_txid ud = ucast (ud AND 0xFFFF)"

section \<open>State\<close>

record pending_query =
  pq_name :: string
  pq_type :: rr_type
  pq_callback :: nat
  pq_retries :: nat
  pq_wire :: "byte list"

record resolver =
  rs_pending :: "16 word \<rightharpoonup> pending_query"
  rs_recv_ctxs :: "16 word set"
  rs_rng :: "16 word list"
  rs_done :: "(nat \<times> resolve_result) list"
  rs_submitted :: "(dns_op \<times> 16 word) list"
  rs_next_callback :: nat

abbreviation MAX_RETRIES :: nat where "MAX_RETRIES \<equiv> 1"

text \<open>What the clients of the resolver see of it: the answer to a question.\<close>

type_synonym dns_answers = "rr_type \<Rightarrow> string \<Rightarrow> resolve_result"

section \<open>Operations\<close>

fun alloc_txid :: "(16 word \<rightharpoonup> pending_query) \<Rightarrow> 16 word list \<Rightarrow> (16 word \<times> 16 word list) option" where
  "alloc_txid p [] = None"
| "alloc_txid p (txid # draws) = (if p txid \<noteq> None then alloc_txid p draws else Some (txid, draws))"

definition arm_recv :: "16 word \<Rightarrow> resolver \<Rightarrow> resolver" where
  "arm_recv txid r = r\<lparr>rs_recv_ctxs := insert txid (rs_recv_ctxs r),
     rs_submitted := rs_submitted r @ [(Recv, txid)]\<rparr>"

definition submit_query :: "16 word \<Rightarrow> resolver \<Rightarrow> resolver" where
  "submit_query txid r =
     arm_recv txid (r\<lparr>rs_submitted := rs_submitted r @ [(Send, txid), (TimeoutOp, txid)]\<rparr>)"

definition resolve :: "string \<Rightarrow> rr_type \<Rightarrow> resolver \<Rightarrow> resolver option" where
  "resolve name type r =
     (case alloc_txid (rs_pending r) (rs_rng r) of None \<Rightarrow> None
      | Some (txid, draws) \<Rightarrow>
          let pq = \<lparr>pq_name = name, pq_type = type, pq_callback = rs_next_callback r, pq_retries = 0,
                    pq_wire = encode_query name type txid\<rparr>;
              r1 = submit_query txid (r\<lparr>rs_rng := draws, rs_next_callback := rs_next_callback r + 1\<rparr>)
          in Some (r1\<lparr>rs_pending := (rs_pending r1)(txid \<mapsto> pq)\<rparr>))"

definition resolve_txt :: "string \<Rightarrow> resolver \<Rightarrow> resolver option" where
  "resolve_txt name = resolve name RR_TXT"

definition resolve_mx :: "string \<Rightarrow> resolver \<Rightarrow> resolver option" where
  "resolve_mx name = resolve name RR_MX"

definition resolve_a :: "string \<Rightarrow> resolver \<Rightarrow> resolver option" where
  "resolve_a name = resolve name RR_A"

text \<open>Invoke the callback of a pending query and forget the query and its context.\<close>

definition complete :: "16 word \<Rightarrow> pending_query \<Rightarrow> resolve_result \<Rightarrow> resolver \<Rightarrow> resolver" where
  "complete txid pq res r = r\<lparr>rs_done := rs_done r @ [(pq_callback pq, res)],
     rs_pending := (rs_pending r)(txid := None), rs_recv_ctxs := rs_recv_ctxs r - {txid}\<rparr>"

definition on_send :: "16 word \<Rightarrow> int \<Rightarrow> resolver \<Rightarrow> resolver" where
  "on_send txid res r = (case rs_pending r txid of None \<Rightarrow> r
     | Some pq \<Rightarrow> complete txid pq (answer ServFail) r)"

abbreviation ETIME :: int where "ETIME \<equiv> 62"
abbreviation ECANCELED :: int where "ECANCELED \<equiv> 125"

text \<open>
  \<^verbatim>\<open>on_recv\<close>; \<open>buf\<close> is the content of the receive buffer. Erasing the end iterator, when a query
  that has lost its context is retried, is undefined. \<open>Inr None\<close>: the draws are used up.
\<close>

definition on_recv :: "16 word \<Rightarrow> int \<Rightarrow> byte list \<Rightarrow> resolver \<Rightarrow> resolver option cpp" where
  "on_recv txid res buf r =
     (case rs_pending r txid of
        None \<Rightarrow> Inr (Some (r\<lparr>rs_recv_ctxs := rs_recv_ctxs r - {txid}\<rparr>))
      | Some pq \<Rightarrow>
          if res = - ETIME \<or> res = - ECANCELED then
            (if pq_retries pq < MAX_RETRIES then
               (case alloc_txid (rs_pending r) (rs_rng r) of None \<Rightarrow> Inr None
                | Some (new_txid, draws) \<Rightarrow>
                    if txid \<notin> rs_recv_ctxs r then Inl Undefined_behaviour
                    else
                      let retry_pq = pq\<lparr>pq_retries := pq_retries pq + 1,
                                        pq_wire := encode_query (pq_name pq) (pq_type pq) new_txid\<rparr>;
                          r1 = r\<lparr>rs_rng := draws, rs_pending := (rs_pending r)(txid := None),
                                 rs_recv_ctxs := rs_recv_ctxs r - {txid}\<rparr>;
                          r2 = submit_query new_txid r1
                      in Inr (Some (r2\<lparr>rs_pending := (rs_pending r2)(new_txid \<mapsto> retry_pq)\<rparr>)))
             else Inr (Some (complete txid pq (answer Timeout) r)))
          else if res < 0 then Inr (Some (complete txid pq (answer ServFail) r))
          else if txid \<notin> rs_recv_ctxs r then Inr (Some (complete txid pq (answer ParseError) r))
          else (case dns_decode (take (nat res) buf) of
                  Inl e \<Rightarrow> Inl e
                | Inr None \<Rightarrow> Inr (Some (complete txid pq (answer ParseError) r))
                | Inr (Some msg) \<Rightarrow>
                    if m_id msg \<noteq> txid
                    then Inr (Some ((arm_recv txid r)\<lparr>rs_recv_ctxs := rs_recv_ctxs r - {txid}\<rparr>))
                    else if fl_rcode (m_flags msg) = 3 then Inr (Some (complete txid pq (answer NXDomain) r))
                    else if fl_rcode (m_flags msg) \<noteq> 0 then Inr (Some (complete txid pq (answer ServFail) r))
                    else if fl_tc (m_flags msg) then Inr (Some (complete txid pq (answer ServFail) r))
                    else Inr (Some (complete txid pq \<lparr>rres_status = OK, rres_records = m_answers msg\<rparr> r))))"

definition on_timeout :: "16 word \<Rightarrow> resolver \<Rightarrow> resolver" where
  "on_timeout txid r = r"

definition on_cqe :: "64 word \<Rightarrow> int \<Rightarrow> byte list \<Rightarrow> resolver \<Rightarrow> resolver option cpp" where
  "on_cqe ud res buf r =
     (let txid = dns_decode_txid ud in
      case dns_decode_op ud of
        Some Send \<Rightarrow> Inr (Some (on_send txid res r))
      | Some Recv \<Rightarrow> on_recv txid res buf r
      | Some TimeoutOp \<Rightarrow> Inr (Some (on_timeout txid r))
      | None \<Rightarrow> Inr (Some r))"

section \<open>Packing is lossless\<close>

lemma packed_txid: "ucast ((push_bit 60 x OR push_bit 48 c OR ucast txid) AND mask 16 :: 64 word) = (txid :: 16 word)"
  by (rule bit_word_eqI) (auto simp: bit_simps)

lemma packed_op:
  "(ucast (drop_bit 48 (push_bit 60 x OR push_bit 48 c OR ucast (txid :: 16 word)) AND mask 12 :: 64 word) :: 8 word) = ucast c"
  by (rule bit_word_eqI) (auto simp: bit_simps dest: bit_imp_le_length)

lemma packed_tag:
  assumes "take_bit 12 c = c"
  shows "drop_bit 60 (push_bit 60 x OR push_bit 48 c OR ucast (txid :: 16 word) :: 64 word) = take_bit 4 x"
proof (rule bit_word_eqI)
  fix n assume n: "n < LENGTH(64)"
  have "bit c (n + 12) = bit (take_bit 12 c) (n + 12)" by (simp add: assms)
  then have "\<not> bit c (n + 12)" by (simp add: bit_simps)
  then show "bit (drop_bit 60 (push_bit 60 x OR push_bit 48 c OR ucast (txid :: 16 word) :: 64 word)) n = bit (take_bit 4 x) n"
    using n by (auto simp: bit_simps add.commute dest: bit_imp_le_length)
qed

lemma dns_userdata_decode:
  "dns_decode_op (dns_encode_userdata oper txid) = Some oper \<and>
   dns_decode_txid (dns_encode_userdata oper txid) = txid \<and>
   dns_is_completion (dns_encode_userdata oper txid)"
proof -
  have m: "(0xFFF :: 64 word) = mask 12" "(0xFFFF :: 64 word) = mask 16" by (simp_all add: mask_eq_exp_minus_1)
  have c: "take_bit 12 (dns_op_code oper) = dns_op_code oper" by (cases oper) simp_all
  have d: "take_bit 4 (0xD :: 64 word) = 0xD" by code_simp
  have "dns_decode_txid (dns_encode_userdata oper txid) = txid"
    unfolding dns_decode_txid_def dns_encode_userdata_def m by (rule packed_txid)
  moreover have "dns_decode_op (dns_encode_userdata oper txid) = Some oper"
    unfolding dns_decode_op_def dns_encode_userdata_def m packed_op Let_def by (cases oper) simp_all
  moreover have "dns_is_completion (dns_encode_userdata oper txid)"
    unfolding dns_is_completion_def dns_encode_userdata_def packed_tag[OF c] by (rule d)
  ultimately show ?thesis by simp
qed

text \<open>
  The packing of DNS completions is lossless: operation and transaction identifier are
  read back from the packed word, and the word carries the tag by which the event loop
  recognises a DNS completion.
\<close>

theorem dns_userdata_roundtrip:
  "dns_decode_op (dns_encode_userdata oper txid) = Some oper \<and>
   dns_decode_txid (dns_encode_userdata oper txid) = txid \<and>
   dns_is_completion (dns_encode_userdata oper txid)"
  by (rule dns_userdata_decode)

section \<open>Every callback is invoked at most once\<close>

text \<open>
  A callback number below \<open>rs_next_callback\<close> is either waiting under exactly one identifier or
  was invoked exactly once. A waiting query carries the packet for its current identifier and
  was retried at most once.
\<close>

definition resolver_inv :: "resolver \<Rightarrow> bool" where
  "resolver_inv r \<longleftrightarrow>
     distinct (map fst (rs_done r)) \<and>
     (\<forall>t q. rs_pending r t = Some q \<longrightarrow> pq_callback q \<notin> set (map fst (rs_done r)) \<and>
        pq_callback q < rs_next_callback r \<and> pq_retries q \<le> MAX_RETRIES \<and>
        pq_wire q = encode_query (pq_name q) (pq_type q) t) \<and>
     (\<forall>t t' q q'. rs_pending r t = Some q \<longrightarrow> rs_pending r t' = Some q' \<longrightarrow>
        pq_callback q = pq_callback q' \<longrightarrow> t = t') \<and>
     (\<forall>c \<in> set (map fst (rs_done r)). c < rs_next_callback r) \<and>
     (\<forall>c < rs_next_callback r. c \<in> set (map fst (rs_done r)) \<or> (\<exists>t q. rs_pending r t = Some q \<and> pq_callback q = c))"

lemma resolver_frame:
  assumes "resolver_inv r" "rs_pending r' = rs_pending r" "rs_done r' = rs_done r"
    "rs_next_callback r' = rs_next_callback r"
  shows "resolver_inv r'"
  using assms by (simp add: resolver_inv_def)

lemma alloc_txid_fresh: "alloc_txid p draws = Some (t, rest) \<Longrightarrow> p t = None"
  by (induction draws) (auto split: if_splits)

lemma resolver_invD:
  assumes "resolver_inv r"
  shows "distinct (map fst (rs_done r))"
    and "rs_pending r t = Some q \<Longrightarrow> pq_callback q \<notin> fst ` set (rs_done r) \<and> pq_callback q < rs_next_callback r \<and>
      pq_retries q \<le> MAX_RETRIES \<and> pq_wire q = encode_query (pq_name q) (pq_type q) t"
    and "rs_pending r t = Some q \<Longrightarrow> rs_pending r t' = Some q' \<Longrightarrow> pq_callback q = pq_callback q' \<Longrightarrow> t = t'"
    and "c \<in> fst ` set (rs_done r) \<Longrightarrow> c < rs_next_callback r"
    and "c < rs_next_callback r \<Longrightarrow> c \<notin> fst ` set (rs_done r) \<Longrightarrow> \<exists>t q. rs_pending r t = Some q \<and> pq_callback q = c"
  using assms unfolding resolver_inv_def set_map by blast+

lemma complete_inv:
  assumes i: "resolver_inv r" and p: "rs_pending r t = Some q"
  shows "resolver_inv (complete t q res r)"
  unfolding resolver_inv_def
proof (intro conjI allI impI ballI)
  note D = resolver_invD[OF i]
  let ?r = "complete t q res r"
  have q: "pq_callback q \<notin> fst ` set (rs_done r)" "pq_callback q < rs_next_callback r" using D(2)[OF p] by auto
  show "distinct (map fst (rs_done ?r))" using D(1) q(1) by (simp add: complete_def)
  show "c < rs_next_callback ?r" if "c \<in> set (map fst (rs_done ?r))" for c
    using that D(4) q(2) by (auto simp: complete_def)
  show "c \<in> set (map fst (rs_done ?r)) \<or> (\<exists>t q. rs_pending ?r t = Some q \<and> pq_callback q = c)"
    if "c < rs_next_callback ?r" for c
  proof (cases "c \<in> fst ` set (rs_done r) \<or> c = pq_callback q")
    case False
    with D(5)[of c] that obtain t' q' where "rs_pending r t' = Some q'" "pq_callback q' = c" by (auto simp: complete_def)
    moreover from this False p have "t' \<noteq> t" by auto
    ultimately show ?thesis by (auto simp: complete_def intro!: exI[of _ t'])
  qed (auto simp: complete_def)
  fix t' q' assume p': "rs_pending ?r t' = Some q'"
  then have t': "t' \<noteq> t" "rs_pending r t' = Some q'" by (auto simp: complete_def split: if_splits)
  note q' = D(2)[OF t'(2)]
  show "pq_callback q' \<notin> set (map fst (rs_done ?r))"
    using q' D(3)[OF t'(2) p] t'(1) by (auto simp: complete_def)
  show "pq_callback q' < rs_next_callback ?r" "pq_retries q' \<le> MAX_RETRIES"
    "pq_wire q' = encode_query (pq_name q') (pq_type q') t'" using q' by (simp_all add: complete_def)
  show "t' = t''" if "rs_pending ?r t'' = Some q''" "pq_callback q' = pq_callback q''" for t'' q''
    using that D(3)[OF t'(2)] by (auto simp: complete_def split: if_splits)
qed

text \<open>Moving a waiting query to a fresh identifier, as a retry does, or adding a new one.\<close>

lemma resolve_inv:
  assumes i: "resolver_inv r" and "resolve name type r = Some r'"
  shows "resolver_inv r'"
proof -
  note D = resolver_invD[OF i]
  let ?n = "rs_next_callback r"
  from assms(2) obtain t draws where a: "alloc_txid (rs_pending r) (rs_rng r) = Some (t, draws)"
    by (auto simp: resolve_def split: option.splits)
  then have f: "rs_pending r t = None" by (rule alloc_txid_fresh)
  define q where "q = \<lparr>pq_name = name, pq_type = type, pq_callback = ?n, pq_retries = 0, pq_wire = encode_query name type t\<rparr>"
  have q: "pq_callback q = ?n" "pq_retries q = 0" "pq_wire q = encode_query (pq_name q) (pq_type q) t"
    by (simp_all add: q_def)
  have r': "rs_pending r' = (rs_pending r)(t \<mapsto> q)" "rs_done r' = rs_done r" "rs_next_callback r' = ?n + 1"
    using assms(2) a by (auto simp: resolve_def submit_query_def arm_recv_def Let_def q_def)
  have n: "?n \<notin> fst ` set (rs_done r)" using D(4) by blast
  have old: "pq_callback q' < ?n" if "rs_pending r t' = Some q'" for t' q' using D(2)[OF that] by simp
  show ?thesis
    unfolding resolver_inv_def r'
  proof (intro conjI allI impI ballI)
    show "distinct (map fst (rs_done r))" by (rule D(1))
    show "c < ?n + 1" if "c \<in> set (map fst (rs_done r))" for c using that D(4)[of c] by auto
    show "c \<in> set (map fst (rs_done r)) \<or> (\<exists>t' q'. ((rs_pending r)(t \<mapsto> q)) t' = Some q' \<and> pq_callback q' = c)"
      if "c < ?n + 1" for c
    proof (cases "c = ?n")
      case False
      with that D(5)[of c] f show ?thesis by (metis fun_upd_other less_Suc_eq option.distinct(1) set_map Suc_eq_plus1)
    qed (use q in auto)
    fix t' q' assume "((rs_pending r)(t \<mapsto> q)) t' = Some q'"
    then have c: "t' = t \<and> q' = q \<or> t' \<noteq> t \<and> rs_pending r t' = Some q'" by (auto split: if_splits)
    show "pq_callback q' \<notin> set (map fst (rs_done r))" "pq_callback q' < ?n + 1" "pq_retries q' \<le> MAX_RETRIES"
      "pq_wire q' = encode_query (pq_name q') (pq_type q') t'"
      using c q n D(2)[of t' q'] unfolding set_map by (metis less_Suc_eq Suc_eq_plus1 zero_le)+
    show "t' = t''" if "((rs_pending r)(t \<mapsto> q)) t'' = Some q''" "pq_callback q' = pq_callback q''" for t'' q''
      using c that q old[of t' q'] old[of t'' q''] D(3)[of t' q' t'' q''] by (auto split: if_splits)
  qed
qed

lemma retry_inv:
  assumes i: "resolver_inv r" and p: "rs_pending r t = Some q" and f: "rs_pending r t1 = None"
    and q1: "pq_callback q1 = pq_callback q" "pq_retries q1 \<le> MAX_RETRIES"
      "pq_wire q1 = encode_query (pq_name q1) (pq_type q1) t1"
    and r': "rs_pending r' = (rs_pending r)(t := None, t1 \<mapsto> q1)" "rs_done r' = rs_done r"
      "rs_next_callback r' = rs_next_callback r"
  shows "resolver_inv r'"
  unfolding resolver_inv_def r'
proof (intro conjI allI impI ballI)
  note D = resolver_invD[OF i]
  let ?p = "(rs_pending r)(t := None, t1 \<mapsto> q1)"
  show "distinct (map fst (rs_done r))" by (rule D(1))
  show "c < rs_next_callback r" if "c \<in> set (map fst (rs_done r))" for c using that D(4)[of c] by simp
  show "c \<in> set (map fst (rs_done r)) \<or> (\<exists>t' q'. ?p t' = Some q' \<and> pq_callback q' = c)"
    if "c < rs_next_callback r" for c
  proof (cases "c = pq_callback q")
    case True
    then show ?thesis using q1(1) by (metis fun_upd_same)
  next
    case False
    with that D(5)[of c] p f show ?thesis by (metis fun_upd_apply option.distinct(1) option.sel set_map)
  qed
  fix t' q' assume "?p t' = Some q'"
  then have c: "t' = t1 \<and> q' = q1 \<or> t' \<noteq> t1 \<and> t' \<noteq> t \<and> rs_pending r t' = Some q'" by (auto split: if_splits)
  show "pq_callback q' \<notin> set (map fst (rs_done r))" "pq_callback q' < rs_next_callback r"
    "pq_retries q' \<le> MAX_RETRIES" "pq_wire q' = encode_query (pq_name q') (pq_type q') t'"
    using c q1 D(2)[OF p] D(2)[of t' q'] unfolding set_map by metis+
  show "t' = t''" if "?p t'' = Some q''" "pq_callback q' = pq_callback q''" for t'' q''
    using c that q1(1) D(3)[OF p, of t''] D(3)[OF p, of t' q'] D(3)[of t' q' t'' q''] by (auto split: if_splits)
qed

lemma on_recv_inv:
  assumes i: "resolver_inv r" and o: "on_recv t res buf r = Inr (Some r')"
  shows "resolver_inv r'"
proof (cases "rs_pending r t")
  case None
  with o i show ?thesis by (auto simp: on_recv_def intro: resolver_frame)
next
  case (Some q)
  show ?thesis
  proof (cases "(res = - ETIME \<or> res = - ECANCELED) \<and> pq_retries q < MAX_RETRIES")
    case True
    with o Some obtain t1 draws where a: "alloc_txid (rs_pending r) (rs_rng r) = Some (t1, draws)"
      by (auto simp: on_recv_def split: option.splits)
    let ?q1 = "q\<lparr>pq_retries := pq_retries q + 1, pq_wire := encode_query (pq_name q) (pq_type q) t1\<rparr>"
    have "rs_pending r' = (rs_pending r)(t := None, t1 \<mapsto> ?q1)" "rs_done r' = rs_done r"
      "rs_next_callback r' = rs_next_callback r"
      using True o Some a by (auto simp: on_recv_def submit_query_def arm_recv_def Let_def split: if_splits)
    with True show ?thesis by (intro retry_inv[OF i Some alloc_txid_fresh[OF a], of ?q1]) simp_all
  next
    case False
    have "resolver_inv ((arm_recv t r)\<lparr>rs_recv_ctxs := rs_recv_ctxs r - {t}\<rparr>)"
      using i by (rule resolver_frame) (simp_all add: arm_recv_def)
    with False o Some complete_inv[OF i Some] show ?thesis
      by (auto simp: on_recv_def split: if_splits sum.splits option.splits)
  qed
qed

datatype dns_event = Query string rr_type | Completion "64 word" int "byte list"

fun resolver_step :: "resolver option cpp \<Rightarrow> dns_event \<Rightarrow> resolver option cpp" where
  "resolver_step (Inr (Some r)) (Query name type) = Inr (resolve name type r)"
| "resolver_step (Inr (Some r)) (Completion ud res buf) = on_cqe ud res buf r"
| "resolver_step r e = r"

definition resolver_ok :: "resolver option cpp \<Rightarrow> bool" where
  "resolver_ok s = (case s of Inr (Some r) \<Rightarrow> resolver_inv r | _ \<Rightarrow> True)"

interpretation resolver_run: event_machine resolver_step resolver_ok
proof
  fix s e assume s: "resolver_ok s"
  show "resolver_ok (resolver_step s e)"
  proof (cases "(s, e)" rule: resolver_step.cases)
    case (1 r name type)
    with s show ?thesis by (auto simp: resolver_ok_def resolve_inv split: option.splits)
  next
    case (2 r ud res buf)
    with s have "resolver_inv r" by (simp add: resolver_ok_def)
    with 2 show ?thesis
      by (auto simp: resolver_ok_def on_cqe_def on_send_def on_timeout_def Let_def complete_inv on_recv_inv
          split: option.splits sum.splits dns_op.splits)
  qed (use s in auto)
qed

definition resolver_init :: "16 word list \<Rightarrow> resolver" where
  "resolver_init draws = \<lparr>rs_pending = (\<lambda>_. None), rs_recv_ctxs = {}, rs_rng = draws, rs_done = [],
     rs_submitted = [], rs_next_callback = 0\<rparr>"

text \<open>
  The constructor: the answers of \<^verbatim>\<open>socket\<close>, \<^verbatim>\<open>inet_pton\<close> and \<^verbatim>\<open>connect\<close> decide whether there is a resolver. The second result is the list of descriptors
  left open; a socket is closed again before an exception leaves the constructor. The texts of \<^verbatim>\<open>strerror\<close> are left out.
\<close>

record resolver_env =
  udp_socket :: int
  pton_res :: "string \<Rightarrow> int"
  udp_connect :: int

definition resolver_new :: "resolver_env \<Rightarrow> string \<Rightarrow> 16 word list \<Rightarrow> resolver cpp \<times> int list" where
  "resolver_new P nameserver draws =
     (let udp_fd = udp_socket P in
      if udp_fd < 0 then (Inl (Runtime_error ''[DNS] socket(): ''), [])
      else if pton_res P (c_str nameserver) \<noteq> 1
      then (Inl (Runtime_error (''[DNS] invalid nameserver address: '' @ nameserver)), removeAll udp_fd [udp_fd])
      else if udp_connect P < 0 then (Inl (Runtime_error ''[DNS] connect(): ''), removeAll udp_fd [udp_fd])
      else (Inr (resolver_init draws), [udp_fd]))"

lemma resolver_new_no_leak: "resolver_new P ns draws = (Inl e, fds) \<Longrightarrow> fds = []"
  "resolver_new P ns draws = (Inr r, fds) \<Longrightarrow> r = resolver_init draws \<and> fds = [udp_socket P] \<and> pton_res P (c_str ns) = 1"
  by (auto simp: resolver_new_def Let_def split: if_splits)


text \<open>
  The completion of the send answers the query with SERVFAIL, also when the send succeeded
  (\<open>res \<ge> 0\<close>), and the response that arrives later is dropped.
\<close>

theorem send_completion_fails_query:
  assumes "rs_pending r txid = Some q" "0 \<le> res"
  shows "\<exists>r'. on_cqe (dns_encode_userdata Send txid) res [] r = Inr (Some r') \<and>
    rs_done r' = rs_done r @ [(pq_callback q, answer ServFail)] \<and>
    (\<forall>n buf. \<exists>r''. on_recv txid n buf r' = Inr (Some r'') \<and> rs_done r'' = rs_done r')"
proof -
  have d: "dns_decode_op (dns_encode_userdata Send txid) = Some Send" "dns_decode_txid (dns_encode_userdata Send txid) = txid"
    by (simp_all add: dns_userdata_decode)
  let ?r = "complete txid q (answer ServFail) r"
  have "on_cqe (dns_encode_userdata Send txid) res [] r = Inr (Some ?r)"
    using assms(1) by (simp add: on_cqe_def d on_send_def)
  moreover have "rs_done ?r = rs_done r @ [(pq_callback q, answer ServFail)]" by (simp add: complete_def)
  moreover have "\<exists>r''. on_recv txid n buf ?r = Inr (Some r'') \<and> rs_done r'' = rs_done ?r" for n buf
    by (simp add: on_recv_def complete_def)
  ultimately show ?thesis by blast
qed

section \<open>Concrete runs\<close>


theorem send_completion_fails_query_witness:
  "\<exists>r'. on_cqe (dns_encode_userdata Send 7) 30 []
      ((resolver_init [])\<lparr>rs_pending := [7 \<mapsto> \<lparr>pq_name = ''a'', pq_type = RR_A, pq_callback = 0, pq_retries = 0, pq_wire = []\<rparr>]\<rparr>)
    = Inr (Some r') \<and> rs_done r' = [(0, answer ServFail)]"
proof -
  let ?q = "\<lparr>pq_name = ''a'', pq_type = RR_A, pq_callback = 0, pq_retries = 0, pq_wire = []\<rparr>"
  let ?r = "(resolver_init [])\<lparr>rs_pending := [7 \<mapsto> ?q]\<rparr>"
  have "rs_pending ?r 7 = Some ?q" "(0::int) \<le> 30" by simp_all
  from send_completion_fails_query[OF this] obtain r'
    where "on_cqe (dns_encode_userdata Send 7) 30 [] ?r = Inr (Some r')"
      "rs_done r' = rs_done ?r @ [(pq_callback ?q, answer ServFail)]" by blast
  moreover have "rs_done ?r @ [(pq_callback ?q, answer ServFail)] = [(0, answer ServFail)]" by (simp add: resolver_init_def)
  ultimately show ?thesis by metis
qed

end
