(* ===== verification/Spf.thy ===== *)
theory Spf
  imports Dns_Resolver
begin

text \<open>
  \<^verbatim>\<open>src/auth/spf/checker.cpp\<close>: SPF evaluation (RFC 7208). The checker is written with callbacks
  that the resolver invokes once each (\<^theory_text>\<open>Dns_Resolver\<close>); the model is in direct style and takes
  the answers of the name servers as the argument \<open>dns\<close>. Every evaluation returns the number of
  queries it made together with its result or the exception that leaves it. The address
  conversions of the C library are the record \<open>inet_lib\<close>.
\<close>

datatype spf_result = Spf_Pass | Spf_Fail | Spf_SoftFail | Spf_Neutral | Spf_None | Spf_TempError | Spf_PermError

definition spf_result_to_string :: "spf_result \<Rightarrow> string" where
  "spf_result_to_string r = (case r of Spf_Pass \<Rightarrow> ''pass'' | Spf_Fail \<Rightarrow> ''fail'' | Spf_Neutral \<Rightarrow> ''neutral''
     | Spf_SoftFail \<Rightarrow> ''softfail'' | Spf_PermError \<Rightarrow> ''permerror'' | Spf_None \<Rightarrow> ''none'' | Spf_TempError \<Rightarrow> ''temperror'')"

record mechanism =
  mech_qualifier :: char
  mech_type :: string
  mech_value :: string

record spf_record =
  sr_mechanisms :: "mechanism list"
  sr_redirect :: string
  sr_exp :: string

record eval_state =
  sender_domain :: string
  client_ip :: string
  helo_domain :: string
  dns_lookups :: nat
  depth :: nat

record inet_lib =
  pton4 :: "string \<Rightarrow> 32 word option"
  pton6 :: "string \<Rightarrow> byte list option"
  ntop4 :: "byte list \<Rightarrow> string"

type_synonym spf_outcome = "nat \<times> (spf_result \<times> string) cpp"

abbreviation SQ :: char where "SQ \<equiv> CHR 0x27"

section \<open>Parsing\<close>

definition spf_extract_domain :: "string \<Rightarrow> string" where
  "spf_extract_domain mail_from =
     (case rfind_ch CHR ''@'' mail_from of None \<Rightarrow> []
      | Some at \<Rightarrow> let domain = drop (at + 1) mail_from
          in if domain \<noteq> [] \<and> last domain = CHR ''>'' then butlast domain else domain)"

definition parse_mechanism :: "string \<Rightarrow> mechanism" where
  "parse_mechanism token =
     (let q = (token \<noteq> [] \<and> hd token \<in> set ''+-~?'');
          rest = (if q then tl token else token)
      in case find_ch CHR '':'' rest of
           None \<Rightarrow> \<lparr>mech_qualifier = (if q then hd token else CHR ''+''), mech_type = lower rest, mech_value = []\<rparr>
         | Some colon \<Rightarrow> \<lparr>mech_qualifier = (if q then hd token else CHR ''+''),
             mech_type = lower (take colon rest), mech_value = drop (colon + 1) rest\<rparr>)"

fun parse_tokens :: "string list \<Rightarrow> spf_record \<Rightarrow> spf_record" where
  "parse_tokens [] out = out"
| "parse_tokens (token # ts) out =
     (if starts_with ''redirect='' (lower token) then parse_tokens ts (out\<lparr>sr_redirect := drop 9 token\<rparr>)
      else if starts_with ''exp='' (lower token) then parse_tokens ts (out\<lparr>sr_exp := drop 4 token\<rparr>)
      else parse_tokens ts (out\<lparr>sr_mechanisms := sr_mechanisms out @ [parse_mechanism token]\<rparr>))"

definition spf_parse_record :: "string \<Rightarrow> spf_record option" where
  "spf_parse_record t =
     (case next_token t of (token, rest) \<Rightarrow>
        if token \<noteq> ''v=spf1'' then None
        else Some (parse_tokens (tokens rest) \<lparr>sr_mechanisms = [], sr_redirect = [], sr_exp = []\<rparr>))"

definition qualifier_to_result :: "char \<Rightarrow> spf_result" where
  "qualifier_to_result q =
     (if q = CHR ''+'' then Spf_Pass else if q = CHR ''-'' then Spf_Fail
      else if q = CHR ''~'' then Spf_SoftFail else if q = CHR ''?'' then Spf_Neutral else Spf_Pass)"

section \<open>Address matching\<close>

definition prefix_len :: "string \<Rightarrow> 8 word \<Rightarrow> (8 word) cpp" where
  "prefix_len cidr default_len =
     (case find_ch CHR ''/'' cidr of None \<Rightarrow> Inr default_len
      | Some slash \<Rightarrow> (case stoi (drop (slash + 1) cidr) of Inl e \<Rightarrow> Inl e | Inr v \<Rightarrow> Inr (word_of_int v)))"

definition cidr_base :: "string \<Rightarrow> string" where
  "cidr_base cidr = (case find_ch CHR ''/'' cidr of None \<Rightarrow> cidr | Some slash \<Rightarrow> take slash cidr)"

definition c_cut :: "string \<Rightarrow> string" where
  "c_cut s = takeWhile (\<lambda>c. c \<noteq> NUL) s"

definition ipv4_mask :: "8 word \<Rightarrow> 32 word" where
  "ipv4_mask p = (if p = 32 then 0xFFFFFFFF else NOT (push_bit (32 - unat p) 1 - 1))"

definition ipv4_matches :: "inet_lib \<Rightarrow> string \<Rightarrow> string \<Rightarrow> bool cpp" where
  "ipv4_matches I ip cidr =
     (case prefix_len cidr 32 of Inl e \<Rightarrow> Inl e
      | Inr p \<Rightarrow>
        (case pton4 I (c_cut ip) of None \<Rightarrow> Inr False
         | Some client_addr \<Rightarrow>
           (case pton4 I (c_cut (cidr_base cidr)) of None \<Rightarrow> Inr False
            | Some base_addr \<Rightarrow>
                if p = 0 then Inr True
                else if p > 32 then Inr False
                else Inr (client_addr AND ipv4_mask p = base_addr AND ipv4_mask p))))"

definition ipv6_matches :: "inet_lib \<Rightarrow> string \<Rightarrow> string \<Rightarrow> bool cpp" where
  "ipv6_matches I ip cidr =
     (case prefix_len cidr 128 of Inl e \<Rightarrow> Inl e
      | Inr p \<Rightarrow>
        (case pton6 I (c_cut ip) of None \<Rightarrow> Inr False
         | Some client_addr \<Rightarrow>
           (case pton6 I (c_cut (cidr_base cidr)) of None \<Rightarrow> Inr False
            | Some base_addr \<Rightarrow>
                let full_bytes = unat p div 8; rem_bits = unat p mod 8 in
                if full_bytes > 16 then Inl Undefined_behaviour
                else if take full_bytes client_addr \<noteq> take full_bytes base_addr then Inr False
                else if rem_bits = 0 then Inr True
                else if full_bytes \<ge> 16 then Inl Undefined_behaviour
                else let m = (push_bit (8 - rem_bits) 0xFF :: 8 word)
                  in Inr (client_addr ! full_bytes AND m = base_addr ! full_bytes AND m))))"

text \<open>\<^verbatim>\<open>check_a_record\<close>: the first matching address record, with the prefix of the mechanism.\<close>

fun match_a :: "inet_lib \<Rightarrow> string \<Rightarrow> 8 word \<Rightarrow> resource_record list \<Rightarrow> bool cpp" where
  "match_a I ip pfx [] = Inr False"
| "match_a I ip pfx (r # rs) =
     (case rr_rdata r of
        RDataA addr \<Rightarrow>
          (case ipv4_matches I ip (ntop4 I addr @ ''/'' @ dec (unat pfx)) of Inl e \<Rightarrow> Inl e
           | Inr True \<Rightarrow> Inr True
           | Inr False \<Rightarrow> match_a I ip pfx rs)
      | _ \<Rightarrow> match_a I ip pfx rs)"

definition check_a_record :: "inet_lib \<Rightarrow> dns_answers \<Rightarrow> string \<Rightarrow> mechanism \<Rightarrow> string \<Rightarrow> bool cpp" where
  "check_a_record I dns domain mech ip =
     (let rr = dns RR_A domain in
      if rres_status rr \<noteq> OK then Inr False
      else (case prefix_len (mech_value mech) 32 of Inl e \<Rightarrow> Inl e
            | Inr pfx \<Rightarrow> match_a I ip pfx (rres_records rr)))"

text \<open>
  \<^verbatim>\<open>check_mx_record\<close>, which nothing calls: \<^verbatim>\<open>eval_mechanisms_at\<close> does not know the mechanism \<^verbatim>\<open>mx\<close>. The loop that looks up the
  exchanges stands inside the loop that collects them. The result is the number of lookups and the list of
  the values \<^verbatim>\<open>on_match\<close> is called with; \<open>mx_exchanges\<close> also tells whether the lookup limit ended it.
\<close>

fun mx_exchanges ::
  "inet_lib \<Rightarrow> dns_answers \<Rightarrow> mechanism \<Rightarrow> string \<Rightarrow> string list \<Rightarrow> nat \<Rightarrow> bool \<Rightarrow> nat \<Rightarrow> bool list \<Rightarrow> (nat \<times> bool list \<times> bool) cpp" where
  "mx_exchanges I dns mech ip [] lookups found pending cbs = Inr (lookups, cbs, False)"
| "mx_exchanges I dns mech ip (x # xs) lookups found pending cbs =
     (if lookups \<ge> 10 then Inr (lookups, cbs @ [False], True)
      else (case check_a_record I dns x mech ip of Inl e \<Rightarrow> Inl e
        | Inr m \<Rightarrow>
            let found' = (m \<or> found)
            in mx_exchanges I dns mech ip xs (lookups + 1) found' (pending - 1)
                 (if pending - 1 = 0 then cbs @ [found'] else cbs)))"

fun mx_records ::
  "inet_lib \<Rightarrow> dns_answers \<Rightarrow> mechanism \<Rightarrow> string \<Rightarrow> resource_record list \<Rightarrow> string list \<Rightarrow> nat \<Rightarrow> bool list \<Rightarrow> (nat \<times> bool list) cpp" where
  "mx_records I dns mech ip [] exchanges lookups cbs = Inr (lookups, cbs)"
| "mx_records I dns mech ip (r # rs) exchanges lookups cbs =
     (let exchanges1 = (case rr_rdata r of RDataMX pref x \<Rightarrow> exchanges @ [x] | _ \<Rightarrow> exchanges);
          exchanges2 = (if length exchanges1 > 10 then take 10 exchanges1 else exchanges1)
      in case mx_exchanges I dns mech ip exchanges2 lookups False (length exchanges2) cbs of Inl e \<Rightarrow> Inl e
         | Inr (n, cbs', stop) \<Rightarrow> if stop then Inr (n, cbs') else mx_records I dns mech ip rs exchanges2 n cbs')"

definition check_mx_record :: "inet_lib \<Rightarrow> dns_answers \<Rightarrow> string \<Rightarrow> mechanism \<Rightarrow> eval_state \<Rightarrow> (nat \<times> bool list) cpp" where
  "check_mx_record I dns domain mech st =
     (let rr = dns RR_MX domain in
      if rres_status rr \<noteq> OK then Inr (dns_lookups st, [False])
      else mx_records I dns mech (client_ip st) (rres_records rr) [] (dns_lookups st) [])"

section \<open>Evaluation\<close>

definition queries :: "nat \<Rightarrow> spf_outcome \<Rightarrow> spf_outcome" where
  "queries n r = (n + fst r, snd r)"

definition finish :: "spf_result \<Rightarrow> string \<Rightarrow> spf_outcome" where
  "finish res what = (0, Inr (res, what))"

definition matched :: "mechanism \<Rightarrow> string \<Rightarrow> spf_outcome" where
  "matched m why = finish (qualifier_to_result (mech_qualifier m)) why"

definition spf_texts :: "resource_record list \<Rightarrow> string list" where
  "spf_texts rs = concat (map (\<lambda>r. case rr_rdata r of
     RDataTXT t \<Rightarrow> if starts_with ''v=spf1'' t then [t] else [] | _ \<Rightarrow> []) rs)"

function (sequential)
  spf_fetch :: "inet_lib \<Rightarrow> dns_answers \<Rightarrow> string \<Rightarrow> eval_state \<Rightarrow> spf_outcome" and
  spf_handle :: "inet_lib \<Rightarrow> dns_answers \<Rightarrow> string \<Rightarrow> resolve_result \<Rightarrow> eval_state \<Rightarrow> spf_outcome" and
  spf_eval :: "inet_lib \<Rightarrow> dns_answers \<Rightarrow> mechanism list \<Rightarrow> eval_state \<Rightarrow> spf_outcome" where
  "spf_fetch I dns domain st =
     (if dns_lookups st \<ge> 10 then finish Spf_PermError ''too many DNS lookups''
      else
        let st1 = st\<lparr>dns_lookups := dns_lookups st + 1\<rparr>; rr = dns RR_TXT (''_spf.'' @ domain) in
        if rres_status rr = NXDomain
        then (if dns_lookups st1 \<ge> 10 then queries 1 (finish Spf_PermError ''too many DNS looksups'')
              else queries 2 (spf_handle I dns domain (dns RR_TXT domain) (st1\<lparr>dns_lookups := dns_lookups st1 + 1\<rparr>)))
        else queries 1 (spf_handle I dns domain rr st1))"
| "spf_handle I dns domain rr st =
     (if rres_status rr = Timeout \<or> rres_status rr = ServFail
      then finish Spf_TempError (''DNS lookup failed for: '' @ domain)
      else if rres_status rr = NXDomain \<or> rres_records rr = []
      then finish Spf_None (''no SPF record for: '' @ domain)
      else
        let ts = spf_texts (rres_records rr) in
        if length ts > 1 then finish Spf_PermError (''multiple SPF records for: '' @ domain)
        else if ts = [] then finish Spf_None (''no SPF record found for: '' @ domain)
        else (case spf_parse_record (hd ts) of
                None \<Rightarrow> finish Spf_PermError (''Malformed SPF record for: '' @ domain)
              | Some rec \<Rightarrow>
                  if sr_redirect rec \<noteq> [] \<and> sr_mechanisms rec = []
                  then (if depth st \<ge> 10 then finish Spf_PermError ''SPF Redirect depth exceeded''
                        else spf_fetch I dns (sr_redirect rec) (st\<lparr>depth := depth st + 1\<rparr>))
                  else spf_eval I dns (sr_mechanisms rec) st))"
| "spf_eval I dns [] st = finish Spf_Neutral ''no mechanism matched''"
| "spf_eval I dns (m # ms) st =
     (if mech_type m = ''all'' then matched m (''matched '' @ [SQ] @ ''all'' @ [SQ])
      else if mech_type m = ''ip4'' then
        (case ipv4_matches I (client_ip st) (mech_value m) of Inl e \<Rightarrow> (0, Inl e)
         | Inr True \<Rightarrow> matched m (''matched ipv4: '' @ mech_value m)
         | Inr False \<Rightarrow> spf_eval I dns ms st)
      else if mech_type m = ''ip6'' then
        (case ipv6_matches I (client_ip st) (mech_value m) of Inl e \<Rightarrow> (0, Inl e)
         | Inr True \<Rightarrow> matched m (''matched, ipv6: '' @ mech_value m)
         | Inr False \<Rightarrow> spf_eval I dns ms st)
      else if mech_type m = ''a'' then
        (if dns_lookups st \<ge> 10 then finish Spf_PermError ''too many DNS lookups''
         else
           let st1 = st\<lparr>dns_lookups := dns_lookups st + 1\<rparr>;
               domain = (if mech_value m = [] then sender_domain st else mech_value m)
           in case check_a_record I dns domain m (client_ip st) of Inl e \<Rightarrow> (1, Inl e)
              | Inr True \<Rightarrow> queries 1 (matched m (''matched A: '' @ mech_value m))
              | Inr False \<Rightarrow> queries 1 (spf_eval I dns ms st1))
      else if mech_type m = ''include'' then
        (if mech_value m = [] then finish Spf_PermError ''include with no domain''
         else if depth st \<ge> 10 then finish Spf_PermError ''include depth exceeded''
         else
           let r = spf_fetch I dns (mech_value m)
                     (st\<lparr>sender_domain := mech_value m, depth := depth st + 1\<rparr>)
           in case snd r of Inl e \<Rightarrow> r
              | Inr (res, _) \<Rightarrow>
                  queries (fst r)
                    (if res = Spf_Pass then matched m (''matched include: '' @ mech_value m)
                     else if res = Spf_Fail \<or> res = Spf_SoftFail \<or> res = Spf_Neutral then spf_eval I dns ms st
                     else if res = Spf_TempError
                     then finish Spf_TempError (''include: '' @ mech_value m @ '' temp error'')
                     else finish Spf_PermError (''include: '' @ mech_value m @ '' perm error'')))
      else if mech_type m = ''ptr'' then spf_eval I dns ms st
      else if mech_type m = ''exits'' then spf_eval I dns ms st
      else finish Spf_PermError (''unknown mechanism: '' @ mech_type m))"
  by pat_completeness auto
termination
  by (relation "measures
      [\<lambda>x. case x of Inl (I, dns, d, st) \<Rightarrow> 11 - depth st
             | Inr (Inl (I, dns, d, rr, st)) \<Rightarrow> 11 - depth st | Inr (Inr (I, dns, ms, st)) \<Rightarrow> 11 - depth st,
       \<lambda>x. case x of Inl _ \<Rightarrow> 2 | Inr (Inl _) \<Rightarrow> 1 | Inr (Inr _) \<Rightarrow> 0,
       \<lambda>x. case x of Inl _ \<Rightarrow> 0 | Inr (Inl _) \<Rightarrow> 0 | Inr (Inr (I, dns, ms, st)) \<Rightarrow> length ms]") auto

declare spf_fetch.simps [simp del] spf_handle.simps [simp del] spf_eval.simps [simp del]

definition spf_check :: "inet_lib \<Rightarrow> dns_answers \<Rightarrow> string \<Rightarrow> string \<Rightarrow> string \<Rightarrow> spf_outcome" where
  "spf_check I dns mail_from ip helo =
     (let dom = (if mail_from = [] \<or> mail_from = ''<>'' then helo else spf_extract_domain mail_from)
      in if dom = [] then finish Spf_PermError (''couldn'' @ [SQ] @ ''t extract sender domain'')
         else spf_fetch I dns dom \<lparr>sender_domain = dom, client_ip = ip, helo_domain = helo, dns_lookups = 0, depth = 0\<rparr>)"

section \<open>Prefix matching is comparison of leading bits\<close>

lemma bit_low_mask: "n < 32 \<Longrightarrow> bit (2 ^ k - 1 :: 32 word) n \<longleftrightarrow> n < k"
proof -
  assume n: "n < 32"
  have "(2 ^ k - 1 :: 32 word) = mask k" by (simp add: mask_eq_exp_minus_1)
  then show ?thesis using n by (simp add: bit_mask_iff)
qed

lemma ipv4_mask_bits:
  assumes "p \<le> 32" "n < 32"
  shows "bit (ipv4_mask p) n \<longleftrightarrow> 32 - unat p \<le> n"
proof (cases "p = 32")
  case True
  have m: "(0xFFFFFFFF :: 32 word) = mask 32" by (simp add: mask_eq_exp_minus_1)
  from True assms show ?thesis unfolding ipv4_mask_def m by (simp add: bit_mask_iff)
next
  case False
  with assms show ?thesis by (auto simp: ipv4_mask_def bit_not_iff bit_low_mask)
qed

lemma masked_eq_drop:
  assumes "p \<le> 32"
  shows "a AND ipv4_mask p = b AND ipv4_mask p \<longleftrightarrow> drop_bit (32 - unat p) a = drop_bit (32 - unat p) b"
proof
  assume e: "a AND ipv4_mask p = b AND ipv4_mask p"
  show "drop_bit (32 - unat p) a = drop_bit (32 - unat p) b"
  proof (rule bit_word_eqI)
    fix n assume "n < LENGTH(32)"
    have "bit a m = bit b m" if "m < 32" "32 - unat p \<le> m" for m
    proof -
      have "bit (a AND ipv4_mask p) m = bit (b AND ipv4_mask p) m" by (simp add: e)
      then show ?thesis using that ipv4_mask_bits[OF assms that(1)] by (simp add: bit_and_iff)
    qed
    then show "bit (drop_bit (32 - unat p) a) n = bit (drop_bit (32 - unat p) b) n"
      by (cases "32 - unat p + n < 32") (auto simp: bit_drop_bit_eq dest: bit_imp_le_length)
  qed
next
  assume e: "drop_bit (32 - unat p) a = drop_bit (32 - unat p) b"
  show "a AND ipv4_mask p = b AND ipv4_mask p"
  proof (rule bit_word_eqI)
    fix n assume n: "n < LENGTH(32)"
    have "bit a n = bit b n" if "32 - unat p \<le> n"
      using arg_cong[OF e, of "\<lambda>w. bit w (n - (32 - unat p))"] that by (simp add: bit_drop_bit_eq)
    then show "bit (a AND ipv4_mask p) n = bit (b AND ipv4_mask p) n"
      using n ipv4_mask_bits[OF assms, of n] by (auto simp: bit_and_iff)
  qed
qed

text \<open>
  IPv4 matching: for a base address and a prefix length of at most 32 written in decimal, the
  match compares exactly the leading bits of the two addresses.
\<close>

theorem ipv4_matches_prefix:
  assumes "CHR ''/'' \<notin> set base" "p \<le> 32" "pton4 I (c_cut ip) = Some a" "pton4 I (c_cut base) = Some b"
  shows "ipv4_matches I ip (base @ ''/'' @ dec p) = Inr (drop_bit (32 - p) a = drop_bit (32 - p) b)"
proof -
  let ?c = "base @ ''/'' @ dec p" and ?p = "of_nat p :: 8 word"
  have slash: "find_ch CHR ''/'' ?c = Some (length base)" using find_ch_append[OF assms(1)] by simp
  have p: "unat ?p = p" "?p \<le> 32" using assms(2) by (simp_all add: unat_of_nat word_le_nat_alt)
  have "stoi (dec p) = Inr (int p)" using assms(2) by (intro stoi_dec) simp
  then have pl: "prefix_len ?c 32 = Inr ?p" using slash by (simp add: prefix_len_def)
  have base: "cidr_base ?c = base" using slash by (simp add: cidr_base_def)
  have "ipv4_matches I ip ?c = Inr (?p = 0 \<or> a AND ipv4_mask ?p = b AND ipv4_mask ?p)"
    using p(2) unfolding ipv4_matches_def pl base assms(3,4) by auto
  also have "(?p = 0 \<or> a AND ipv4_mask ?p = b AND ipv4_mask ?p) = (drop_bit (32 - p) a = drop_bit (32 - p) b)"
  proof (cases "p = 0")
    case True
    have "drop_bit 32 w = 0" for w :: "32 word" by (rule bit_word_eqI) (auto simp: bit_drop_bit_eq dest: bit_imp_le_length)
    with True show ?thesis by simp
  next
    case False
    then have "?p \<noteq> 0" using p(1) by (metis unat_0)
    then show ?thesis using masked_eq_drop[OF p(2), of a b] p(1) by simp
  qed
  finally show ?thesis .
qed

text \<open>
  A prefix length is cut to eight bits before it is used: \<^verbatim>\<open>/256\<close> becomes 0 and the
  mechanism matches every client address.
\<close>

theorem ipv4_prefix_wraps:
  assumes "CHR ''/'' \<notin> set base" "pton4 I (c_cut ip) = Some a" "pton4 I (c_cut base) = Some b"
  shows "ipv4_matches I ip (base @ ''/256'') = Inr True"
proof -
  have slash: "find_ch CHR ''/'' (base @ ''/256'') = Some (length base)" using find_ch_append[OF assms(1)] by simp
  have "stoi ''256'' = Inr 256" by code_simp
  then have "prefix_len (base @ ''/256'') 32 = Inr 0" using slash by (simp add: prefix_len_def)
  moreover have "cidr_base (base @ ''/256'') = base" using slash by (simp add: cidr_base_def)
  ultimately show ?thesis using assms by (simp add: ipv4_matches_def)
qed

section \<open>First match\<close>

text \<open>Mechanisms that need no lookup, and whether one of them matches.\<close>

definition local_mech :: "mechanism \<Rightarrow> bool" where
  "local_mech m \<longleftrightarrow> mech_type m \<in> {''all'', ''ip4'', ''ip6'', ''ptr'', ''exits''}"

definition mech_matches :: "inet_lib \<Rightarrow> string \<Rightarrow> mechanism \<Rightarrow> bool cpp" where
  "mech_matches I ip m =
     (if mech_type m = ''all'' then Inr True
      else if mech_type m = ''ip4'' then ipv4_matches I ip (mech_value m)
      else if mech_type m = ''ip6'' then ipv6_matches I ip (mech_value m)
      else Inr False)"

text \<open>
  C34. First match wins: in a record of local mechanisms, if no mechanism raises an exception the
  result is the qualifier of the first matching one, and neutral if none matches; no query is
  made.
\<close>

theorem spf_first_match:
  assumes "\<forall>m \<in> set ms. local_mech m \<and> (\<exists>b. mech_matches I (client_ip st) m = Inr b)"
  shows "\<exists>why. spf_eval I dns ms st = (0, Inr
    (case find (\<lambda>m. mech_matches I (client_ip st) m = Inr True) ms of
       None \<Rightarrow> Spf_Neutral | Some m \<Rightarrow> qualifier_to_result (mech_qualifier m), why))"
  using assms
proof (induction ms)
  case Nil
  then show ?case by (simp add: spf_eval.simps finish_def)
next
  case (Cons m ms)
  then obtain b where l: "local_mech m" and b: "mech_matches I (client_ip st) m = Inr b" by auto
  have IH: "\<exists>why. spf_eval I dns ms st = (0, Inr
    (case find (\<lambda>m. mech_matches I (client_ip st) m = Inr True) ms of
       None \<Rightarrow> Spf_Neutral | Some m \<Rightarrow> qualifier_to_result (mech_qualifier m), why))"
    using Cons by simp
  show ?case
  proof (cases b)
    case True
    then have "\<exists>why. spf_eval I dns (m # ms) st = (0, Inr (qualifier_to_result (mech_qualifier m), why))"
      using l b by (auto simp: local_mech_def mech_matches_def spf_eval.simps(2) matched_def finish_def split: if_splits)
    with True b show ?thesis by simp
  next
    case False
    then have "spf_eval I dns (m # ms) st = spf_eval I dns ms st"
      using l b by (auto simp: local_mech_def mech_matches_def spf_eval.simps(2) split: if_splits)
    with False b IH show ?thesis by simp
  qed
qed

section \<open>The lookup limit\<close>

text \<open>
  Within one record chain the counter is respected: an evaluation without \<^verbatim>\<open>include\<close> makes at
  most the queries the counter still allows.
\<close>

definition plain_mech :: "mechanism \<Rightarrow> bool" where
  "plain_mech m \<longleftrightarrow> mech_type m \<noteq> ''include''"

lemma fst_queries [simp]: "fst (queries n r) = n + fst r" "fst (finish res why) = 0" "fst (matched m why) = 0"
  by (simp_all add: queries_def finish_def matched_def)

lemma spf_eval_no_lookup:
  assumes "plain_mech m" "mech_type m \<noteq> ''a''"
  shows "spf_eval I dns (m # ms) st = spf_eval I dns ms st \<or> fst (spf_eval I dns (m # ms) st) = 0"
proof -
  have stop: "(case x of Inl e \<Rightarrow> (0, Inl e) | Inr True \<Rightarrow> matched m why | Inr False \<Rightarrow> r) = r \<or>
      fst (case x of Inl e \<Rightarrow> (0, Inl e) | Inr True \<Rightarrow> matched m why | Inr False \<Rightarrow> r) = 0"
    for x :: "bool cpp" and why r
    by (auto split: sum.splits bool.splits)
  show ?thesis unfolding spf_eval.simps(2) using assms by (simp add: plain_mech_def stop)
qed

lemma spf_eval_a:
  assumes "mech_type m = ''a''"
  shows "fst (spf_eval I dns (m # ms) st) \<le> (if dns_lookups st < 10
    then 1 + fst (spf_eval I dns ms (st\<lparr>dns_lookups := dns_lookups st + 1\<rparr>)) else 0)"
  using assms
  by (simp add: spf_eval.simps(2) Let_def split: sum.splits bool.splits)

text \<open>
  Lookup limit: an evaluation without \<^verbatim>\<open>include\<close> never makes more queries than the ten the
  counter allows, counting those made before.
\<close>

theorem spf_lookup_limit:
  assumes "dns_lookups st \<le> 10" "\<forall>m \<in> set ms. plain_mech m"
  shows "fst (spf_eval I dns ms st) + dns_lookups st \<le> 10"
  using assms
proof (induction ms arbitrary: st)
  case Nil
  then show ?case by (simp add: spf_eval.simps)
next
  case (Cons m ms)
  have IH0: "fst (spf_eval I dns ms st) + dns_lookups st \<le> 10" using Cons by simp
  have IH1: "dns_lookups st < 10 \<Longrightarrow>
      fst (spf_eval I dns ms (st\<lparr>dns_lookups := dns_lookups st + 1\<rparr>)) + (dns_lookups st + 1) \<le> 10"
    using Cons.IH[of "st\<lparr>dns_lookups := dns_lookups st + 1\<rparr>"] Cons.prems by simp
  show ?case
  proof (cases "mech_type m = ''a''")
    case True
    then show ?thesis using spf_eval_a[OF True, of I dns ms st] IH1 Cons.prems by (auto split: if_splits)
  next
    case False
    then show ?thesis using spf_eval_no_lookup[of m I dns ms st] IH0 Cons.prems by auto
  qed
qed

text \<open>
  The limit does not cover \<^verbatim>\<open>include\<close>: the queries of an included record are counted in a
  copy of the counter that is thrown away, so \<open>n\<close> includes that do not match cost at least \<open>n\<close>
  queries, whatever \<open>n\<close> is.
\<close>

theorem spf_includes_uncounted:
  assumes "dns_lookups st < 10" "depth st < 10"
    and "\<And>d. dns RR_TXT (''_spf.'' @ d) = \<lparr>rres_status = OK, rres_records = [\<lparr>rr_name = d, rr_type = RR_TXT,
      rr_class = CLASS_IN, rr_ttl = 0, rr_rdata = RDataTXT ''v=spf1 -all''\<rparr>]\<rparr>"
  shows "fst (spf_eval I dns (replicate n \<lparr>mech_qualifier = CHR ''+'', mech_type = ''include'', mech_value = d\<rparr>) st) =
    (if d = [] then 0 else n)"
proof (cases "d = []")
  case True
  then show ?thesis by (cases n) (simp_all add: spf_eval.simps)
next
  case False
  let ?m = "\<lparr>mech_qualifier = CHR ''+'', mech_type = ''include'', mech_value = d\<rparr>"
  let ?st = "st\<lparr>sender_domain := d, depth := depth st + 1\<rparr>"
  have p: "spf_parse_record ''v=spf1 -all'' =
      Some \<lparr>sr_mechanisms = [\<lparr>mech_qualifier = CHR ''-'', mech_type = ''all'', mech_value = []\<rparr>], sr_redirect = [], sr_exp = []\<rparr>"
    by code_simp
  have sw: "starts_with ''v=spf1'' ''v=spf1 -all''" by code_simp
  let ?all = "\<lparr>mech_qualifier = CHR ''-'', mech_type = ''all'', mech_value = []\<rparr>"
  let ?R = "\<lparr>rres_status = OK, rres_records = [\<lparr>rr_name = d, rr_type = RR_TXT, rr_class = CLASS_IN, rr_ttl = 0,
    rr_rdata = RDataTXT ''v=spf1 -all''\<rparr>]\<rparr>"
  have h: "spf_handle I dns d ?R s = matched ?all (''matched '' @ [SQ] @ ''all'' @ [SQ])" for s
    by (simp add: spf_handle.simps spf_texts_def sw p spf_eval.simps Let_def)
  have f: "spf_fetch I dns d ?st = queries 1 (matched ?all (''matched '' @ [SQ] @ ''all'' @ [SQ]))"
    unfolding spf_fetch.simps assms(3) Let_def h using assms(1) by simp
  have "spf_eval I dns (?m # ms) st = queries 1 (spf_eval I dns ms st)" for ms
    using False assms(2)
    using f by (simp add: spf_eval.simps(2) Let_def queries_def matched_def finish_def qualifier_to_result_def)
  then show ?thesis using False by (induction n) (simp_all add: spf_eval.simps(1))
qed

section \<open>Concrete instances\<close>

section \<open>MX lookups\<close>

lemma mx_exchanges_run:
  assumes "\<And>x. x \<in> set xs \<Longrightarrow> \<exists>b. check_a_record I dns x mech ip = Inr b" "xs \<noteq> []" "lookups + length xs \<le> 10"
  shows "\<exists>b. mx_exchanges I dns mech ip xs lookups found (length xs) cbs = Inr (lookups + length xs, cbs @ [b], False)"
  using assms
proof (induction xs arbitrary: lookups found)
  case (Cons x xs)
  obtain b where b: "check_a_record I dns x mech ip = Inr b" using Cons.prems(1) by auto
  show ?case
  proof (cases "xs = []")
    case True
    then show ?thesis using b Cons.prems(3) by simp
  next
    case False
    then show ?thesis using b Cons.prems Cons.IH[of "lookups + 1" "b \<or> found"] by simp
  qed
qed simp

lemma mx_records_run:
  assumes "\<And>x. \<exists>b. check_a_record I dns x mech ip = Inr b" "\<forall>r \<in> set rs. \<exists>p x. rr_rdata r = RDataMX p x"
    "lookups + (\<Sum>i<length rs. length exchanges + i + 1) \<le> 10"
  shows "\<exists>bs. mx_records I dns mech ip rs exchanges lookups cbs = Inr (lookups + (\<Sum>i<length rs. length exchanges + i + 1), cbs @ bs) \<and>
    length bs = length rs"
  using assms
proof (induction rs arbitrary: exchanges lookups cbs)
  case (Cons r rs)
  obtain p x where r: "rr_rdata r = RDataMX p x" using Cons.prems(2) by auto
  let ?xs = "exchanges @ [x]"
  have sum: "(\<Sum>i<length (r # rs). length exchanges + i + 1) = length ?xs + (\<Sum>i<length rs. length ?xs + i + 1)"
    by (simp only: length_Cons sum.lessThan_Suc_shift) (simp add: add.commute)
  have l: "lookups + length ?xs \<le> 10" using Cons.prems(3) unfolding sum by simp
  obtain b where "mx_exchanges I dns mech ip ?xs lookups False (length ?xs) cbs = Inr (lookups + length ?xs, cbs @ [b], False)"
    using mx_exchanges_run[of ?xs I dns mech ip lookups False cbs] Cons.prems(1) l by auto
  moreover have "\<exists>bs. mx_records I dns mech ip rs ?xs (lookups + length ?xs) (cbs @ [b]) =
      Inr (lookups + length ?xs + (\<Sum>i<length rs. length ?xs + i + 1), (cbs @ [b]) @ bs) \<and> length bs = length rs"
    by (rule Cons.IH) (use Cons.prems sum in \<open>auto simp: add.assoc\<close>)
  ultimately show ?case using r l unfolding sum by (auto simp: Let_def add.assoc)
qed simp

text \<open>
  \<^verbatim>\<open>check_mx_record\<close> reports once per MX record instead of once: after the first record it already
  calls \<^verbatim>\<open>on_match\<close>, and with \<open>k\<close> records it makes \<open>1 + \<dots> + k\<close> address lookups.
\<close>

theorem mx_reports_per_record:
  assumes "\<And>x. \<exists>b. check_a_record I dns x mech (client_ip st) = Inr b" "rres_status (dns RR_MX domain) = OK"
    "\<forall>r \<in> set (rres_records (dns RR_MX domain)). \<exists>p x. rr_rdata r = RDataMX p x"
    "dns_lookups st + (\<Sum>i\<le>length (rres_records (dns RR_MX domain)). i) \<le> 10"
  shows "\<exists>n cbs. check_mx_record I dns domain mech st = Inr (n, cbs) \<and> length cbs = length (rres_records (dns RR_MX domain)) \<and>
    n = dns_lookups st + (\<Sum>i\<le>length (rres_records (dns RR_MX domain)). i)"
proof -
  let ?rs = "rres_records (dns RR_MX domain)"
  have "(\<Sum>i\<le>k. i) = (\<Sum>i<k. i + 1)" for k :: nat by (induction k) simp_all
  then show ?thesis using mx_records_run[OF assms(1,3), of "dns_lookups st" "[]" "[]"] assms(2,4)
    by (auto simp: check_mx_record_def Let_def)
qed

definition sample_inet :: inet_lib where
  "sample_inet = \<lparr>pton4 = (\<lambda>s. if s = ''10.0.0.1'' then Some 0x0A000001 else if s = ''10.0.0.0'' then Some 0x0A000000 else None),
     pton6 = (\<lambda>s. None), ntop4 = (\<lambda>b. ''10.0.0.1'')\<rparr>"

definition sample_state :: eval_state where
  "sample_state = \<lparr>sender_domain = ''d'', client_ip = ''10.0.0.1'', helo_domain = ''d'', dns_lookups = 1, depth = 0\<rparr>"

theorem ipv4_matches_prefix_witness:
  "ipv4_matches sample_inet ''10.0.0.1'' (''10.0.0.0'' @ ''/'' @ dec 24) =
     Inr (drop_bit (32 - 24) (0x0A000001 :: 32 word) = drop_bit (32 - 24) 0x0A000000)"
  by (rule ipv4_matches_prefix) (simp_all add: sample_inet_def c_cut_def)

theorem ipv4_prefix_wraps_witness: "ipv4_matches sample_inet ''10.0.0.1'' (''10.0.0.0'' @ ''/256'') = Inr True"
  by (rule ipv4_prefix_wraps) (simp_all add: sample_inet_def c_cut_def)

theorem spf_first_match_witness:
  "\<exists>why. spf_eval sample_inet (\<lambda>_ _. answer NXDomain) [\<lparr>mech_qualifier = CHR ''?'', mech_type = ''ptr'', mech_value = []\<rparr>,
     \<lparr>mech_qualifier = CHR ''-'', mech_type = ''all'', mech_value = []\<rparr>] sample_state = (0, Inr (Spf_Fail, why))"
proof -
  let ?ms = "[\<lparr>mech_qualifier = CHR ''?'', mech_type = ''ptr'', mech_value = []\<rparr>,
    \<lparr>mech_qualifier = CHR ''-'', mech_type = ''all'', mech_value = []\<rparr>]"
  have "\<forall>m \<in> set ?ms. local_mech m \<and> (\<exists>b. mech_matches sample_inet (client_ip sample_state) m = Inr b)"
    by (simp add: local_mech_def mech_matches_def) blast
  from spf_first_match[OF this, of "\<lambda>_ _. answer NXDomain"] show ?thesis
    by (simp add: mech_matches_def qualifier_to_result_def)
qed

theorem spf_lookup_limit_witness:
  "fst (spf_eval sample_inet (\<lambda>_ _. answer NXDomain)
     (replicate 20 \<lparr>mech_qualifier = CHR ''+'', mech_type = ''a'', mech_value = []\<rparr>) sample_state) + 1 \<le> 10"
  using spf_lookup_limit[of sample_state "replicate 20 \<lparr>mech_qualifier = CHR ''+'', mech_type = ''a'', mech_value = []\<rparr>" sample_inet]
  by (simp add: sample_state_def plain_mech_def)

theorem spf_includes_uncounted_witness:
  "fst (spf_eval sample_inet (\<lambda>t n. \<lparr>rres_status = OK, rres_records = [\<lparr>rr_name = drop 5 n, rr_type = RR_TXT,
      rr_class = CLASS_IN, rr_ttl = 0, rr_rdata = RDataTXT ''v=spf1 -all''\<rparr>]\<rparr>)
     (replicate 50 \<lparr>mech_qualifier = CHR ''+'', mech_type = ''include'', mech_value = ''x''\<rparr>) sample_state) = 50"
  by (subst spf_includes_uncounted) (simp_all add: sample_state_def)

definition two_mx :: dns_answers where
  "two_mx t n = (if t = RR_MX then \<lparr>rres_status = OK, rres_records = map (\<lambda>x. \<lparr>rr_name = n, rr_type = RR_MX,
      rr_class = CLASS_IN, rr_ttl = 0, rr_rdata = RDataMX 10 x\<rparr>) [''m1'', ''m2'']\<rparr> else answer NXDomain)"

theorem mx_reports_per_record_witness:
  "\<exists>n cbs. check_mx_record sample_inet two_mx ''d'' \<lparr>mech_qualifier = CHR ''+'', mech_type = ''mx'', mech_value = []\<rparr> sample_state =
     Inr (n, cbs) \<and> length cbs = 2 \<and> n = 4"
proof -
  let ?m = "\<lparr>mech_qualifier = CHR ''+'', mech_type = ''mx'', mech_value = []\<rparr>"
  have "check_a_record sample_inet two_mx x ?m (client_ip sample_state) = Inr False" for x
    by (simp add: two_mx_def check_a_record_def)
  then have c: "\<exists>b. check_a_record sample_inet two_mx x ?m (client_ip sample_state) = Inr b" for x by blast
  have r: "length (rres_records (two_mx RR_MX ''d'')) = 2" "(\<Sum>i\<le>(2::nat). i) = 3" "dns_lookups sample_state = 1"
    by (simp_all add: two_mx_def eval_nat_numeral sample_state_def)
  show ?thesis using mx_reports_per_record[of sample_inet two_mx ?m sample_state "''d''", OF c] unfolding r by (simp add: two_mx_def)
qed

end
