(* ===== verification/Dkim_Canon.thy ===== *)
theory Dkim_Canon
  imports Prelude
begin

text \<open>
  The canonicalisation of bodies and headers that \<^verbatim>\<open>src/auth/dkim/signer.cpp\<close> and
  \<^verbatim>\<open>src/auth/dkim/verifier.cpp\<close> both contain, line for line. The body functions are compared with
  what they should leave invariant (they are idempotent), the header function with a
  specification by words; two places where the code departs from RFC 6376 are stated as
  theorems.
\<close>

abbreviation SP :: char where "SP \<equiv> CHR '' ''"

definition is_wsp :: "char \<Rightarrow> bool" where
  "is_wsp c \<longleftrightarrow> c = SP \<or> c = TAB"

section \<open>Bodies\<close>

text \<open>The loop over the characters of a line; white space at the end of the line is dropped.\<close>

fun compress_ws :: "bool \<Rightarrow> string \<Rightarrow> string" where
  "compress_ws in_ws [] = []"
| "compress_ws in_ws (c # cs) =
     (if is_wsp c then compress_ws True cs
      else (if in_ws then [SP, c] else [c]) @ compress_ws False cs)"

text \<open>\<^verbatim>\<open>line.pop_back()\<close> removes the last character of every line, whatever it is.\<close>

fun relaxed_lines :: "string \<Rightarrow> string \<Rightarrow> string list \<Rightarrow> string" where
  "relaxed_lines result pending [] = (if result = [] then crlf else result)"
| "relaxed_lines result pending (line # ls) =
     (let canonical = compress_ws False (butlast line)
      in if canonical = [] then relaxed_lines result (pending @ crlf) ls
         else relaxed_lines (result @ pending @ canonical @ crlf) [] ls)"

fun normalise_nl :: "string \<Rightarrow> string \<Rightarrow> string" where
  "normalise_nl normalised [] = normalised"
| "normalise_nl normalised (c # cs) =
     (if c = LF
      then normalise_nl ((if normalised = [] \<or> last normalised \<noteq> CR then normalised @ [CR] else normalised) @ [LF]) cs
      else normalise_nl (normalised @ [c]) cs)"

function strip_crlf :: "string \<Rightarrow> string" where
  "strip_crlf s = (if length s \<ge> 2 \<and> drop (length s - 2) s = crlf then strip_crlf (take (length s - 2) s) else s)"
  by pat_completeness auto
termination
  by (relation "measure length") auto

declare strip_crlf.simps [simp del]

definition canonicalize_body :: "string \<Rightarrow> string \<Rightarrow> string" where
  "canonicalize_body body method =
     (if method = ''relaxed'' then relaxed_lines [] [] (getlines LF body)
      else strip_crlf (normalise_nl [] body) @ crlf)"

section \<open>Headers\<close>

fun unfold_ws :: "bool \<Rightarrow> bool \<Rightarrow> string \<Rightarrow> string \<Rightarrow> string" where
  "unfold_ws in_ws skip_ws canon_value [] = canon_value"
| "unfold_ws in_ws skip_ws canon_value (c # cs) =
     (if c = CR \<and> cs \<noteq> [] \<and> hd cs = LF then unfold_ws True True canon_value (tl cs)
      else if skip_ws \<and> is_wsp c then unfold_ws True False canon_value cs
      else if is_wsp c then unfold_ws True False canon_value cs
      else unfold_ws False False ((if in_ws \<and> canon_value \<noteq> [] then canon_value @ [SP] else canon_value) @ [c]) cs)"

definition rtrim_sp :: "string \<Rightarrow> string" where
  "rtrim_sp s = rev (dropWhile (\<lambda>c. c = SP) (rev s))"

text \<open>
  The declaration \<^verbatim>\<open>size_t start = canon_value.find_first_not_of(' ') != npos\<close> gives \<^verbatim>\<open>start\<close> the
  value of the comparison, 1, so the first character is cut off.
\<close>

definition canonicalize_header :: "string \<Rightarrow> string \<Rightarrow> string \<Rightarrow> string" where
  "canonicalize_header name value method =
     (if method = ''relaxed''
      then let canon_value = rtrim_sp (unfold_ws False False [] value);
               trimmed = (if find_first_not_of [SP] canon_value \<noteq> None then drop 1 canon_value else canon_value)
        in lower name @ '':'' @ trimmed @ crlf
      else let result = name @ '':'' @ value
        in if length result < 2 \<or> drop (length result - 2) result \<noteq> crlf then result @ crlf else result)"

section \<open>Idempotence of the body canonicalisation\<close>

lemma wsp_simps [simp]: "is_wsp SP" "is_wsp TAB" "\<not> is_wsp CR" "\<not> is_wsp LF"
  by (simp_all add: is_wsp_def)

lemma compress_ws_set: "set (compress_ws b s) \<subseteq> insert SP (set s)"
  by (induction s arbitrary: b) (auto split: if_splits)

text \<open>A compressed line is a fixed point; a leading blank stands for the flag \<open>in_ws\<close>.\<close>

lemma compress_ws_idem: "compress_ws b (compress_ws b' s) =
    (if b \<and> \<not> b' \<and> compress_ws b' s \<noteq> [] \<and> hd (compress_ws b' s) \<noteq> SP then SP # compress_ws b' s else compress_ws b' s)"
proof (induction s arbitrary: b b')
  case (Cons c cs)
  show ?case
  proof (cases "is_wsp c")
    case True
    then have "compress_ws b (compress_ws True cs) = compress_ws True cs" using Cons[of b True] by simp
    moreover have "compress_ws True cs \<noteq> [] \<Longrightarrow> hd (compress_ws True cs) = SP"
      by (induction cs) auto
    ultimately show ?thesis using True by auto
  next
    case False
    then have "c \<noteq> SP" by auto
    with False show ?thesis using Cons[of False False] by auto
  qed
qed simp

lemma compress_fix [simp]: "compress_ws False (compress_ws False s) = compress_ws False s"
  using compress_ws_idem[of False False s] by simp

text \<open>A sequence of already canonical lines passes through \<open>relaxed_lines\<close> unchanged.\<close>

lemma getlines_crlf_line:
  "LF \<notin> set l \<Longrightarrow> getlines LF (l @ crlf @ r) = (l @ [CR]) # getlines LF r"
  using getlines_line[of LF "l @ [CR]" r] by simp

definition crlf_lines :: "string list \<Rightarrow> string" where
  "crlf_lines ls = concat (map (\<lambda>l. l @ crlf) ls)"

lemma crlf_lines_simps [simp]: "crlf_lines [] = []" "crlf_lines (l # ls) = l @ crlf @ crlf_lines ls"
  "crlf_lines (ks @ ls) = crlf_lines ks @ crlf_lines ls"
  by (simp_all add: crlf_lines_def)

lemma getlines_crlf_lines:
  "\<forall>l \<in> set ls. LF \<notin> set l \<Longrightarrow> getlines LF (crlf_lines ls) = map (\<lambda>l. l @ [CR]) ls"
  by (induction ls) (auto simp: getlines_crlf_line simp del: append.simps)

text \<open>The lines the relaxed form keeps: compressed, and without the empty ones at the end.\<close>

definition relaxed_spec :: "string list \<Rightarrow> string list" where
  "relaxed_spec ls = rev (dropWhile (\<lambda>l. l = []) (rev (map (compress_ws False) ls)))"

lemma relaxed_spec_Nil [simp]: "relaxed_spec [] = []"
  by (simp add: relaxed_spec_def)

lemma relaxed_spec_Cons:
  "relaxed_spec (l # ls) = (if relaxed_spec ls = [] then (if compress_ws False l = [] then [] else [compress_ws False l])
     else compress_ws False l # relaxed_spec ls)"
  by (auto simp: relaxed_spec_def dropWhile_append)

lemma relaxed_lines_spec:
  "relaxed_lines result (crlf_lines (replicate k [])) ls =
     (let out = result @ (if relaxed_spec (map butlast ls) = [] then []
                          else crlf_lines (replicate k []) @ crlf_lines (relaxed_spec (map butlast ls)))
      in if out = [] then crlf else out)"
proof (induction ls arbitrary: result k)
  case (Cons l ls)
  let ?c = "compress_ws False (butlast l)"
  show ?case
  proof (cases "?c = []")
    case True
    have "crlf_lines (replicate k []) @ crlf = crlf_lines (replicate (Suc k) [])"
      by (induction k) auto
    with True Cons[of result "Suc k"] show ?thesis
      by (simp add: relaxed_spec_Cons)
  next
    case False
    with Cons[of "result @ crlf_lines (replicate k []) @ ?c @ crlf" 0] show ?thesis
      by (auto simp: relaxed_spec_Cons Let_def)
  qed
qed (simp add: Let_def)

lemma canonicalize_relaxed:
  "canonicalize_body body ''relaxed'' =
     (let ls = relaxed_spec (map butlast (getlines LF body)) in if ls = [] then crlf else crlf_lines ls)"
proof -
  have "crlf_lines ls = [] \<longleftrightarrow> ls = []" for ls by (cases ls) auto
  then show ?thesis
    using relaxed_lines_spec[of "[]" 0 "getlines LF body"] by (simp add: canonicalize_body_def Let_def)
qed

lemma relaxed_spec_idem: "relaxed_spec (relaxed_spec ls) = relaxed_spec ls"
  by (induction ls) (auto simp: relaxed_spec_Cons)

lemma relaxed_spec_LF: "\<forall>l \<in> set ls. LF \<notin> set l \<Longrightarrow> l \<in> set (relaxed_spec ls) \<Longrightarrow> LF \<notin> set l"
  using compress_ws_set[of False] by (induction ls) (fastforce simp: relaxed_spec_Cons split: if_splits)+

lemma relaxed_idem: "canonicalize_body (canonicalize_body body ''relaxed'') ''relaxed'' = canonicalize_body body ''relaxed''"
proof -
  let ?ls = "relaxed_spec (map butlast (getlines LF body))"
  have "\<forall>l \<in> set (map butlast (getlines LF body)). LF \<notin> set l"
    using getlines_delim[of _ LF body] by (auto dest: in_set_butlastD)
  then have lf: "\<forall>l \<in> set ?ls. LF \<notin> set l" using relaxed_spec_LF by blast
  show ?thesis
  proof (cases "?ls = []")
    case True
    then have "canonicalize_body body ''relaxed'' = crlf" by (simp add: canonicalize_relaxed)
    then show ?thesis by (simp add: canonicalize_body_def)
  next
    case False
    then have "canonicalize_body body ''relaxed'' = crlf_lines ?ls" by (simp add: canonicalize_relaxed)
    moreover have "map butlast (getlines LF (crlf_lines ?ls)) = ?ls"
      using getlines_crlf_lines[OF lf] by (simp add: comp_def)
    ultimately show ?thesis using False by (simp add: canonicalize_relaxed relaxed_spec_idem)
  qed
qed

text \<open>In a normalised text every line feed follows a carriage return; \<open>p\<close> is the character before.\<close>

fun crlf_ok :: "char \<Rightarrow> string \<Rightarrow> bool" where
  "crlf_ok p [] = True"
| "crlf_ok p (c # cs) = ((c = LF \<longrightarrow> p = CR) \<and> crlf_ok c cs)"

definition prev_char :: "string \<Rightarrow> char" where
  "prev_char acc = (if acc = [] then LF else last acc)"

lemma prev_char_snoc [simp]: "prev_char (acc @ [c]) = c"
  by (simp add: prev_char_def)

lemma crlf_ok_append: "crlf_ok p (xs @ ys) \<longleftrightarrow> crlf_ok p xs \<and> crlf_ok (if xs = [] then p else last xs) ys"
  by (induction xs arbitrary: p) auto

lemma normalise_nl_fix: "crlf_ok (prev_char acc) s \<Longrightarrow> normalise_nl acc s = acc @ s"
proof (induction s arbitrary: acc)
  case (Cons c cs)
  then have "normalise_nl (acc @ [c]) cs = (acc @ [c]) @ cs" by (intro Cons.IH) simp
  with Cons.prems show ?case by (auto simp: prev_char_def split: if_splits)
qed simp

lemma normalise_nl_ok: "\<exists>out. normalise_nl acc s = acc @ out \<and> crlf_ok (prev_char acc) out"
proof (induction s arbitrary: acc)
  case (Cons c cs)
  show ?case
  proof (cases "c = LF")
    case False
    with Cons[of "acc @ [c]"] show ?thesis by (auto intro: exI[of _ "c # _"])
  next
    case True
    show ?thesis
    proof (cases "acc = [] \<or> last acc \<noteq> CR")
      case t: True
      with True Cons[of "acc @ [CR, LF]"] show ?thesis
        by (auto simp: prev_char_def intro: exI[of _ "CR # LF # _"])
    next
      case f: False
      with True Cons[of "acc @ [LF]"] show ?thesis by (auto simp: prev_char_def intro: exI[of _ "LF # _"])
    qed
  qed
qed (auto intro: exI[of _ "[]"])

lemma strip_crlf_prefix: "\<exists>k. s = strip_crlf s @ crlf_lines (replicate k [])"
proof (induction s rule: strip_crlf.induct)
  case (1 s)
  show ?case
  proof (cases "length s \<ge> 2 \<and> drop (length s - 2) s = crlf")
    case True
    with 1 obtain k where k: "take (length s - 2) s = strip_crlf (take (length s - 2) s) @ crlf_lines (replicate k [])" by blast
    have "s = take (length s - 2) s @ crlf" using True by (metis append_take_drop_id)
    also have "\<dots> = strip_crlf s @ crlf_lines (replicate k []) @ crlf_lines (replicate 1 [])"
      using k True by (simp add: strip_crlf.simps[of s])
    also have "\<dots> = strip_crlf s @ crlf_lines (replicate (k + 1) [])"
      by (metis crlf_lines_simps(3) replicate_add)
    finally show ?thesis by blast
  next
    case False
    then have "strip_crlf s = s" by (subst strip_crlf.simps) (simp only: if_False)
    then show ?thesis by (metis append_Nil2 crlf_lines_simps(1) replicate_0)
  qed
qed

lemma strip_crlf_snoc: "strip_crlf (s @ crlf) = strip_crlf s"
  by (simp add: strip_crlf.simps[of "s @ crlf"])

lemma strip_crlf_idem: "strip_crlf (strip_crlf s) = strip_crlf s"
proof (induction s rule: strip_crlf.induct)
  case (1 s)
  show ?case
  proof (cases "length s \<ge> 2 \<and> drop (length s - 2) s = crlf")
    case True
    with 1 show ?thesis by (simp add: strip_crlf.simps[of s])
  next
    case False
    then have "strip_crlf s = s" by (subst strip_crlf.simps) (simp only: if_False)
    then show ?thesis by simp
  qed
qed

lemma simple_idem:
  assumes "m \<noteq> ''relaxed''"
  shows "canonicalize_body (canonicalize_body body m) m = canonicalize_body body m"
proof -
  let ?t = "normalise_nl [] body"
  from strip_crlf_prefix[of ?t] obtain k where k: "?t = strip_crlf ?t @ crlf_lines (replicate k [])" by blast
  from normalise_nl_ok[of "[]" body] have "crlf_ok LF ?t" by (auto simp: prev_char_def)
  then have "crlf_ok LF (strip_crlf ?t)" using k crlf_ok_append by metis
  then have "crlf_ok (prev_char []) (strip_crlf ?t @ crlf)" by (simp add: crlf_ok_append prev_char_def)
  from normalise_nl_fix[OF this] have "normalise_nl [] (strip_crlf ?t @ crlf) = strip_crlf ?t @ crlf" by simp
  then show ?thesis using assms by (simp add: canonicalize_body_def strip_crlf_snoc strip_crlf_idem del: append.simps)
qed

text \<open>
  Canonicalising a body twice, with either method, gives the same as canonicalising it once.
\<close>

theorem canonicalize_body_idem:
  "canonicalize_body (canonicalize_body body m) m = canonicalize_body body m"
  using relaxed_idem simple_idem by (cases "m = ''relaxed''") simp_all

text \<open>
  The relaxed form of a body whose lines all end in CRLF is the one of RFC 6376: white space
  compressed, empty lines at the end removed; a body with nothing left becomes one CRLF.
\<close>

theorem canonicalize_relaxed_lines:
  assumes "\<forall>l \<in> set ls. LF \<notin> set l"
  shows "canonicalize_body (crlf_lines ls) ''relaxed'' =
    (if relaxed_spec ls = [] then crlf else crlf_lines (relaxed_spec ls))"
  using getlines_crlf_lines[OF assms] by (simp add: canonicalize_relaxed Let_def comp_def)

text \<open>
  A relaxed body that does not end in a line feed loses its last character: two bodies that
  differ only there have the same canonical form, and so the same hash.
\<close>

theorem relaxed_body_blind:
  assumes "c \<noteq> LF" "d \<noteq> LF"
  shows "canonicalize_body (body @ [c]) ''relaxed'' = canonicalize_body (body @ [d]) ''relaxed''"
proof -
  have "map butlast (getlines LF (body @ [c])) = map butlast (getlines LF (body @ [d]))"
  proof (induction body)
    case (Cons x xs)
    obtain l ls where l: "getlines LF (xs @ [c]) = l # ls" by (cases "getlines LF (xs @ [c])") auto
    obtain k ks where k: "getlines LF (xs @ [d]) = k # ks" by (cases "getlines LF (xs @ [d])") auto
    have "(l = []) = (k = [])" using l k by (cases xs) (auto simp: assms split: if_splits list.splits)
    with Cons l k show ?case by auto
  qed (simp add: assms)
  then show ?thesis by (simp add: canonicalize_relaxed)
qed

section \<open>Headers: the specification and the lost character\<close>

text \<open>Unfolding replaces every line end by a blank.\<close>

fun unfold_text :: "string \<Rightarrow> string" where
  "unfold_text [] = []"
| "unfold_text [c] = [c]"
| "unfold_text (c # d # cs) = (if c = CR \<and> d = LF then SP # unfold_text cs else c # unfold_text (d # cs))"

definition relaxed_value :: "string \<Rightarrow> string" where
  "relaxed_value v = compress_ws False (dropWhile is_wsp (unfold_text v))"

lemma unfold_ws_acc: "acc \<noteq> [] \<Longrightarrow> unfold_ws b k acc v = acc @ compress_ws b (unfold_text v)"
proof (induction v arbitrary: b k acc rule: unfold_text.induct)
  case (2 c)
  then show ?case by auto
next
  case (3 c d cs)
  show ?case
  proof (cases "c = CR \<and> d = LF")
    case True
    with 3 show ?thesis by simp
  next
    case False
    then have step: "unfold_ws b k acc (c # d # cs) = (if is_wsp c then unfold_ws True False acc (d # cs)
        else unfold_ws False False ((if b then acc @ [SP] else acc) @ [c]) (d # cs))"
      using "3.prems" by auto
    show ?thesis unfolding step using 3 False by (auto simp del: unfold_ws.simps)
  qed
qed simp

lemma compress_skip: "compress_ws b (dropWhile is_wsp s) =
    (if compress_ws b (dropWhile is_wsp s) = [] then [] else (if b then [SP] else []) @ compress_ws False (dropWhile is_wsp s))"
  by (induction s) auto

lemma unfold_ws_start: "unfold_ws b k [] v = relaxed_value v"
proof (induction v arbitrary: b k rule: unfold_text.induct)
  case (3 c d cs)
  show ?case
  proof (cases "c = CR \<and> d = LF")
    case True
    with 3 show ?thesis by (simp add: relaxed_value_def)
  next
    case False
    then have step: "unfold_ws b k [] (c # d # cs) = (if is_wsp c then unfold_ws True False [] (d # cs)
        else unfold_ws False False [c] (d # cs))" by auto
    show ?thesis unfolding step
      using 3(2)[OF False, of True False] unfold_ws_acc[of "[c]" False False "d # cs"] False
      by (auto simp: relaxed_value_def simp del: unfold_ws.simps)
  qed
qed (auto simp: relaxed_value_def)

lemma compress_last: "compress_ws b s \<noteq> [] \<Longrightarrow> last (compress_ws b s) \<noteq> SP"
  by (induction s arbitrary: b) auto

lemma rtrim_fix: "s = [] \<or> last s \<noteq> SP \<Longrightarrow> rtrim_sp s = s"
  unfolding rtrim_sp_def by (cases s rule: rev_cases) auto

lemma relaxed_value_trimmed: "rtrim_sp (relaxed_value v) = relaxed_value v"
  by (rule rtrim_fix) (auto simp: relaxed_value_def dest: compress_last)

lemma relaxed_value_blank: "set (relaxed_value v) \<subseteq> {SP} \<Longrightarrow> relaxed_value v = []"
  using compress_last[of False "dropWhile is_wsp (unfold_text v)"] last_in_set[of "relaxed_value v"]
  unfolding relaxed_value_def by blast

text \<open>
  The relaxed form of a header is the lower-case name and the value unfolded and compressed as
  RFC 6376 says, but without the first character of the value.
\<close>

theorem relaxed_header_spec:
  "canonicalize_header name v ''relaxed'' = lower name @ '':'' @ drop 1 (relaxed_value v) @ crlf"
  using relaxed_value_blank[of v]
  by (auto simp: canonicalize_header_def unfold_ws_start relaxed_value_trimmed Let_def find_first_not_of_None)

text \<open>So the first character of a signed header is not covered by the signature.\<close>

theorem relaxed_header_blind:
  assumes "\<not> is_wsp c" "\<not> is_wsp d" "c \<noteq> CR" "d \<noteq> CR"
  shows "canonicalize_header name (c # v) ''relaxed'' = canonicalize_header name (d # v) ''relaxed''"
proof -
  have "unfold_text (x # v) = x # unfold_text v" if "x \<noteq> CR" for x using that by (cases v) auto
  with assms show ?thesis by (simp add: relaxed_header_spec relaxed_value_def)
qed

end
