(* ===== verification/Dkim_Verifier.thy ===== *)
theory Dkim_Verifier
  imports Dkim_Canon Dns_Resolver
begin

text \<open>
  \<^verbatim>\<open>src/auth/dkim/verifier.cpp\<close>: extraction and parsing of signatures, key records with their cache,
  and the verification of a signature. The hash, the base64 codec and the two signature schemes
  of OpenSSL are the record \<open>dkim_lib\<close>. The resolver is a function from questions to answers, so
  the callbacks run at once and the results come in the order of the signatures. The theorems
  say what a \<^verbatim>\<open>pass\<close> guarantees and when the code raises an exception.
\<close>

datatype dkim_result = Dkim_Pass | Dkim_Fail | Dkim_PermError | Dkim_TempError | Dkim_None

record verify_result =
  vr_result :: dkim_result
  vr_domain :: string
  vr_selector :: string
  vr_explanation :: string

record signature =
  sg_version :: string
  sg_algorithm :: string
  sg_domain :: string
  sg_selector :: string
  sg_signed_headers :: "string list"
  sg_body_hash :: string
  sg_signature :: string
  sg_canonicalization :: string
  sg_query_method :: string
  sg_timestamp :: "64 word"
  sg_expiry :: "64 word"
  sg_body_length :: int
  sg_agent :: string
  sg_copied_headers :: string
  sg_header_canon :: string
  sg_body_canon :: string

record key_record =
  kr_version :: string
  kr_key_type :: string
  kr_pk_b64 :: string
  kr_hash_algos :: string
  kr_service_type :: string
  kr_flags :: string

record dkim_lib =
  sha256 :: "string \<Rightarrow> byte list"
  b64_encode :: "byte list \<Rightarrow> string"
  b64_read :: "string \<Rightarrow> byte list option"
  d2i_pubkey :: "byte list \<Rightarrow> bool"
  raw_pubkey :: "byte list \<Rightarrow> bool"
  pkey_ctx :: bool
  md_ctx :: bool
  verify_init :: int
  rsa_padding :: int
  signature_md :: int
  pkey_verify :: "byte list \<Rightarrow> byte list \<Rightarrow> byte list \<Rightarrow> int"
  digest_verify_init :: int
  digest_verify :: "byte list \<Rightarrow> byte list \<Rightarrow> byte list \<Rightarrow> int"
  sign_init :: int
  sign_update :: "string \<Rightarrow> int"
  sign_size :: int
  sign_final :: "string \<Rightarrow> int \<times> byte list"

text \<open>
  The checks of signatures: the key is parsed first, and every failing call of OpenSSL means that the
  signature is not accepted. A negative result of the last call is an error, not a match.
\<close>

definition verify_rsa_sha256 :: "dkim_lib \<Rightarrow> byte list \<Rightarrow> byte list \<Rightarrow> byte list \<Rightarrow> bool" where
  "verify_rsa_sha256 L message_hash sig pub_key_der =
     (if \<not> d2i_pubkey L pub_key_der then False
      else if \<not> pkey_ctx L then False
      else if verify_init L > 0 \<and> rsa_padding L > 0 \<and> signature_md L > 0
      then pkey_verify L pub_key_der sig message_hash = 1
      else False)"

definition verify_ed25519 :: "dkim_lib \<Rightarrow> byte list \<Rightarrow> byte list \<Rightarrow> byte list \<Rightarrow> bool" where
  "verify_ed25519 L signed_data sig public_key =
     (if \<not> raw_pubkey L public_key then False
      else if md_ctx L \<and> digest_verify_init L > 0 then digest_verify L public_key sig signed_data = 1
      else False)"

definition dkim_result_to_string :: "dkim_result \<Rightarrow> string" where
  "dkim_result_to_string r = (case r of Dkim_Pass \<Rightarrow> ''pass'' | Dkim_Fail \<Rightarrow> ''fail'' | Dkim_PermError \<Rightarrow> ''permerror''
     | Dkim_TempError \<Rightarrow> ''temperror'' | Dkim_None \<Rightarrow> ''none'')"

section \<open>Parsing\<close>

text \<open>
  \<^verbatim>\<open>extract_dkim_headers\<close>. The test for folded lines asks for an empty line that begins with white
  space and is never true, so every line starts a header of its own.
\<close>

definition flush_header :: "string \<Rightarrow> string \<Rightarrow> string list \<Rightarrow> string list" where
  "flush_header name header result =
     (if name = ''dkim-signature'' \<and> header \<noteq> []
      then (case find_ch CHR '':'' header of None \<Rightarrow> result | Some colon \<Rightarrow> result @ [drop (colon + 1) header])
      else result)"

fun dkim_lines :: "string \<Rightarrow> string \<Rightarrow> string list \<Rightarrow> string list \<Rightarrow> string list" where
  "dkim_lines name header result [] = flush_header name header result"
| "dkim_lines name header result (line0 # ls) =
     (let line = strip_cr line0 in
      if line = [] then flush_header name header result
      else dkim_lines (case find_ch CHR '':'' line of None \<Rightarrow> [] | Some colon \<Rightarrow> lower (take colon line)) line
             (flush_header name header result) ls)"

definition extract_dkim_headers :: "string \<Rightarrow> string list" where
  "extract_dkim_headers raw_headers = dkim_lines [] [] [] (getlines LF raw_headers)"

definition ws4 :: string where
  "ws4 = [SP, TAB, CR, LF]"

fun clean_value :: "bool \<Rightarrow> string \<Rightarrow> string \<Rightarrow> string" where
  "clean_value prev_ws clean [] = clean"
| "clean_value prev_ws clean (c # cs) =
     (if c \<in> set ws4 then clean_value True clean cs
      else clean_value False ((if prev_ws \<and> clean \<noteq> [] then clean @ [SP] else clean) @ [c]) cs)"

definition add_tag :: "(string \<rightharpoonup> string) \<Rightarrow> string \<Rightarrow> (string \<rightharpoonup> string)" where
  "add_tag tags token0 =
     (let token = trim_of ws4 token0 in
      if token = [] then tags
      else (case find_ch CHR ''='' token of None \<Rightarrow> tags
            | Some eq \<Rightarrow> tags(trim_of ws4 (take eq token) \<mapsto> clean_value False [] (trim_of ws4 (drop (eq + 1) token)))))"

definition parse_tag_list :: "string \<Rightarrow> (string \<rightharpoonup> string)" where
  "parse_tag_list input = foldl add_tag (\<lambda>_. None) (getlines CHR '';'' input)"

definition stoull :: "string \<Rightarrow> (64 word) cpp" where
  "stoull s = (case sto (- (2 ^ 64 - 1)) (2 ^ 64 - 1) s of Inl e \<Rightarrow> Inl e | Inr v \<Rightarrow> Inr (word_of_int v))"

definition stoll :: "string \<Rightarrow> int cpp" where
  "stoll = sto (- (2 ^ 63)) (2 ^ 63 - 1)"

definition opt_tag :: "(string \<Rightarrow> 'a cpp) \<Rightarrow> 'a \<Rightarrow> string option \<Rightarrow> 'a cpp" where
  "opt_tag f d t = (case t of None \<Rightarrow> Inr d | Some v \<Rightarrow> f v)"

definition header_names :: "string \<Rightarrow> string list" where
  "header_names h = concat (map (\<lambda>n. if find_first_not_of [SP, TAB] n = None then [] else [trim_of [SP, TAB] n])
     (getlines CHR '':'' h))"

definition str_tag :: "string \<Rightarrow> string option \<Rightarrow> string" where
  "str_tag d t = (case t of None \<Rightarrow> d | Some v \<Rightarrow> v)"

definition split_canon :: "string \<Rightarrow> string \<times> string" where
  "split_canon c = (case find_ch CHR ''/'' c of None \<Rightarrow> (c, ''simple'')
     | Some slash \<Rightarrow> (take slash c, drop (slash + 1) c))"

text \<open>\<open>Inr None\<close> is \<^verbatim>\<open>std::nullopt\<close>; \<open>Inl\<close> an exception of \<^verbatim>\<open>stoull\<close> or \<^verbatim>\<open>stoll\<close>, which nobody catches.\<close>

definition parse_signature :: "string \<Rightarrow> signature option cpp" where
  "parse_signature header_value =
     (let tags = parse_tag_list header_value;
          required = (\<lambda>k. tags k \<noteq> None \<and> tags k \<noteq> Some [])
      in if tags ''v'' \<noteq> Some ''1'' then Inr None
         else if tags ''a'' = None then Inr None
         else if \<not> required ''d'' \<or> \<not> required ''s'' \<or> \<not> required ''h'' \<or> \<not> required ''bh'' \<or> \<not> required ''b''
         then Inr None
         else (case opt_tag stoull 0 (tags ''t'') of Inl e \<Rightarrow> Inl e
         | Inr t \<Rightarrow> (case opt_tag stoull 0 (tags ''x'') of Inl e \<Rightarrow> Inl e
         | Inr x \<Rightarrow> (case opt_tag stoll (- 1) (tags ''l'') of Inl e \<Rightarrow> Inl e
         | Inr l \<Rightarrow>
             let c = str_tag ''simple/simple'' (tags ''c'')
             in if the (tags ''a'') \<noteq> ''rsa-sha256'' \<and> the (tags ''a'') \<noteq> ''ed25519-sha256'' then Inr None
                else Inr (Some
                  \<lparr>sg_version = the (tags ''v''), sg_algorithm = the (tags ''a''), sg_domain = the (tags ''d''),
                   sg_selector = the (tags ''s''), sg_signed_headers = header_names (the (tags ''h'')),
                   sg_body_hash = the (tags ''bh''), sg_signature = the (tags ''b''), sg_canonicalization = c,
                   sg_query_method = str_tag ''dns/txt'' (tags ''q''), sg_timestamp = t, sg_expiry = x,
                   sg_body_length = l, sg_agent = str_tag [] (tags ''i''), sg_copied_headers = str_tag [] (tags ''z''),
                   sg_header_canon = fst (split_canon c), sg_body_canon = snd (split_canon c)\<rparr>)))))"

definition parse_key_record :: "string \<Rightarrow> key_record option" where
  "parse_key_record t =
     (let tags = parse_tag_list t in
      if tags ''v'' \<noteq> None \<and> tags ''v'' \<noteq> Some ''DKIM1'' then None
      else if tags ''p'' = None \<or> tags ''p'' = Some [] then None
      else
        let key = \<lparr>kr_version = str_tag ''DKIM1'' (tags ''v''), kr_key_type = str_tag ''rsa'' (tags ''k''),
                   kr_pk_b64 = the (tags ''p''), kr_hash_algos = str_tag [] (tags ''h''),
                   kr_service_type = str_tag ''*'' (tags ''s''), kr_flags = str_tag [] (tags ''t'')\<rparr>
        in if kr_key_type key \<noteq> ''rsa'' \<and> kr_key_type key \<noteq> ''ed25519'' then None else Some key)"

section \<open>The signed data\<close>

definition add_header :: "(string \<Rightarrow> string list) \<Rightarrow> string \<Rightarrow> (string \<Rightarrow> string list)" where
  "add_header header_map raw =
     (case find_ch CHR '':'' raw of None \<Rightarrow> header_map
      | Some colon \<Rightarrow> (let name = lower (take colon raw)
          in header_map(name := header_map name @ [drop (colon + 1) raw])))"

text \<open>The loop over the signed header names; \<open>consumed\<close> counts the occurrences used, from the bottom.\<close>

fun signed_part :: "(string \<Rightarrow> string list) \<Rightarrow> string \<Rightarrow> (string \<Rightarrow> nat) \<Rightarrow> string list \<Rightarrow> string" where
  "signed_part header_map method consumed [] = []"
| "signed_part header_map method consumed (header # hs) =
     (let lower_name = lower header; vs = header_map lower_name; idx = consumed lower_name in
      if vs = [] \<or> idx \<ge> length vs then signed_part header_map method consumed hs
      else canonicalize_header lower_name (vs ! (length vs - 1 - idx)) method
           @ signed_part header_map method (consumed(lower_name := idx + 1)) hs)"

text \<open>The value of the signature header with the value of its first \<^verbatim>\<open>b=\<close> removed.\<close>

definition blank_b :: "string \<Rightarrow> string" where
  "blank_b dkim_value =
     (case find_sub ''b='' dkim_value of None \<Rightarrow> dkim_value
      | Some b_pos \<Rightarrow>
          (case find_ch CHR '';'' (drop (b_pos + 2) dkim_value) of
             None \<Rightarrow> take (b_pos + 2) dkim_value
           | Some n \<Rightarrow> take (b_pos + 2) dkim_value @ drop (b_pos + 2 + n) dkim_value))"

definition build_signed_header_block :: "string list \<Rightarrow> signature \<Rightarrow> string \<Rightarrow> string" where
  "build_signed_header_block all_raw_headers sig dkim_value =
     signed_part (foldl add_header (\<lambda>_. []) all_raw_headers) (sg_header_canon sig) (\<lambda>_. 0) (sg_signed_headers sig)
     @ canonicalize_header ''dkim-signature'' (blank_b dkim_value) (sg_header_canon sig)"

definition dkim_base64_decode :: "dkim_lib \<Rightarrow> string \<Rightarrow> byte list" where
  "dkim_base64_decode L b64 =
     (case b64_read L (filter (\<lambda>c. c \<notin> set ws4) b64) of None \<Rightarrow> [] | Some r \<Rightarrow> r)"

text \<open>
  The loop of \<^verbatim>\<open>do_verify\<close> that should split the header block: every line is appended to
  \<^verbatim>\<open>current\<close>, which is stored once, after the loop.
\<close>

fun join_headers :: "string \<Rightarrow> string list \<Rightarrow> string" where
  "join_headers current [] = current"
| "join_headers current (line0 # ls) =
     (let line = strip_cr line0 in
      if line = [] then current
      else if is_wsp (hd line) then join_headers (current @ [LF] @ line) ls
      else join_headers (current @ line) ls)"

definition header_lines :: "string \<Rightarrow> string list" where
  "header_lines raw_headers =
     (let current = join_headers [] (getlines LF raw_headers) in if current = [] then [] else [current])"

definition cut_body :: "int \<Rightarrow> string \<Rightarrow> string" where
  "cut_body l body = (if 0 \<le> l \<and> nat l < length body then take (nat l) body else body)"

section \<open>Verification\<close>

definition dkim_finish :: "signature \<Rightarrow> dkim_result \<Rightarrow> string \<Rightarrow> verify_result" where
  "dkim_finish sig res why = \<lparr>vr_result = res, vr_domain = sg_domain sig, vr_selector = sg_selector sig, vr_explanation = why\<rparr>"

definition alg_ok :: "signature \<Rightarrow> key_record \<Rightarrow> bool" where
  "alg_ok sig key \<longleftrightarrow> (sg_algorithm sig = ''rsa-sha256'' \<and> kr_key_type key = ''rsa'')
     \<or> (sg_algorithm sig = ''ed25519-sha256'' \<and> kr_key_type key = ''ed25519'')"

definition do_verify :: "dkim_lib \<Rightarrow> 64 word \<Rightarrow> signature \<Rightarrow> string \<Rightarrow> string \<Rightarrow> string \<Rightarrow> key_record \<Rightarrow> verify_result" where
  "do_verify L now sig raw_headers raw_body dkim_value key =
     (if \<not> alg_ok sig key
      then dkim_finish sig Dkim_PermError (''Algorithm mismatch: sig='' @ sg_algorithm sig @ '' key='' @ kr_key_type key)
      else if sg_expiry sig > 0 \<and> now > sg_expiry sig then dkim_finish sig Dkim_Fail ''Signature has expired''
      else
        let body_hash_b64 = b64_encode L (sha256 L (canonicalize_body (cut_body (sg_body_length sig) raw_body) (sg_body_canon sig)))
        in if body_hash_b64 \<noteq> sg_body_hash sig
           then dkim_finish sig Dkim_Fail
                  (''Body hash mismatch: computed= '' @ body_hash_b64 @ '' '' @ [LF] @ ''Expected= '' @ sg_body_hash sig)
           else
             let signed_block = build_signed_header_block (header_lines raw_headers) sig dkim_value;
                 signature_bytes = dkim_base64_decode L (sg_signature sig);
                 key_bytes = dkim_base64_decode L (kr_pk_b64 key)
             in if signature_bytes = [] \<or> key_bytes = []
                then dkim_finish sig Dkim_PermError ''Failed to decode signature or key''
                else if (if sg_algorithm sig = ''rsa-sha256''
                         then verify_rsa_sha256 L (sha256 L signed_block) signature_bytes key_bytes
                         else if sg_algorithm sig = ''ed25519-sha256''
                         then verify_ed25519 L (map byte_of signed_block) signature_bytes key_bytes
                         else False)
                then dkim_finish sig Dkim_Pass []
                else dkim_finish sig Dkim_Fail ''Signature verification failed'')"

definition key_text :: "resource_record list \<Rightarrow> string" where
  "key_text rs = (case find (\<lambda>r. case rr_rdata r of RDataTXT t \<Rightarrow> has_sub ''p='' t | _ \<Rightarrow> False) rs of
     None \<Rightarrow> [] | Some r \<Rightarrow> (case rr_rdata r of RDataTXT t \<Rightarrow> t | _ \<Rightarrow> []))"

type_synonym key_cache = "string \<rightharpoonup> key_record"

definition cache_name :: "signature \<Rightarrow> string" where
  "cache_name sig = sg_selector sig @ ''._domainkey.'' @ sg_domain sig"

definition fetch_key_and_verify ::
  "dkim_lib \<Rightarrow> dns_answers \<Rightarrow> 64 word \<Rightarrow> string \<Rightarrow> string \<Rightarrow> signature \<Rightarrow> string \<Rightarrow> key_cache \<Rightarrow> verify_result \<times> key_cache" where
  "fetch_key_and_verify L dns now raw_headers raw_body sig dkim_value cache =
     (let cached_key = cache_name sig in
      case cache cached_key of
        Some key \<Rightarrow> (do_verify L now sig raw_headers raw_body dkim_value key, cache)
      | None \<Rightarrow>
          let rr = dns RR_TXT cached_key in
          if rres_status rr = Timeout \<or> rres_status rr = ServFail
          then (dkim_finish sig Dkim_TempError (''DNS lookup failed for: '' @ cached_key), cache)
          else if rres_status rr = NXDomain \<or> rres_records rr = []
          then (dkim_finish sig Dkim_PermError (''No key record at: '' @ cached_key), cache)
          else if key_text (rres_records rr) = []
          then (dkim_finish sig Dkim_PermError
                  (''No DKIM key record (p= tag missing or incomplete) at: '' @ cached_key), cache)
          else (case parse_key_record (key_text (rres_records rr)) of
                  None \<Rightarrow> (dkim_finish sig Dkim_PermError (''Malformed DKIM key record at: '' @ cached_key), cache)
                | Some key \<Rightarrow>
                    (do_verify L now sig raw_headers raw_body dkim_value key, cache(cached_key \<mapsto> key))))"

fun verify_each ::
  "dkim_lib \<Rightarrow> dns_answers \<Rightarrow> 64 word \<Rightarrow> string \<Rightarrow> string \<Rightarrow> string list \<Rightarrow> key_cache \<Rightarrow> (verify_result list \<times> key_cache) cpp" where
  "verify_each L dns now hdrs body [] cache = Inr ([], cache)"
| "verify_each L dns now hdrs body (header_value # hs) cache =
     (case parse_signature header_value of
        Inl e \<Rightarrow> Inl e
      | Inr None \<Rightarrow>
          (case verify_each L dns now hdrs body hs cache of Inl e \<Rightarrow> Inl e
           | Inr (rs, cache') \<Rightarrow>
               Inr (\<lparr>vr_result = Dkim_PermError, vr_domain = [], vr_selector = [],
                     vr_explanation = ''Failed to parse DKIM-Signature''\<rparr> # rs, cache'))
      | Inr (Some sig) \<Rightarrow>
          (case fetch_key_and_verify L dns now hdrs body sig header_value cache of
             (r, cache1) \<Rightarrow>
               (case verify_each L dns now hdrs body hs cache1 of Inl e \<Rightarrow> Inl e
                | Inr (rs, cache') \<Rightarrow> Inr (r # rs, cache'))))"

definition dkim_verify ::
  "dkim_lib \<Rightarrow> dns_answers \<Rightarrow> 64 word \<Rightarrow> string \<Rightarrow> string \<Rightarrow> key_cache \<Rightarrow> (verify_result list \<times> key_cache) cpp" where
  "dkim_verify L dns now raw_headers raw_body cache =
     (if extract_dkim_headers raw_headers = []
      then Inr ([\<lparr>vr_result = Dkim_None, vr_domain = [], vr_selector = [],
                  vr_explanation = ''No DKIM-Signature header found''\<rparr>], cache)
      else verify_each L dns now raw_headers raw_body (extract_dkim_headers raw_headers) cache)"

section \<open>What a pass guarantees\<close>

text \<open>The key record that the name servers publish under a name.\<close>

definition published :: "dns_answers \<Rightarrow> string \<Rightarrow> key_record \<Rightarrow> bool" where
  "published dns n key \<longleftrightarrow> rres_status (dns RR_TXT n) \<notin> {Timeout, ServFail, NXDomain} \<and>
     key_text (rres_records (dns RR_TXT n)) \<noteq> [] \<and> parse_key_record (key_text (rres_records (dns RR_TXT n))) = Some key"

definition cache_ok :: "dns_answers \<Rightarrow> key_cache \<Rightarrow> bool" where
  "cache_ok dns cache \<longleftrightarrow> (\<forall>n key. cache n = Some key \<longrightarrow> published dns n key)"

text \<open>The cryptographic check of a signature over the header block and the one of the body.\<close>

definition signature_accepted :: "dkim_lib \<Rightarrow> signature \<Rightarrow> string \<Rightarrow> string \<Rightarrow> key_record \<Rightarrow> bool" where
  "signature_accepted L sig raw_headers dkim_value key =
     (let block = build_signed_header_block (header_lines raw_headers) sig dkim_value;
          s = dkim_base64_decode L (sg_signature sig); k = dkim_base64_decode L (kr_pk_b64 key)
      in s \<noteq> [] \<and> k \<noteq> [] \<and> (if kr_key_type key = ''rsa'' then verify_rsa_sha256 L (sha256 L block) s k
                             else verify_ed25519 L (map byte_of block) s k))"

definition body_matches :: "dkim_lib \<Rightarrow> signature \<Rightarrow> string \<Rightarrow> bool" where
  "body_matches L sig raw_body \<longleftrightarrow>
     b64_encode L (sha256 L (canonicalize_body (cut_body (sg_body_length sig) raw_body) (sg_body_canon sig))) = sg_body_hash sig"

lemma do_verify_pass:
  "vr_result (do_verify L now sig h b v key) = Dkim_Pass \<longleftrightarrow>
     alg_ok sig key \<and> (sg_expiry sig = 0 \<or> now \<le> sg_expiry sig) \<and> body_matches L sig b \<and> signature_accepted L sig h v key"
proof (cases "alg_ok sig key \<and> (sg_expiry sig = 0 \<or> now \<le> sg_expiry sig) \<and> body_matches L sig b")
  case True
  then consider "sg_algorithm sig = ''rsa-sha256''" "kr_key_type key = ''rsa''"
    | "sg_algorithm sig = ''ed25519-sha256''" "kr_key_type key = ''ed25519''"
    by (auto simp: alg_ok_def)
  then show ?thesis using True
    by cases (auto simp: do_verify_def dkim_finish_def signature_accepted_def body_matches_def Let_def word_gt_0)
next
  case False
  then show ?thesis by (auto simp: do_verify_def dkim_finish_def body_matches_def Let_def word_gt_0)
qed

lemma do_verify_domain [simp]:
  "vr_domain (do_verify L now sig h b v key) = sg_domain sig" "vr_selector (do_verify L now sig h b v key) = sg_selector sig"
  by (simp_all add: do_verify_def dkim_finish_def Let_def)

text \<open>What a passing result says about the signature header \<open>hv\<close> it belongs to.\<close>

definition justified :: "dkim_lib \<Rightarrow> dns_answers \<Rightarrow> 64 word \<Rightarrow> string \<Rightarrow> string \<Rightarrow> string \<Rightarrow> verify_result \<Rightarrow> bool" where
  "justified L dns now h b hv r \<longleftrightarrow> (\<exists>sig key. parse_signature hv = Inr (Some sig) \<and>
     vr_domain r = sg_domain sig \<and> vr_selector r = sg_selector sig \<and> published dns (cache_name sig) key \<and>
     alg_ok sig key \<and> (sg_expiry sig = 0 \<or> now \<le> sg_expiry sig) \<and> body_matches L sig b \<and>
     signature_accepted L sig h hv key)"

lemma fetch_sound:
  assumes "cache_ok dns cache" "fetch_key_and_verify L dns now h b sig hv cache = (r, cache')"
  shows "cache_ok dns cache' \<and> (vr_result r = Dkim_Pass \<longrightarrow> (\<exists>key. published dns (cache_name sig) key \<and>
    r = do_verify L now sig h b hv key))"
proof (cases "cache (cache_name sig)")
  case None
  show ?thesis
  proof (cases "\<exists>key. published dns (cache_name sig) key")
    case True
    then obtain key where k: "published dns (cache_name sig) key" by blast
    then have "rres_records (dns RR_TXT (cache_name sig)) \<noteq> []" by (auto simp: published_def key_text_def)
    with None k assms(2) have "r = do_verify L now sig h b hv key" "cache' = cache(cache_name sig \<mapsto> key)"
      by (auto simp: fetch_key_and_verify_def published_def)
    with k assms(1) show ?thesis by (auto simp: cache_ok_def)
  next
    case False
    with None assms show ?thesis
      by (auto simp: fetch_key_and_verify_def published_def dkim_finish_def Let_def split: if_splits option.splits)
  qed
next
  case (Some key)
  with assms show ?thesis by (auto simp: fetch_key_and_verify_def cache_ok_def)
qed

lemma verify_each_sound:
  assumes "cache_ok dns cache" "verify_each L dns now h b hvs cache = Inr (rs, cache')"
  shows "cache_ok dns cache' \<and> length rs = length hvs \<and>
    (\<forall>i < length hvs. vr_result (rs ! i) = Dkim_Pass \<longrightarrow> justified L dns now h b (hvs ! i) (rs ! i))"
  using assms
proof (induction hvs arbitrary: cache rs)
  case (Cons hv hvs)
  show ?case
  proof (cases "parse_signature hv")
    case (Inl e)
    with Cons.prems show ?thesis by simp
  next
    case (Inr sg)
    show ?thesis
    proof (cases sg)
      case None
      with Inr Cons.prems obtain rs' where "verify_each L dns now h b hvs cache = Inr (rs', cache')"
        "rs = \<lparr>vr_result = Dkim_PermError, vr_domain = [], vr_selector = [],
          vr_explanation = ''Failed to parse DKIM-Signature''\<rparr> # rs'" by (auto split: sum.splits)
      with Cons.IH[OF Cons.prems(1)] show ?thesis by (auto simp: nth_Cons split: nat.splits)
    next
      case (Some sig)
      obtain r c1 where f: "fetch_key_and_verify L dns now h b sig hv cache = (r, c1)" by fastforce
      note s = fetch_sound[OF Cons.prems(1) f]
      from Inr Some f Cons.prems(2) obtain rs' where v: "verify_each L dns now h b hvs c1 = Inr (rs', cache')" "rs = r # rs'"
        by (auto split: sum.splits)
      from Cons.IH[of c1 rs'] s v(1) have IH: "cache_ok dns cache' \<and> length rs' = length hvs \<and>
        (\<forall>i < length hvs. vr_result (rs' ! i) = Dkim_Pass \<longrightarrow> justified L dns now h b (hvs ! i) (rs' ! i))" by blast
      have "justified L dns now h b hv r" if "vr_result r = Dkim_Pass"
        using s that Inr Some unfolding justified_def by (metis do_verify_pass do_verify_domain)
      with IH v(2) show ?thesis by (auto simp: nth_Cons split: nat.splits)
    qed
  qed
qed simp

text \<open>
  C10. Soundness of DKIM: when a signature passes, the message has a \<^verbatim>\<open>DKIM-Signature\<close> header with that
  domain and selector, a matching key is published under them, the signature has not expired,
  the hash of the canonical body is the one signed, and the signature scheme accepted the
  signature on the header block under that key. There is one result per signature.
\<close>

theorem dkim_pass_sound:
  assumes "dkim_verify L dns now h b cache = Inr (rs, cache')" "cache_ok dns cache"
  shows "cache_ok dns cache' \<and> length rs = max 1 (length (extract_dkim_headers h)) \<and>
    (\<forall>r \<in> set rs. vr_result r = Dkim_Pass \<longrightarrow> (\<exists>hv \<in> set (extract_dkim_headers h). justified L dns now h b hv r))"
proof (cases "extract_dkim_headers h = []")
  case True
  with assms show ?thesis by (auto simp: dkim_verify_def)
next
  case False
  then have "1 \<le> length (extract_dkim_headers h)" by (cases "extract_dkim_headers h") auto
  moreover have "verify_each L dns now h b (extract_dkim_headers h) cache = Inr (rs, cache')"
    using False assms(1) by (simp add: dkim_verify_def)
  note s = verify_each_sound[OF assms(2) this]
  ultimately show ?thesis using s by (auto simp: in_set_conv_nth max_def) (metis nth_mem)
qed

section \<open>Exceptions\<close>

definition numeric :: "(string \<Rightarrow> 'a cpp) \<Rightarrow> string option \<Rightarrow> bool" where
  "numeric f t = (case t of None \<Rightarrow> True | Some v \<Rightarrow> (case f v of Inl e \<Rightarrow> False | Inr x \<Rightarrow> True))"

definition complete_tags :: "(string \<rightharpoonup> string) \<Rightarrow> bool" where
  "complete_tags tags \<longleftrightarrow> tags ''v'' = Some ''1'' \<and> tags ''a'' \<noteq> None \<and>
     (\<forall>k \<in> {''d'', ''s'', ''h'', ''bh'', ''b''}. tags k \<noteq> None \<and> tags k \<noteq> Some [])"

lemma parse_signature_throws:
  fixes hv
  defines "tags \<equiv> parse_tag_list hv"
  shows "(\<exists>e. parse_signature hv = Inl e) \<longleftrightarrow> complete_tags tags \<and>
    \<not> (numeric stoull (tags ''t'') \<and> numeric stoull (tags ''x'') \<and> numeric stoll (tags ''l''))"
  unfolding tags_def
  by (auto simp: parse_signature_def complete_tags_def numeric_def opt_tag_def Let_def split: option.splits sum.splits)

lemma verify_each_throws:
  "(\<exists>e. verify_each L dns now h b hvs cache = Inl e) \<longleftrightarrow> (\<exists>hv \<in> set hvs. \<exists>e. parse_signature hv = Inl e)"
proof (induction hvs arbitrary: cache)
  case (Cons hv hvs)
  show ?case
    using Cons[of cache] Cons[of "snd (fetch_key_and_verify L dns now h b (the (projr (parse_signature hv))) hv cache)"]
    by (auto split: sum.splits option.splits prod.splits)
qed simp

text \<open>
  The verifier raises an exception, which nothing catches, exactly when some signature header
  has all required tags and a time, expiry or length tag that is not a number in range: a
  message can be built that makes any call to \<^verbatim>\<open>verify\<close> throw.
\<close>

theorem dkim_verify_throws:
  "(\<exists>e. dkim_verify L dns now h b cache = Inl e) \<longleftrightarrow>
     (\<exists>hv \<in> set (extract_dkim_headers h). let tags = parse_tag_list hv in complete_tags tags \<and>
        \<not> (numeric stoull (tags ''t'') \<and> numeric stoull (tags ''x'') \<and> numeric stoll (tags ''l'')))"
  using verify_each_throws[of L dns now h b "extract_dkim_headers h" cache]
  by (auto simp: dkim_verify_def parse_signature_throws Let_def)

section \<open>What the signature does not cover\<close>

text \<open>
  Under relaxed canonicalisation without \<^verbatim>\<open>l=\<close> the verdict does not depend on the last character of
  a body that does not end in a line feed.
\<close>

theorem dkim_body_blind:
  assumes "sg_body_canon sig = ''relaxed''" "sg_body_length sig < 0" "c \<noteq> LF" "d \<noteq> LF"
  shows "do_verify L now sig h (b @ [c]) hv key = do_verify L now sig h (b @ [d]) hv key"
  using relaxed_body_blind[OF assms(3,4), of b] assms(1,2) by (simp add: do_verify_def cut_body_def)

lemma signed_part_single:
  assumes "hm = (\<lambda>_. [])(n := [v])"
  shows "signed_part hm m con hs = (if con n = 0 \<and> n \<in> set (map lower hs) then canonicalize_header n v m else [])"
proof (induction hs arbitrary: con)
  case (Cons x hs)
  show ?case
  proof (cases "lower x = n \<and> con n = 0")
    case True
    then have "signed_part hm m (con(n := Suc 0)) hs = []" by (simp add: Cons)
    with True assms show ?thesis by (simp add: Let_def fun_upd_def)
  next
    case False
    with assms Cons show ?thesis by (auto simp: Let_def)
  qed
qed simp

text \<open>
  The header block that is checked contains at most one header: the headers of the message are
  joined into one string, whose name is the name of the first header and whose value is all the
  rest. A signature over two or more headers therefore never verifies against the data that was
  signed.
\<close>

theorem signed_block_one_header:
  assumes "join_headers [] (getlines LF h) = n @ CHR '':'' # v" "CHR '':'' \<notin> set n"
  shows "build_signed_header_block (header_lines h) sig hv =
    (if lower n \<in> set (map lower (sg_signed_headers sig)) then canonicalize_header (lower n) v (sg_header_canon sig) else [])
    @ canonicalize_header ''dkim-signature'' (blank_b hv) (sg_header_canon sig)"
proof -
  have "header_lines h = [n @ CHR '':'' # v]" using assms(1) by (simp add: header_lines_def)
  moreover have "foldl add_header (\<lambda>_. []) [n @ CHR '':'' # v] = (\<lambda>_. [])(lower n := [v])"
    using find_ch_append[OF assms(2), of v] by (simp add: add_header_def Let_def)
  ultimately show ?thesis by (simp add: build_signed_header_block_def signed_part_single[OF refl])
qed

section \<open>Concrete instances\<close>

definition sample_dkim :: dkim_lib where
  "sample_dkim = \<lparr>sha256 = (\<lambda>s. [of_nat (length s)]), b64_encode = (\<lambda>bs. concat (map (\<lambda>b. dec (unat b)) bs)),
     b64_read = (\<lambda>s. Some (map byte_of s)), d2i_pubkey = (\<lambda>k. True), raw_pubkey = (\<lambda>k. False), pkey_ctx = True,
     md_ctx = True, verify_init = 1, rsa_padding = 1, signature_md = 1, pkey_verify = (\<lambda>k s h. if s = k then 1 else 0),
     digest_verify_init = 1, digest_verify = (\<lambda>k s d. 0), sign_init = 1, sign_update = (\<lambda>d. 1), sign_size = 1,
     sign_final = (\<lambda>d. (1, [0x6B]))\<rparr>"

definition sample_key_dns :: dns_answers where
  "sample_key_dns t n = (if n = ''s._domainkey.d'' then \<lparr>rres_status = OK, rres_records = [\<lparr>rr_name = n, rr_type = RR_TXT,
     rr_class = CLASS_IN, rr_ttl = 0, rr_rdata = RDataTXT ''v=DKIM1; p=k''\<rparr>]\<rparr> else answer NXDomain)"

definition sample_signed_headers :: string where
  "sample_signed_headers = ''From: a'' @ crlf @ ''DKIM-Signature: v=1; a=rsa-sha256; d=d; s=s; h=from; bh=4; b=k'' @ crlf"

lemma sample_dkim_run:
  "dkim_verify sample_dkim sample_key_dns 5 sample_signed_headers ''hi'' (\<lambda>_. None) = Inr (
     [\<lparr>vr_result = Dkim_Pass, vr_domain = ''d'', vr_selector = ''s'', vr_explanation = []\<rparr>],
     [''s._domainkey.d'' \<mapsto> \<lparr>kr_version = ''DKIM1'', kr_key_type = ''rsa'', kr_pk_b64 = ''k'', kr_hash_algos = [],
        kr_service_type = ''*'', kr_flags = []\<rparr>])"
proof -
  let ?hv = "'' v=1; a=rsa-sha256; d=d; s=s; h=from; bh=4; b=k''"
  have e: "extract_dkim_headers sample_signed_headers = [?hv]" by code_simp
  let ?sig = "\<lparr>sg_version = ''1'', sg_algorithm = ''rsa-sha256'', sg_domain = ''d'', sg_selector = ''s'',
    sg_signed_headers = [''from''], sg_body_hash = ''4'', sg_signature = ''k'', sg_canonicalization = ''simple/simple'',
    sg_query_method = ''dns/txt'', sg_timestamp = 0, sg_expiry = 0, sg_body_length = - 1, sg_agent = [],
    sg_copied_headers = [], sg_header_canon = ''simple'', sg_body_canon = ''simple''\<rparr>"
  have p: "parse_signature ?hv = Inr (Some ?sig)" by code_simp
  let ?key = "\<lparr>kr_version = ''DKIM1'', kr_key_type = ''rsa'', kr_pk_b64 = ''k'', kr_hash_algos = [],
    kr_service_type = ''*'', kr_flags = []\<rparr>"
  have k: "parse_key_record ''v=DKIM1; p=k'' = Some ?key" by code_simp
  have t: "has_sub ''p='' ''v=DKIM1; p=k''" by code_simp
  have n: "cache_name ?sig = ''s._domainkey.d''" by (simp add: cache_name_def)
  have d: "do_verify sample_dkim 5 ?sig sample_signed_headers ''hi'' ?hv ?key =
      \<lparr>vr_result = Dkim_Pass, vr_domain = ''d'', vr_selector = ''s'', vr_explanation = []\<rparr>" by code_simp
  have "fetch_key_and_verify sample_dkim sample_key_dns 5 sample_signed_headers ''hi'' ?sig ?hv (\<lambda>_. None) =
      (\<lparr>vr_result = Dkim_Pass, vr_domain = ''d'', vr_selector = ''s'', vr_explanation = []\<rparr>, [''s._domainkey.d'' \<mapsto> ?key])"
    unfolding fetch_key_and_verify_def Let_def n by (simp add: sample_key_dns_def key_text_def t k d)
  with e p show ?thesis by (simp add: dkim_verify_def)
qed

theorem dkim_pass_sound_witness:
  "\<exists>hv \<in> set (extract_dkim_headers sample_signed_headers). justified sample_dkim sample_key_dns 5 sample_signed_headers ''hi'' hv
     \<lparr>vr_result = Dkim_Pass, vr_domain = ''d'', vr_selector = ''s'', vr_explanation = []\<rparr>"
  using dkim_pass_sound[OF sample_dkim_run] by (simp add: cache_ok_def)

definition sample_sig :: signature where
  "sample_sig = \<lparr>sg_version = ''1'', sg_algorithm = ''rsa-sha256'', sg_domain = ''d'', sg_selector = ''s'',
    sg_signed_headers = [''from''], sg_body_hash = ''4'', sg_signature = ''k'', sg_canonicalization = ''relaxed/relaxed'',
    sg_query_method = ''dns/txt'', sg_timestamp = 0, sg_expiry = 0, sg_body_length = - 1, sg_agent = [],
    sg_copied_headers = [], sg_header_canon = ''relaxed'', sg_body_canon = ''relaxed''\<rparr>"

definition sample_key :: key_record where
  "sample_key = \<lparr>kr_version = ''DKIM1'', kr_key_type = ''rsa'', kr_pk_b64 = ''k'', kr_hash_algos = [],
    kr_service_type = ''*'', kr_flags = []\<rparr>"

theorem dkim_body_blind_witness:
  "do_verify sample_dkim 5 sample_sig sample_signed_headers (''pay 1'' @ ''0'') [] sample_key =
   do_verify sample_dkim 5 sample_sig sample_signed_headers (''pay 1'' @ ''9'') [] sample_key"
  by (rule dkim_body_blind) (simp_all add: sample_sig_def)

theorem signed_block_one_header_witness:
  "build_signed_header_block (header_lines (''From: a'' @ crlf @ ''To: b'' @ crlf)) sample_sig ''b=k'' =
     ''from:To: b'' @ crlf @ ''dkim-signature:='' @ crlf"
proof -
  have j: "join_headers [] (getlines LF (''From: a'' @ crlf @ ''To: b'' @ crlf)) = ''From'' @ CHR '':'' # '' aTo: b''" by code_simp
  have "build_signed_header_block (header_lines (''From: a'' @ crlf @ ''To: b'' @ crlf)) sample_sig ''b=k'' =
    (if lower ''From'' \<in> set (map lower (sg_signed_headers sample_sig)) then canonicalize_header (lower ''From'') '' aTo: b'' (sg_header_canon sample_sig) else [])
    @ canonicalize_header ''dkim-signature'' (blank_b ''b=k'') (sg_header_canon sample_sig)"
    by (rule signed_block_one_header[OF j]) simp
  also have "\<dots> = ''from:To: b'' @ crlf @ ''dkim-signature:='' @ crlf" by code_simp
  finally show ?thesis .
qed

end
