(* ===== verification/Dmarc.thy ===== *)
theory Dmarc
  imports Spf Dkim_Verifier
begin

text \<open>
  \<^verbatim>\<open>src/auth/dmarc/checker.cpp\<close>: DMARC evaluation (RFC 7489) over the SPF result and the DKIM
  results of a message. As in \<^theory_text>\<open>Spf\<close> the callbacks are in direct style and the name servers'
  answers are the argument \<open>dns\<close>. The theorems say when a message passes, what the alignment test
  compares, and what \<^verbatim>\<open>org_domain\<close> makes of a domain.
\<close>

datatype policy = Policy_None | Quarantine | Reject

datatype dmarc_result = Dmarc_Pass | Dmarc_Fail | Dmarc_PermError | Dmarc_TempError | Dmarc_None

definition policy_to_string :: "policy \<Rightarrow> string" where
  "policy_to_string p = (case p of Policy_None \<Rightarrow> ''none'' | Quarantine \<Rightarrow> ''quarantine'' | Reject \<Rightarrow> ''reject'')"

definition dmarc_result_to_string :: "dmarc_result \<Rightarrow> string" where
  "dmarc_result_to_string r = (case r of Dmarc_Fail \<Rightarrow> ''fail'' | Dmarc_None \<Rightarrow> ''none'' | Dmarc_Pass \<Rightarrow> ''pass''
     | Dmarc_PermError \<Rightarrow> ''permerror'' | Dmarc_TempError \<Rightarrow> ''temperror'')"

record check_result =
  cr_result :: dmarc_result
  cr_policy :: policy
  cr_spf_passed :: bool
  cr_dkim_passed :: bool
  cr_from_domain :: string
  cr_explanation :: string

record dmarc_record =
  dm_policy :: policy
  dm_subdomain_policy :: policy
  dm_adkim :: string
  dm_aspf :: string
  dm_rua :: string
  dm_ruf :: string
  dm_fo :: string
  dm_rf :: string
  dm_ri :: "32 word"

record dmarc_state =
  ds_from_domain :: string
  ds_mail_from_domain :: string
  ds_spf_result :: spf_result
  ds_dkim_results :: "verify_result list"

section \<open>Parsing\<close>

definition parse_policy :: "string \<Rightarrow> policy" where
  "parse_policy value =
     (if lower value = ''reject'' then Reject else if lower value = ''quarantine'' then Reject else Policy_None)"

definition dm_default :: dmarc_record where
  "dm_default = \<lparr>dm_policy = Policy_None, dm_subdomain_policy = Policy_None, dm_adkim = ''r'', dm_aspf = ''r'',
     dm_rua = [], dm_ruf = [], dm_fo = ''0'', dm_rf = ''afrf'', dm_ri = 86400\<rparr>"

definition set_tag :: "string \<Rightarrow> string \<Rightarrow> dmarc_record \<Rightarrow> dmarc_record" where
  "set_tag tag value rec =
     (if tag = ''p'' then rec\<lparr>dm_policy := parse_policy value\<rparr>
      else if tag = ''sp'' then rec\<lparr>dm_subdomain_policy := parse_policy value\<rparr>
      else if tag = ''adkim'' then rec\<lparr>dm_adkim := value\<rparr>
      else if tag = ''aspf'' then rec\<lparr>dm_aspf := value\<rparr>
      else if tag = ''rua'' then rec\<lparr>dm_rua := value\<rparr>
      else if tag = ''ruf'' then rec\<lparr>dm_ruf := value\<rparr>
      else if tag = ''fo'' then rec\<lparr>dm_fo := value\<rparr>
      else if tag = ''rf'' then rec\<lparr>dm_rf := value\<rparr>
      else if tag = ''ri'' then
        (case sto (- (2 ^ 64 - 1)) (2 ^ 64 - 1) value of Inl e \<Rightarrow> rec\<lparr>dm_ri := 86400\<rparr>
         | Inr v \<Rightarrow> rec\<lparr>dm_ri := word_of_int v\<rparr>)
      else rec)"

definition parse_token :: "dmarc_record \<Rightarrow> string \<Rightarrow> dmarc_record" where
  "parse_token rec token0 =
     (let token = trim_of [CHR '' '', TAB, CR, LF] token0 in
      if token = [] then rec
      else (case find_ch CHR ''='' token of None \<Rightarrow> rec
            | Some eq \<Rightarrow> set_tag (trim_of [CHR '' '', TAB] (take eq token))
                                (trim_of [CHR '' '', TAB] (drop (eq + 1) token)) rec))"

definition dmarc_parse_record :: "string \<Rightarrow> dmarc_record" where
  "dmarc_parse_record t =
     (let rec = foldl parse_token dm_default (getlines CHR '';'' t)
      in if dm_subdomain_policy rec = Policy_None \<and> dm_policy rec \<noteq> Policy_None
         then rec\<lparr>dm_subdomain_policy := dm_policy rec\<rparr> else rec)"

section \<open>Alignment\<close>

text \<open>
  The loop of \<^verbatim>\<open>org_domain\<close>: \<^verbatim>\<open>dot_count\<close> is computed once and never updated, so the loop cuts at
  the first dot until none is left.
\<close>

function strip_loop :: "nat \<Rightarrow> string \<Rightarrow> string" where
  "strip_loop dot_count result =
     (if dot_count < 2 then result
      else (case find_ch CHR ''.'' result of None \<Rightarrow> result
            | Some first_dot \<Rightarrow> strip_loop dot_count (drop (first_dot + 1) result)))"
  by pat_completeness auto
termination
  by (relation "measure (\<lambda>(n, s). length s)") (auto dest: find_ch_SomeD(1))

declare strip_loop.simps [simp del]

definition org_domain :: "string \<Rightarrow> string" where
  "org_domain domain = strip_loop (count_list domain CHR ''.'') domain"

definition aligned :: "string \<Rightarrow> string \<Rightarrow> string \<Rightarrow> bool" where
  "aligned domain_a domain_b mode =
     (let a = lower domain_a; b = lower domain_b
      in if mode = ''s'' then a = b else org_domain a = org_domain b)"

section \<open>Evaluation\<close>

definition dmarc_finish :: "dmarc_state \<Rightarrow> dmarc_result \<Rightarrow> policy \<Rightarrow> bool \<Rightarrow> bool \<Rightarrow> string \<Rightarrow> check_result" where
  "dmarc_finish st res pol spf dkim why = \<lparr>cr_result = res, cr_policy = pol, cr_spf_passed = spf,
     cr_dkim_passed = dkim, cr_from_domain = ds_from_domain st, cr_explanation = why\<rparr>"

definition yes_no :: "bool \<Rightarrow> string" where
  "yes_no b = (if b then ''yes'' else ''no'')"

definition dmarc_evaluate :: "dmarc_record \<Rightarrow> bool \<Rightarrow> dmarc_state \<Rightarrow> check_result" where
  "dmarc_evaluate rec is_subdomain st =
     (let used_policy = (if is_subdomain then dm_subdomain_policy rec else dm_policy rec);
          spf_aligned = (ds_spf_result st = Spf_Pass \<and>
                         aligned (ds_mail_from_domain st) (ds_from_domain st) (dm_aspf rec));
          dkim_aligned = list_ex (\<lambda>dr. vr_result dr = Dkim_Pass \<and>
                         aligned (vr_domain dr) (ds_from_domain st) (dm_adkim rec)) (ds_dkim_results st)
      in if spf_aligned \<or> dkim_aligned then dmarc_finish st Dmarc_Pass Policy_None spf_aligned dkim_aligned []
         else
           let applied_policy = (if used_policy = Policy_None then used_policy
                 else if dm_policy rec = Reject then Reject
                 else if dm_policy rec = Quarantine then Quarantine else used_policy)
           in dmarc_finish st Dmarc_Fail applied_policy spf_aligned dkim_aligned
                (''SPF aligned: '' @ yes_no spf_aligned @ '', DKIM aligned: '' @ yes_no dkim_aligned))"

definition dmarc_text :: "resource_record list \<Rightarrow> string" where
  "dmarc_text rs = (case find (\<lambda>r. case rr_rdata r of
       RDataTXT t \<Rightarrow> starts_with ''v=DMARC1'' t \<or> starts_with ''v=dmarc1'' t | _ \<Rightarrow> False) rs of
     None \<Rightarrow> [] | Some r \<Rightarrow> (case rr_rdata r of RDataTXT t \<Rightarrow> t | _ \<Rightarrow> []))"

text \<open>A failed lookup of the organisational domain falls back once to the domain itself.\<close>

definition dmarc_respond :: "string \<Rightarrow> resolve_result \<Rightarrow> dmarc_state \<Rightarrow> check_result option" where
  "dmarc_respond dmarc_domain rr st =
     (if rres_status rr = Timeout \<or> rres_status rr = ServFail
      then Some (dmarc_finish st Dmarc_TempError Policy_None False False (''DNS Error for: '' @ dmarc_domain))
      else if rres_status rr = NXDomain \<or> rres_records rr = [] then None
      else if dmarc_text (rres_records rr) = []
      then Some (dmarc_finish st Dmarc_None Policy_None False False ''DMARC record not found or empty'')
      else Some (dmarc_evaluate (dmarc_parse_record (dmarc_text (rres_records rr)))
                   (org_domain (ds_from_domain st) \<noteq> ds_from_domain st) st))"

definition dmarc_fetch :: "dns_answers \<Rightarrow> string \<Rightarrow> string \<Rightarrow> bool \<Rightarrow> dmarc_state \<Rightarrow> check_result" where
  "dmarc_fetch dns dmarc_domain from_domain is_subdomain_fallback st =
     (case dmarc_respond dmarc_domain (dns RR_TXT dmarc_domain) st of
        Some r \<Rightarrow> r
      | None \<Rightarrow>
          let fallback = ''_dmarc.'' @ from_domain;
              no_record = (\<lambda>d. dmarc_finish st Dmarc_None Policy_None False False (''No DMARC record for: '' @ d))
          in if \<not> is_subdomain_fallback then no_record dmarc_domain
             else (case dmarc_respond fallback (dns RR_TXT fallback) st of
                     Some r \<Rightarrow> r | None \<Rightarrow> no_record fallback))"

definition dmarc_check :: "dns_answers \<Rightarrow> string \<Rightarrow> string \<Rightarrow> spf_result \<Rightarrow> verify_result list \<Rightarrow> check_result" where
  "dmarc_check dns from_domain mail_from_domain spf dkims =
     (let st = \<lparr>ds_from_domain = from_domain, ds_mail_from_domain = mail_from_domain, ds_spf_result = spf,
                ds_dkim_results = dkims\<rparr>;
          root_domain = org_domain from_domain
      in dmarc_fetch dns (''_dmarc.'' @ root_domain) from_domain (root_domain \<noteq> from_domain) st)"

section \<open>What the loop computes\<close>

lemma strip_loop_last:
  assumes "2 \<le> n"
  shows "strip_loop n s = rev (takeWhile (\<lambda>c. c \<noteq> CHR ''.'') (rev s))"
proof (induction "length s" arbitrary: s rule: less_induct)
  case less
  show ?case
  proof (cases "find_ch CHR ''.'' s")
    case None
    then have "takeWhile (\<lambda>c. c \<noteq> CHR ''.'') (rev s) = rev s" by (auto simp: find_ch_None takeWhile_eq_all_conv)
    moreover have "strip_loop n s = s" using None assms by (simp add: strip_loop.simps)
    ultimately show ?thesis by (metis rev_rev_ident)
  next
    case (Some i)
    note i = find_ch_SomeD[OF Some]
    have "rev s = rev (drop (i + 1) s) @ CHR ''.'' # rev (take i s)"
      by (metis i(4) append_take_drop_id rev.simps(2) rev_append append.assoc append_Cons append_Nil Suc_eq_plus1)
    then have "takeWhile (\<lambda>c. c \<noteq> CHR ''.'') (rev s) = takeWhile (\<lambda>c. c \<noteq> CHR ''.'') (rev (drop (i + 1) s))"
      by (simp add: takeWhile_tail)
    moreover have "strip_loop n (drop (i + 1) s) = rev (takeWhile (\<lambda>c. c \<noteq> CHR ''.'') (rev (drop (i + 1) s)))"
      using i(1) by (intro less) simp
    ultimately show ?thesis using Some assms by (simp add: strip_loop.simps[of n s])
  qed
qed

lemma org_domain_last:
  "org_domain d = (if count_list d CHR ''.'' < 2 then d else rev (takeWhile (\<lambda>c. c \<noteq> CHR ''.'') (rev d)))"
proof (cases "count_list d CHR ''.'' < 2")
  case True
  then show ?thesis by (simp add: org_domain_def strip_loop.simps)
next
  case False
  then show ?thesis by (simp add: org_domain_def strip_loop_last)
qed

text \<open>
  \<^verbatim>\<open>org_domain\<close> leaves a domain with at most one dot alone and reduces every other domain to
  what follows its last dot: for \<^verbatim>\<open>mail.example.com\<close> the result is \<^verbatim>\<open>com\<close>.
\<close>

theorem org_domain_spec:
  "org_domain d = (if count_list d CHR ''.'' < 2 then d else rev (takeWhile (\<lambda>c. c \<noteq> CHR ''.'') (rev d)))"
  by (rule org_domain_last)


lemma takeWhile_tld: "CHR ''.'' \<notin> set t \<Longrightarrow> takeWhile (\<lambda>c. c \<noteq> CHR ''.'') (rev (d @ CHR ''.'' # t)) = rev t"
  by (simp add: takeWhile_append)

text \<open>
  Relaxed alignment compares top-level domains only: any two domains of three or more labels
  under the same top-level domain are aligned, so a message from one passes DMARC for
  the other on an SPF pass of an unrelated domain.
\<close>

theorem dmarc_relaxed_spoof:
  assumes "CHR ''.'' \<notin> set tld" "CHR ''.'' \<in> set victim" "CHR ''.'' \<in> set attacker" "dm_aspf rec \<noteq> ''s''"
    "ds_from_domain st = victim @ CHR ''.'' # tld" "ds_mail_from_domain st = attacker @ CHR ''.'' # tld"
    "ds_spf_result st = Spf_Pass"
  shows "cr_result (dmarc_evaluate rec sub st) = Dmarc_Pass"
proof -
  have low: "c \<in> set s \<Longrightarrow> tolower c = c \<Longrightarrow> c \<in> set (lower s)" for c s by (auto intro: rev_image_eqI)
  have dot: "tolower CHR ''.'' = CHR ''.''" by (simp add: tolower_def)
  have tldot: "CHR ''.'' \<notin> set (lower tld)"
  proof
    assume "CHR ''.'' \<in> set (lower tld)"
    then obtain c where c: "c \<in> set tld" "tolower c = CHR ''.''" by auto
    have "(of_char (tolower c) :: nat) = 46" by (simp add: c(2))
    then have "c = CHR ''.''" using c(2)
      by (cases "65 \<le> (of_char c :: nat) \<and> (of_char c :: nat) \<le> 90") (auto simp: tolower_def Let_def of_char_char_of_small)
    with c(1) assms(1) show False by simp
  qed
  have org: "org_domain (lower (d @ CHR ''.'' # tld)) = lower tld" if "CHR ''.'' \<in> set d" for d
  proof -
    have "0 < count_list (lower d) CHR ''.''" using low[OF that dot] by (simp add: count_list_0_iff neq0_conv[symmetric])
    then have "\<not> count_list (lower (d @ CHR ''.'' # tld)) CHR ''.'' < 2" by (simp add: dot)
    then show ?thesis using takeWhile_tld[OF tldot, of "lower d"] by (simp add: org_domain_last dot)
  qed
  have "aligned (ds_mail_from_domain st) (ds_from_domain st) (dm_aspf rec)"
    using assms(4) org[OF assms(2)] org[OF assms(3)] unfolding aligned_def assms(5,6) Let_def by simp
  with assms(7) show ?thesis by (simp add: dmarc_evaluate_def dmarc_finish_def Let_def)
qed

section \<open>Concrete instances\<close>

theorem dmarc_relaxed_spoof_witness:
  "cr_result (dmarc_evaluate dm_default False \<lparr>ds_from_domain = ''www.bank'' @ CHR ''.'' # ''com'',
     ds_mail_from_domain = ''a.evil'' @ CHR ''.'' # ''com'', ds_spf_result = Spf_Pass, ds_dkim_results = []\<rparr>) = Dmarc_Pass"
  by (rule dmarc_relaxed_spoof[where tld = "''com''" and victim = "''www.bank''" and attacker = "''a.evil''"])
    (simp_all add: dm_default_def)


end
