(* ===== verification/Dkim_Signer.thy ===== *)
theory Dkim_Signer
  imports Dkim_Verifier
begin

text \<open>
  \<^verbatim>\<open>src/auth/dkim/signer.cpp\<close>: the signature header of outgoing mail. The key file is read by the
  constructor (\<open>load_private_key\<close>); signing starts from a signer whose key is loaded, so the signing primitives are
  those of \<open>dkim_lib\<close>; each of their failures is an exception. The theorems relate the signer to the verifier of the
  same program: the header it writes is parsed to the values it was built from, and the data it
  signs is the data the verifier would have to rebuild.
\<close>

datatype canonicalization = Simple | Relaxed

record dkim_config =
  cf_domain :: string
  cf_selector :: string
  cf_header_canon :: canonicalization
  cf_body_canon :: canonicalization
  cf_signed_headers :: "string list"
  cf_signature_expiry :: "64 word"

definition default_config :: "string \<Rightarrow> string \<Rightarrow> dkim_config" where
  "default_config domain selector = \<lparr>cf_domain = domain, cf_selector = selector, cf_header_canon = Relaxed,
     cf_body_canon = Relaxed,
     cf_signed_headers = [''from'', ''to'', ''subject'', ''date'', ''message-id'', ''mime-version'', ''content-type''],
     cf_signature_expiry = 86400\<rparr>"

definition method_name :: "canonicalization \<Rightarrow> string" where
  "method_name m = (case m of Relaxed \<Rightarrow> ''relaxed'' | Simple \<Rightarrow> ''simple'')"

section \<open>Operations\<close>

text \<open>The constructor reads the key; both failures are exceptions.\<close>

definition load_private_key :: "(string \<Rightarrow> string option) \<Rightarrow> (string \<Rightarrow> 'k option) \<Rightarrow> string \<Rightarrow> 'k cpp" where
  "load_private_key open_file pem_read path =
     (case open_file path of
        None \<Rightarrow> Inl (Runtime_error (''[dkim_signer] [ERROR]: Failed to open DKIM private key: '' @ path))
      | Some pem \<Rightarrow> (case pem_read pem of
          None \<Rightarrow> Inl (Runtime_error ''[dkim_signer] [ERROR]: Failed to load DKIM private key'')
        | Some k \<Rightarrow> Inr k))"

text \<open>
  The signer has its own copy of the canonicalisation, with the loops of the verifier; the lemmas
  \<open>sg_canonicalize\<close> show that the two agree, which a signature that is to verify depends on.
\<close>

definition sg_canonicalize_body :: "string \<Rightarrow> string \<Rightarrow> string" where
  "sg_canonicalize_body body method =
     (if method = ''relaxed'' then relaxed_lines [] [] (getlines LF body)
      else
        let normalised = strip_crlf (normalise_nl [] body) @ crlf
        in if normalised = crlf then crlf else normalised)"

definition sg_canonicalize_header :: "string \<Rightarrow> string \<Rightarrow> string \<Rightarrow> string" where
  "sg_canonicalize_header name value method =
     (if method = ''relaxed''
      then
        let canon_name = lower name;
            canon_value = rtrim_sp (unfold_ws False False [] value)
        in if find_first_not_of [SP] canon_value \<noteq> None then canon_name @ '':'' @ drop 1 canon_value @ crlf
           else canon_name @ '':'' @ canon_value @ crlf
      else
        let result = name @ '':'' @ value
        in if length result < 2 \<or> drop (length result - 2) result \<noteq> crlf then result @ crlf else result)"

lemma sg_canonicalize [simp]:
  "sg_canonicalize_body body method = canonicalize_body body method"
  "sg_canonicalize_header name value method = canonicalize_header name value method"
  by (simp_all add: sg_canonicalize_body_def sg_canonicalize_header_def canonicalize_body_def canonicalize_header_def Let_def)

text \<open>
  \<^verbatim>\<open>parse_headers\<close>: the map from lower-case names to the values in order. A line without a colon
  stores the header before it and leaves it in place, so that header is stored again later.
\<close>

definition push_header :: "string \<Rightarrow> string \<Rightarrow> (string \<Rightarrow> string list) \<Rightarrow> (string \<Rightarrow> string list)" where
  "push_header name val result =
     (if name = [] then result else result(lower name := result (lower name) @ [val]))"

fun parse_header_lines :: "string \<Rightarrow> string \<Rightarrow> (string \<Rightarrow> string list) \<Rightarrow> string list \<Rightarrow> (string \<Rightarrow> string list)" where
  "parse_header_lines name val result [] = push_header name val result"
| "parse_header_lines name val result (line0 # ls) =
     (let line = strip_cr line0 in
      if line = [] then push_header name val result
      else if name \<noteq> [] \<and> is_wsp (hd line) then parse_header_lines name (val @ '' '' @ trim_of ws4 line) result ls
      else
        let result' = push_header name val result
        in (case find_ch CHR '':'' line of None \<Rightarrow> parse_header_lines name val result' ls
            | Some pos \<Rightarrow> parse_header_lines (take pos line) (trim_of ws4 (drop (pos + 1) line)) result' ls))"

definition parse_headers :: "string \<Rightarrow> (string \<Rightarrow> string list)" where
  "parse_headers headers = parse_header_lines [] [] (\<lambda>_. []) (getlines LF headers)"

fun build_header_list :: "string list \<Rightarrow> string" where
  "build_header_list [] = []"
| "build_header_list [h] = lower h"
| "build_header_list (h # k # hs) = lower h @ '':'' @ build_header_list (k # hs)"

definition build_signature_header :: "dkim_config \<Rightarrow> string \<Rightarrow> string \<Rightarrow> 64 word \<Rightarrow> 64 word \<Rightarrow> string" where
  "build_signature_header cfg body_hash header_list timestamp expiry =
     ''DKIM-Signature: '' @ ''v=1; '' @ ''a=rsa-sha256; '' @ ''c='' @ method_name (cf_header_canon cfg) @ ''/''
     @ method_name (cf_body_canon cfg) @ ''; '' @ ''d='' @ cf_domain cfg @ ''; '' @ ''s='' @ cf_selector cfg @ ''; ''
     @ ''t='' @ dec (unat timestamp) @ ''; ''
     @ (if expiry \<noteq> 0 then ''x='' @ dec (unat (timestamp + expiry)) @ ''; '' else [])
     @ ''h='' @ header_list @ ''; '' @ ''bh='' @ body_hash @ ''; '' @ ''b=''"

text \<open>Everything after the first \<^verbatim>\<open>b=\<close> is erased; the 16 characters of \<^verbatim>\<open>DKIM-Signature: \<close> are skipped.\<close>

definition erase_b :: "string \<Rightarrow> string" where
  "erase_b dkim = (case find_sub ''b='' dkim of None \<Rightarrow> dkim | Some pos \<Rightarrow> take (pos + 2) dkim)"

definition build_signing_data :: "dkim_config \<Rightarrow> string \<Rightarrow> string \<Rightarrow> string cpp" where
  "build_signing_data cfg headers dkim_header =
     (let parsed = parse_headers headers;
          method = method_name (cf_header_canon cfg);
          signing = concat (map (\<lambda>name. let vs = parsed (lower name)
                                        in if vs = [] then [] else sg_canonicalize_header name (last vs) method)
                               (cf_signed_headers cfg));
          dkim = erase_b dkim_header
      in if length dkim < 16 then Inl Out_of_range
         else Inr (signing @ sg_canonicalize_header ''DKIM-Signature'' (drop 16 dkim) method))"

definition rsa_sha256_sign :: "dkim_lib \<Rightarrow> string \<Rightarrow> string cpp" where
  "rsa_sha256_sign L data =
     (if \<not> md_ctx L then Inl (Runtime_error ''[dkim_signer] [ERROR]: EVP_MD_CTX_new failed to initialise'')
      else if sign_init L \<noteq> 1 then Inl (Runtime_error ''[dkim_signer] [ERROR]: EVP_DigestSignInit failed to initialise'')
      else if sign_update L data \<noteq> 1
      then Inl (Runtime_error ''[dkim_signer] [ERROR]: EVP_DigestSignUpdate failed to update signing data'')
      else if sign_size L \<noteq> 1
      then Inl (Runtime_error ''[dkim_signer] [ERROR]: EVP_DigestSignFinal(size) test failed to set signing size'')
      else (case sign_final L data of (r, sig) \<Rightarrow>
              if r \<noteq> 1 then Inl (Runtime_error ''[dkim_signer] [ERROR]: EVP_DigestSignFinal failed to sign data'')
              else Inr (b64_encode L sig)))"

definition dkim_sign :: "dkim_lib \<Rightarrow> dkim_config \<Rightarrow> 64 word \<Rightarrow> string \<Rightarrow> string \<Rightarrow> string cpp" where
  "dkim_sign L cfg timestamp headers body =
     (let canon_body = sg_canonicalize_body body (method_name (cf_body_canon cfg));
          body_hash = b64_encode L (sha256 L canon_body);
          dkim_header = build_signature_header cfg body_hash (build_header_list (cf_signed_headers cfg)) timestamp
                          (cf_signature_expiry cfg)
      in case build_signing_data cfg headers dkim_header of Inl e \<Rightarrow> Inl e
         | Inr signing_data \<Rightarrow> (case rsa_sha256_sign L signing_data of Inl e \<Rightarrow> Inl e
             | Inr signature \<Rightarrow> Inr (headers @ dkim_header @ signature)))"

section \<open>The signature header is parsed back\<close>

lemma rsa_sign_Inr: "rsa_sha256_sign L data = Inr b \<Longrightarrow> \<exists>sig. sign_final L data = (1, sig) \<and> b = b64_encode L sig"
  by (auto simp: rsa_sha256_sign_def split: if_splits prod.splits)

text \<open>Text that survives a tag list: no white space and no semicolon.\<close>

definition plain_char :: "char \<Rightarrow> bool" where
  "plain_char c \<longleftrightarrow> c \<notin> set ws4 \<and> c \<noteq> CHR '';''"

definition plain_text :: "string \<Rightarrow> bool" where
  "plain_text s \<longleftrightarrow> s \<noteq> [] \<and> (\<forall>c \<in> set s. plain_char c)"

lemma plain_textD:
  assumes "plain_text s"
  shows "s \<noteq> []" "CHR '';'' \<notin> set s" "hd s \<notin> set ws4" "last s \<notin> set ws4" "set s \<inter> set ws4 = {}"
proof -
  have c: "\<forall>c \<in> set s. c \<notin> set ws4 \<and> c \<noteq> CHR '';''" and n: "s \<noteq> []"
    using assms unfolding plain_text_def plain_char_def by blast+
  from n show "s \<noteq> []" .
  from c show "CHR '';'' \<notin> set s" "set s \<inter> set ws4 = {}" by blast+
  from c hd_in_set[OF n] show "hd s \<notin> set ws4" by blast
  from c last_in_set[OF n] show "last s \<notin> set ws4" by blast
qed

lemma plain_text_append [simp]: "plain_text s \<Longrightarrow> plain_text t \<Longrightarrow> plain_text (s @ t)"
  by (simp add: plain_text_def ball_Un)

lemma plain_char_digit: "isdigit c \<Longrightarrow> plain_char c"
  by (auto simp: plain_char_def ws4_def isdigit_def)

lemma plain_text_dec [simp]: "plain_text (dec n)"
  using dec_digits[of _ n] plain_char_digit by (simp add: plain_text_def)

lemma plain_text_method [simp]: "plain_text (method_name m)"
proof (cases m)
  case Simple
  show ?thesis unfolding Simple by code_simp
next
  case Relaxed
  show ?thesis unfolding Relaxed by code_simp
qed

lemma plain_text_sep [simp]: "plain_text ''/''" "plain_text '':''" "plain_text ''rsa-sha256''" "plain_text ''1''"
  "plain_text ''v''" "plain_text ''a''" "plain_text ''c''" "plain_text ''d''" "plain_text ''s''" "plain_text ''t''"
  "plain_text ''x''" "plain_text ''h''" "plain_text ''bh''" "plain_text ''b''"
  by code_simp+

lemma plain_char_tolower: "plain_char (tolower c) = plain_char c"
proof -
  have "tolower c = d \<longleftrightarrow> c = d" if "d \<in> set (CHR '';'' # ws4)" for d
    using that by (intro tolower_eq_other) (auto simp: ws4_def)
  then show ?thesis unfolding plain_char_def by (metis list.set_intros(1,2))
qed

lemma clean_plain: "set s \<inter> set ws4 = {} \<Longrightarrow> clean_value False clean s = clean @ s"
  by (induction s arbitrary: clean) auto

lemma trim_plain: "plain_text s \<Longrightarrow> trim_of ws4 s = s"
  by (intro trim_set_id) (simp_all add: plain_textD)

lemma add_tag_plain:
  assumes k: "plain_text k" "CHR ''='' \<notin> set k" and v: "plain_text v"
  shows "add_tag tags (SP # k @ CHR ''='' # v) = tags(k \<mapsto> v)"
proof -
  have "trim_of ws4 (SP # k @ CHR ''='' # v) = k @ CHR ''='' # v"
  proof (rule trim_set_lead)
    show "hd (k @ CHR ''='' # v) \<notin> set ws4" using plain_textD(1,3)[OF k(1)] by simp
    show "last (k @ CHR ''='' # v) \<notin> set ws4"
      using plain_textD(1,4)[OF v] by simp
  qed (simp_all add: ws4_def)
  moreover have "find_ch CHR ''='' (k @ CHR ''='' # v) = Some (length k)" by (rule find_ch_append) fact
  moreover have "clean_value False [] v = v" using clean_plain[OF plain_textD(5)[OF v], of "[]"] by simp
  ultimately show ?thesis using plain_textD(1)[OF k(1)] by (simp add: add_tag_def trim_plain[OF k(1)] trim_plain[OF v])
qed

lemma parse_tag_pieces:
  assumes "\<forall>(k, v) \<in> set kvs. plain_text k \<and> CHR ''='' \<notin> set k \<and> plain_text v"
  shows "foldl add_tag tags (map (\<lambda>(k, v). SP # k @ CHR ''='' # v) kvs) = tags ++ map_of (rev kvs)"
  using assms by (induction kvs arbitrary: tags) (auto simp: add_tag_plain fun_eq_iff map_add_def split: option.splits)

text \<open>A list of tags as the signer writes it.\<close>

definition tag_text :: "(string \<times> string) list \<Rightarrow> string" where
  "tag_text kvs = concat (map (\<lambda>(k, v). SP # k @ CHR ''='' # v @ '';'') (butlast kvs))
     @ (case last kvs of (k, v) \<Rightarrow> SP # k @ CHR ''='' # v)"

lemma parse_tag_text:
  assumes "kvs \<noteq> []" "\<forall>(k, v) \<in> set kvs. plain_text k \<and> CHR ''='' \<notin> set k \<and> plain_text v"
  shows "parse_tag_list (tag_text kvs) = map_of (rev kvs)"
proof -
  let ?p = "\<lambda>(k, v). SP # k @ CHR ''='' # v"
  have p: "CHR '';'' \<notin> set (?p kv)" if "kv \<in> set kvs" for kv
    using assms(2) that plain_textD(2) by (auto simp: split_def)
  have n1: "\<forall>q \<in> set (map ?p (butlast kvs)). CHR '';'' \<notin> set q"
  proof
    fix q assume "q \<in> set (map ?p (butlast kvs))"
    then obtain kv where kv: "kv \<in> set (butlast kvs)" "q = ?p kv" unfolding set_map by (rule imageE)
    show "CHR '';'' \<notin> set q" unfolding kv(2) by (rule p[OF in_set_butlastD[OF kv(1)]])
  qed
  have n2: "CHR '';'' \<notin> set (?p (last kvs))" by (rule p[OF last_in_set[OF assms(1)]])
  have n3: "?p (last kvs) \<noteq> []" by (simp add: split_def)
  have "tag_text kvs = concat (map (\<lambda>p. p @ [CHR '';'']) (map ?p (butlast kvs))) @ ?p (last kvs)"
    unfolding tag_text_def by (simp add: comp_def split_def)
  then have "getlines CHR '';'' (tag_text kvs) = map ?p (butlast kvs) @ [?p (last kvs)]"
    using getlines_join_last[OF n1 n2 n3] by (rule trans[OF arg_cong])
  also have "\<dots> = map ?p (butlast kvs @ [last kvs])" by (simp only: map_append list.map)
  also have "\<dots> = map ?p kvs" by (simp only: append_butlast_last_id[OF assms(1)])
  finally have "parse_tag_list (tag_text kvs) = foldl add_tag (\<lambda>_. None) (map ?p kvs)"
    unfolding parse_tag_list_def by (rule arg_cong)
  then show ?thesis unfolding parse_tag_pieces[OF assms(2)] by (simp only: empty_map_add)
qed

definition signature_tags :: "dkim_config \<Rightarrow> string \<Rightarrow> string \<Rightarrow> 64 word \<Rightarrow> string \<Rightarrow> (string \<times> string) list" where
  "signature_tags cfg bh hl t sig =
     [(''v'', ''1''), (''a'', ''rsa-sha256''), (''c'', method_name (cf_header_canon cfg) @ ''/'' @ method_name (cf_body_canon cfg)),
      (''d'', cf_domain cfg), (''s'', cf_selector cfg), (''t'', dec (unat t))]
     @ (if cf_signature_expiry cfg \<noteq> 0 then [(''x'', dec (unat (t + cf_signature_expiry cfg)))] else [])
     @ [(''h'', hl), (''bh'', bh), (''b'', sig)]"

lemma signature_header_text:
  "build_signature_header cfg bh hl t (cf_signature_expiry cfg) @ sig = ''DKIM-Signature:'' @ tag_text (signature_tags cfg bh hl t sig)"
  by (simp add: build_signature_header_def tag_text_def signature_tags_def)

lemma header_list_plain:
  assumes "\<forall>h \<in> set hs. plain_text h" "hs \<noteq> []"
  shows "plain_text (build_header_list hs)"
proof -
  have "plain_text (lower h)" if "plain_text h" for h
    using that plain_char_tolower by (simp add: plain_text_def)
  with assms show ?thesis
    by (induction hs rule: build_header_list.induct) (simp_all del: append.simps)
qed

text \<open>A header name as the configuration lists them: plain text without a colon.\<close>

definition plain_name :: "string \<Rightarrow> bool" where
  "plain_name h \<longleftrightarrow> plain_text h \<and> CHR '':'' \<notin> set h"

lemma plain_name_lower:
  assumes "plain_name h" shows "plain_name (lower h)"
proof -
  have "tolower c = CHR '':'' \<longleftrightarrow> c = CHR '':''" for c by (rule tolower_eq_other; code_simp)
  then have "CHR '':'' \<notin> set (lower h)"
    using assms unfolding plain_name_def set_map by (metis imageE)
  moreover have "plain_text (lower h)"
    using assms plain_char_tolower by (simp add: plain_name_def plain_text_def)
  ultimately show ?thesis by (simp add: plain_name_def)
qed

lemma build_header_list_join:
  "hs \<noteq> [] \<Longrightarrow> build_header_list hs = concat (map (\<lambda>p. p @ [CHR '':'']) (map lower (butlast hs))) @ lower (last hs)"
  by (induction hs rule: build_header_list.induct) simp_all

lemma concat_map_single: "(\<And>x. x \<in> set xs \<Longrightarrow> f x = [g x]) \<Longrightarrow> concat (map f xs) = map g xs"
  by (induction xs) simp_all

lemma header_names_list:
  assumes "hs \<noteq> []" "\<forall>h \<in> set hs. plain_name h"
  shows "header_names (build_header_list hs) = map lower hs"
proof -
  have pl: "plain_name (lower h)" if "h \<in> set hs" for h using assms(2) that plain_name_lower by blast
  have keep: "(if find_first_not_of [SP, TAB] (lower h) = None then [] else [trim_of [SP, TAB] (lower h)]) = [lower h]"
    if "h \<in> set hs" for h
  proof -
    have d: "lower h \<noteq> []" "hd (lower h) \<notin> set [SP, TAB]" "last (lower h) \<notin> set [SP, TAB]"
      using plain_textD[of "lower h"] pl[OF that] by (simp_all add: plain_name_def ws4_def)
    then have "trim_of [SP, TAB] (lower h) = lower h" by (rule trim_set_id)
    moreover have "find_first_not_of [SP, TAB] (lower h) = Some 0" using d
      by (cases "lower h") (simp_all add: find_first_not_of_hd)
    ultimately show ?thesis by simp
  qed
  have "getlines CHR '':'' (build_header_list hs) = map lower (butlast hs) @ [lower (last hs)]"
    unfolding build_header_list_join[OF assms(1)]
  proof (rule getlines_join_last)
    show "\<forall>p \<in> set (map lower (butlast hs)). CHR '':'' \<notin> set p"
      using pl in_set_butlastD by (fastforce simp: plain_name_def)
    show "CHR '':'' \<notin> set (lower (last hs))" "lower (last hs) \<noteq> []"
      using pl[OF last_in_set[OF assms(1)]] by (simp_all add: plain_name_def plain_text_def)
  qed
  also have "\<dots> = map lower (butlast hs @ [last hs])" by (simp only: map_append list.map)
  also have "\<dots> = map lower hs" by (simp only: append_butlast_last_id[OF assms(1)])
  finally show ?thesis unfolding header_names_def
    by (simp only: map_map comp_def) (rule concat_map_single, rule keep)
qed

lemma plain_name_list: "\<forall>h \<in> set hs. plain_name h \<Longrightarrow> hs \<noteq> [] \<Longrightarrow> plain_text (build_header_list hs)"
  by (intro header_list_plain) (simp_all add: plain_name_def)

lemma stoull_dec: "stoull (dec (unat (w :: 64 word))) = Inr w"
proof -
  have "uint w < 2 ^ 64" using uint_lt2p[of w] by simp
  then have "sto (- (2 ^ 64 - 1)) (2 ^ 64 - 1) (dec (unat w)) = Inr (int (unat w))"
    by (intro sto_dec) (simp_all add: order_trans[OF _ uint_ge_0])
  then show ?thesis by (simp add: stoull_def)
qed

lemma split_canon_methods: "split_canon (method_name m @ ''/'' @ method_name k) = (method_name m, method_name k)"
  by (cases m; cases k; simp only: method_name_def canonicalization.case) code_simp+

lemma signature_tags_plain:
  assumes "plain_text (cf_domain cfg)" "plain_text (cf_selector cfg)" "plain_text bh" "plain_text hl" "plain_text sg"
  shows "\<forall>(k, v) \<in> set (signature_tags cfg bh hl t sg). plain_text k \<and> CHR ''='' \<notin> set k \<and> plain_text v"
  using assms by (simp add: signature_tags_def del: append_Cons append_Nil)

lemma signature_tags_lookup:
  defines "tg \<equiv> \<lambda>cfg bh hl t sg. map_of (rev (signature_tags cfg bh hl t sg))"
  shows "tg cfg bh hl t sg ''v'' = Some ''1''" "tg cfg bh hl t sg ''a'' = Some ''rsa-sha256''"
    "tg cfg bh hl t sg ''c'' = Some (method_name (cf_header_canon cfg) @ ''/'' @ method_name (cf_body_canon cfg))"
    "tg cfg bh hl t sg ''d'' = Some (cf_domain cfg)" "tg cfg bh hl t sg ''s'' = Some (cf_selector cfg)"
    "tg cfg bh hl t sg ''t'' = Some (dec (unat t))"
    "tg cfg bh hl t sg ''x'' = (if cf_signature_expiry cfg \<noteq> 0 then Some (dec (unat (t + cf_signature_expiry cfg))) else None)"
    "tg cfg bh hl t sg ''h'' = Some hl" "tg cfg bh hl t sg ''bh'' = Some bh" "tg cfg bh hl t sg ''b'' = Some sg"
    "tg cfg bh hl t sg ''l'' = None" "tg cfg bh hl t sg ''q'' = None" "tg cfg bh hl t sg ''i'' = None"
    "tg cfg bh hl t sg ''z'' = None"
  by (simp_all add: tg_def signature_tags_def)

section \<open>Signer and verifier agree\<close>

lemma parse_built_header:
  assumes "plain_text (cf_domain cfg)" "plain_text (cf_selector cfg)" "plain_text bh" "plain_text sg"
    and "hs \<noteq> []" "\<forall>h \<in> set hs. plain_name h"
  shows "parse_signature (drop 15 (build_signature_header cfg bh (build_header_list hs) t (cf_signature_expiry cfg) @ sg)) =
    Inr (Some \<lparr>sg_version = ''1'', sg_algorithm = ''rsa-sha256'', sg_domain = cf_domain cfg, sg_selector = cf_selector cfg,
      sg_signed_headers = map lower hs, sg_body_hash = bh, sg_signature = sg,
      sg_canonicalization = method_name (cf_header_canon cfg) @ ''/'' @ method_name (cf_body_canon cfg),
      sg_query_method = ''dns/txt'', sg_timestamp = t,
      sg_expiry = (if cf_signature_expiry cfg = 0 then 0 else t + cf_signature_expiry cfg),
      sg_body_length = - 1, sg_agent = [], sg_copied_headers = [],
      sg_header_canon = method_name (cf_header_canon cfg), sg_body_canon = method_name (cf_body_canon cfg)\<rparr>)"
proof -
  let ?tags = "signature_tags cfg bh (build_header_list hs) t sg"
  have "drop 15 (build_signature_header cfg bh (build_header_list hs) t (cf_signature_expiry cfg) @ sg) = tag_text ?tags"
    unfolding signature_header_text by simp
  moreover have "parse_tag_list (tag_text ?tags) = map_of (rev ?tags)"
    using assms by (intro parse_tag_text signature_tags_plain plain_name_list) (simp_all add: signature_tags_def)
  moreover have "build_header_list hs \<noteq> []" using plain_textD(1)[OF plain_name_list] assms(5,6) by blast
  ultimately show ?thesis
    using plain_textD(1)[OF assms(1)] plain_textD(1)[OF assms(2)] plain_textD(1)[OF assms(3)] plain_textD(1)[OF assms(4)]
    by (simp add: parse_signature_def signature_tags_lookup opt_tag_def stoull_dec str_tag_def split_canon_methods
        header_names_list[OF assms(5,6)] Let_def del: append.simps)
qed

text \<open>
  The header the signer writes, read by the verifier: the parser accepts it and returns
  the configured domain, selector and canonicalisations, the signed names in lower case, the body
  hash, the time stamps with the 64-bit sum of the expiry and the signature, no length limit.
\<close>

theorem signer_roundtrip:
  assumes "plain_text (cf_domain cfg)" "plain_text (cf_selector cfg)" "plain_text bh" "plain_text sg"
    and "hs \<noteq> []" "\<forall>h \<in> set hs. plain_name h"
  shows "parse_signature (drop 15 (build_signature_header cfg bh (build_header_list hs) t (cf_signature_expiry cfg) @ sg)) =
    Inr (Some \<lparr>sg_version = ''1'', sg_algorithm = ''rsa-sha256'', sg_domain = cf_domain cfg, sg_selector = cf_selector cfg,
      sg_signed_headers = map lower hs, sg_body_hash = bh, sg_signature = sg,
      sg_canonicalization = method_name (cf_header_canon cfg) @ ''/'' @ method_name (cf_body_canon cfg),
      sg_query_method = ''dns/txt'', sg_timestamp = t,
      sg_expiry = (if cf_signature_expiry cfg = 0 then 0 else t + cf_signature_expiry cfg),
      sg_body_length = - 1, sg_agent = [], sg_copied_headers = [],
      sg_header_canon = method_name (cf_header_canon cfg), sg_body_canon = method_name (cf_body_canon cfg)\<rparr>)"
  using assms by (rule parse_built_header)

definition sample_config :: dkim_config where
  "sample_config = default_config ''example.org'' ''mail''"

theorem signer_roundtrip_witness:
  "map_option sg_expiry (case parse_signature (drop 15 (build_signature_header sample_config ''aGFzaA''
       (build_header_list [''From'', ''To'']) 1700000000 (cf_signature_expiry sample_config) @ ''c2ln'')) of Inr r \<Rightarrow> r)
     = Some 1700086400"
  by (subst signer_roundtrip; code_simp)

lemma find_sub_drop: "p \<noteq> [] \<Longrightarrow> find_sub p s = Some i \<Longrightarrow> k \<le> i \<Longrightarrow> find_sub p (drop k s) = Some (i - k)"
proof (induction s arbitrary: i k)
  case (Cons x xs)
  show ?case
  proof (cases k)
    case (Suc k')
    with Cons.prems obtain j where "find_sub p xs = Some j" "i = Suc j" by (auto split: if_splits)
    with Suc Cons.IH[of j k'] Cons.prems show ?thesis by simp
  qed (use Cons.prems in simp)
qed simp

lemma starts_with_length: "starts_with p s \<Longrightarrow> length p \<le> length s"
  by (metis starts_with_def length_take min.cobounded1)

lemma starts_with_append: "starts_with p s \<Longrightarrow> starts_with p (s @ t)"
  using starts_with_length[of p s] by (simp add: starts_with_def)

lemma find_sub_append: "find_sub p s = Some i \<Longrightarrow> find_sub p (s @ t) = Some i"
proof (induction s arbitrary: i)
  case Nil
  then show ?case by (cases t) (simp_all add: starts_with_def split: if_splits)
next
  case (Cons x xs)
  show ?case
  proof (cases "starts_with p (x # xs)")
    case True
    with Cons.prems starts_with_append[OF True, of t] show ?thesis by simp
  next
    case False
    with Cons.prems obtain j where j: "find_sub p xs = Some j" "i = Suc j" by auto
    then have "starts_with p (drop j xs)" using find_sub_SomeD by blast
    then have "length p \<le> length xs" using starts_with_length[of p "drop j xs"] by simp
    then have "take (length p) (x # xs @ t) = take (length p) (x # xs)" by (cases "length p") simp_all
    with False have "\<not> starts_with p (x # xs @ t)" by (simp only: starts_with_def simp_thms)
    with j Cons.IH show ?thesis by simp
  qed
qed

lemma relaxed_value_lead: "relaxed_value (SP # v) = relaxed_value v"
  by (cases v) (simp_all add: relaxed_value_def)

text \<open>
  The signature header as a part of the signed data: what the verifier rebuilds from the finished
  header is what the signer hashed if and only if the header canonicalisation is relaxed. With
  \<^verbatim>\<open>simple\<close> the two sides differ in the case of the name and the blank after the colon, so a message
  that this program signs that way never verifies with it.
\<close>

theorem signature_header_rebuilt:
  fixes cfg bh hl t sg
  defines "hdr \<equiv> build_signature_header cfg bh hl t (cf_signature_expiry cfg)"
  assumes "find_sub ''b='' hdr = Some (length hdr - 2)" "CHR '';'' \<notin> set sg"
  shows "canonicalize_header ''dkim-signature'' (blank_b (drop 15 (hdr @ sg))) (method_name m)
       = canonicalize_header ''DKIM-Signature'' (drop 16 (erase_b hdr)) (method_name m) \<longleftrightarrow> m = Relaxed"
proof -
  obtain v where v: "hdr = ''DKIM-Signature:'' @ SP # v" "length v \<ge> 2"
    by (simp add: hdr_def build_signature_header_def)
  have "blank_b (drop 15 (hdr @ sg)) = SP # v"
  proof -
    have "find_sub ''b='' (drop 15 (hdr @ sg)) = Some (length v - 1)"
      using find_sub_drop[OF _ find_sub_append[OF assms(2), of sg], of 15] v(2) by (simp add: v(1))
    moreover have "find_ch CHR '';'' sg = None" using assms(3) by (simp add: find_ch_None)
    ultimately show ?thesis using v(2) by (simp add: blank_b_def v(1))
  qed
  moreover have "drop 16 (erase_b hdr) = v" using assms(2) v(2) by (simp add: erase_b_def v(1))
  moreover have "lower ''dkim-signature'' = lower ''DKIM-Signature''" by code_simp
  ultimately show ?thesis
  proof (cases m)
    case Relaxed
    then show ?thesis using \<open>blank_b _ = _\<close> \<open>drop 16 _ = _\<close> \<open>lower _ = _\<close>
      by (simp only: method_name_def canonicalization.case relaxed_header_spec relaxed_value_lead simp_thms)
  next
    case Simple
    then show ?thesis using \<open>blank_b _ = _\<close> \<open>drop 16 _ = _\<close>
      by (simp add: method_name_def canonicalize_header_def Let_def)
  qed
qed

definition short_config :: dkim_config where
  "short_config = sample_config\<lparr>cf_signature_expiry := 9\<rparr>"

theorem signature_header_rebuilt_witness:
  "canonicalize_header ''dkim-signature'' (blank_b (drop 15 (build_signature_header short_config ''aGFzaA'' ''from:to''
       7 (cf_signature_expiry short_config) @ ''c2ln''))) (method_name Simple)
   \<noteq> canonicalize_header ''DKIM-Signature'' (drop 16 (erase_b (build_signature_header short_config ''aGFzaA'' ''from:to''
       7 (cf_signature_expiry short_config)))) (method_name Simple)"
proof -
  let ?hdr = "build_signature_header short_config ''aGFzaA'' ''from:to'' 7 (cf_signature_expiry short_config)"
  have "find_sub ''b='' ?hdr = Some (length ?hdr - 2)" by code_simp
  moreover have "CHR '';'' \<notin> set ''c2ln''" by simp
  ultimately show ?thesis using signature_header_rebuilt[where m = Simple] by blast
qed

lemma dkim_lines_snoc:
  assumes "\<forall>l \<in> set ls. strip_cr l \<noteq> []" "strip_cr x \<noteq> []"
  shows "dkim_lines n h r (ls @ [x]) =
    flush_header (case find_ch CHR '':'' (strip_cr x) of None \<Rightarrow> [] | Some colon \<Rightarrow> lower (take colon (strip_cr x)))
      (strip_cr x) (dkim_lines n h r ls)"
  using assms by (induction ls arbitrary: n h r) (simp_all add: Let_def)

text \<open>A header block of whole lines, none of them empty.\<close>

definition header_block :: "string list \<Rightarrow> bool" where
  "header_block ls \<longleftrightarrow> (\<forall>l \<in> set ls. l \<noteq> [] \<and> LF \<notin> set l)"

lemma getlines_header_block:
  assumes "header_block ls" "LF \<notin> set x" "x \<noteq> []"
  shows "getlines LF (crlf_lines ls @ x) = map (\<lambda>l. l @ [CR]) ls @ [x]"
  using assms by (induction ls) (simp_all add: header_block_def getlines_crlf_line del: append.simps)

lemma extract_appended:
  assumes ls: "header_block ls" and v: "LF \<notin> set v" "v \<noteq> []" "last v \<noteq> CR"
  shows "extract_dkim_headers (crlf_lines ls @ ''DKIM-Signature:'' @ v) = extract_dkim_headers (crlf_lines ls) @ [v]"
proof -
  let ?x = "''DKIM-Signature:'' @ v"
  have x: "LF \<notin> set ?x" "?x \<noteq> []" "strip_cr ?x = ?x" using v by (simp_all add: strip_cr_def)
  have "lower ''DKIM-Signature'' = ''dkim-signature''" by code_simp
  then have "flush_header (case find_ch CHR '':'' ?x of None \<Rightarrow> [] | Some colon \<Rightarrow> lower (take colon ?x)) ?x r = r @ [v]" for r
    by (simp add: flush_header_def)
  moreover have "\<forall>l \<in> set (map (\<lambda>l. l @ [CR]) ls). strip_cr l \<noteq> []"
    using ls by (simp add: header_block_def strip_cr_def)
  ultimately show ?thesis
    using x getlines_crlf_lines[of ls] ls
    unfolding extract_dkim_headers_def getlines_header_block[OF ls x(1,2)]
    by (subst dkim_lines_snoc) (simp_all add: header_block_def)
qed

text \<open>What the signer needs of its library: digests, signatures and encodings are not empty, base64 text is plain.\<close>

definition base64_lib :: "dkim_lib \<Rightarrow> bool" where
  "base64_lib L \<longleftrightarrow> (\<forall>s. sha256 L s \<noteq> []) \<and> (\<forall>d s. sign_final L d = (1, s) \<longrightarrow> s \<noteq> []) \<and>
     (\<forall>b. b \<noteq> [] \<longrightarrow> plain_text (b64_encode L b))"

lemma plain_no_newline: "plain_text s \<Longrightarrow> LF \<notin> set s" "plain_text s \<Longrightarrow> last s \<noteq> CR"
  using plain_textD[of s] by (auto simp: ws4_def)

lemma tag_text_plain:
  assumes "kvs \<noteq> []" "\<forall>(k, v) \<in> set kvs. plain_text k \<and> CHR ''='' \<notin> set k \<and> plain_text v"
  shows "LF \<notin> set (tag_text kvs)" "tag_text kvs \<noteq> []" "last (tag_text kvs) \<noteq> CR"
proof -
  have p: "plain_text k" "plain_text v" if "(k, v) \<in> set kvs" for k v using assms(2) that by auto
  obtain k v where l: "last kvs = (k, v)" by fastforce
  then have kv: "(k, v) \<in> set kvs" using last_in_set[OF assms(1)] by simp
  have "LF \<notin> set (concat (map (\<lambda>(k, v). SP # k @ CHR ''='' # v @ '';'') (butlast kvs)))"
    using plain_no_newline(1)[OF p(1)] plain_no_newline(1)[OF p(2)] in_set_butlastD[of _ kvs] by fastforce
  then show "LF \<notin> set (tag_text kvs)"
    using plain_no_newline(1)[OF p(1)[OF kv]] plain_no_newline(1)[OF p(2)[OF kv]] by (simp add: tag_text_def l)
  show "tag_text kvs \<noteq> []" by (simp add: tag_text_def l)
  show "last (tag_text kvs) \<noteq> CR"
    using plain_no_newline(2)[OF p(2)[OF kv]] plain_textD(1)[OF p(2)[OF kv]] by (simp add: tag_text_def l)
qed

text \<open>
  C19. Signing and verifying end to end, up to the signature primitive: a header block of whole lines
  that \<^verbatim>\<open>sign\<close> extends is read by the verifier as the same signatures and one more, which parses to the configured
  domain, selector and header names, is not expired at the time of signing (unless the 64-bit
  sum of the expiry wraps round), and whose body hash is the one the verifier computes.
\<close>

theorem signed_body_verifies:
  assumes L: "base64_lib L" and ls: "header_block ls"
    and cfg: "plain_text (cf_domain cfg)" "plain_text (cf_selector cfg)"
      "cf_signed_headers cfg \<noteq> []" "\<forall>h \<in> set (cf_signed_headers cfg). plain_name h"
    and out: "dkim_sign L cfg t (crlf_lines ls) body = Inr out"
  shows "\<exists>v sig. extract_dkim_headers out = extract_dkim_headers (crlf_lines ls) @ [v] \<and>
    parse_signature v = Inr (Some sig) \<and> sg_domain sig = cf_domain cfg \<and> sg_selector sig = cf_selector cfg \<and>
    sg_signed_headers sig = map lower (cf_signed_headers cfg) \<and> sg_timestamp sig = t \<and>
    (unat t + unat (cf_signature_expiry cfg) < 2 ^ 64 \<longrightarrow> sg_expiry sig = 0 \<or> t \<le> sg_expiry sig) \<and>
    body_matches L sig body"
proof -
  let ?bh = "b64_encode L (sha256 L (canonicalize_body body (method_name (cf_body_canon cfg))))"
  let ?hl = "build_header_list (cf_signed_headers cfg)"
  from out obtain d s where ds: "sign_final L d = (1, s)"
    and o: "out = crlf_lines ls @ build_signature_header cfg ?bh ?hl t (cf_signature_expiry cfg) @ b64_encode L s"
    by (auto simp: dkim_sign_def Let_def split: sum.splits dest!: rsa_sign_Inr)
  have bh: "plain_text ?bh" and sg: "plain_text (b64_encode L s)" using L ds by (auto simp: base64_lib_def)
  let ?tags = "signature_tags cfg ?bh ?hl t (b64_encode L s)"
  let ?v = "tag_text ?tags"
  have o2: "out = crlf_lines ls @ ''DKIM-Signature:'' @ ?v" unfolding o signature_header_text ..
  have "extract_dkim_headers out = extract_dkim_headers (crlf_lines ls) @ [?v]"
    unfolding o2 using bh sg cfg
    by (intro extract_appended ls tag_text_plain signature_tags_plain plain_name_list) (simp_all add: signature_tags_def)
  moreover have "drop 15 (build_signature_header cfg ?bh ?hl t (cf_signature_expiry cfg) @ b64_encode L s) = ?v"
    unfolding signature_header_text by simp
  note parsed = parse_built_header[OF cfg(1,2) bh sg cfg(3,4), of t, unfolded this]
  moreover have "t \<le> t + cf_signature_expiry cfg" if "unat t + unat (cf_signature_expiry cfg) < 2 ^ 64"
    using that by (simp add: word_le_nat_alt unat_word_ariths)
  ultimately show ?thesis by (auto simp: body_matches_def cut_body_def)
qed

lemma sample_base64: "base64_lib sample_dkim"
proof -
  have "plain_text (concat (map (\<lambda>b. dec (unat b)) bs))" if "bs \<noteq> []" for bs :: "byte list"
    using that by (induction bs rule: list_nonempty_induct) simp_all
  then show ?thesis by (simp add: base64_lib_def sample_dkim_def)
qed

theorem signed_body_verifies_witness:
  "\<exists>out v sig. dkim_sign sample_dkim short_config 7 (crlf_lines [''From: a'']) ''hi'' = Inr out \<and>
     extract_dkim_headers out = [v] \<and> parse_signature v = Inr (Some sig) \<and> body_matches sample_dkim sig ''hi''"
proof -
  have "isl (dkim_sign sample_dkim short_config 7 (crlf_lines [''From: a'']) ''hi'') = False" by code_simp
  then obtain out where out: "dkim_sign sample_dkim short_config 7 (crlf_lines [''From: a'']) ''hi'' = Inr out"
    by (metis isl_def sum.exhaust)
  have "plain_text (cf_domain short_config)" "plain_text (cf_selector short_config)" "cf_signed_headers short_config \<noteq> []"
    "\<forall>h \<in> set (cf_signed_headers short_config). plain_name h" "header_block [''From: a'']"
    by code_simp+
  moreover have "extract_dkim_headers (crlf_lines [''From: a'']) = []" by code_simp
  ultimately show ?thesis using signed_body_verifies[OF sample_base64 _ _ _ _ _ out] out by fastforce
qed

end
