(* ===== verification/Database.thy ===== *)
theory Database
  imports Prelude
begin

text \<open>
  The SQLite database that \<^verbatim>\<open>src/auth/credentials/cred_store.cpp\<close> creates (\<^verbatim>\<open>ensure_schema\<close>) and
  that the credential store and the alias table share. A table is the list of its rows in
  row order; the statements of the two components are written out over these lists by their
  SQL meaning. \<open>prep_ok\<close> says whether \<^verbatim>\<open>sqlite3_prepare_v2\<close> succeeds on the connection and
  \<open>step_ok\<close> whether a write takes effect, so the error branches of the callers are reachable.
  \<open>alias_cols\<close> is the set of columns of the \<^verbatim>\<open>aliases\<close> table: preparing a statement that
  names another column fails.
\<close>

record user_row =
  u_username :: string
  u_hash :: "string option"
  u_iterations :: int
  u_active :: int
  u_created_at :: int
  u_last_known_ip :: "string option"

record alias_row =
  al_alias :: string
  al_username :: string
  al_active :: int
  al_max_uses :: "int option"
  al_uses_count :: int
  al_expires_at :: "int option"
  al_created_at :: int
  al_auto_delete_after :: "int option"

record purge_row =
  pq_id :: int
  pq_alias :: string
  pq_username :: string
  pq_path :: string
  pq_purge_at :: int

record db =
  users :: "user_row list"
  aliases :: "alias_row list"
  allowed_domains :: "(string \<times> string) list"
  purge_queue :: "purge_row list"
  next_queue_id :: int
  alias_cols :: "string list"
  prep_ok :: bool
  step_ok :: bool

text \<open>\<^verbatim>\<open>ensure_schema\<close> on a fresh database file.\<close>

definition ensure_schema :: db where
  "ensure_schema = \<lparr>users = [], aliases = [], allowed_domains = [], purge_queue = [],
     next_queue_id = 1,
     alias_cols = [''alias'', ''username'', ''active'', ''max_uses'', ''uses_count'', ''expires_at'',
                   ''created_at''],
     prep_ok = True, step_ok = True\<rparr>"

text \<open>\<^verbatim>\<open>sqlite3_column_int\<close> truncates the stored 64-bit value to 32 bits.\<close>

definition col_int :: "int \<Rightarrow> int" where
  "col_int x = sint (word_of_int x :: 32 word)"

text \<open>The row a \<^verbatim>\<open>WHERE alias = ?\<close> selects, and an \<^verbatim>\<open>UPDATE aliases SET ... WHERE\<close>.\<close>

definition alias_row_of :: "db \<Rightarrow> string \<Rightarrow> alias_row option" where
  "alias_row_of d a = find (\<lambda>r. al_alias r = a) (aliases d)"

definition update_aliases :: "(alias_row \<Rightarrow> bool) \<Rightarrow> (alias_row \<Rightarrow> alias_row) \<Rightarrow> db \<Rightarrow> db" where
  "update_aliases p f d =
     (if step_ok d then d\<lparr>aliases := map (\<lambda>r. if p r then f r else r) (aliases d)\<rparr> else d)"

text \<open>Primary keys are unique and every alias and queue entry refers to an existing row.\<close>

definition db_wf :: "db \<Rightarrow> bool" where
  "db_wf d \<longleftrightarrow> distinct (map u_username (users d)) \<and> distinct (map al_alias (aliases d))
     \<and> al_username ` set (aliases d) \<subseteq> u_username ` set (users d)
     \<and> pq_alias ` set (purge_queue d) \<subseteq> al_alias ` set (aliases d)"

lemma c_str_id [simp]: "NUL \<notin> set s \<Longrightarrow> c_str s = s"
  by (auto simp: c_str_def takeWhile_eq_all_conv)

lemma col_int_id [simp]: "- (2 ^ 31) \<le> x \<Longrightarrow> x < 2 ^ 31 \<Longrightarrow> col_int x = x"
  unfolding col_int_def
  by (simp add: sint_sbintrunc' signed_take_bit_int_eq_self)

lemma find_map_pres:
  "(\<And>r. P (f r) = P r) \<Longrightarrow> find P (map f rs) = map_option f (find P rs)"
  by (induction rs) auto

lemma alias_row_of_update:
  assumes "\<And>r. al_alias (f r) = al_alias r"
  shows "alias_row_of (update_aliases p f d) a =
     map_option (\<lambda>r. if step_ok d \<and> p r then f r else r) (alias_row_of d a)"
proof (cases "step_ok d")
  case True
  have "find (\<lambda>r. al_alias r = a) (map (\<lambda>r. if p r then f r else r) (aliases d)) =
      map_option (\<lambda>r. if p r then f r else r) (find (\<lambda>r. al_alias r = a) (aliases d))"
    by (rule find_map_pres) (simp add: assms)
  with True show ?thesis by (simp add: alias_row_of_def update_aliases_def)
next
  case False
  then show ?thesis by (simp add: alias_row_of_def update_aliases_def option.map_ident)
qed

lemma alias_row_of_SomeD:
  "alias_row_of d a = Some r \<Longrightarrow> r \<in> set (aliases d) \<and> al_alias r = a"
  by (auto simp: alias_row_of_def find_Some_iff)

lemma update_aliases_frame [simp]:
  "users (update_aliases p f d) = users d"
  "allowed_domains (update_aliases p f d) = allowed_domains d"
  "purge_queue (update_aliases p f d) = purge_queue d"
  "next_queue_id (update_aliases p f d) = next_queue_id d"
  "alias_cols (update_aliases p f d) = alias_cols d"
  "prep_ok (update_aliases p f d) = prep_ok d"
  "step_ok (update_aliases p f d) = step_ok d"
  by (simp_all add: update_aliases_def)

lemma update_aliases_wf:
  assumes "db_wf d" and "\<And>r. al_alias (f r) = al_alias r" and "\<And>r. al_username (f r) = al_username r"
  shows "db_wf (update_aliases p f d)"
proof -
  let ?g = "\<lambda>r. if p r then f r else r" and ?d = "update_aliases p f d"
  have k: "al_alias (?g r) = al_alias r" "al_username (?g r) = al_username r" for r
    by (simp_all add: assms(2,3))
  have "map al_alias (map ?g (aliases d)) = map al_alias (aliases d)" using k(1) by simp
  then have a: "map al_alias (aliases ?d) = map al_alias (aliases d)"
    by (simp add: update_aliases_def)
  have "map al_username (map ?g (aliases d)) = map al_username (aliases d)" using k(2) by simp
  then have u: "map al_username (aliases ?d) = map al_username (aliases d)"
    by (simp add: update_aliases_def)
  from a u have "al_alias ` set (aliases ?d) = al_alias ` set (aliases d)"
    "al_username ` set (aliases ?d) = al_username ` set (aliases d)"
    by (metis list.set_map)+
  with a assms(1) show ?thesis by (simp add: db_wf_def)
qed

lemma ensure_schema_wf: "db_wf ensure_schema"
  by (simp add: db_wf_def ensure_schema_def)

text \<open>An account used in concrete examples.\<close>

definition sample_user :: user_row where
  "sample_user = \<lparr>u_username = ''bob'', u_hash = Some ''00'', u_iterations = 100000, u_active = 1,
     u_created_at = 0, u_last_known_ip = None\<rparr>"

end
