(* ===== verification/Alias_Table.thy ===== *)
theory Alias_Table
  imports Database
begin

text \<open>
  \<^verbatim>\<open>src/auth/credentials/aliases.cpp\<close>: addresses that stand for a local account, can be limited
  to a number of uses or a point in time, can be restricted to sender domains, and whose
  mail can be queued for deletion. Every operation takes the database and, where the code
  reads the clock, the time \<open>now\<close>; the boolean results are the code's return values. The
  section on lifetimes states that an alias stops: use limits, expiry and deactivation.
\<close>

record alias_policy =
  pol_expires_at :: "int option"
  pol_max_uses :: "int option"
  pol_auto_delete_after :: "int option"

definition extract_domain :: "string \<Rightarrow> string" where
  "extract_domain address = (case rfind_ch CHR ''@'' address of
     None \<Rightarrow> [] | Some pos \<Rightarrow> lower (drop (pos + 1) address))"

definition alias_resolve :: "db \<Rightarrow> string \<Rightarrow> string" where
  "alias_resolve d address =
     (if \<not> prep_ok d then address
      else (case find (\<lambda>r. al_alias r = c_str address \<and> al_active r = 1) (aliases d) of
              None \<Rightarrow> address | Some r \<Rightarrow> al_username r))"

text \<open>The two optional limits are read with \<^verbatim>\<open>value()\<close>, which throws when one is absent.\<close>

definition alias_add ::
  "int \<Rightarrow> db \<Rightarrow> string \<Rightarrow> string \<Rightarrow> alias_policy \<Rightarrow> (bool \<times> db) cpp" where
  "alias_add now d alias username policy =
     (if \<not> prep_ok d then Inr (False, d)
      else (case pol_max_uses policy of None \<Rightarrow> Inl Bad_optional_access
      | Some mu \<Rightarrow> (case pol_expires_at policy of None \<Rightarrow> Inl Bad_optional_access
      | Some ex \<Rightarrow>
          let row = \<lparr>al_alias = c_str alias, al_username = c_str username, al_active = 1,
                al_max_uses = Some mu, al_uses_count = 0, al_expires_at = Some ex,
                al_created_at = now, al_auto_delete_after = None\<rparr>
          in if step_ok d \<and> c_str alias \<notin> al_alias ` set (aliases d)
                \<and> c_str username \<in> u_username ` set (users d)
             then Inr (True, d\<lparr>aliases := aliases d @ [row]\<rparr>) else Inr (False, d))))"

definition set_inactive :: "string \<Rightarrow> db \<Rightarrow> db" where
  "set_inactive a = update_aliases (\<lambda>r. al_alias r = a) (\<lambda>r. r\<lparr>al_active := 0\<rparr>)"

definition count_use :: "string \<Rightarrow> db \<Rightarrow> db" where
  "count_use a = update_aliases (\<lambda>r. al_alias r = a) (\<lambda>r. r\<lparr>al_uses_count := al_uses_count r + 1\<rparr>)"

definition accept_and_consume :: "int \<Rightarrow> db \<Rightarrow> string \<Rightarrow> bool \<times> db" where
  "accept_and_consume now d alias =
     (if \<not> prep_ok d then (False, d)
      else (case alias_row_of d (c_str alias) of None \<Rightarrow> (False, d)
      | Some r \<Rightarrow>
          let active = (col_int (al_active r) \<noteq> 0);
              has_expiry = (al_expires_at r \<noteq> None);
              expires_at = (case al_expires_at r of Some e \<Rightarrow> e | None \<Rightarrow> 0);
              has_max_uses = (al_max_uses r \<noteq> None);
              max_uses = (case al_max_uses r of Some m \<Rightarrow> col_int m | None \<Rightarrow> 0);
              uses_count = col_int (al_uses_count r);
              expired = (\<not> active \<or> (has_expiry \<and> now \<ge> expires_at)
                         \<or> (has_max_uses \<and> uses_count \<ge> max_uses))
          in if expired then (False, set_inactive (c_str alias) d)
             else let d1 = count_use (c_str alias) d
               in (True, if has_max_uses \<and> uses_count + 1 \<ge> max_uses
                         then set_inactive (c_str alias) d1 else d1)))"

definition alias_deactivate :: "db \<Rightarrow> string \<Rightarrow> db" where
  "alias_deactivate d alias = (if \<not> prep_ok d then d else set_inactive (c_str alias) d)"

text \<open>\<^verbatim>\<open>DELETE\<close> cascades to the allowed domains and the purge queue of the alias.\<close>

definition alias_remove :: "db \<Rightarrow> string \<Rightarrow> bool \<times> db" where
  "alias_remove d alias =
     (if \<not> prep_ok d then (False, d)
      else if \<not> step_ok d then (False, d)
      else (True, d\<lparr>aliases := filter (\<lambda>r. al_alias r \<noteq> c_str alias) (aliases d),
                    allowed_domains := filter (\<lambda>(a, _). a \<noteq> c_str alias) (allowed_domains d),
                    purge_queue := filter (\<lambda>r. pq_alias r \<noteq> c_str alias) (purge_queue d)\<rparr>))"

definition list_for :: "db \<Rightarrow> string \<Rightarrow> string list" where
  "list_for d username =
     (if \<not> prep_ok d then []
      else map al_alias (filter (\<lambda>r. al_username r = c_str username \<and> al_active r = 1) (aliases d)))"

definition is_domain_allowed :: "db \<Rightarrow> string \<Rightarrow> string \<Rightarrow> bool" where
  "is_domain_allowed d alias sender_domain =
     (if \<not> prep_ok d then False
      else let total = length (filter (\<lambda>(a, _). a = c_str alias) (allowed_domains d))
        in if total = 0 then True
           else list_ex (\<lambda>(a, m). a = c_str alias \<and> m = c_str sender_domain) (allowed_domains d))"

text \<open>
  The statement names the column \<^verbatim>\<open>auto_delete_after\<close>; preparing it fails when the table has
  no such column, and then nothing is queued.
\<close>

definition schedule_purge :: "int \<Rightarrow> db \<Rightarrow> string \<Rightarrow> string \<Rightarrow> string \<Rightarrow> db" where
  "schedule_purge now d alias username maildir_path =
     (if \<not> (prep_ok d \<and> ''auto_delete_after'' \<in> set (alias_cols d)) then d
      else (case alias_row_of d (c_str alias) of None \<Rightarrow> d
      | Some r \<Rightarrow> (case al_auto_delete_after r of None \<Rightarrow> d
      | Some t \<Rightarrow>
          if step_ok d
          then d\<lparr>purge_queue := purge_queue d @
                   [\<lparr>pq_id = next_queue_id d, pq_alias = c_str alias, pq_username = c_str username,
                     pq_path = c_str maildir_path, pq_purge_at = now + col_int t\<rparr>],
                 next_queue_id := next_queue_id d + 1\<rparr>
          else d)))"

definition is_stale :: "int \<Rightarrow> alias_row \<Rightarrow> bool" where
  "is_stale now r \<longleftrightarrow> al_active r = 1 \<and>
     ((case al_expires_at r of Some e \<Rightarrow> e \<le> now | None \<Rightarrow> False)
      \<or> (case al_max_uses r of Some m \<Rightarrow> al_uses_count r \<ge> m | None \<Rightarrow> False))"

definition reap_expired :: "int \<Rightarrow> db \<Rightarrow> db" where
  "reap_expired now d =
     (if \<not> prep_ok d then d else update_aliases (is_stale now) (\<lambda>r. r\<lparr>al_active := 0\<rparr>) d)"

definition due_purges :: "int \<Rightarrow> db \<Rightarrow> (int \<times> string) list" where
  "due_purges now d =
     (if \<not> prep_ok d then []
      else map (\<lambda>r. (pq_id r, pq_path r)) (filter (\<lambda>r. pq_purge_at r \<le> now) (purge_queue d)))"

definition mark_purged :: "db \<Rightarrow> int \<Rightarrow> db" where
  "mark_purged d queue_id =
     (if \<not> prep_ok d \<or> \<not> step_ok d then d
      else d\<lparr>purge_queue := filter (\<lambda>r. pq_id r \<noteq> queue_id) (purge_queue d)\<rparr>)"

section \<open>Results of the single operations\<close>

lemma extract_domain_props:
  "CHR ''@'' \<notin> set (extract_domain a)" "lower (extract_domain a) = extract_domain a"
proof -
  show "lower (extract_domain a) = extract_domain a"
    by (simp add: extract_domain_def split: option.splits)
  show "CHR ''@'' \<notin> set (extract_domain a)"
  proof (cases "rfind_ch CHR ''@'' a")
    case (Some i)
    from rfind_ch_SomeD(3)[OF this] Some show ?thesis
      by (auto simp: extract_domain_def image_iff dest: sym)
  qed (simp add: extract_domain_def)
qed

lemma extract_domain_at:
  assumes "CHR ''@'' \<notin> set domain"
  shows "extract_domain (loc @ CHR ''@'' # domain) = lower domain"
  using rfind_ch_append[OF assms, of loc] by (simp add: extract_domain_def)

lemma alias_ops_wf [inv_intros]:
  assumes "db_wf d"
  shows "db_wf (set_inactive a d)" "db_wf (count_use a d)" "db_wf (reap_expired now d)"
    "db_wf (snd (accept_and_consume now d a))" "db_wf (mark_purged d q)" "db_wf (alias_deactivate d a)"
proof -
  show si: "db_wf (set_inactive a d)" for a
    unfolding set_inactive_def by (rule update_aliases_wf[OF assms]) simp_all
  show cu: "db_wf (count_use a d)" for a
    unfolding count_use_def by (rule update_aliases_wf[OF assms]) simp_all
  show "db_wf (reap_expired now d)"
    using assms unfolding reap_expired_def by (simp add: update_aliases_wf)
  have "db_wf (set_inactive a (count_use a d))" for a
    unfolding set_inactive_def by (rule update_aliases_wf[OF cu]) simp_all
  then show "db_wf (snd (accept_and_consume now d a))"
    using assms si cu by (simp add: accept_and_consume_def Let_def split: option.splits)
  show "db_wf (mark_purged d q)" using assms by (auto simp: mark_purged_def db_wf_def)
  show "db_wf (alias_deactivate d a)" using assms si by (simp add: alias_deactivate_def)
qed

lemma schedule_purge_wf [inv_intros]:
  assumes "db_wf d"
  shows "db_wf (schedule_purge now d a u p)"
proof -
  have "c_str a \<in> al_alias ` set (aliases d)" if "alias_row_of d (c_str a) = Some r" for r
    using alias_row_of_SomeD[OF that] by force
  then show ?thesis using assms by (auto simp: schedule_purge_def db_wf_def split: option.splits)
qed

lemma image_filter_key:
  "f ` set xs \<subseteq> g ` set ys \<Longrightarrow>
   f ` set (filter (\<lambda>x. f x \<noteq> k) xs) \<subseteq> g ` set (filter (\<lambda>y. g y \<noteq> k) ys)"
  by (auto simp: image_iff subset_iff)

lemma alias_remove_wf [inv_intros]:
  assumes "db_wf d"
  shows "db_wf (snd (alias_remove d a))"
proof -
  from assms have w: "distinct (map u_username (users d))" "distinct (map al_alias (aliases d))"
      "al_username ` set (aliases d) \<subseteq> u_username ` set (users d)"
      "pq_alias ` set (purge_queue d) \<subseteq> al_alias ` set (aliases d)"
    by (simp_all add: db_wf_def)
  have "al_username ` set (filter (\<lambda>r. al_alias r \<noteq> c_str a) (aliases d)) \<subseteq> u_username ` set (users d)"
    using w(3) by (meson dual_order.trans filter_is_subset image_mono)
  with image_filter_key[OF w(4), of "c_str a"] w(1,2) assms show ?thesis
    unfolding alias_remove_def db_wf_def by (simp add: distinct_map_filter)
qed

lemma alias_add_wf [inv_intros]:
  assumes "db_wf d" and "alias_add now d a u pol = Inr (ok, d')"
  shows "db_wf d'"
  using assms unfolding alias_add_def db_wf_def Let_def
  by (force split: option.splits if_splits)

lemma step_ok_pres [simp]:
  "step_ok (set_inactive a d) = step_ok d" "step_ok (count_use a d) = step_ok d"
  "step_ok (reap_expired now d) = step_ok d" "step_ok (snd (accept_and_consume now d a)) = step_ok d"
  "prep_ok (snd (accept_and_consume now d a)) = prep_ok d"
  "alias_cols (snd (accept_and_consume now d a)) = alias_cols d"
  by (simp_all add: set_inactive_def count_use_def reap_expired_def accept_and_consume_def Let_def
      split: option.splits)

lemma row_set_inactive [simp]:
  "alias_row_of (set_inactive a d) b =
     map_option (\<lambda>r. if step_ok d \<and> al_alias r = a then r\<lparr>al_active := 0\<rparr> else r) (alias_row_of d b)"
  unfolding set_inactive_def by (rule alias_row_of_update) simp

lemma row_count_use [simp]:
  "alias_row_of (count_use a d) b =
     map_option (\<lambda>r. if step_ok d \<and> al_alias r = a then r\<lparr>al_uses_count := al_uses_count r + 1\<rparr> else r)
       (alias_row_of d b)"
  unfolding count_use_def by (rule alias_row_of_update) simp

lemma row_reap [simp]:
  "alias_row_of (reap_expired now d) b =
     map_option (\<lambda>r. if prep_ok d \<and> step_ok d \<and> is_stale now r then r\<lparr>al_active := 0\<rparr> else r)
       (alias_row_of d b)"
  by (simp add: reap_expired_def alias_row_of_update option.map_ident)

section \<open>Lifetimes\<close>

text \<open>
  Everything that happens to the table while the server runs: the sessions consume and
  schedule, the timer reaps and marks, and \<^verbatim>\<open>deactivate\<close> switches an alias off. \<^verbatim>\<open>add\<close> and
  \<^verbatim>\<open>remove\<close> start and end an alias and are not events of its life.
\<close>

datatype alias_event =
    Accept int string
  | Reap int
  | Deactivate string
  | Schedule int string string string
  | Purged int

fun alias_step :: "db \<Rightarrow> alias_event \<Rightarrow> db" where
  "alias_step d (Accept now a) = snd (accept_and_consume now d a)"
| "alias_step d (Reap now) = reap_expired now d"
| "alias_step d (Deactivate a) = alias_deactivate d a"
| "alias_step d (Schedule now a u p) = schedule_purge now d a u p"
| "alias_step d (Purged q) = mark_purged d q"

text \<open>How often the address \<open>a\<close> is accepted along a run of events.\<close>

fun accepted :: "db \<Rightarrow> string \<Rightarrow> alias_event list \<Rightarrow> nat" where
  "accepted d a [] = 0"
| "accepted d a (e # es) =
     (case e of Accept now b \<Rightarrow> if c_str b = a \<and> fst (accept_and_consume now d b) then 1 else 0
      | _ \<Rightarrow> 0) + accepted (alias_step d e) a es"

interpretation alias_life: event_machine alias_step db_wf
proof
  fix d e assume "db_wf d"
  then show "db_wf (alias_step d e)"
    by (cases e) (simp_all add: inv_intros)
qed

lemma row_schedule [simp]: "alias_row_of (schedule_purge now d a u p) b = alias_row_of d b"
  by (simp add: schedule_purge_def alias_row_of_def split: option.splits)

lemma row_mark_purged [simp]: "alias_row_of (mark_purged d q) b = alias_row_of d b"
  by (simp add: mark_purged_def alias_row_of_def)

lemma step_ok_step [simp]: "step_ok (alias_step d e) = step_ok d"
  by (cases e) (simp_all add: alias_deactivate_def schedule_purge_def mark_purged_def split: option.splits)

text \<open>A step keeps the limits of a row, never re-activates it and counts at most one use.\<close>

lemma alias_step_row:
  assumes "alias_row_of d a = Some r"
  shows "\<exists>r'. alias_row_of (alias_step d e) a = Some r' \<and> al_max_uses r' = al_max_uses r
      \<and> al_expires_at r' = al_expires_at r \<and> al_alias r' = al_alias r
      \<and> (al_active r' = al_active r \<or> al_active r' = 0)
      \<and> (al_uses_count r' = al_uses_count r \<or> al_uses_count r' = al_uses_count r + 1)"
  using assms
  by (cases e) (auto simp: accept_and_consume_def alias_deactivate_def Let_def split: option.splits)

text \<open>Without an accepted use of the alias the use counter stays.\<close>

lemma alias_step_uses:
  assumes "alias_row_of d a = Some r" and "alias_row_of (alias_step d e) a = Some r'"
    and "al_uses_count r' \<noteq> al_uses_count r"
  shows "\<exists>now b. e = Accept now b \<and> c_str b = a \<and> fst (accept_and_consume now d b)"
  using assms alias_row_of_SomeD[OF assms(1)]
  by (cases e) (auto simp: accept_and_consume_def alias_deactivate_def Let_def
      split: option.splits if_splits)

lemma accept_counts:
  assumes "alias_row_of d (c_str b) = Some r" and "step_ok d" and "fst (accept_and_consume now d b)"
  shows "\<exists>r'. alias_row_of (snd (accept_and_consume now d b)) (c_str b) = Some r'
      \<and> al_uses_count r' = al_uses_count r + 1"
  using assms alias_row_of_SomeD[OF assms(1)]
  by (auto simp: accept_and_consume_def Let_def split: option.splits if_splits)

lemma accept_below_limit:
  assumes "alias_row_of d (c_str b) = Some r" and "fst (accept_and_consume now d b)"
    and "al_max_uses r = Some m"
  shows "col_int (al_uses_count r) < col_int m"
  using assms by (auto simp: accept_and_consume_def Let_def split: option.splits if_splits)

lemma accept_needs_active:
  assumes "alias_row_of d (c_str b) = Some r" and "fst (accept_and_consume now d b)"
  shows "col_int (al_active r) \<noteq> 0" "al_expires_at r = Some e \<Longrightarrow> now < e"
  using assms by (auto simp: accept_and_consume_def Let_def split: option.splits if_splits)

lemma accepted_dead:
  "alias_row_of d a = Some r \<Longrightarrow> al_active r = 0 \<Longrightarrow> accepted d a es = 0"
proof (induction es arbitrary: d r)
  case (Cons e es)
  from alias_step_row[OF Cons.prems(1), of e] Cons.prems(2) obtain r' where
    r': "alias_row_of (alias_step d e) a = Some r'" "al_active r' = 0" by auto
  have "\<not> fst (accept_and_consume now d b)" if "c_str b = a" for now b
    using accept_needs_active(1)[of d b r now] Cons.prems that by (auto simp: col_int_def)
  with Cons.IH[OF r'] show ?case by (auto split: alias_event.splits)
qed simp

lemma accepted_bound:
  assumes "alias_row_of d a = Some r" and "al_max_uses r = Some m" and "step_ok d"
    and "0 \<le> al_uses_count r" "al_uses_count r < 2 ^ 31" "0 \<le> m" "m < 2 ^ 31"
  shows "int (accepted d a es) \<le> max 0 (m - al_uses_count r)"
  using assms
proof (induction es arbitrary: d r)
  case (Cons e es)
  from alias_step_row[OF Cons.prems(1), of e] Cons.prems(2) obtain r' where
    r': "alias_row_of (alias_step d e) a = Some r'" "al_max_uses r' = Some m"
      "al_uses_count r' = al_uses_count r \<or> al_uses_count r' = al_uses_count r + 1" by auto
  have s: "step_ok (alias_step d e)" using Cons.prems(3) by simp
  show ?case
  proof (cases "\<exists>now b. e = Accept now b \<and> c_str b = a \<and> fst (accept_and_consume now d b)")
    case True
    then obtain now b where e: "e = Accept now b" "c_str b = a" "fst (accept_and_consume now d b)"
      by blast
    have "alias_row_of d (c_str b) = Some r" using Cons.prems(1) e(2) by simp
    from accept_counts[OF this Cons.prems(3) e(3)] accept_below_limit[OF this e(3) Cons.prems(2)]
    have c: "al_uses_count r' = al_uses_count r + 1" and "al_uses_count r < m"
      using r'(1) e Cons.prems(4-7) by auto
    moreover have "int (accepted (alias_step d e) a es) \<le> max 0 (m - al_uses_count r')"
      using Cons.IH[OF r'(1,2) s] Cons.prems(4-7) c \<open>al_uses_count r < m\<close> by simp
    ultimately show ?thesis using e by simp
  next
    case False
    with alias_step_uses[OF Cons.prems(1) r'(1)] have c: "al_uses_count r' = al_uses_count r" by blast
    have "int (accepted (alias_step d e) a es) \<le> max 0 (m - al_uses_count r')"
      using Cons.IH[OF r'(1,2) s] Cons.prems(4-7) c by simp
    with False c show ?thesis by (auto split: alias_event.splits)
  qed
qed simp

section \<open>Properties\<close>


text \<open>
  A switched-off alias is never accepted again, and an expired one is refused and switched
  off by the attempt.
\<close>

theorem alias_dead_stays_dead:
  assumes "alias_row_of d a = Some r" "step_ok d" "prep_ok d" "c_str b = a"
    "al_active r = 0 \<or> (\<exists>e. al_expires_at r = Some e \<and> e \<le> now)"
  shows "\<not> fst (accept_and_consume now d b) \<and> accepted (snd (accept_and_consume now d b)) a es = 0"
proof -
  have r: "\<not> fst (accept_and_consume now d b)"
    using accept_needs_active[of d b r now] assms(1,4,5) by (fastforce simp: col_int_def)
  then have "\<exists>r'. alias_row_of (snd (accept_and_consume now d b)) a = Some r' \<and> al_active r' = 0"
    using assms(1-4) alias_row_of_SomeD[OF assms(1)]
    by (auto simp: accept_and_consume_def Let_def split: if_splits)
  then show ?thesis using accepted_dead r by blast
qed

text \<open>
  The timer's \<^verbatim>\<open>reap_expired\<close> leaves no alias active that is past its expiry or its use limit,
  and changes no other row.
\<close>

theorem reap_leaves_none_stale:
  assumes "prep_ok d" "step_ok d"
  shows "(\<forall>r \<in> set (aliases (reap_expired now d)). \<not> is_stale now r) \<and>
    filter (\<lambda>r. \<not> is_stale now r) (aliases d) =
      map snd (filter (\<lambda>(old, new). \<not> is_stale now old) (zip (aliases d) (aliases (reap_expired now d))))"
proof -
  have "aliases (reap_expired now d) = map (\<lambda>r. if is_stale now r then r\<lparr>al_active := 0\<rparr> else r) (aliases d)"
    using assms by (simp add: reap_expired_def update_aliases_def)
  moreover have "\<not> is_stale now (r\<lparr>al_active := 0\<rparr>)" for r by (simp add: is_stale_def)
  moreover have "filter (\<lambda>r. \<not> is_stale now r) xs =
      map snd (filter (\<lambda>(old, new). \<not> is_stale now old)
        (zip xs (map (\<lambda>r. if is_stale now r then r\<lparr>al_active := 0\<rparr> else r) xs)))" for xs
    by (induction xs) auto
  ultimately show ?thesis by auto
qed

text \<open>
  In a database with the schema the server creates, \<^verbatim>\<open>schedule_purge\<close> never queues anything:
  its statement names a column the table does not have.
\<close>

theorem schedule_purge_never:
  "alias_cols d = alias_cols ensure_schema \<Longrightarrow> schedule_purge now d a u p = d"
  by (simp add: schedule_purge_def ensure_schema_def)

text \<open>
  The use that exhausts an alias switches it off at once, so that from then on it resolves
  to itself: the message of that last use is not delivered to the account behind the alias.
\<close>

theorem last_use_resolves_to_itself:
  assumes "db_wf d" "step_ok d" "alias_row_of d (c_str a) = Some r" "al_max_uses r = Some m"
    "fst (accept_and_consume now d a)" "col_int (al_uses_count r) + 1 \<ge> col_int m"
  shows "alias_resolve (snd (accept_and_consume now d a)) a = a"
proof -
  let ?d = "snd (accept_and_consume now d a)"
  have "db_wf ?d" using assms(1) by (rule alias_ops_wf)
  then have dist: "distinct (map al_alias (aliases ?d))" by (simp add: db_wf_def)
  have "\<exists>r'. alias_row_of ?d (c_str a) = Some r' \<and> al_active r' = 0"
    using assms(2-6) alias_row_of_SomeD[OF assms(3)]
    by (auto simp: accept_and_consume_def Let_def split: if_splits option.splits)
  then obtain r' where r': "alias_row_of ?d (c_str a) = Some r'" "al_active r' = 0" by blast
  have "al_active x = 0" if "x \<in> set (aliases ?d)" "al_alias x = c_str a" for x
  proof -
    from r'(1) have "r' \<in> set (aliases ?d)" "al_alias r' = c_str a"
      by (auto simp: alias_row_of_def find_Some_iff)
    with that dist have "x = r'" by (metis distinct_map inj_onD)
    with r'(2) show ?thesis by simp
  qed
  then have "find (\<lambda>r. al_alias r = c_str a \<and> al_active r = 1) (aliases ?d) = None"
    by (auto simp: find_None_iff)
  then show ?thesis by (simp add: alias_resolve_def)
qed

definition sample_alias :: alias_row where
  "sample_alias = \<lparr>al_alias = ''shop@h'', al_username = ''bob'', al_active = 1, al_max_uses = Some 1,
     al_uses_count = 0, al_expires_at = Some 100, al_created_at = 0, al_auto_delete_after = None\<rparr>"

definition sample_db :: db where
  "sample_db = ensure_schema\<lparr>users := [sample_user], aliases := [sample_alias]\<rparr>"

lemmas sample_defs = sample_db_def sample_alias_def sample_user_def ensure_schema_def

lemma sample_db_facts:
  "alias_row_of sample_db ''shop@h'' = Some sample_alias" "step_ok sample_db" "prep_ok sample_db" "db_wf sample_db"
  "c_str ''shop@h'' = ''shop@h''"
  by (simp_all add: sample_defs alias_row_of_def db_wf_def c_str_def)


theorem alias_dead_stays_dead_witness:
  "\<not> fst (accept_and_consume 100 sample_db ''shop@h'') \<and>
   accepted (snd (accept_and_consume 100 sample_db ''shop@h'')) ''shop@h'' [Accept 1 ''shop@h''] = 0"
  by (rule alias_dead_stays_dead[of _ _ sample_alias]) (simp_all add: sample_db_facts, simp add: sample_alias_def)

theorem reap_leaves_none_stale_witness:
  "filter (is_stale 100) (aliases (reap_expired 100 sample_db)) = []"
  using reap_leaves_none_stale[of sample_db 100] sample_db_facts by (simp add: filter_empty_conv)

theorem schedule_purge_never_witness: "schedule_purge 5 sample_db ''shop@h'' ''bob'' ''/m/new/1'' = sample_db"
  by (rule schedule_purge_never) (simp add: sample_db_def)

theorem last_use_resolves_to_itself_witness:
  "alias_resolve sample_db ''shop@h'' = ''bob'' \<and>
   alias_resolve (snd (accept_and_consume 1 sample_db ''shop@h'')) ''shop@h'' = ''shop@h''"
proof
  show "alias_resolve sample_db ''shop@h'' = ''bob''"
    by (simp add: alias_resolve_def sample_db_facts) (simp add: sample_defs)
  have "fst (accept_and_consume 1 sample_db ''shop@h'')"
    using sample_db_facts by (simp add: accept_and_consume_def Let_def) (simp add: sample_alias_def col_int_def)
  then show "alias_resolve (snd (accept_and_consume 1 sample_db ''shop@h'')) ''shop@h'' = ''shop@h''"
    using last_use_resolves_to_itself[of sample_db "''shop@h''" sample_alias 1 1] sample_db_facts
    by (simp add: sample_alias_def col_int_def)
qed

end
