(* ===== verification/Maildir.thy ===== *)
theory Maildir
  imports Prelude
begin

text \<open>
  \<^verbatim>\<open>src/storage/maildir.cpp\<close>: the mailbox-name guard \<open>is_safe\<close>, the file names of stored
  messages and the delivery of a message through \<^verbatim>\<open>tmp/\<close> into \<^verbatim>\<open>new/\<close>. A path is the list of
  its elements; the file system is a set of directories and a map from paths to contents.
  What the operating system answers (does a directory, an open, a write or a rename
  succeed, which bytes reach the disk, the clock, the process id, the host name) is the
  record \<open>os_env\<close>, an argument of the operations. The interface locale \<open>mailbox_guard\<close> states
  what the sessions rely on when they turn a guarded name into a path.
\<close>

section \<open>Paths and the file system\<close>

type_synonym path = "string list"

text \<open>A path string \<^verbatim>\<open>a/b//c\<close> split at its slashes; empty elements are dropped.\<close>

definition split_path :: "string \<Rightarrow> path" where
  "split_path s = filter (\<lambda>e. e \<noteq> []) (getlines CHR ''/'' s)"

text \<open>
  Lexical normal form: \<^verbatim>\<open>.\<close> is dropped and \<^verbatim>\<open>..\<close> removes the element before it; at the root
  it has no effect. It is the specification the traversal guards are compared with.
\<close>

definition norm_step :: "path \<Rightarrow> string \<Rightarrow> path" where
  "norm_step acc e = (if e = ''.'' then acc else if e = ''..'' then butlast acc else acc @ [e])"

definition lex_norm :: "path \<Rightarrow> path" where
  "lex_norm p = foldl norm_step [] p"

definition path_str :: "path \<Rightarrow> string" where
  "path_str p = concat (map (\<lambda>e. CHR ''/'' # e) p)"

record file_system =
  dirs :: "path set"
  files :: "path \<rightharpoonup> string"

record os_env =
  mkdir_ok :: "path \<Rightarrow> bool"
  localtime_ok :: bool
  open_ok :: "path \<Rightarrow> bool"
  write_ok :: "path \<Rightarrow> bool"
  disk_take :: "nat option"
  rename_ok :: "path \<Rightarrow> path \<Rightarrow> bool"
  remove_ok :: "path \<Rightarrow> bool"
  date_buf :: string
  now_us :: nat
  pid :: nat
  gethostname :: "string option"

definition on_disk :: "os_env \<Rightarrow> string \<Rightarrow> string" where
  "on_disk os m = (case disk_take os of None \<Rightarrow> m | Some n \<Rightarrow> take n m)"

section \<open>The mailbox-name guard\<close>

definition safe_char :: "char \<Rightarrow> bool" where
  "safe_char c \<longleftrightarrow> isalnum c \<or> c = CHR ''.'' \<or> c = CHR ''-'' \<or> c = CHR ''_'' \<or> c = CHR ''+''"

definition is_safe :: "string \<Rightarrow> bool" where
  "is_safe addr =
     (if addr = [] \<or> length addr > 64 then False
      else if \<not> list_all safe_char addr then False
      else if hd addr = CHR ''.'' \<or> last addr = CHR ''.'' then False
      else if has_sub ''..'' addr then False
      else True)"

section \<open>Operations\<close>

text \<open>\<^verbatim>\<open>ensure_dirs\<close>: the sub-folders in the order of the code, stopping at the first failure.\<close>

fun create_all :: "os_env \<Rightarrow> path \<Rightarrow> string list \<Rightarrow> file_system \<Rightarrow> bool \<times> file_system" where
  "create_all os base [] fs = (True, fs)"
| "create_all os base (sub # subs) fs =
     (if mkdir_ok os (base @ [sub])
      then create_all os base subs (fs\<lparr>dirs := dirs fs \<union> set (prefixes (base @ [sub]))\<rparr>)
      else (False, fs))"

definition ensure_dirs :: "os_env \<Rightarrow> path \<Rightarrow> file_system \<Rightarrow> bool \<times> file_system" where
  "ensure_dirs os base fs =
     (case create_all os base [''.Sent'', ''.Trash''] fs of
        (False, fs1) \<Rightarrow> (False, fs1)
      | (True, fs1) \<Rightarrow> create_all os base [''tmp'', ''new'', ''cur''] fs1)"

definition unique_filename :: "os_env \<Rightarrow> nat \<Rightarrow> string" where
  "unique_filename os body_size =
     (let hostname = (case gethostname os of None \<Rightarrow> ''localhost'' | Some h \<Rightarrow> take 63 h);
          hostname' = map (\<lambda>c. if c = CHR ''.'' then CHR ''_'' else c) hostname
      in dec (now_us os div 1000000) @ ''.'' @ dec (now_us os mod 1000000) @ ''.'' @ dec (pid os)
         @ ''.'' @ hostname' @ '',S='' @ dec body_size @ '':2,'')"

text \<open>The stored message: a trace header in front of the received body.\<close>

definition trace_message :: "os_env \<Rightarrow> string \<Rightarrow> string \<Rightarrow> string \<Rightarrow> string \<Rightarrow> string" where
  "trace_message os host mail_from rcpt_to body =
     ''Received: from unknown (HELO unknown)'' @ crlf @
     ''   by '' @ host @ '' from <'' @ mail_from @ ''> for <'' @ rcpt_to @ ''>; '' @ crlf @
     ''   '' @ date_buf os @ crlf @ body"

text \<open>
  \<^verbatim>\<open>deliver\<close> returns an engaged optional on every path: the failure branches \<^verbatim>\<open>return ""\<close> build
  \<open>Some []\<close>, not an empty optional.
\<close>

definition maildir_deliver ::
  "os_env \<Rightarrow> string \<Rightarrow> path \<Rightarrow> string \<Rightarrow> string \<Rightarrow> string \<Rightarrow> file_system
     \<Rightarrow> string option \<times> file_system" where
  "maildir_deliver os host base mail_from rcpt_to body fs =
     (case ensure_dirs os base fs of
        (False, fs1) \<Rightarrow> (Some [], fs1)
      | (True, fs1) \<Rightarrow>
          if \<not> localtime_ok os then (Some [], fs1)
          else
            let message = trace_message os host mail_from rcpt_to body;
                fname = unique_filename os (length message);
                tmp_path = base @ [''tmp'', fname];
                new_path = base @ [''new'', fname]
            in if \<not> open_ok os tmp_path then (Some [], fs1)
               else let fs2 = fs1\<lparr>files := (files fs1)(tmp_path \<mapsto> on_disk os message)\<rparr>
                 in if \<not> write_ok os tmp_path then (Some [], fs2)
                    else if \<not> rename_ok os tmp_path new_path
                    then (Some [], if remove_ok os tmp_path
                                   then fs2\<lparr>files := (files fs2)(tmp_path := None)\<rparr> else fs2)
                    else (Some (path_str new_path),
                          fs2\<lparr>files := (files fs2)(tmp_path := None, new_path := files fs2 tmp_path)\<rparr>))"

section \<open>What a guarded name can do to a path\<close>

lemma split_path_append:
  assumes "CHR ''/'' \<notin> set s" and "s \<noteq> []"
  shows "split_path (r @ CHR ''/'' # s) = split_path r @ [s]"
  using assms by (simp add: split_path_def getlines_split[of _ r s] getlines_snoc_delim)

lemma lex_norm_snoc:
  "e \<noteq> ''.'' \<Longrightarrow> e \<noteq> ''..'' \<Longrightarrow> lex_norm (p @ [e]) = lex_norm p @ [e]"
  by (simp add: lex_norm_def norm_step_def)

text \<open>
  The interface the sessions rely on: a guard that only lets through non-empty names without
  a slash and never the two relative elements. Its clients get containment of the guarded
  path below any root.
\<close>

locale mailbox_guard =
  fixes guard :: "string \<Rightarrow> bool"
  assumes guard_nonempty: "guard s \<Longrightarrow> s \<noteq> []"
    and guard_no_slash: "guard s \<Longrightarrow> CHR ''/'' \<notin> set s"
    and guard_not_dot: "guard s \<Longrightarrow> s \<noteq> ''.''"
    and guard_not_dotdot: "guard s \<Longrightarrow> s \<noteq> ''..''"
begin

lemma guarded_path: "guard s \<Longrightarrow> split_path (root @ CHR ''/'' # s) = split_path root @ [s]"
  by (rule split_path_append) (rule guard_no_slash, assumption, rule guard_nonempty)

lemma guarded_norm:
  assumes "guard s"
  shows "lex_norm (split_path (root @ CHR ''/'' # s)) = lex_norm (split_path root) @ [s]"
  unfolding guarded_path[OF assms]
  by (rule lex_norm_snoc) (rule guard_not_dot[OF assms], rule guard_not_dotdot[OF assms])

end

lemma is_safeD:
  assumes "is_safe s"
  shows "s \<noteq> []" "length s \<le> 64" "\<And>c. c \<in> set s \<Longrightarrow> safe_char c" "hd s \<noteq> CHR ''.''"
    "last s \<noteq> CHR ''.''" "\<not> has_sub ''..'' s"
  using assms by (auto simp: is_safe_def list_all_iff split: if_splits)

lemma safe_char_special:
  "safe_char c \<Longrightarrow> c \<noteq> CHR ''/'' \<and> c \<noteq> NUL \<and> c \<noteq> CHR ''@'' \<and> \<not> isspace c"
  by (auto simp: safe_char_def isalnum_not_special) (auto simp: isspace_def isalnum_def)

interpretation safe_name: mailbox_guard is_safe
proof
  fix s assume s: "is_safe s"
  show "s \<noteq> []" by (rule is_safeD(1)[OF s])
  show "CHR ''/'' \<notin> set s" using is_safeD(3)[OF s] safe_char_special by blast
  show "s \<noteq> ''.''" and "s \<noteq> ''..''" using is_safeD(4)[OF s] by auto
qed

section \<open>Delivery\<close>

lemma create_all_ok:
  "(\<forall>sub \<in> set subs. mkdir_ok os (base @ [sub])) \<Longrightarrow> fst (create_all os base subs fs)"
  by (induction subs arbitrary: fs) auto

lemma create_all_files: "files (snd (create_all os base subs fs)) = files fs"
  by (induction subs arbitrary: fs) auto

lemma ensure_dirs_files: "files (snd (ensure_dirs os base fs)) = files fs"
proof -
  obtain b fs1 where c: "create_all os base [''.Sent'', ''.Trash''] fs = (b, fs1)" by fastforce
  have "files fs1 = files fs"
    using create_all_files[of os base "[''.Sent'', ''.Trash'']" fs] unfolding c by simp
  with c show ?thesis by (cases b) (auto simp: ensure_dirs_def create_all_files)
qed

lemma ensure_dirs_ok:
  assumes "\<And>p. mkdir_ok os p"
  shows "\<exists>fs1. ensure_dirs os base fs = (True, fs1) \<and> files fs1 = files fs"
proof -
  have ok: "fst (create_all os base subs fs')" for subs fs'
    by (rule create_all_ok) (simp add: assms)
  have "fst (ensure_dirs os base fs)"
    using ok[of "[''.Sent'', ''.Trash'']" fs] ok[of "[''tmp'', ''new'', ''cur'']"]
    by (auto simp: ensure_dirs_def assms split: prod.splits bool.splits)
  then show ?thesis
    using ensure_dirs_files[of os base fs] by (metis (full_types) prod.collapse)
qed

text \<open>Whatever the operating system answers, the optional that \<^verbatim>\<open>deliver\<close> returns is engaged.\<close>

lemma maildir_deliver_engaged:
  "\<exists>r. fst (maildir_deliver os host base mail_from rcpt_to body fs) = Some r"
  unfolding maildir_deliver_def Let_def
  by (auto split: prod.splits bool.splits if_splits)

lemma maildir_deliver_touches:
  assumes "files (snd (maildir_deliver os host base mail_from rcpt_to body fs)) p \<noteq> files fs p"
  shows "prefix base p"
proof -
  obtain b fs1 where e: "ensure_dirs os base fs = (b, fs1)" by fastforce
  have f: "files fs1 = files fs" using ensure_dirs_files[of os base fs] e by simp
  show ?thesis
    using assms e f unfolding maildir_deliver_def Let_def
    by (auto split: bool.splits if_splits simp: fun_upd_def)
qed

section \<open>Properties\<close>

text \<open>
  A name the guard accepts is one new path element below any root, also after lexical
  normalisation: it cannot leave the mail root.
\<close>

theorem is_safe_contained:
  "is_safe s \<Longrightarrow> split_path (root @ CHR ''/'' # s) = split_path root @ [s] \<and>
     lex_norm (split_path (root @ CHR ''/'' # s)) = lex_norm (split_path root) @ [s]"
  using safe_name.guarded_path safe_name.guarded_norm by blast

theorem is_safe_contained_witness:
  "lex_norm (split_path (''/var/x/../mail'' @ CHR ''/'' # ''a.b'')) = lex_norm (split_path ''/var/x/../mail'') @ [''a.b'']"
proof -
  have "is_safe ''a.b''" by (simp add: is_safe_def safe_char_def isalnum_def has_sub_def starts_with_def)
  from is_safe_contained[OF this] show ?thesis by blast
qed

lemma maildir_deliver_new:
  fixes os host sndr rcpt body base
  defines "message \<equiv> trace_message os host sndr rcpt body"
  defines "fname \<equiv> unique_filename os (length message)"
  assumes "\<And>p. mkdir_ok os p" "localtime_ok os" "\<And>p. open_ok os p" "\<And>p. write_ok os p" "\<And>p q. rename_ok os p q"
    "disk_take os = None"
  shows "\<exists>fs'. maildir_deliver os host base sndr rcpt body fs = (Some (path_str (base @ [''new'', fname])), fs') \<and>
    files fs' = (files fs)(base @ [''tmp'', fname] := None, base @ [''new'', fname] \<mapsto> message)"
proof -
  obtain fs1 where "ensure_dirs os base fs = (True, fs1)" "files fs1 = files fs"
    using ensure_dirs_ok[of os base fs] assms(3) by blast
  then show ?thesis
    using assms(4-8) by (simp add: maildir_deliver_def Let_def on_disk_def message_def fname_def)
qed

text \<open>
  Delivery: when no system call fails, the message with its trace header is exactly in
  \<^verbatim>\<open>new/\<close> under the unique name, nothing of it is left in \<^verbatim>\<open>tmp/\<close>, no other file changed, and the
  path is returned.
\<close>

theorem maildir_deliver_stored:
  fixes os host sndr rcpt body base
  defines "message \<equiv> trace_message os host sndr rcpt body"
  defines "fname \<equiv> unique_filename os (length message)"
  assumes "\<And>p. mkdir_ok os p" "localtime_ok os" "\<And>p. open_ok os p" "\<And>p. write_ok os p" "\<And>p q. rename_ok os p q"
    "disk_take os = None"
  shows "\<exists>fs'. maildir_deliver os host base sndr rcpt body fs = (Some (path_str (base @ [''new'', fname])), fs') \<and>
    files fs' = (files fs)(base @ [''tmp'', fname] := None, base @ [''new'', fname] \<mapsto> message)"
  using maildir_deliver_new[OF assms(3-8)] unfolding message_def fname_def .

definition sample_os :: os_env where
  "sample_os = \<lparr>mkdir_ok = (\<lambda>_. True), localtime_ok = True, open_ok = (\<lambda>_. True), write_ok = (\<lambda>_. True),
     disk_take = None, rename_ok = (\<lambda>_ _. True), remove_ok = (\<lambda>_. True), date_buf = ''now'',
     now_us = 1000001, pid = 7, gethostname = Some ''mx''\<rparr>"

lemma sample_os_ok [simp]:
  "mkdir_ok sample_os p" "localtime_ok sample_os" "open_ok sample_os p" "write_ok sample_os p"
  "rename_ok sample_os p q" "disk_take sample_os = None"
  by (simp_all add: sample_os_def)

theorem maildir_deliver_stored_witness:
  "\<exists>fs' f. maildir_deliver sample_os ''h'' [''m'', ''bob''] ''a@x'' ''bob@h'' ''hi'' \<lparr>dirs = {}, files = (\<lambda>_. None)\<rparr> =
      (Some (path_str ([''m'', ''bob''] @ [''new'', f])), fs') \<and>
    files fs' ([''m'', ''bob''] @ [''new'', f]) = Some (trace_message sample_os ''h'' ''a@x'' ''bob@h'' ''hi'')"
  using maildir_deliver_stored[where os = sample_os and base = "[''m'', ''bob'']" and host = "''h''" and
      sndr = "''a@x''" and rcpt = "''bob@h''" and body = "''hi''" and fs = "\<lparr>dirs = {}, files = (\<lambda>_. None)\<rparr>",
      OF sample_os_ok] by fastforce

end
