(* ===== verification/World.thy ===== *)
theory World
  imports Alias_Table Maildir
begin

text \<open>
  What the mail-accepting sessions share: the configuration (\<^verbatim>\<open>include/globals.hpp\<close>), the answers
  of the operating system and the clock, and the world a session changes (database, file
  system). Clock and system answers are streams indexed by \<open>w_tick\<close>, which every use of them
  advances, so two deliveries of one message may see different answers. Also here: the rule
  for recipients that are aliases, which both sessions apply in the same way, and the contract
  \<open>delivery_target\<close> of a function that chooses the directory a message is stored in.
\<close>

record server_env =
  configs :: "(string \<times> string) list"
  canon :: "string \<Rightarrow> path"
  os_at :: "nat \<Rightarrow> os_env"
  now_at :: "nat \<Rightarrow> int"

record world =
  w_db :: db
  w_fs :: file_system
  w_tick :: nat

text \<open>The configuration getters loop over all pairs and keep the last match.\<close>

definition config_value :: "string \<Rightarrow> (string \<times> string) list \<Rightarrow> string" where
  "config_value key cfg = foldl (\<lambda>result (k, v). if k = key then v else result) [] cfg"

definition get_hostname :: "server_env \<Rightarrow> string" where
  "get_hostname E = config_value ''hostname'' (configs E)"

definition get_mailroot :: "server_env \<Rightarrow> string" where
  "get_mailroot E = config_value ''mailroot'' (configs E)"

text \<open>\<^verbatim>\<open>operator/\<close> of \<^verbatim>\<open>std::filesystem::path\<close> with a relative right-hand side.\<close>

definition path_join :: "string \<Rightarrow> string \<Rightarrow> string" where
  "path_join p q = (if p = [] \<or> last p = CHR ''/'' then p @ q else p @ CHR ''/'' # q)"

record envelope =
  mail_from :: string
  rcpt_to :: "string list"
  env_body :: string

definition empty_env :: envelope where
  "empty_env = \<lparr>mail_from = [], rcpt_to = [], env_body = []\<rparr>"

text \<open>
  The part of both \<^verbatim>\<open>deliver\<close> functions after the mailbox name is chosen: the guard, the
  comparison of the canonical paths (\<^verbatim>\<open>std::mismatch\<close> reaches the end of the root), the delivery
  and, for an alias, the purge entry. An empty optional would be dereferenced there; by
  \<open>maildir_deliver_engaged\<close> that case does not occur.
\<close>

definition store_local ::
  "server_env \<Rightarrow> string \<Rightarrow> string \<Rightarrow> string \<Rightarrow> string \<Rightarrow> string \<Rightarrow> world \<Rightarrow> bool \<times> world" where
  "store_local E from rcpt target mailbox_user body w =
     (if \<not> is_safe mailbox_user then (False, w)
      else
        let target_path = canon E (path_join (get_mailroot E) mailbox_user);
            root_path = canon E (get_mailroot E)
        in if \<not> prefix root_path target_path then (False, w)
           else (case maildir_deliver (os_at E (w_tick w)) (get_hostname E) target_path from rcpt body (w_fs w) of
                   (None, fs) \<Rightarrow> (False, w\<lparr>w_fs := fs, w_tick := w_tick w + 1\<rparr>)
                 | (Some stored_path, fs) \<Rightarrow>
                     (True,
                      let w1 = w\<lparr>w_fs := fs, w_tick := w_tick w + 1\<rparr>
                      in if target \<noteq> rcpt
                         then w1\<lparr>w_db := schedule_purge (now_at E (w_tick w1)) (w_db w1) rcpt mailbox_user
                                          stored_path, w_tick := w_tick w1 + 1\<rparr>
                         else w1)))"

text \<open>
  The alias check of both \<^verbatim>\<open>cmd_rcpt\<close> functions: an address that resolves to something else is
  consumed first and its sender domain is checked afterwards.
\<close>

definition rcpt_alias_check :: "server_env \<Rightarrow> string \<Rightarrow> string \<Rightarrow> world \<Rightarrow> bool \<times> world" where
  "rcpt_alias_check E from addr w =
     (if alias_resolve (w_db w) addr = addr then (True, w)
      else (case accept_and_consume (now_at E (w_tick w)) (w_db w) addr of
              (False, d) \<Rightarrow> (False, w\<lparr>w_db := d, w_tick := w_tick w + 1\<rparr>)
            | (True, d) \<Rightarrow>
                let w1 = w\<lparr>w_db := d, w_tick := w_tick w + 1\<rparr>
                in (is_domain_allowed d addr (extract_domain from), w1)))"

section \<open>Frame and containment\<close>

lemma store_local_files:
  assumes "files (w_fs (snd (store_local E from rcpt target u body w))) p \<noteq> files (w_fs w) p"
  shows "is_safe u" "prefix (canon E (get_mailroot E)) p"
proof -
  let ?t = "canon E (path_join (get_mailroot E) u)" and ?r = "canon E (get_mailroot E)"
  let ?d = "maildir_deliver (os_at E (w_tick w)) (get_hostname E) ?t from rcpt body (w_fs w)"
  show s: "is_safe u" using assms by (auto simp: store_local_def split: if_splits)
  have pr: "prefix ?r ?t" using assms s by (auto simp: store_local_def Let_def split: if_splits)
  have "files (snd ?d) p \<noteq> files (w_fs w) p"
    using assms s pr
    by (auto simp: store_local_def Let_def split: prod.splits option.splits if_splits)
  then have "prefix ?t p" by (rule maildir_deliver_touches)
  with pr show "prefix ?r p" by (rule prefix_order.trans)
qed

text \<open>Storing reports success whenever the guard and the path comparison let it run.\<close>

lemma store_local_ok:
  assumes "is_safe u" and "prefix (canon E (get_mailroot E)) (canon E (path_join (get_mailroot E) u))"
  shows "fst (store_local E from rcpt target u body w)"
proof -
  obtain r where "fst (maildir_deliver (os_at E (w_tick w)) (get_hostname E)
      (canon E (path_join (get_mailroot E) u)) from rcpt body (w_fs w)) = Some r"
    using maildir_deliver_engaged by blast
  with assms show ?thesis
    by (auto simp: store_local_def Let_def split: prod.splits option.splits)
qed

lemma store_local_wf [inv_intros]:
  "db_wf (w_db w) \<Longrightarrow> db_wf (w_db (snd (store_local E from rcpt target u body w)))"
  by (auto simp: store_local_def Let_def schedule_purge_wf split: prod.splits option.splits)

lemma rcpt_alias_check_wf [inv_intros]:
  "db_wf (w_db w) \<Longrightarrow> db_wf (w_db (snd (rcpt_alias_check E from addr w)))"
  using alias_ops_wf(4)[of "w_db w" "now_at E (w_tick w)" addr]
  by (auto simp: rcpt_alias_check_def Let_def split: prod.splits bool.splits)

lemma rcpt_alias_check_fs [simp]: "w_fs (snd (rcpt_alias_check E from addr w)) = w_fs w"
  by (auto simp: rcpt_alias_check_def Let_def split: prod.splits bool.splits)

lemma rcpt_alias_check_users [simp]:
  "users (w_db (snd (rcpt_alias_check E from addr w))) = users (w_db w)"
  "prep_ok (w_db (snd (rcpt_alias_check E from addr w))) = prep_ok (w_db w)"
  by (auto simp: rcpt_alias_check_def Let_def accept_and_consume_def set_inactive_def count_use_def
      split: prod.splits bool.splits option.splits if_splits)

lemma schedule_purge_users [simp]:
  "users (schedule_purge now d a u p) = users d" "prep_ok (schedule_purge now d a u p) = prep_ok d"
  by (auto simp: schedule_purge_def split: option.splits)

lemma store_local_users [simp]:
  "users (w_db (snd (store_local E from rcpt target u body w))) = users (w_db w)"
  "prep_ok (w_db (snd (store_local E from rcpt target u body w))) = prep_ok (w_db w)"
  by (auto simp: store_local_def Let_def split: prod.splits option.splits)

lemma rcpt_alias_check_fsD: "rcpt_alias_check E f addr w = (b, w') \<Longrightarrow> w_fs w' = w_fs w"
  by (metis rcpt_alias_check_fs snd_conv)

text \<open>
  The contract a delivery function gives the session that calls it: whatever it changes in the
  file system lies below the canonical mail root. Folding such a function over a list of
  recipients keeps the promise.
\<close>

locale delivery_target =
  fixes store :: "'r \<Rightarrow> world \<Rightarrow> bool \<times> world"
    and root :: path
  assumes store_below: "files (w_fs (snd (store r w))) p \<noteq> files (w_fs w) p \<Longrightarrow> prefix root p"
begin

lemma fold_below:
  assumes "files (w_fs (snd (foldl (\<lambda>(ok, w) r. case store r w of (b, w') \<Rightarrow> (ok \<and> b, w')) (ok, w) rs))) p
      \<noteq> files (w_fs w) p"
  shows "prefix root p"
  using assms
proof (induction rs arbitrary: ok w)
  case (Cons r rs)
  obtain b w' where s: "store r w = (b, w')" by fastforce
  show ?case
  proof (cases "files (w_fs w') p = files (w_fs w) p")
    case True
    with Cons.prems s have "files (w_fs (snd (foldl (\<lambda>(ok, w) r. case store r w of (b, w') \<Rightarrow> (ok \<and> b, w'))
        (ok \<and> b, w') rs))) p \<noteq> files (w_fs w') p" by simp
    then show ?thesis by (rule Cons.IH)
  next
    case False
    then show ?thesis using store_below[of r w p] s by simp
  qed
qed simp

end

section \<open>Properties\<close>

text \<open>
  A delivery that stored nothing is reported as a success: when the first folder of the
  mailbox cannot be created the result is still true and no file changed.
\<close>

theorem store_local_hides_failure:
  assumes "is_safe u" "prefix (canon E (get_mailroot E)) (canon E (path_join (get_mailroot E) u))"
    "\<not> mkdir_ok (os_at E (w_tick w)) (canon E (path_join (get_mailroot E) u) @ [''.Sent''])"
  shows "fst (store_local E sndr rcpt target u body w) \<and>
    files (w_fs (snd (store_local E sndr rcpt target u body w))) = files (w_fs w)"
  using assms by (simp add: store_local_def maildir_deliver_def ensure_dirs_def Let_def)

text \<open>A concrete server: host \<^verbatim>\<open>h\<close>, mail root \<^verbatim>\<open>/m\<close>, a system whose calls succeed.\<close>

definition sample_server :: server_env where
  "sample_server = \<lparr>configs = [(''hostname'', ''h''), (''mailroot'', ''/m'')], canon = split_path,
     os_at = (\<lambda>_. sample_os), now_at = (\<lambda>_. 1)\<rparr>"

definition sample_world :: world where
  "sample_world = \<lparr>w_db = sample_db, w_fs = \<lparr>dirs = {}, files = (\<lambda>_. None)\<rparr>, w_tick = 0\<rparr>"

theorem store_local_hides_failure_witness:
  "fst (store_local (sample_server\<lparr>os_at := (\<lambda>_. sample_os\<lparr>mkdir_ok := (\<lambda>_. False)\<rparr>)\<rparr>) ''a@x'' ''bob@h'' ''bob@h'' ''bob''
     ''hi'' sample_world)"
  by (rule store_local_hides_failure[THEN conjunct1])
    (simp_all add: is_safe_def safe_char_def isalnum_def has_sub_def starts_with_def sample_server_def get_mailroot_def
      config_value_def path_join_def split_path_def sample_world_def)

lemma sample_server_simps [simp]:
  "get_hostname sample_server = ''h''" "get_mailroot sample_server = ''/m''" "canon sample_server = split_path"
  "os_at sample_server n = sample_os"
  by (simp_all add: sample_server_def get_hostname_def get_mailroot_def config_value_def)

text \<open>On the sample server a message for a safe mailbox is stored.\<close>

lemma sample_store:
  assumes "is_safe u"
  shows "\<exists>f w'. store_local sample_server sndr rcpt rcpt u body w = (True, w') \<and>
    files (w_fs w') [''m'', u, ''new'', f] = Some (trace_message sample_os ''h'' sndr rcpt body)"
proof -
  have "path_join ''/m'' u = ''/m'' @ CHR ''/'' # u" by (simp add: path_join_def)
  then have p: "split_path (path_join ''/m'' u) = [''m'', u]"
    using safe_name.guarded_path[OF assms, of "''/m''"] by (simp add: split_path_def)
  have r: "split_path ''/m'' = [''m'']" by (simp add: split_path_def)
  obtain f fs' where "maildir_deliver sample_os ''h'' [''m'', u] sndr rcpt body (w_fs w) = (Some f, fs')"
    and "\<exists>f. files fs' [''m'', u, ''new'', f] = Some (trace_message sample_os ''h'' sndr rcpt body)"
    using maildir_deliver_new[OF sample_os_ok, where host = "''h''" and sndr = sndr and rcpt = rcpt and body = body
        and base = "[''m'', u]" and fs = "w_fs w"] by fastforce
  then show ?thesis using assms by (auto simp: store_local_def Let_def p r)
qed

end
