(* ===== verification/Smtp_Session.thy ===== *)
theory Smtp_Session
  imports World
begin

text \<open>
  \<^verbatim>\<open>src/smtp/smtp_session.cpp\<close>: the inbound SMTP session on port 25. The record \<open>smtp\<close> has the
  fields of \<^verbatim>\<open>SMTP::Session\<close>, the list of calls made on the event loop and the shared world.
  \<open>tls\<close> is what \<^verbatim>\<open>loop_.is_tls_active(conn_id_)\<close> answers during one call of \<^verbatim>\<open>on_data\<close>. Every
  command handler is one definition; \<open>smtp_on_data\<close> is the byte loop. Logging is left out.
\<close>

datatype smtp_state = Connected | Greeted | Mail | RCPT | Data | Done

record smtp =
  state :: smtp_state
  line_buf :: string
  env :: envelope
  client_helo :: string
  data_tail :: string
  tls_upgrade_pending :: bool
  pending_close :: bool
  calls :: "loop_call list"
  wrld :: world

section \<open>Text helpers\<close>

abbreviation ws_set :: string where "ws_set \<equiv> [CHR '' '', TAB, CR, LF]"

definition trim :: "string \<Rightarrow> string" where
  "trim sv = (case find_first_not_of ws_set sv of None \<Rightarrow> []
     | Some start \<Rightarrow> (case find_last_not_of ws_set sv of None \<Rightarrow> drop start sv
        | Some stop \<Rightarrow> take (stop - start + 1) (drop start sv)))"

definition extract_address :: "string \<Rightarrow> string" where
  "extract_address arg0 =
     (let arg1 = trim arg0;
          arg2 = (case find_ch CHR '' '' arg1 of None \<Rightarrow> arg1 | Some space \<Rightarrow> take space arg1);
          arg3 = (if arg2 \<noteq> [] \<and> hd arg2 = CHR ''<'' \<and> last arg2 = CHR ''>''
                  then take (length arg2 - 2) (drop 1 arg2) else arg2)
      in trim arg3)"

text \<open>\<^verbatim>\<open>strip_header\<close>: the line loop with its \<^verbatim>\<open>skipping\<close> flag.\<close>

fun strip_lines :: "string \<Rightarrow> bool \<Rightarrow> string list \<Rightarrow> string" where
  "strip_lines name skipping [] = []"
| "strip_lines name skipping (line # ls) =
     (let stripped = strip_cr line in
      if stripped = [] then line @ [LF] @ strip_lines name False ls
      else if take (length name + 1) (lower stripped) = name @ '':'' then strip_lines name True ls
      else if skipping \<and> (hd stripped = CHR '' '' \<or> hd stripped = TAB) then strip_lines name skipping ls
      else line @ [LF] @ strip_lines name False ls)"

definition strip_header :: "string \<Rightarrow> string \<Rightarrow> string" where
  "strip_header body header_name = strip_lines header_name False (getlines LF body)"

section \<open>Replies\<close>

definition reply :: "string \<Rightarrow> smtp \<Rightarrow> smtp" where
  "reply text s = s\<lparr>calls := calls s @ [Write (text @ crlf)]\<rparr>"

definition reply_code :: "nat \<Rightarrow> string \<Rightarrow> smtp \<Rightarrow> smtp" where
  "reply_code code msg = reply (dec code @ '' '' @ msg)"

fun multiline :: "string \<Rightarrow> string list \<Rightarrow> string" where
  "multiline code [] = []"
| "multiline code (l # ls) = code @ (if ls = [] then '' '' else ''-'') @ l @ crlf @ multiline code ls"

definition reply_multiline :: "nat \<Rightarrow> string list \<Rightarrow> smtp \<Rightarrow> smtp" where
  "reply_multiline code ls s = s\<lparr>calls := calls s @ [Write (multiline (dec code) ls)]\<rparr>"

definition smtp_new :: "server_env \<Rightarrow> world \<Rightarrow> smtp" where
  "smtp_new E w =
     (reply_code 220 (get_hostname E @ '' ESMTP mailserver/0.1'')
        \<lparr>state = Connected, line_buf = [], env = empty_env, client_helo = [], data_tail = [],
         tls_upgrade_pending = False, pending_close = False, calls = [], wrld = w\<rparr>)
     \<lparr>state := Greeted\<rparr>"

section \<open>Commands\<close>

definition cmd_ehlo :: "server_env \<Rightarrow> string \<Rightarrow> smtp \<Rightarrow> smtp" where
  "cmd_ehlo E arg s =
     (let s1 = s\<lparr>client_helo := trim arg, env := empty_env\<rparr>
      in (reply_multiline 250
            [get_hostname E @ '' greets '' @ client_helo s1, ''8BITMIME'', ''PIPELINING'',
             ''SIZE 52428800'', ''STARTTLS''] s1)\<lparr>state := Greeted\<rparr>)"

definition cmd_helo :: "server_env \<Rightarrow> string \<Rightarrow> smtp \<Rightarrow> smtp" where
  "cmd_helo E arg s =
     (reply_code 250 (get_hostname E) (s\<lparr>client_helo := trim arg, env := empty_env\<rparr>))\<lparr>state := Greeted\<rparr>"

definition cmd_mail :: "string \<Rightarrow> smtp \<Rightarrow> smtp" where
  "cmd_mail arg s =
     (if state s \<noteq> Greeted then reply_code 503 ''Bad Sequence of Commands'' s
      else if take 5 (upper arg) \<noteq> ''FROM:'' then reply_code 501 ''Syntax: MAIL FROM:<addr>'' s
      else let addr = extract_address (drop 5 arg) in
        if addr = [] then reply_code 501 ''Empty MAIL FROM:<...>'' s
        else reply_code 250 ''OK'' (s\<lparr>env := (env s)\<lparr>mail_from := addr\<rparr>, state := Mail\<rparr>))"

definition local_part :: "string \<Rightarrow> string" where
  "local_part addr = (case find_ch CHR ''@'' addr of None \<Rightarrow> addr | Some at \<Rightarrow> take at addr)"

definition cmd_rcpt :: "server_env \<Rightarrow> string \<Rightarrow> smtp \<Rightarrow> smtp" where
  "cmd_rcpt E arg s =
     (if state s \<noteq> Mail \<and> state s \<noteq> RCPT then reply_code 503 ''Bad Sequence of Commands'' s
      else if take 3 (upper arg) \<noteq> ''TO:'' then reply_code 501 ''Syntax: RCPT TO:<addr>'' s
      else let addr = extract_address (drop 3 arg) in
        if addr = [] then reply_code 501 ''Empty Recipient'' s
        else if length (rcpt_to (env s)) \<ge> 100 then reply_code 452 ''4.5.3 Too Many Recipients'' s
        else if \<not> is_safe (local_part addr) then reply_code 550 ''Mailbox unavailable'' s
        else (case rcpt_alias_check E (mail_from (env s)) addr (wrld s) of
                (False, w) \<Rightarrow> reply_code 550 ''Mailbox unavailable'' (s\<lparr>wrld := w\<rparr>)
              | (True, w) \<Rightarrow>
                  reply_code 250 ''OK''
                    (s\<lparr>wrld := w, env := (env s)\<lparr>rcpt_to := rcpt_to (env s) @ [addr]\<rparr>, state := RCPT\<rparr>)))"

definition cmd_data :: "smtp \<Rightarrow> smtp" where
  "cmd_data s =
     (if state s \<noteq> RCPT then reply_code 503 ''Bad Sequence of Commands'' s
      else (reply_code 354 ''Start mail input; end with <CRLF>.<CRLF>'' s)
             \<lparr>state := Data, line_buf := [], data_tail := []\<rparr>)"

definition cmd_rset :: "smtp \<Rightarrow> smtp" where
  "cmd_rset s = reply_code 250 ''OK'' (s\<lparr>env := empty_env, state := Greeted\<rparr>)"

definition cmd_noop :: "smtp \<Rightarrow> smtp" where
  "cmd_noop s = reply_code 250 ''OK'' s"

definition cmd_quit :: "server_env \<Rightarrow> smtp \<Rightarrow> smtp" where
  "cmd_quit E s = (reply_code 221 (get_hostname E @ '' closing connection'') s)
     \<lparr>state := Done, pending_close := True\<rparr>"

definition cmd_starttls :: "bool \<Rightarrow> smtp \<Rightarrow> smtp" where
  "cmd_starttls tls s =
     (if state s = Data then reply_code 503 ''Bad Sequence of Commands'' s
      else if tls_upgrade_pending s then reply_code 503 ''TLS already pending'' s
      else if tls then reply_code 503 ''TLS Already Active'' s
      else let s1 = (reply_code 220 ''Ready to start TLS'' s)
                      \<lparr>env := empty_env, state := Greeted, line_buf := [], tls_upgrade_pending := True\<rparr>
        in s1\<lparr>calls := calls s1 @ [Upgrade_TLS]\<rparr>)"

definition process_line :: "server_env \<Rightarrow> bool \<Rightarrow> string \<Rightarrow> smtp \<Rightarrow> smtp" where
  "process_line E tls line s =
     (if line = [] then s
      else
        let sp = find_ch CHR '' '' line;
            verb = upper (case sp of None \<Rightarrow> line | Some n \<Rightarrow> take n line);
            arg = (case sp of None \<Rightarrow> [] | Some n \<Rightarrow> drop (n + 1) line)
        in if verb = ''EHLO'' then cmd_ehlo E arg s
           else if verb = ''HELO'' then cmd_helo E arg s
           else if verb = ''MAIL'' then cmd_mail arg s
           else if verb = ''RCPT'' then cmd_rcpt E arg s
           else if verb = ''DATA'' then cmd_data s
           else if verb = ''RSET'' then cmd_rset s
           else if verb = ''NOOP'' then cmd_noop s
           else if verb = ''QUIT'' then cmd_quit E s
           else if verb = ''STARTTLS'' then cmd_starttls tls s
           else reply_code 500 ''Command unrecognised'' s)"

section \<open>Delivery and the byte loop\<close>

text \<open>
  The mailbox is the resolved target cut at the position of the \<^verbatim>\<open>@\<close> in the recipient address.
\<close>

definition mailbox_user :: "string \<Rightarrow> string \<Rightarrow> string" where
  "mailbox_user rcpt target = (case find_ch CHR ''@'' rcpt of None \<Rightarrow> target | Some at \<Rightarrow> take at target)"

definition deliver_one :: "server_env \<Rightarrow> string \<Rightarrow> string \<Rightarrow> string \<Rightarrow> world \<Rightarrow> bool \<times> world" where
  "deliver_one E from clean_body rcpt w =
     (let target = alias_resolve (w_db w) rcpt
      in store_local E from rcpt target (mailbox_user rcpt target) clean_body w)"

definition smtp_deliver :: "server_env \<Rightarrow> envelope \<Rightarrow> world \<Rightarrow> bool \<times> world" where
  "smtp_deliver E ev w =
     (let clean_body = strip_header (env_body ev) ''bcc''
      in foldl (\<lambda>(all_ok, w) rcpt. case deliver_one E (mail_from ev) clean_body rcpt w of
                  (ok, w') \<Rightarrow> (all_ok \<and> ok, w')) (True, w) (rcpt_to ev))"

abbreviation eod :: string where "eod \<equiv> [CR, LF, CHR ''.'', CR, LF]"

text \<open>The end of the data phase, after the end marker was seen.\<close>

definition finish_data :: "server_env \<Rightarrow> smtp \<Rightarrow> smtp" where
  "finish_data E s =
     (case smtp_deliver E (env s) (wrld s) of
        (True, w) \<Rightarrow> (reply_code 250 ''OK: Message Accepted'' (s\<lparr>wrld := w\<rparr>))\<lparr>state := Greeted, env := empty_env\<rparr>
      | (False, w) \<Rightarrow> reply_code 452 ''Insufficient Storage'' (s\<lparr>wrld := w\<rparr>))"

definition data_byte :: "server_env \<Rightarrow> char \<Rightarrow> smtp \<Rightarrow> smtp" where
  "data_byte E b s =
     (let s1 = s\<lparr>line_buf := line_buf s @ [b]\<rparr>;
          tail = data_tail s @ [b];
          s2 = s1\<lparr>data_tail := (if length tail > 5 then drop (length tail - 5) tail else tail)\<rparr>
      in if data_tail s2 = eod
         then finish_data E (s2\<lparr>env := (env s2)\<lparr>env_body := take (length (line_buf s2) - 5) (line_buf s2)\<rparr>,
                               line_buf := [], data_tail := []\<rparr>)
         else s2)"

definition command_byte :: "char \<Rightarrow> smtp \<Rightarrow> smtp" where
  "command_byte b s =
     (let s1 = s\<lparr>line_buf := line_buf s @ [b]\<rparr>
      in if length (line_buf s1) > 2048 then (reply_code 500 ''Line too long'' s1)\<lparr>line_buf := []\<rparr> else s1)"

definition end_of_line :: "server_env \<Rightarrow> bool \<Rightarrow> smtp \<Rightarrow> smtp" where
  "end_of_line E tls s = (process_line E tls (strip_cr (line_buf s)) (s\<lparr>line_buf := strip_cr (line_buf s)\<rparr>))
     \<lparr>line_buf := []\<rparr>"

fun smtp_on_data :: "server_env \<Rightarrow> bool \<Rightarrow> smtp \<Rightarrow> string \<Rightarrow> smtp" where
  "smtp_on_data E tls s [] = s"
| "smtp_on_data E tls s (b # bs) =
     (if state s = Data then smtp_on_data E tls (data_byte E b s) bs
      else if b = LF then
        (let s1 = end_of_line E tls s
         in if tls_upgrade_pending s1 then s1\<lparr>tls_upgrade_pending := False\<rparr> else smtp_on_data E tls s1 bs)
      else smtp_on_data E tls (command_byte b s) bs)"

section \<open>What a command leaves alone\<close>

lemmas smtp_cmd_defs = cmd_ehlo_def cmd_helo_def cmd_mail_def cmd_rcpt_def cmd_data_def cmd_rset_def
  cmd_noop_def cmd_quit_def cmd_starttls_def

lemma reply_fields [simp]:
  "state (reply_code n m s) = state s" "line_buf (reply_code n m s) = line_buf s"
  "env (reply_code n m s) = env s" "data_tail (reply_code n m s) = data_tail s"
  "tls_upgrade_pending (reply_code n m s) = tls_upgrade_pending s"
  "pending_close (reply_code n m s) = pending_close s" "wrld (reply_code n m s) = wrld s"
  "client_helo (reply_code n m s) = client_helo s"
  "calls (reply_code n m s) = calls s @ [Write ((dec n @ '' '' @ m) @ crlf)]"
  by (simp_all add: reply_code_def reply_def)

lemma reply_multiline_fields [simp]:
  "state (reply_multiline n m s) = state s" "line_buf (reply_multiline n m s) = line_buf s"
  "env (reply_multiline n m s) = env s" "data_tail (reply_multiline n m s) = data_tail s"
  "tls_upgrade_pending (reply_multiline n m s) = tls_upgrade_pending s"
  "pending_close (reply_multiline n m s) = pending_close s" "wrld (reply_multiline n m s) = wrld s"
  "calls (reply_multiline n m s) = calls s @ [Write (multiline (dec n) m)]"
  by (simp_all add: reply_multiline_def)

text \<open>Case analysis on the verb of a line; every proof about \<open>process_line\<close> goes through it.\<close>

lemma process_line_cases:
  assumes "line \<noteq> [] \<Longrightarrow> P (cmd_ehlo E arg s)" "line \<noteq> [] \<Longrightarrow> P (cmd_helo E arg s)"
    "line \<noteq> [] \<Longrightarrow> P (cmd_mail arg s)" "line \<noteq> [] \<Longrightarrow> P (cmd_rcpt E arg s)"
    "line \<noteq> [] \<Longrightarrow> P (cmd_data s)" "line \<noteq> [] \<Longrightarrow> P (cmd_rset s)"
    "line \<noteq> [] \<Longrightarrow> P (cmd_noop s)" "line \<noteq> [] \<Longrightarrow> P (cmd_quit E s)"
    "line \<noteq> [] \<Longrightarrow> P (cmd_starttls tls s)"
    "line \<noteq> [] \<Longrightarrow> P (reply_code 500 ''Command unrecognised'' s)"
    "line = [] \<Longrightarrow> P s"
    "arg = (case find_ch CHR '' '' line of None \<Rightarrow> [] | Some n \<Rightarrow> drop (n + 1) line)"
  shows "P (process_line E tls line s)"
  using assms(1-11) unfolding process_line_def Let_def assms(12)[symmetric] by presburger

text \<open>Every non-empty line is answered once; \<^verbatim>\<open>STARTTLS\<close> may follow its answer by the upgrade.\<close>

definition one_reply :: "loop_call list \<Rightarrow> loop_call list \<Rightarrow> bool \<Rightarrow> bool" where
  "one_reply before after up = (\<exists>t. after = before @ Write t # (if up then [Upgrade_TLS] else []))"

lemma process_line_one_reply:
  assumes "line \<noteq> []" "\<not> tls_upgrade_pending s"
  shows "one_reply (calls s) (calls (process_line E tls line s))
           (tls_upgrade_pending (process_line E tls line s))"
  using assms
  by (intro process_line_cases[where P = "\<lambda>s'. one_reply (calls s) (calls s') (tls_upgrade_pending s')", OF _ _ _ _ _ _ _ _ _ _ _ refl])
    (auto simp: smtp_cmd_defs Let_def one_reply_def split: prod.splits bool.splits)

text \<open>A recipient is either refused, which changes at most the alias table, or appended.\<close>

lemma cmd_rcpt_cases [case_names refused accepted]:
  obtains n m w where "cmd_rcpt E arg s = reply_code n m (s\<lparr>wrld := w\<rparr>)" "w_fs w = w_fs (wrld s)"
      "db_wf (w_db (wrld s)) \<Longrightarrow> db_wf (w_db w)"
  | addr w where "cmd_rcpt E arg s = reply_code 250 ''OK'' (s\<lparr>wrld := w,
        env := (env s)\<lparr>rcpt_to := rcpt_to (env s) @ [addr]\<rparr>, state := RCPT\<rparr>)"
      "state s \<in> {Mail, RCPT}" "addr \<noteq> []" "is_safe (local_part addr)" "length (rcpt_to (env s)) < 100"
      "w_fs w = w_fs (wrld s)" "db_wf (w_db (wrld s)) \<Longrightarrow> db_wf (w_db w)"
proof -
  let ?a = "extract_address (drop 3 arg)"
  obtain b w where w: "rcpt_alias_check E (mail_from (env s)) ?a (wrld s) = (b, w)" by fastforce
  have fs: "w_fs w = w_fs (wrld s)" using w by (rule rcpt_alias_check_fsD)
  have wf: "db_wf (w_db (wrld s)) \<Longrightarrow> db_wf (w_db w)"
    using rcpt_alias_check_wf[of "wrld s" E "mail_from (env s)" ?a] w by simp
  have r: "\<And>n m. reply_code n m s = reply_code n m (s\<lparr>wrld := wrld s\<rparr>)" by simp
  let ?go = "state s \<in> {Mail, RCPT} \<and> take 3 (upper arg) = ''TO:'' \<and> ?a \<noteq> [] \<and>
      length (rcpt_to (env s)) < 100 \<and> is_safe (local_part ?a)"
  show thesis
  proof (cases ?go)
    case True
    then have "cmd_rcpt E arg s = (if b then reply_code 250 ''OK'' (s\<lparr>wrld := w,
        env := (env s)\<lparr>rcpt_to := rcpt_to (env s) @ [?a]\<rparr>, state := RCPT\<rparr>)
        else reply_code 550 ''Mailbox unavailable'' (s\<lparr>wrld := w\<rparr>))"
      using w by (auto simp: cmd_rcpt_def Let_def)
    with True fs wf that show thesis by (cases b) auto
  next
    case False
    then have "\<exists>n m. cmd_rcpt E arg s = reply_code n m s"
      by (auto simp: cmd_rcpt_def Let_def)
    with r that(1)[of _ _ "wrld s"] show thesis by auto
  qed
qed

section \<open>The session invariant\<close>

definition last5 :: "string \<Rightarrow> string" where
  "last5 xs = drop (length xs - 5) xs"

definition smtp_inv :: "smtp \<Rightarrow> bool" where
  "smtp_inv s =
     (state s \<noteq> Connected \<and>
      (state s = Greeted \<longrightarrow> env s = empty_env) \<and>
      (state s \<in> {Mail, RCPT, Data} \<longrightarrow> mail_from (env s) \<noteq> []) \<and>
      (state s = Mail \<longrightarrow> rcpt_to (env s) = []) \<and>
      (state s \<in> {RCPT, Data} \<longrightarrow> rcpt_to (env s) \<noteq> []) \<and>
      (state s = Done \<longrightarrow> pending_close s) \<and>
      length (rcpt_to (env s)) \<le> 100 \<and>
      (\<forall>r \<in> set (rcpt_to (env s)). is_safe (local_part r)) \<and>
      (if state s = Data then data_tail s = last5 (line_buf s)
       else data_tail s = [] \<and> length (line_buf s) \<le> 2048) \<and>
      db_wf (w_db (wrld s)))"

lemma empty_env_fields [simp]: "mail_from empty_env = []" "rcpt_to empty_env = []" "env_body empty_env = []"
  by (simp_all add: empty_env_def)

lemma last5_simps [simp]: "last5 [] = []" "length (last5 xs) \<le> 5"
  by (auto simp: last5_def)

lemma last5_snoc:
  "last5 (xs @ [b]) = (let t = last5 xs @ [b] in if length t > 5 then drop (length t - 5) t else t)"
proof (cases "length xs \<ge> 5")
  case True
  then have "length xs - 4 = Suc (length xs - 5)" by arith
  with True show ?thesis by (simp add: last5_def Let_def)
qed (simp add: last5_def Let_def)

lemma cmd_inv:
  assumes "smtp_inv s" "state s \<noteq> Data"
  shows "smtp_inv (cmd_ehlo E arg s)" "smtp_inv (cmd_helo E arg s)" "smtp_inv (cmd_mail arg s)"
    "smtp_inv (cmd_data s)" "smtp_inv (cmd_rset s)" "smtp_inv (cmd_noop s)" "smtp_inv (cmd_quit E s)"
    "smtp_inv (cmd_starttls tls s)" "smtp_inv (reply_code n m s)"
proof -
  note d = smtp_inv_def Let_def
  show "smtp_inv (cmd_ehlo E arg s)" using assms by (simp add: d cmd_ehlo_def split: if_splits)
  show "smtp_inv (cmd_helo E arg s)" using assms by (simp add: d cmd_helo_def split: if_splits)
  show "smtp_inv (cmd_mail arg s)" using assms by (simp add: d cmd_mail_def)
  show "smtp_inv (cmd_data s)" using assms by (simp add: d cmd_data_def)
  show "smtp_inv (cmd_rset s)" using assms by (simp add: d cmd_rset_def split: if_splits)
  show "smtp_inv (cmd_noop s)" using assms by (simp add: d cmd_noop_def)
  show "smtp_inv (cmd_quit E s)" using assms by (simp add: d cmd_quit_def split: if_splits)
  show "smtp_inv (cmd_starttls tls s)" using assms by (simp add: d cmd_starttls_def)
  show "smtp_inv (reply_code n m s)" using assms by (simp add: d)
qed

lemma cmd_rcpt_inv:
  assumes inv: "smtp_inv s"
  shows "smtp_inv (cmd_rcpt E arg s)"
proof (rule cmd_rcpt_cases[of E arg s])
  fix n m w
  assume "cmd_rcpt E arg s = reply_code n m (s\<lparr>wrld := w\<rparr>)" "db_wf (w_db (wrld s)) \<Longrightarrow> db_wf (w_db w)"
  then show ?thesis using inv by (simp add: smtp_inv_def)
next
  fix addr w
  assume c: "cmd_rcpt E arg s = reply_code 250 ''OK'' (s\<lparr>wrld := w,
      env := (env s)\<lparr>rcpt_to := rcpt_to (env s) @ [addr]\<rparr>, state := RCPT\<rparr>)"
    and st: "state s \<in> {Mail, RCPT}" and ok: "is_safe (local_part addr)" "length (rcpt_to (env s)) < 100"
    "db_wf (w_db (wrld s)) \<Longrightarrow> db_wf (w_db w)"
  from inv st have "mail_from (env s) \<noteq> []" "data_tail s = []" "length (line_buf s) \<le> 2048"
    "db_wf (w_db (wrld s))" "\<forall>r \<in> set (rcpt_to (env s)). is_safe (local_part r)"
    by (auto simp: smtp_inv_def split: if_splits)
  with ok show ?thesis unfolding c by (simp add: smtp_inv_def)
qed

lemma process_line_inv [inv_intros]:
  "smtp_inv s \<Longrightarrow> state s \<noteq> Data \<Longrightarrow> smtp_inv (process_line E tls line s)"
  by (rule process_line_cases[where P = smtp_inv, OF _ _ _ _ _ _ _ _ _ _ _ refl])
    (assumption | erule (1) cmd_inv | erule cmd_rcpt_inv)+

lemma process_line_enters_data:
  assumes "state s \<noteq> Data" "state (process_line E tls line s) = Data"
  shows "state s = RCPT" "line_buf (process_line E tls line s) = []"
    "data_tail (process_line E tls line s) = []" "env (process_line E tls line s) = env s"
    "wrld (process_line E tls line s) = wrld s"
proof -
  let ?P = "\<lambda>s'. state s' = Data \<longrightarrow>
    state s = RCPT \<and> line_buf s' = [] \<and> data_tail s' = [] \<and> env s' = env s \<and> wrld s' = wrld s"
  have "?P (process_line E tls line s)"
    by (rule process_line_cases[where P = ?P, OF _ _ _ _ _ _ _ _ _ _ _ refl])
      (simp_all add: assms(1) smtp_cmd_defs Let_def split: prod.splits bool.splits)
  with assms(2) show "state s = RCPT" "line_buf (process_line E tls line s) = []"
    "data_tail (process_line E tls line s) = []" "env (process_line E tls line s) = env s"
    "wrld (process_line E tls line s) = wrld s" by auto
qed

lemma end_of_line_inv:
  assumes "smtp_inv s" "state s \<noteq> Data"
  shows "smtp_inv (end_of_line E tls s)"
proof -
  let ?s = "s\<lparr>line_buf := strip_cr (line_buf s)\<rparr>"
  let ?p = "process_line E tls (strip_cr (line_buf s)) ?s"
  have "smtp_inv ?s" using assms by (auto simp: smtp_inv_def strip_cr_def)
  then have "smtp_inv ?p" using assms(2) by (intro process_line_inv) auto
  moreover have "state ?p = Data \<Longrightarrow> data_tail ?p = []"
    using assms(2) by (intro process_line_enters_data) auto
  ultimately show ?thesis by (simp add: end_of_line_def smtp_inv_def split: if_splits)
qed

lemma command_byte_inv:
  "smtp_inv s \<Longrightarrow> state s \<noteq> Data \<Longrightarrow> smtp_inv (command_byte b s)"
  by (simp add: command_byte_def smtp_inv_def Let_def)

lemma smtp_deliver_wf: "db_wf (w_db w) \<Longrightarrow> db_wf (w_db (snd (smtp_deliver E ev w)))"
proof -
  have "db_wf (w_db w) \<Longrightarrow> db_wf (w_db (snd (foldl (\<lambda>(all_ok, w) rcpt. case deliver_one E f b rcpt w of
      (ok, w') \<Rightarrow> (all_ok \<and> ok, w')) (ok, w) rs)))" for f b ok rs
  proof (induction rs arbitrary: ok w)
    case (Cons r rs)
    then have "db_wf (w_db (snd (deliver_one E f b r w)))"
      by (simp add: deliver_one_def Let_def store_local_wf)
    with Cons.IH show ?case by (auto split: prod.splits)
  qed simp
  then show "db_wf (w_db w) \<Longrightarrow> ?thesis" by (simp add: smtp_deliver_def Let_def)
qed

lemma finish_data_inv:
  assumes "smtp_inv s" "state s = Data" "line_buf s = []"
  shows "smtp_inv (finish_data E s)"
proof -
  obtain b w where w: "smtp_deliver E (env s) (wrld s) = (b, w)" by fastforce
  with smtp_deliver_wf[of "wrld s" E "env s"] assms have "db_wf (w_db w)" by (simp add: smtp_inv_def)
  with assms w show ?thesis by (cases b) (simp_all add: finish_data_def smtp_inv_def)
qed

text \<open>With the tail in step with the buffer, a data byte only compares the end of the buffer.\<close>

lemma data_byte_eq:
  assumes "data_tail s = last5 (line_buf s)"
  shows "data_byte E b s = (if last5 (line_buf s @ [b]) = eod
     then finish_data E (s\<lparr>env := (env s)\<lparr>env_body := take (length (line_buf s) - 4) (line_buf s)\<rparr>,
       line_buf := [], data_tail := []\<rparr>)
     else s\<lparr>line_buf := line_buf s @ [b], data_tail := last5 (line_buf s @ [b])\<rparr>)"
proof -
  have "last5 (line_buf s @ [b]) =
      (let tail = data_tail s @ [b] in if length tail > 5 then drop (length tail - 5) tail else tail)"
    using assms by (simp add: last5_snoc Let_def)
  then show ?thesis by (simp add: data_byte_def Let_def)
qed

lemma data_byte_inv:
  assumes "smtp_inv s" "state s = Data"
  shows "smtp_inv (data_byte E b s)"
proof (cases "last5 (line_buf s @ [b]) = eod")
  case True
  let ?s = "s\<lparr>env := (env s)\<lparr>env_body := take (length (line_buf s) - 4) (line_buf s)\<rparr>,
       line_buf := [], data_tail := []\<rparr>"
  have "smtp_inv ?s" using assms by (simp add: smtp_inv_def)
  then have "smtp_inv (finish_data E ?s)" by (rule finish_data_inv) (simp_all add: assms)
  with True assms show ?thesis by (simp add: data_byte_eq smtp_inv_def[of s])
next
  case False
  with assms show ?thesis by (simp add: data_byte_eq smtp_inv_def)
qed

lemma smtp_new_inv: "db_wf (w_db w) \<Longrightarrow> smtp_inv (smtp_new E w)"
  by (simp add: smtp_new_def smtp_inv_def)

lemma smtp_on_data_inv: "smtp_inv s \<Longrightarrow> smtp_inv (smtp_on_data E tls s bs)"
proof (induction E tls s bs rule: smtp_on_data.induct)
  case (2 E tls s b bs)
  have up: "smtp_inv s' \<Longrightarrow> smtp_inv (s'\<lparr>tls_upgrade_pending := False\<rparr>)" for s' :: smtp
    by (simp add: smtp_inv_def)
  show ?case
    using 2 data_byte_inv[of s E b] end_of_line_inv[of s E tls] command_byte_inv[of s b]
    by (auto simp: Let_def up)
qed simp

section \<open>Where a session writes\<close>

interpretation smtp_store: delivery_target "deliver_one E sndr body" "canon E (get_mailroot E)" for E sndr body
proof unfold_locales
  fix r w p
  assume "files (w_fs (snd (deliver_one E sndr body r w))) p \<noteq> files (w_fs w) p"
  then show "prefix (canon E (get_mailroot E)) p"
    unfolding deliver_one_def Let_def by (rule store_local_files(2))
qed

lemma smtp_deliver_below:
  "files (w_fs (snd (smtp_deliver E ev w))) p \<noteq> files (w_fs w) p \<Longrightarrow> prefix (canon E (get_mailroot E)) p"
  unfolding smtp_deliver_def Let_def by (rule smtp_store.fold_below)

lemma process_line_fs [simp]: "w_fs (wrld (process_line E tls line s)) = w_fs (wrld s)"
proof (rule process_line_cases[where P = "\<lambda>s'. w_fs (wrld s') = w_fs (wrld s)", OF _ _ _ _ _ _ _ _ _ _ _ refl])
  show "w_fs (wrld (cmd_rcpt E arg s)) = w_fs (wrld s)" for arg
    by (auto simp: cmd_rcpt_def Let_def dest: rcpt_alias_check_fsD split: prod.splits bool.splits)
qed (simp_all add: smtp_cmd_defs Let_def)

lemma data_byte_below:
  assumes "files (w_fs (wrld (data_byte E b s))) p \<noteq> files (w_fs (wrld s)) p"
  shows "prefix (canon E (get_mailroot E)) p"
proof -
  let ?ev = "(env s)\<lparr>env_body := take (length (line_buf s) - 4) (line_buf s)\<rparr>"
  have "w_fs (wrld (data_byte E b s)) \<in> {w_fs (wrld s), w_fs (snd (smtp_deliver E ?ev (wrld s)))}"
    by (auto simp: data_byte_def Let_def finish_data_def split: prod.splits bool.splits)
  with assms show ?thesis by (auto intro: smtp_deliver_below)
qed

text \<open>
  Whatever bytes a client sends on port 25, every file that appears, changes or disappears
  lies below the canonical mail root.
\<close>

theorem smtp_writes_below_root:
  "files (w_fs (wrld (smtp_on_data E tls s bs))) p \<noteq> files (w_fs (wrld s)) p
     \<Longrightarrow> prefix (canon E (get_mailroot E)) p"
proof (induction E tls s bs rule: smtp_on_data.induct)
  case (2 E tls s b bs)
  have eol: "w_fs (wrld (end_of_line E tls s)) = w_fs (wrld s)" by (simp add: end_of_line_def)
  have cmd: "w_fs (wrld (command_byte b s)) = w_fs (wrld s)" by (simp add: command_byte_def Let_def)
  show ?case
    using 2 data_byte_below[of E b s p] eol cmd by (auto simp: Let_def split: if_splits) metis
qed simp

section \<open>Framing of lines and of the message\<close>

lemma command_run:
  assumes "state s \<noteq> Data" "LF \<notin> set l" "length (line_buf s) + length l \<le> 2048"
  shows "smtp_on_data E tls s (l @ rest) = smtp_on_data E tls (s\<lparr>line_buf := line_buf s @ l\<rparr>) rest"
  using assms
proof (induction l arbitrary: s)
  case (Cons b l)
  then have "smtp_on_data E tls s ((b # l) @ rest) = smtp_on_data E tls (s\<lparr>line_buf := line_buf s @ [b]\<rparr>) (l @ rest)"
    by (auto simp: command_byte_def)
  also have "\<dots> = smtp_on_data E tls (s\<lparr>line_buf := (line_buf s @ [b]) @ l\<rparr>) rest"
    using Cons.prems by (subst Cons.IH) simp_all
  finally show ?case by simp
qed simp

lemma data_run:
  assumes "state s = Data" "data_tail s = last5 (line_buf s)"
    and "\<And>ys zs. xs = ys @ zs \<Longrightarrow> ys \<noteq> [] \<Longrightarrow> last5 (line_buf s @ ys) \<noteq> eod"
  shows "smtp_on_data E tls s (xs @ rest) =
    smtp_on_data E tls (s\<lparr>line_buf := line_buf s @ xs, data_tail := last5 (line_buf s @ xs)\<rparr>) rest"
  using assms
proof (induction xs arbitrary: s)
  case (Cons b xs)
  let ?s = "s\<lparr>line_buf := line_buf s @ [b], data_tail := last5 (line_buf s @ [b])\<rparr>"
  have "last5 (line_buf s @ [b]) \<noteq> eod" using Cons.prems(3)[of "[b]" xs] by simp
  then have "smtp_on_data E tls s ((b # xs) @ rest) = smtp_on_data E tls ?s (xs @ rest)"
    using Cons.prems(1,2) by (simp add: data_byte_eq)
  also have "\<dots> = smtp_on_data E tls (?s\<lparr>line_buf := line_buf ?s @ xs, data_tail := last5 (line_buf ?s @ xs)\<rparr>) rest"
  proof (rule Cons.IH)
    show "last5 (line_buf ?s @ ys) \<noteq> eod" if "xs = ys @ zs" "ys \<noteq> []" for ys zs
      using Cons.prems(3)[of "b # ys" zs] that by simp
  qed (use Cons.prems in simp_all)
  finally show ?case by simp
next
  case Nil
  then have "s\<lparr>data_tail := last5 (line_buf s)\<rparr> = s" by simp
  then show ?case by simp
qed

lemma last5_eod: "last5 xs = eod \<Longrightarrow> suffix eod xs"
  by (metis last5_def suffix_drop)

lemma message_framing:
  assumes "state s = Data" "line_buf s = []" "data_tail s = []" "\<not> sublist eod (body @ butlast eod)"
  shows "smtp_on_data E tls s (body @ eod @ rest) =
    smtp_on_data E tls (finish_data E (s\<lparr>env := (env s)\<lparr>env_body := body\<rparr>, line_buf := [], data_tail := []\<rparr>)) rest"
proof -
  let ?b = "body @ butlast eod"
  have no: "last5 ys \<noteq> eod" if "?b = ys @ zs" for ys zs
  proof
    assume "last5 ys = eod"
    then have "sublist eod ys" by (simp add: last5_eod suffix_imp_sublist)
    with that have "sublist eod ?b" unfolding sublist_def by (metis append_assoc)
    with assms(4) show False ..
  qed
  have "smtp_on_data E tls s (?b @ LF # rest) =
      smtp_on_data E tls (s\<lparr>line_buf := ?b, data_tail := last5 ?b\<rparr>) (LF # rest)"
    using data_run[of s ?b E tls "LF # rest"] assms(1-3) no by auto
  moreover have "last5 (?b @ [LF]) = eod" by (simp add: last5_def)
  ultimately have "smtp_on_data E tls s (?b @ LF # rest) = smtp_on_data E tls
      (finish_data E (s\<lparr>env := (env s)\<lparr>env_body := body\<rparr>, line_buf := [], data_tail := []\<rparr>)) rest"
    using assms(1) by (simp add: data_byte_eq del: append_assoc)
  then show ?thesis by simp
qed


text \<open>
  C29. \<^verbatim>\<open>STARTTLS\<close> on a clear connection answers 220, hands the connection to TLS, forgets the
  envelope, and drops every byte that arrived in the same buffer after it, so that commands
  injected in clear text never run under TLS.
\<close>

theorem smtp_starttls_discards:
  assumes "state s \<noteq> Data" "line_buf s = []" "\<not> tls_upgrade_pending s" "upper l = ''STARTTLS''"
  shows "smtp_on_data E False s (l @ crlf @ injected) =
    s\<lparr>state := Greeted, env := empty_env,
      calls := calls s @ [Write (''220 Ready to start TLS'' @ crlf), Upgrade_TLS]\<rparr>"
proof -
  have up: "toupper c \<in> set (upper l)" if "c \<in> set l" for c using that by simp
  have noLF: "LF \<notin> set l" and noSP: "CHR '' '' \<notin> set l"
    using up[of LF] up[of "CHR '' ''"] assms(4) by (auto simp: toupper_def)
  have len: "length l = 8" using arg_cong[OF assms(4), of length] by simp
  have ne: "l \<noteq> []" using len by auto
  have dec220: "dec 220 = ''220''" by code_simp
  have cr: "strip_cr (l @ [CR]) = l" by (simp add: strip_cr_def)
  have "smtp_on_data E False s (l @ crlf @ injected) = smtp_on_data E False s ((l @ [CR]) @ LF # injected)" by simp
  also have "\<dots> = smtp_on_data E False (s\<lparr>line_buf := l @ [CR]\<rparr>) (LF # injected)"
    using command_run[of s "l @ [CR]" E False "LF # injected"] noLF len assms(1,2) by simp
  also have "process_line E False l (s\<lparr>line_buf := l\<rparr>) = cmd_starttls False (s\<lparr>line_buf := l\<rparr>)"
    using ne noSP assms(4) by (simp add: process_line_def Let_def find_ch_None[THEN iffD2])
  then have "smtp_on_data E False (s\<lparr>line_buf := l @ [CR]\<rparr>) (LF # injected) =
      (cmd_starttls False (s\<lparr>line_buf := l\<rparr>))\<lparr>line_buf := [], tls_upgrade_pending := False\<rparr>"
    using assms(1,3) by (simp add: end_of_line_def cr cmd_starttls_def Let_def)
  also have "\<dots> = s\<lparr>state := Greeted, env := empty_env,
      calls := calls s @ [Write (''220 Ready to start TLS'' @ crlf), Upgrade_TLS]\<rparr>"
    using assms by (intro smtp.equality) (simp_all add: cmd_starttls_def Let_def reply_code_def reply_def dec220)
  finally show ?thesis .
qed

section \<open>Independence of how the bytes are cut into reads\<close>

text \<open>\<open>grew s s'\<close>: only calls were added, and an upgrade was among them iff the flag \<open>up\<close> says so.\<close>

definition grew :: "smtp \<Rightarrow> smtp \<Rightarrow> bool \<Rightarrow> bool" where
  "grew s s' up = (\<exists>d. calls s' = calls s @ d \<and> (Upgrade_TLS \<in> set d \<longleftrightarrow> up))"

lemma end_of_line_grew:
  assumes "\<not> tls_upgrade_pending s"
  shows "grew s (end_of_line E tls s) (tls_upgrade_pending (end_of_line E tls s))"
proof (cases "strip_cr (line_buf s) = []")
  case True
  with assms show ?thesis by (simp add: end_of_line_def process_line_def grew_def)
next
  case False
  with assms have "one_reply (calls s) (calls (end_of_line E tls s)) (tls_upgrade_pending (end_of_line E tls s))"
    using process_line_one_reply[of "strip_cr (line_buf s)" "s\<lparr>line_buf := strip_cr (line_buf s)\<rparr>" E tls]
    by (simp add: end_of_line_def)
  then show ?thesis by (auto simp: one_reply_def grew_def)
qed

lemma byte_grew:
  "grew s (data_byte E b s) False" "grew s (command_byte b s) False"
  "tls_upgrade_pending (data_byte E b s) = tls_upgrade_pending s"
  "tls_upgrade_pending (command_byte b s) = tls_upgrade_pending s"
  by (auto simp: grew_def data_byte_def command_byte_def finish_data_def Let_def split: prod.splits bool.splits)

lemma grew_prefix: "grew s s' u \<Longrightarrow> prefix (calls s) (calls s')"
  by (auto simp: grew_def)

lemma smtp_on_data_calls:
  "\<not> tls_upgrade_pending s \<Longrightarrow> prefix (calls s) (calls (smtp_on_data E tls s bs))"
proof (induction E tls s bs rule: smtp_on_data.induct)
  case (2 E tls s b bs)
  note g = grew_prefix[OF byte_grew(1)[of s E b]] grew_prefix[OF byte_grew(2)[of s b]]
    grew_prefix[OF end_of_line_grew[OF "2.prems", of E tls]]
  then show ?case using 2 byte_grew(3,4) by (auto simp: Let_def intro: prefix_order.trans)
qed simp

text \<open>
  Splitting the input into two reads changes nothing, provided the first part did not
  start TLS (the one event after which the rest of a buffer is dropped on purpose).
\<close>

theorem smtp_chunks:
  assumes "\<not> tls_upgrade_pending s"
    and "Upgrade_TLS \<notin> set (drop (length (calls s)) (calls (smtp_on_data E tls s xs)))"
  shows "smtp_on_data E tls s (xs @ ys) = smtp_on_data E tls (smtp_on_data E tls s xs) ys"
  using assms
proof (induction E tls s xs rule: smtp_on_data.induct)
  case (2 E tls s b bs)
  have later: "Upgrade_TLS \<notin> set (drop (length (calls s')) (calls (smtp_on_data E tls s' bs)))"
    if "grew s s' u" "\<not> tls_upgrade_pending s'" "smtp_on_data E tls s (b # bs) = smtp_on_data E tls s' bs" for s' u
    using that smtp_on_data_calls[OF that(2), of E tls bs] "2.prems"(2) by (auto simp: grew_def elim!: prefixE)
  show ?case
  proof (cases "state s = Data")
    case True
    then have "smtp_on_data E tls s (b # bs) = smtp_on_data E tls (data_byte E b s) bs" by simp
    with True 2 later[OF byte_grew(1)] byte_grew(3) show ?thesis by simp
  next
    case command: False
    show ?thesis
    proof (cases "b = LF")
      case True
      have "\<not> tls_upgrade_pending (end_of_line E tls s)"
        using end_of_line_grew[OF "2.prems"(1), of E tls] "2.prems"(2) command True
        by (auto simp: grew_def Let_def split: if_splits)
      then have e: "smtp_on_data E tls s (b # zs) = smtp_on_data E tls (end_of_line E tls s) zs" for zs
        using command True by (simp add: Let_def)
      with 2 command True later[OF end_of_line_grew[OF "2.prems"(1)] _ e]
        \<open>\<not> tls_upgrade_pending (end_of_line E tls s)\<close>
      show ?thesis by simp
    next
      case False
      then have "smtp_on_data E tls s (b # bs) = smtp_on_data E tls (command_byte b s) bs" using command by simp
      with False command 2 later[OF byte_grew(2)] byte_grew(4) show ?thesis by simp
    qed
  qed
qed simp

section \<open>Stripping a header\<close>

definition named_header :: "string \<Rightarrow> string \<Rightarrow> bool" where
  "named_header name line = (take (length name + 1) (lower (strip_cr line)) = name @ '':'')"

fun kept_lines :: "string \<Rightarrow> bool \<Rightarrow> string list \<Rightarrow> string list" where
  "kept_lines name skipping [] = []"
| "kept_lines name skipping (line # ls) =
     (if strip_cr line = [] then line # kept_lines name False ls
      else if named_header name line then kept_lines name True ls
      else if skipping \<and> hd (strip_cr line) \<in> {CHR '' '', TAB} then kept_lines name skipping ls
      else line # kept_lines name False ls)"

lemma strip_lines_kept: "strip_lines name sk ls = concat (map (\<lambda>l. l @ [LF]) (kept_lines name sk ls))"
  by (induction name sk ls rule: strip_lines.induct) (auto simp: Let_def named_header_def)

lemma kept_lines_set: "set (kept_lines name sk ls) \<subseteq> {l \<in> set ls. \<not> named_header name l}"
  by (induction name sk ls rule: kept_lines.induct) (auto simp: named_header_def)

lemma kept_lines_id: "\<forall>l \<in> set ls. \<not> named_header name l \<Longrightarrow> kept_lines name False ls = ls"
  by (induction ls) auto

text \<open>
  The message that reaches a mailbox has no line that begins, in any case of letters, with
  the name of the stripped header; every line it has is a line of the original, and a message
  without such a line loses none.
\<close>

theorem strip_header_removes:
  shows "set (getlines LF (strip_header body name)) \<subseteq> {l \<in> set (getlines LF body). \<not> named_header name l}
    \<and> ((\<forall>l \<in> set (getlines LF body). \<not> named_header name l) \<longrightarrow>
         getlines LF (strip_header body name) = getlines LF body)"
proof -
  have sub: "set (kept_lines name False (getlines LF body)) \<subseteq> set (getlines LF body)"
    using kept_lines_set by blast
  then have "\<forall>l \<in> set (kept_lines name False (getlines LF body)). LF \<notin> set l"
    using getlines_delim by blast
  then have "getlines LF (strip_header body name) = kept_lines name False (getlines LF body)"
    by (simp add: strip_header_def strip_lines_kept getlines_join)
  then show ?thesis using kept_lines_set[of name False "getlines LF body"] kept_lines_id by metis
qed

section \<open>Refinement of the transaction automaton\<close>

text \<open>
  What the session promises, without buffers, replies and text: a mail transaction collects a
  sender, then recipients, then a message; only the end of a message touches the file system,
  and only below the mail root; a reset is possible outside the message.
\<close>

datatype phase = Idle | Sender string | Recipients string "string list" | Receiving string "string list" | Closing

inductive transaction :: "path \<Rightarrow> phase \<times> file_system \<Rightarrow> phase \<times> file_system \<Rightarrow> bool" for root where
  reset: "\<forall>a rs. ph \<noteq> Receiving a rs \<Longrightarrow> transaction root (ph, fs) (Idle, fs)"
| quit: "\<forall>a rs. ph \<noteq> Receiving a rs \<Longrightarrow> transaction root (ph, fs) (Closing, fs)"
| mail: "a \<noteq> [] \<Longrightarrow> transaction root (Idle, fs) (Sender a, fs)"
| first_rcpt: "r \<noteq> [] \<Longrightarrow> is_safe (local_part r) \<Longrightarrow> transaction root (Sender a, fs) (Recipients a [r], fs)"
| more_rcpt: "r \<noteq> [] \<Longrightarrow> is_safe (local_part r) \<Longrightarrow> length rs < 100
    \<Longrightarrow> transaction root (Recipients a rs, fs) (Recipients a (rs @ [r]), fs)"
| data: "rs \<noteq> [] \<Longrightarrow> transaction root (Recipients a rs, fs) (Receiving a rs, fs)"
| accept: "\<forall>p. files fs' p \<noteq> files fs p \<longrightarrow> prefix root p
    \<Longrightarrow> transaction root (Receiving a rs, fs) (Idle, fs')"
| refuse: "\<forall>p. files fs' p \<noteq> files fs p \<longrightarrow> prefix root p
    \<Longrightarrow> transaction root (Receiving a rs, fs) (Receiving a rs, fs')"

inductive_cases transaction_ReceivingE: "transaction root (Receiving a rs, fs) t"
inductive_cases transaction_enterE: "transaction root t (Receiving a rs, fs)"

fun phase_of :: "smtp_state \<Rightarrow> envelope \<Rightarrow> phase" where
  "phase_of Connected ev = Idle"
| "phase_of Greeted ev = Idle"
| "phase_of Mail ev = Sender (mail_from ev)"
| "phase_of RCPT ev = Recipients (mail_from ev) (rcpt_to ev)"
| "phase_of Data ev = Receiving (mail_from ev) (rcpt_to ev)"
| "phase_of Done ev = Closing"

definition smtp_abs :: "smtp \<Rightarrow> phase \<times> file_system" where
  "smtp_abs s = (phase_of (state s) (env s), w_fs (wrld s))"

definition stutter :: "path \<Rightarrow> smtp \<Rightarrow> smtp \<Rightarrow> bool" where
  "stutter root s s' = (smtp_abs s' = smtp_abs s \<or> transaction root (smtp_abs s) (smtp_abs s'))"

lemma stutter_cmds:
  assumes "smtp_inv s" "state s \<noteq> Data"
  shows "stutter R s (cmd_ehlo E arg s)" "stutter R s (cmd_helo E arg s)" "stutter R s (cmd_mail arg s)"
    "stutter R s (cmd_data s)" "stutter R s (cmd_rset s)" "stutter R s (cmd_noop s)"
    "stutter R s (cmd_quit E s)" "stutter R s (cmd_starttls tls s)" "stutter R s (reply_code n m s)"
    "stutter R s s"
proof -
  have np: "\<forall>a rs. phase_of (state s) (env s) \<noteq> Receiving a rs" using assms(2) by (cases "state s") auto
  note d = stutter_def smtp_abs_def Let_def
  show "stutter R s (cmd_ehlo E arg s)" using np by (simp add: d cmd_ehlo_def transaction.reset)
  show "stutter R s (cmd_helo E arg s)" using np by (simp add: d cmd_helo_def transaction.reset)
  show "stutter R s (cmd_mail arg s)" by (simp add: d cmd_mail_def transaction.mail)
  show "stutter R s (cmd_data s)" using assms(1) by (simp add: d cmd_data_def transaction.data smtp_inv_def)
  show "stutter R s (cmd_rset s)" using np by (simp add: d cmd_rset_def transaction.reset)
  show "stutter R s (cmd_noop s)" by (simp add: d cmd_noop_def)
  show "stutter R s (cmd_quit E s)" using np by (simp add: d cmd_quit_def transaction.quit)
  show "stutter R s (cmd_starttls tls s)" using np by (simp add: d cmd_starttls_def transaction.reset)
  show "stutter R s (reply_code n m s)" "stutter R s s" by (simp_all add: d)
qed

lemma stutter_rcpt: "smtp_inv s \<Longrightarrow> stutter R s (cmd_rcpt E arg s)"
proof (rule cmd_rcpt_cases[of E arg s])
  fix n m w
  assume "cmd_rcpt E arg s = reply_code n m (s\<lparr>wrld := w\<rparr>)" "w_fs w = w_fs (wrld s)"
  then show ?thesis by (simp add: stutter_def smtp_abs_def)
next
  fix addr w
  assume "smtp_inv s" "cmd_rcpt E arg s = reply_code 250 ''OK'' (s\<lparr>wrld := w,
      env := (env s)\<lparr>rcpt_to := rcpt_to (env s) @ [addr]\<rparr>, state := RCPT\<rparr>)"
    "state s \<in> {Mail, RCPT}" "addr \<noteq> []" "is_safe (local_part addr)" "length (rcpt_to (env s)) < 100"
    "w_fs w = w_fs (wrld s)"
  then show ?thesis
    by (auto simp: stutter_def smtp_abs_def smtp_inv_def intro: transaction.first_rcpt transaction.more_rcpt)
qed

lemma stutter_line:
  assumes "smtp_inv s" "state s \<noteq> Data"
  shows "stutter R s (process_line E tls line s)"
  by (rule process_line_cases[where P = "stutter R s", OF _ _ _ _ _ _ _ _ _ _ _ refl])
    (rule stutter_cmds[OF assms] stutter_rcpt[OF assms(1)])+

lemma stutter_eol:
  assumes "smtp_inv s" "state s \<noteq> Data"
  shows "stutter R s (end_of_line E tls s)"
proof -
  let ?s = "s\<lparr>line_buf := strip_cr (line_buf s)\<rparr>"
  have "smtp_inv ?s" using assms by (auto simp: smtp_inv_def strip_cr_def)
  then have "stutter R ?s (process_line E tls (strip_cr (line_buf s)) ?s)"
    using assms(2) by (intro stutter_line) simp_all
  then show ?thesis by (simp add: stutter_def smtp_abs_def end_of_line_def)
qed

lemma stutter_data:
  assumes "state s = Data" "R = canon E (get_mailroot E)"
  shows "stutter R s (data_byte E b s)"
proof -
  let ?ev = "(env s)\<lparr>env_body := take (length (line_buf s) - 4) (line_buf s)\<rparr>"
  obtain ok w where w: "smtp_deliver E ?ev (wrld s) = (ok, w)" by fastforce
  then have below: "\<forall>p. files (w_fs w) p \<noteq> files (w_fs (wrld s)) p \<longrightarrow> prefix R p"
    using smtp_deliver_below[of E ?ev "wrld s"] assms(2) by auto
  have "smtp_abs (data_byte E b s) \<in> {smtp_abs s, (if ok then Idle else phase_of (state s) (env s), w_fs w)}"
    using w assms(1) by (cases ok) (auto simp: smtp_abs_def data_byte_def finish_data_def Let_def)
  moreover have "transaction R (smtp_abs s) (Idle, w_fs w)"
    "transaction R (smtp_abs s) (phase_of (state s) (env s), w_fs w)"
    using below transaction.accept[of "w_fs w"] transaction.refuse[of "w_fs w"] assms(1)
    by (simp_all add: smtp_abs_def)
  ultimately show ?thesis by (auto simp: stutter_def split: if_splits)
qed


section \<open>Reachable sessions\<close>

interpretation smtp_life: event_machine "\<lambda>s (tls, bs). smtp_on_data E tls s bs" smtp_inv for E
  by unfold_locales (auto simp: smtp_on_data_inv split: prod.splits)

text \<open>
  C14. Session invariant: after any sequence of reads a session is in a legal state; in
  particular a message is only received for a sender and between 1 and 100 recipients whose
  local parts are safe mailbox names, and the command buffer holds at most 2048 bytes.
\<close>

theorem smtp_session_inv:
  assumes "db_wf (w_db w)"
  shows "smtp_inv (foldl (\<lambda>s (tls, bs). smtp_on_data E tls s bs) (smtp_new E w) reads)"
  using smtp_life.invar_run[OF smtp_new_inv[OF assms]] .

text \<open>
  Every non-empty command line is answered by exactly one reply, followed by the TLS upgrade
  exactly when the line started one.
\<close>

theorem smtp_one_reply:
  assumes "line \<noteq> []" "\<not> tls_upgrade_pending s"
  shows "\<exists>t. calls (process_line E tls line s) =
    calls s @ Write t # (if tls_upgrade_pending (process_line E tls line s) then [Upgrade_TLS] else [])"
  using process_line_one_reply[OF assms] by (simp add: one_reply_def)

section \<open>Concrete runs\<close>

declare smtp_on_data.simps(2) [simp del]

definition sample_data :: smtp where
  "sample_data = (smtp_new sample_server sample_world)\<lparr>state := Data,
     env := \<lparr>mail_from = ''a@x'', rcpt_to = [''bob@h''], env_body = []\<rparr>\<rparr>"

lemma sample_data_simps [simp]:
  "state sample_data = Data" "line_buf sample_data = []" "data_tail sample_data = []"
  "\<not> tls_upgrade_pending sample_data" "wrld sample_data = sample_world"
  "env sample_data = \<lparr>mail_from = ''a@x'', rcpt_to = [''bob@h''], env_body = []\<rparr>"
  by (simp_all add: sample_data_def smtp_new_def)

lemma sample_bob: "is_safe ''bob''" "local_part ''bob@h'' = ''bob''" "alias_resolve (w_db sample_world) ''bob@h'' = ''bob@h''"
  by (simp_all add: is_safe_def safe_char_def isalnum_def has_sub_def starts_with_def local_part_def alias_resolve_def
      sample_world_def sample_defs c_str_def)

lemma sample_delivery:
  "\<exists>f b w'. smtp_deliver sample_server \<lparr>mail_from = ''a@x'', rcpt_to = [''bob@h''], env_body = []\<rparr> sample_world = (True, w')
     \<and> files (w_fs w') [''m'', ''bob'', ''new'', f] = Some b"
proof -
  have m: "mailbox_user ''bob@h'' ''bob@h'' = ''bob''" by (simp add: mailbox_user_def)
  from sample_store[OF sample_bob(1), of "''a@x''" "''bob@h''" "strip_header [] ''bcc''" sample_world]
  show ?thesis by (auto simp: smtp_deliver_def deliver_one_def Let_def sample_bob m)
qed

lemma sample_run: "\<exists>f b. files (w_fs (wrld (smtp_on_data sample_server False sample_data eod))) [''m'', ''bob'', ''new'', f] = Some b"
proof -
  have "\<not> sublist eod ([] @ butlast eod)" by (auto dest: sublist_length_le)
  then have "smtp_on_data sample_server False sample_data ([] @ eod @ []) = smtp_on_data sample_server False
      (finish_data sample_server (sample_data\<lparr>env := (env sample_data)\<lparr>env_body := []\<rparr>, line_buf := [], data_tail := []\<rparr>)) []"
    by (rule message_framing[rotated 3]) simp_all
  then have e: "smtp_on_data sample_server False sample_data eod =
      finish_data sample_server (sample_data\<lparr>env := (env sample_data)\<lparr>env_body := []\<rparr>, line_buf := [], data_tail := []\<rparr>)"
    by (simp only: append_Nil append_Nil2 smtp_on_data.simps(1))
  obtain f b w' where "smtp_deliver sample_server \<lparr>mail_from = ''a@x'', rcpt_to = [''bob@h''], env_body = []\<rparr> sample_world = (True, w')"
    "files (w_fs w') [''m'', ''bob'', ''new'', f] = Some b" using sample_delivery by blast
  then have "files (w_fs (wrld (smtp_on_data sample_server False sample_data eod))) [''m'', ''bob'', ''new'', f] = Some b"
    unfolding e finish_data_def by simp
  then show ?thesis by blast
qed

theorem smtp_writes_below_root_witness:
  "\<exists>p. files (w_fs (wrld (smtp_on_data sample_server False sample_data eod))) p \<noteq> files (w_fs (wrld sample_data)) p
     \<and> prefix [''m''] p"
proof -
  obtain f b where "files (w_fs (wrld (smtp_on_data sample_server False sample_data eod))) [''m'', ''bob'', ''new'', f] = Some b"
    using sample_run by blast
  then have "files (w_fs (wrld (smtp_on_data sample_server False sample_data eod))) [''m'', ''bob'', ''new'', f]
      \<noteq> files (w_fs (wrld sample_data)) [''m'', ''bob'', ''new'', f]" by (simp add: sample_world_def)
  with smtp_writes_below_root[OF this] show ?thesis by (auto simp: split_path_def)
qed


lemma sample_new_simps:
  "state (smtp_new E w) = Greeted" "line_buf (smtp_new E w) = []" "\<not> tls_upgrade_pending (smtp_new E w)"
  by (simp_all add: smtp_new_def)

theorem smtp_starttls_discards_witness:
  "calls (smtp_on_data sample_server False (smtp_new sample_server sample_world)
     (''StartTLS'' @ crlf @ ''MAIL FROM:<evil@x>'' @ crlf)) =
   calls (smtp_new sample_server sample_world) @ [Write (''220 Ready to start TLS'' @ crlf), Upgrade_TLS]"
proof -
  have "upper ''StartTLS'' = ''STARTTLS''" by code_simp
  then have e: "smtp_on_data sample_server False (smtp_new sample_server sample_world)
      (''StartTLS'' @ crlf @ (''MAIL FROM:<evil@x>'' @ crlf)) = (smtp_new sample_server sample_world)\<lparr>state := Greeted,
      env := empty_env, calls := calls (smtp_new sample_server sample_world) @ [Write (''220 Ready to start TLS'' @ crlf), Upgrade_TLS]\<rparr>"
    by (rule smtp_starttls_discards[rotated 3]) (simp_all add: sample_new_simps)
  show ?thesis unfolding e by simp
qed

theorem smtp_chunks_witness:
  "smtp_on_data sample_server False sample_data (''h'' @ ''i'') =
   smtp_on_data sample_server False (smtp_on_data sample_server False sample_data ''h'') ''i''"
proof (rule smtp_chunks)
  have "data_byte sample_server CHR ''h'' sample_data =
      sample_data\<lparr>line_buf := ''h'', data_tail := last5 ''h''\<rparr>"
    by (simp add: data_byte_eq last5_def)
  then show "Upgrade_TLS \<notin> set (drop (length (calls sample_data)) (calls (smtp_on_data sample_server False sample_data ''h'')))"
    by (simp add: smtp_on_data.simps(2))
qed simp

theorem strip_header_removes_witness:
  "getlines LF (strip_header ''x'' ''bcc'') = getlines LF ''x''"
  using strip_header_removes[of "''x''" "''bcc''"] by (simp add: named_header_def strip_cr_def tolower_def)


theorem smtp_session_inv_witness:
  "smtp_inv (foldl (\<lambda>s (tls, bs). smtp_on_data sample_server tls s bs) (smtp_new sample_server sample_world)
     [(False, ''EHLO x'' @ crlf), (True, ''NOOP'' @ crlf)])"
  by (rule smtp_session_inv) (simp add: sample_world_def sample_db_facts)

theorem smtp_one_reply_witness:
  "\<exists>t. calls (process_line sample_server False ''NOOP'' (smtp_new sample_server sample_world)) =
     calls (smtp_new sample_server sample_world) @ Write t #
       (if tls_upgrade_pending (process_line sample_server False ''NOOP'' (smtp_new sample_server sample_world)) then [Upgrade_TLS] else [])"
  by (rule smtp_one_reply) (simp_all add: sample_new_simps)

end
