(* ===== verification/Cred_Store.thy ===== *)
theory Cred_Store
  imports Database Maildir
begin

text \<open>
  \<^verbatim>\<open>src/auth/credentials/cred_store.cpp\<close>: accounts, password hashes and the check of a login.
  OpenSSL's HKDF, PBKDF2 and base64 encoder are parameters (record \<open>crypto\<close>), as is the
  environment variable with the pepper; the code around them (salt derivation, hex
  conversion, the dummy hash for unknown users, exceptions) is modelled. The interface
  \<open>credential_verifier\<close> is what the SASL and IMAP sessions rely on.
\<close>

record crypto =
  pepper :: "string option"
  hkdf :: "string \<Rightarrow> string \<Rightarrow> (nat \<Rightarrow> 8 word) option"
  pbkdf2_sha256 :: "string \<Rightarrow> 8 word list \<Rightarrow> int \<Rightarrow> 8 word list option"
  pbkdf2_sha512 :: "string \<Rightarrow> 8 word list \<Rightarrow> int \<Rightarrow> nat \<Rightarrow> 8 word"
  b64_enc :: "8 word list \<Rightarrow> string"

record hashed_password =
  hp_hash :: string
  hp_salt :: string
  hp_iterations :: int

section \<open>Hexadecimal text\<close>

definition hexdig :: "nat \<Rightarrow> char" where
  "hexdig n = (if n < 10 then char_of (48 + n) else char_of (87 + n))"

definition hexval :: "char \<Rightarrow> nat option" where
  "hexval c = (let n = (of_char c :: nat) in
     if 48 \<le> n \<and> n \<le> 57 then Some (n - 48)
     else if 65 \<le> n \<and> n \<le> 70 then Some (n - 55)
     else if 97 \<le> n \<and> n \<le> 102 then Some (n - 87) else None)"

text \<open>\<^verbatim>\<open>std::hex << std::setw(2) << std::setfill('0') << (int)b\<close>\<close>

definition hex2 :: "8 word \<Rightarrow> string" where
  "hex2 b = [hexdig (unat b div 16), hexdig (unat b mod 16)]"

text \<open>\<^verbatim>\<open>std::stoi(s, nullptr, 16)\<close>\<close>

definition stoi16 :: "string \<Rightarrow> int cpp" where
  "stoi16 s = (let s1 = dropWhile isspace s;
       neg = (s1 \<noteq> [] \<and> hd s1 = CHR ''-'');
       s2 = (if s1 \<noteq> [] \<and> (hd s1 = CHR ''-'' \<or> hd s1 = CHR ''+'') then tl s1 else s1);
       s3 = (if (starts_with ''0x'' s2 \<or> starts_with ''0X'' s2) \<and> length s2 > 2
                \<and> hexval (s2 ! 2) \<noteq> None then drop 2 s2 else s2);
       ds = takeWhile (\<lambda>c. hexval c \<noteq> None) s3;
       v = int (foldl (\<lambda>a c. 16 * a + the (hexval c)) 0 ds);
       v' = (if neg then - v else v)
     in if ds = [] then Inl Invalid_argument
        else if v' < - (2 ^ 31) \<or> 2 ^ 31 - 1 < v' then Inl Out_of_range else Inr v')"

section \<open>Operations\<close>

definition derive_salt :: "crypto \<Rightarrow> string \<Rightarrow> string cpp" where
  "derive_salt cr data = (case pepper cr of
       None \<Rightarrow> Inl (Runtime_error ''[CRED] [FATAL] JAMS_PEPPER not set!'')
     | Some p \<Rightarrow> (case hkdf cr p data of
         None \<Rightarrow> Inl (Runtime_error ''[CRED] [FATAL] HKDF derivation failed!'')
       | Some salt_byte \<Rightarrow> Inr (concat (map (\<lambda>i. hex2 (salt_byte i)) [0..<16]))))"

text \<open>The loop that turns 32 hex digits into 16 salt bytes; \<^verbatim>\<open>substr\<close> throws past the end.\<close>

fun read_salt :: "string \<Rightarrow> nat list \<Rightarrow> 8 word list cpp" where
  "read_salt s [] = Inr []"
| "read_salt s (i # is) =
     (if 2 * i > length s then Inl Out_of_range
      else (case stoi16 (take 2 (drop (2 * i) s)) of Inl e \<Rightarrow> Inl e
      | Inr v \<Rightarrow> (case read_salt s is of Inl e \<Rightarrow> Inl e | Inr bs \<Rightarrow> Inr (word_of_int v # bs))))"

definition pbkdf2 :: "crypto \<Rightarrow> string \<Rightarrow> string \<Rightarrow> int \<Rightarrow> string cpp" where
  "pbkdf2 cr passwd salt_hex iterations =
     (case read_salt salt_hex [0..<16] of Inl e \<Rightarrow> Inl e
      | Inr salt_bytes \<Rightarrow> (case pbkdf2_sha256 cr passwd salt_bytes iterations of
          None \<Rightarrow> Inl (Runtime_error ''[auth/CredStore] PBKDF2 failed'')
        | Some out \<Rightarrow> Inr (b64_enc cr out)))"

definition hash_password :: "crypto \<Rightarrow> string \<Rightarrow> string \<Rightarrow> int \<Rightarrow> hashed_password cpp" where
  "hash_password cr passwd username itr =
     (case derive_salt cr username of Inl e \<Rightarrow> Inl e
      | Inr salt \<Rightarrow> (let n = (if itr \<noteq> 0 then itr else 100000) in
          (case pbkdf2 cr passwd salt n of Inl e \<Rightarrow> Inl e
           | Inr h \<Rightarrow> Inr \<lparr>hp_hash = h, hp_salt = [], hp_iterations = n\<rparr>)))"

definition hash_data :: "crypto \<Rightarrow> string \<Rightarrow> int \<Rightarrow> hashed_password cpp" where
  "hash_data cr data iterations =
     (let n = (if iterations \<noteq> 0 then iterations else 100000) in
      (case derive_salt cr data of Inl e \<Rightarrow> Inl e
       | Inr derived_salt \<Rightarrow> (case read_salt derived_salt [0..<16] of Inl e \<Rightarrow> Inl e
         | Inr salt_bytes \<Rightarrow>
             Inr \<lparr>hp_hash = concat (map (\<lambda>i. hex2 (pbkdf2_sha512 cr data salt_bytes n i)) [0..<64]),
                  hp_salt = [], hp_iterations = n\<rparr>)))"

definition constant_time_eq :: "string \<Rightarrow> string \<Rightarrow> bool" where
  "constant_time_eq a b = (if length a \<noteq> length b then False else a = b)"

definition user_exists :: "db \<Rightarrow> string \<Rightarrow> bool" where
  "user_exists d username =
     (if \<not> prep_ok d then False else list_ex (\<lambda>r. u_username r = c_str username) (users d))"

definition add_user ::
  "crypto \<Rightarrow> int \<Rightarrow> db \<Rightarrow> string \<Rightarrow> string \<Rightarrow> string \<Rightarrow> (bool \<times> db) cpp" where
  "add_user cr now d username passwd ip =
     (if username = [] \<or> passwd = [] then Inr (False, d)
      else if user_exists d username then Inr (False, d)
      else (case hash_password cr passwd username 100000 of Inl e \<Rightarrow> Inl e
      | Inr hashed \<Rightarrow> (case hash_data cr ip 100000 of Inl e \<Rightarrow> Inl e
      | Inr hashed_ip \<Rightarrow>
          if \<not> prep_ok d then Inr (False, d)
          else let row = \<lparr>u_username = c_str username, u_hash = Some (c_str (hp_hash hashed)),
                 u_iterations = hp_iterations hashed, u_active = 1, u_created_at = now,
                 u_last_known_ip = Some (c_str (hp_hash hashed_ip))\<rparr>
            in if step_ok d \<and> c_str username \<notin> u_username ` set (users d)
               then Inr (True, d\<lparr>users := users d @ [row]\<rparr>) else Inr (False, d))))"

text \<open>
  \<open>verify\<close> returns the verdict and whether \<^verbatim>\<open>notify_unknown_ip\<close> was called. Exceptions inside
  the body are caught and give \<open>False\<close>; \<open>Inl\<close> of \<open>verify_body\<close> is such an exception.
\<close>

definition verify_body :: "crypto \<Rightarrow> db \<Rightarrow> string \<Rightarrow> string \<Rightarrow> string \<Rightarrow> (bool \<times> bool) cpp" where
  "verify_body cr d username passwd ip =
     (if \<not> prep_ok d then Inr (False, False)
      else (case hash_data cr ip 100000 of Inl e \<Rightarrow> Inl e
      | Inr hashed_ip \<Rightarrow>
         (case find (\<lambda>r. u_username r = c_str username \<and> u_active r = 1) (users d) of
            None \<Rightarrow> (case pbkdf2 cr passwd ''deadbeef'' 100000 of Inl e \<Rightarrow> Inl e
                    | Inr computed \<Rightarrow> Inr (False, False))
          | Some r \<Rightarrow> (case u_hash r of None \<Rightarrow> Inr (False, False)
            | Some stored_hash \<Rightarrow>
               let unknown_ip = (case u_last_known_ip r of None \<Rightarrow> False
                                 | Some known \<Rightarrow> known \<noteq> hp_hash hashed_ip)
               in (case derive_salt cr username of Inl e \<Rightarrow> Inl e
                   | Inr salt \<Rightarrow>
                      (case pbkdf2 cr passwd (if salt = [] then ''deadbeef'' else salt)
                              (col_int (u_iterations r)) of Inl e \<Rightarrow> Inl e
                       | Inr computed \<Rightarrow> Inr (constant_time_eq computed stored_hash, unknown_ip)))))))"

definition verify :: "crypto \<Rightarrow> db \<Rightarrow> string \<Rightarrow> string \<Rightarrow> string \<Rightarrow> bool \<times> bool" where
  "verify cr d username passwd ip =
     (if \<not> list_all safe_char username then (False, False)
      else if username = [] \<or> passwd = [] then (False, False)
      else (case verify_body cr d username passwd ip of Inl e \<Rightarrow> (False, False) | Inr r \<Rightarrow> r))"

definition set_active :: "int \<Rightarrow> db \<Rightarrow> string \<Rightarrow> bool \<times> db" where
  "set_active v d username =
     (if \<not> prep_ok d then (False, d)
      else if \<not> step_ok d then (False, d)
      else (True, d\<lparr>users := map (\<lambda>r. if u_username r = c_str username then r\<lparr>u_active := v\<rparr> else r)
                              (users d)\<rparr>))"

definition deactivate_user :: "db \<Rightarrow> string \<Rightarrow> bool \<times> db" where
  "deactivate_user = set_active 0"

definition activate_user :: "db \<Rightarrow> string \<Rightarrow> bool \<times> db" where
  "activate_user = set_active 1"

text \<open>A \<^verbatim>\<open>NULL\<close> hash would be passed to the \<^verbatim>\<open>std::string\<close> constructor.\<close>

definition change_password ::
  "crypto \<Rightarrow> db \<Rightarrow> string \<Rightarrow> string \<Rightarrow> string \<Rightarrow> (bool \<times> db) cpp" where
  "change_password cr d username old_passwd new_passwd =
     (if old_passwd = [] \<or> new_passwd = [] \<or> username = [] then Inr (False, d)
      else if \<not> prep_ok d then Inr (False, d)
      else (case find (\<lambda>r. u_username r = c_str username) (users d) of None \<Rightarrow> Inr (False, d)
      | Some r \<Rightarrow> (case u_hash r of None \<Rightarrow> Inl Undefined_behaviour
      | Some stored_hash \<Rightarrow> (case derive_salt cr username of Inl e \<Rightarrow> Inl e
      | Inr stored_salt \<Rightarrow>
         (case hash_password cr old_passwd username (col_int (u_iterations r)) of Inl e \<Rightarrow> Inl e
          | Inr check \<Rightarrow>
             if \<not> constant_time_eq (hp_hash check) stored_hash then Inr (False, d)
             else (case hash_password cr new_passwd username 100000 of Inl e \<Rightarrow> Inl e
               | Inr hashed_new \<Rightarrow>
                  if step_ok d
                  then Inr (True, d\<lparr>users := map (\<lambda>r. if u_username r = c_str username
                          then r\<lparr>u_hash := Some (c_str (hp_hash hashed_new)),
                                 u_iterations := hp_iterations hashed_new\<rparr> else r) (users d)\<rparr>)
                  else Inr (False, d)))))))"

section \<open>Salts\<close>

lemma hexval_hexdig [simp]: "n < 16 \<Longrightarrow> hexval (hexdig n) = Some n"
  by (auto simp: hexval_def hexdig_def Let_def)

lemma hexdig_special: "n < 16 \<Longrightarrow> hexdig n \<noteq> CHR ''-'' \<and> hexdig n \<noteq> CHR ''+'' \<and> hexdig n \<noteq> CHR ''x''
    \<and> hexdig n \<noteq> CHR ''X'' \<and> \<not> isspace (hexdig n) \<and> hexdig n \<noteq> NUL"
proof -
  assume "n < 16"
  then have "n \<in> set [0..<16]" by simp
  moreover have "\<forall>n \<in> set [0..<16]. hexdig n \<noteq> CHR ''-'' \<and> hexdig n \<noteq> CHR ''+'' \<and> hexdig n \<noteq> CHR ''x''
    \<and> hexdig n \<noteq> CHR ''X'' \<and> \<not> isspace (hexdig n) \<and> hexdig n \<noteq> NUL"
    by code_simp
  ultimately show ?thesis by blast
qed

lemma stoi16_two:
  assumes "h < 16" and "l < 16"
  shows "stoi16 [hexdig h, hexdig l] = Inr (int (16 * h + l))"
  using hexdig_special[OF assms(1)] hexdig_special[OF assms(2)] assms
  by (auto simp: stoi16_def Let_def starts_with_def)

lemma stoi16_hex2: "stoi16 (hex2 b) = Inr (uint b)"
proof -
  have "unat b < 256" using unsigned_less[of b, where ?'a = nat] by simp
  then have "unat b div 16 < 16" "unat b mod 16 < 16" by auto
  from stoi16_two[OF this] show ?thesis by (simp add: hex2_def)
qed

lemma hex2_length [simp]: "length (hex2 b) = 2"
  by (simp add: hex2_def)

lemma concat_hex2_length [simp]: "length (concat (map (\<lambda>i. hex2 (f i)) xs)) = 2 * length xs"
  by (induction xs) auto

lemma concat_hex2_nth:
  "i < length xs \<Longrightarrow> take 2 (drop (2 * i) (concat (map (\<lambda>i. hex2 (f i)) xs))) = hex2 (f (xs ! i))"
proof (induction xs arbitrary: i)
  case (Cons x xs)
  show ?case
  proof (cases i)
    case 0
    then show ?thesis by (simp add: hex2_def)
  next
    case (Suc k)
    with Cons show ?thesis by (simp add: hex2_def)
  qed
qed simp

lemma read_salt_hex:
  "\<forall>i \<in> set is. i < length xs \<Longrightarrow>
   read_salt (concat (map (\<lambda>i. hex2 (f i)) xs)) is = Inr (map (\<lambda>i. f (xs ! i)) is)"
  by (induction "is") (simp_all add: concat_hex2_nth stoi16_hex2)

text \<open>A derived salt always parses, so hashing with it reaches PBKDF2.\<close>

lemma read_derived_salt:
  assumes "derive_salt cr data = Inr salt"
  shows "\<exists>bs. read_salt salt [0..<16] = Inr bs" "salt \<noteq> []"
proof -
  from assms obtain f where s: "salt = concat (map (\<lambda>i. hex2 (f i)) [0..<16])"
    by (auto simp: derive_salt_def split: option.splits)
  show "\<exists>bs. read_salt salt [0..<16] = Inr bs"
    unfolding s by (intro exI, rule read_salt_hex) simp
  have "length salt = 32" unfolding s by (simp only: concat_hex2_length) simp
  then show "salt \<noteq> []" by auto
qed

text \<open>The dummy salt of the branch for unknown users has 8 digits: reading byte 4 throws.\<close>

lemma pbkdf2_deadbeef: "pbkdf2 cr passwd ''deadbeef'' n = Inl Invalid_argument"
proof -
  have "read_salt ''deadbeef'' [0..<16] = Inl Invalid_argument" by code_simp
  then show ?thesis by (simp add: pbkdf2_def)
qed

lemma constant_time_eq_iff [simp]: "constant_time_eq a b \<longleftrightarrow> a = b"
  by (auto simp: constant_time_eq_def)

section \<open>The contract of the login check\<close>

locale credential_verifier =
  fixes vf :: "string \<Rightarrow> string \<Rightarrow> bool"
  assumes vf_safe: "vf u p \<Longrightarrow> c \<in> set u \<Longrightarrow> safe_char c"
    and vf_user: "vf u p \<Longrightarrow> u \<noteq> []"
    and vf_passwd: "vf u p \<Longrightarrow> p \<noteq> []"
begin

text \<open>A verified name is one path element: it holds no slash, no blank and no NUL.\<close>

lemma verified_path: "vf u p \<Longrightarrow> split_path (root @ CHR ''/'' # u) = split_path root @ [u]"
  using vf_safe vf_user safe_char_special by (intro split_path_append) blast+

lemma verified_no_at: "vf u p \<Longrightarrow> CHR ''@'' \<notin> set u"
  using vf_safe safe_char_special by blast

end

interpretation verified: credential_verifier "\<lambda>u p. fst (verify cr d u p ip)" for cr d ip
  by unfold_locales (auto simp: verify_def list_all_iff split: if_splits)

lemma verify_iff:
  "fst (verify cr d u p ip) \<longleftrightarrow>
     list_all safe_char u \<and> u \<noteq> [] \<and> p \<noteq> [] \<and> prep_ok d \<and>
     (\<exists>r h hip salt. find (\<lambda>r. u_username r = u \<and> u_active r = 1) (users d) = Some r
        \<and> u_hash r = Some h \<and> hash_data cr ip 100000 = Inr hip \<and> derive_salt cr u = Inr salt
        \<and> pbkdf2 cr p salt (col_int (u_iterations r)) = Inr h)" (is "?L \<longleftrightarrow> ?R")
proof -
  have cs: "c_str u = u" if "list_all safe_char u"
    using that safe_char_special by (intro c_str_id) (auto simp: list_all_iff)
  show ?thesis
  proof
    assume ?L
    then show ?R
      using cs read_derived_salt(2)
      by (auto simp: verify_def verify_body_def pbkdf2_deadbeef Let_def
          split: if_splits sum.splits option.splits)
  next
    assume ?R
    then obtain r h hip salt where f: "list_all safe_char u" "u \<noteq> []" "p \<noteq> []" "prep_ok d"
        "find (\<lambda>r. u_username r = u \<and> u_active r = 1) (users d) = Some r" "u_hash r = Some h"
        "hash_data cr ip 100000 = Inr hip" "derive_salt cr u = Inr salt"
        "pbkdf2 cr p salt (col_int (u_iterations r)) = Inr h" by blast
    with cs[OF f(1)] read_derived_salt(2)[OF f(8)] show ?L
      by (simp add: verify_def verify_body_def Let_def)
  qed
qed

lemma hash_password_Inr:
  "hash_password cr p u n = Inr hp \<longleftrightarrow> (\<exists>salt. derive_salt cr u = Inr salt
     \<and> pbkdf2 cr p salt (if n \<noteq> 0 then n else 100000) = Inr (hp_hash hp)
     \<and> hp_salt hp = [] \<and> hp_iterations hp = (if n \<noteq> 0 then n else 100000))"
  by (auto simp: hash_password_def Let_def split: sum.splits)

lemma find_append: "find P (xs @ ys) = (case find P xs of None \<Rightarrow> find P ys | Some x \<Rightarrow> Some x)"
  by (induction xs) auto

section \<open>Properties\<close>


lemma safe_name_c_str: "list_all safe_char u \<Longrightarrow> c_str u = u"
  using safe_char_special by (intro c_str_id) (auto simp: list_all_iff)

lemma pbkdf2_no_nul:
  assumes "\<And>bs. NUL \<notin> set (b64_enc cr bs)" "pbkdf2 cr p salt n = Inr h"
  shows "c_str h = h"
  using assms by (intro c_str_id) (auto simp: pbkdf2_def split: sum.splits option.splits)


text \<open>
  After a successful change of the password of an active account the new password verifies.
\<close>

theorem change_password_then_verify:
  assumes nul: "\<And>bs. NUL \<notin> set (b64_enc cr bs)" and u: "list_all safe_char u" and wf: "db_wf d"
    and act: "\<forall>r \<in> set (users d). u_username r = u \<longrightarrow> u_active r = 1"
    and ch: "change_password cr d u old new = Inr (True, d')" and ip: "hash_data cr ip 100000 = Inr hip"
  shows "fst (verify cr d' u new ip)"
proof -
  note cu = safe_name_c_str[OF u]
  from ch obtain r hp where ne: "u \<noteq> []" "new \<noteq> []" "prep_ok d"
    and r: "find (\<lambda>r. u_username r = u) (users d) = Some r" and hp: "hash_password cr new u 100000 = Inr hp"
    and d': "d' = d\<lparr>users := map (\<lambda>r. if u_username r = u then r\<lparr>u_hash := Some (c_str (hp_hash hp)),
      u_iterations := hp_iterations hp\<rparr> else r) (users d)\<rparr>"
    by (auto simp: change_password_def cu split: if_splits sum.splits option.splits)
  from hp obtain salt where salt: "derive_salt cr u = Inr salt" "pbkdf2 cr new salt 100000 = Inr (hp_hash hp)"
    "hp_iterations hp = 100000" by (auto simp: hash_password_Inr)
  note h = pbkdf2_no_nul[OF nul salt(2)]
  let ?f = "\<lambda>r. if u_username r = u then r\<lparr>u_hash := Some (hp_hash hp), u_iterations := 100000\<rparr> else r"
  have find_map: "find (\<lambda>r. u_username r = u \<and> u_active r = 1) (map ?f rs) = Some (?f x)"
    if "find (\<lambda>r. u_username r = u) rs = Some x" "\<forall>r \<in> set rs. u_username r = u \<longrightarrow> u_active r = 1" for rs x
    using that by (induction rs) (auto split: if_splits)
  have f: "find (\<lambda>r. u_username r = u \<and> u_active r = 1) (users d') =
      Some (r\<lparr>u_hash := Some (hp_hash hp), u_iterations := 100000\<rparr>)"
    using find_map[OF r act] r unfolding d' by (auto simp: h salt(3) find_Some_iff)
  have c: "col_int 100000 = 100000" by (simp add: col_int_def)
  have "prep_ok d'" using ne(3) d' by simp
  with f salt ip ne u c show ?thesis by (auto simp: verify_iff)
qed

text \<open>
  For an unknown or inactive user the dummy hash that should hide the difference is never
  computed: its salt \<^verbatim>\<open>deadbeef\<close> is too short, and the exception ends the check.
\<close>

theorem unknown_user_no_dummy_hash:
  assumes "prep_ok d" "hash_data cr ip 100000 = Inr hip"
    "\<forall>r \<in> set (users d). u_username r = c_str u \<longrightarrow> u_active r \<noteq> 1"
  shows "verify_body cr d u p ip = Inl Invalid_argument"
proof -
  have "find (\<lambda>r. u_username r = c_str u \<and> u_active r = 1) (users d) = None"
    using assms(3) by (auto simp: find_None_iff)
  with assms show ?thesis by (simp add: verify_body_def pbkdf2_deadbeef)
qed

text \<open>A concrete crypto environment: hashes are the hexadecimal text of the password.\<close>

definition sample_crypto :: crypto where
  "sample_crypto = \<lparr>pepper = Some ''pep'', hkdf = (\<lambda>p d. Some (\<lambda>i. 1)),
     pbkdf2_sha256 = (\<lambda>p s n. Some (map (\<lambda>c. of_nat (of_char c)) p)),
     pbkdf2_sha512 = (\<lambda>p s n i. 2), b64_enc = (\<lambda>bs. concat (map hex2 bs))\<rparr>"

lemma sample_crypto_nul: "NUL \<notin> set (b64_enc sample_crypto bs)"
proof -
  have "NUL \<noteq> hexdig (unat b div 16)" "NUL \<noteq> hexdig (unat b mod 16)" for b :: "8 word"
  proof -
    have "unat b < 256" using unsigned_less[of b, where ?'a = nat] by simp
    then have "unat b div 16 < 16" "unat b mod 16 < 16" by auto
    then show "NUL \<noteq> hexdig (unat b div 16)" "NUL \<noteq> hexdig (unat b mod 16)" using hexdig_special by metis+
  qed
  then show ?thesis by (auto simp: sample_crypto_def hex2_def)
qed

lemma sample_hash_data: "\<exists>h. hash_data sample_crypto ''10.0.0.1'' 100000 = Inr h"
proof -
  have "derive_salt sample_crypto ''10.0.0.1'' = Inr (concat (map (\<lambda>i. hex2 1) [0..<16]))"
    by (simp add: derive_salt_def sample_crypto_def)
  from read_derived_salt(1)[OF this] this show ?thesis by (auto simp: hash_data_def)
qed

lemma sample_add: "\<exists>d'. add_user sample_crypto 5 ensure_schema ''bob'' ''pw'' ''10.0.0.1'' = Inr (True, d') \<and>
    (\<forall>r \<in> set (users d'). u_active r = 1) \<and> prep_ok d' \<and> step_ok d' \<and> db_wf d'"
proof -
  obtain h where h: "hash_data sample_crypto ''10.0.0.1'' 100000 = Inr h" using sample_hash_data by blast
  have salt: "derive_salt sample_crypto ''bob'' = Inr (concat (map (\<lambda>i. hex2 1) [0..<16]))"
    by (simp add: derive_salt_def sample_crypto_def)
  obtain bs where "read_salt (concat (map (\<lambda>i. hex2 1) [0..<16])) [0..<16] = Inr bs"
    using read_derived_salt(1)[OF salt] by blast
  then have "\<exists>hp. hash_password sample_crypto ''pw'' ''bob'' 100000 = Inr hp"
    using salt by (simp add: hash_password_def pbkdf2_def) (simp add: sample_crypto_def)
  then obtain hp where "hash_password sample_crypto ''pw'' ''bob'' 100000 = Inr hp" by blast
  with h show ?thesis
    by (simp add: add_user_def user_exists_def ensure_schema_def db_wf_def Let_def)
qed


lemma sample_change: "\<exists>d'. change_password sample_crypto (ensure_schema\<lparr>users := [sample_user]\<rparr>) ''bob'' [NUL] ''new'' = Inr (True, d')"
proof -
  have salt: "derive_salt sample_crypto ''bob'' = Inr (concat (map (\<lambda>i. hex2 1) [0..<16]))"
    by (simp add: derive_salt_def sample_crypto_def)
  obtain bs where b: "read_salt (concat (map (\<lambda>i. hex2 1) [0..<16])) [0..<16] = Inr bs"
    using read_derived_salt(1)[OF salt] by blast
  have hp: "hash_password sample_crypto p ''bob'' 100000 =
      Inr \<lparr>hp_hash = concat (map (\<lambda>c. hex2 (of_nat (of_char c))) p), hp_salt = [], hp_iterations = 100000\<rparr>" for p
    using salt b by (simp add: hash_password_def pbkdf2_def) (simp add: sample_crypto_def comp_def)
  have z: "hex2 0 = ''00''" by code_simp
  show ?thesis
    by (simp add: change_password_def salt sample_user_def col_int_def hp z ensure_schema_def c_str_def)
qed

theorem change_password_then_verify_witness:
  "\<exists>d'. change_password sample_crypto (ensure_schema\<lparr>users := [sample_user]\<rparr>) ''bob'' [NUL] ''new'' = Inr (True, d') \<and>
     fst (verify sample_crypto d' ''bob'' ''new'' ''10.0.0.1'')"
proof -
  obtain d' h where c: "change_password sample_crypto (ensure_schema\<lparr>users := [sample_user]\<rparr>) ''bob'' [NUL] ''new'' = Inr (True, d')"
    and h: "hash_data sample_crypto ''10.0.0.1'' 100000 = Inr h" using sample_change sample_hash_data by blast
  have "list_all safe_char ''bob''" by (simp add: safe_char_def isalnum_def)
  moreover have "db_wf (ensure_schema\<lparr>users := [sample_user]\<rparr>)" by (simp add: db_wf_def ensure_schema_def)
  moreover have "\<forall>r \<in> set (users (ensure_schema\<lparr>users := [sample_user]\<rparr>)). u_username r = ''bob'' \<longrightarrow> u_active r = 1"
    by (simp add: sample_user_def)
  ultimately show ?thesis using change_password_then_verify[OF sample_crypto_nul _ _ _ c h] c by blast
qed

theorem unknown_user_no_dummy_hash_witness:
  "verify_body sample_crypto ensure_schema ''eve'' ''pw'' ''10.0.0.1'' = Inl Invalid_argument"
proof -
  obtain h where "hash_data sample_crypto ''10.0.0.1'' 100000 = Inr h" using sample_hash_data by blast
  then show ?thesis by (rule unknown_user_no_dummy_hash[rotated]) (simp_all add: ensure_schema_def)
qed

end
