(* ===== verification/Sasl.thy ===== *)
theory Sasl
  imports Cred_Store
begin

text \<open>
  \<^verbatim>\<open>src/auth/sasl/sasl.cpp\<close>: the AUTH PLAIN and AUTH LOGIN exchanges of the submission server.
  The state record has the fields of \<^verbatim>\<open>SASLSession\<close>. OpenSSL's base64 BIO is a parameter
  (record \<open>codec\<close>; \<open>None\<close> stands for a read that returns no bytes), and \<open>vf\<close> is the store's
  \<^verbatim>\<open>verify\<close> for the session's address. The section on the exchange shows that only verified
  credentials authenticate, and what the attempt counter does and does not limit.
\<close>

datatype sasl_state = Idle | WaitingPlainResponse | WaitingLoginUsername | WaitingLoginPassword

datatype mechanism = Plain | Login

record sasl =
  ss_state :: sasl_state
  ss_mechanism :: mechanism
  ss_authenticated :: bool
  ss_username :: string
  ss_pending_username :: string
  ss_attempts :: nat

record codec =
  bio_read :: "string \<Rightarrow> string option"
  bio_write :: "string \<Rightarrow> string"

type_synonym response = "nat \<times> string"

definition sasl_init :: sasl where
  "sasl_init = \<lparr>ss_state = Idle, ss_mechanism = Plain, ss_authenticated = False, ss_username = [],
     ss_pending_username = [], ss_attempts = 0\<rparr>"

abbreviation MAX_AUTH_ATTEMPTS :: nat where "MAX_AUTH_ATTEMPTS \<equiv> 3"

section \<open>Operations\<close>

definition sasl_base64_decode :: "codec \<Rightarrow> string \<Rightarrow> string" where
  "sasl_base64_decode cd b64 =
     (if b64 = [] then [] else (case bio_read cd b64 of None \<Rightarrow> [] | Some s \<Rightarrow> s))"

definition in_progress :: "sasl \<Rightarrow> bool" where
  "in_progress s = (ss_state s \<noteq> Idle)"

definition sasl_reset :: "sasl \<Rightarrow> sasl" where
  "sasl_reset s = s\<lparr>ss_state := Idle, ss_authenticated := False, ss_username := [],
     ss_pending_username := [], ss_attempts := 0\<rparr>"

definition auth_success :: "sasl \<Rightarrow> response \<times> sasl" where
  "auth_success s = ((235, ''2.7.0 Authentication successful''), s\<lparr>ss_authenticated := True\<rparr>)"

definition auth_failure :: "sasl \<Rightarrow> response \<times> sasl" where
  "auth_failure s = ((535, ''5.7.8 Authentication credentials invalid''),
     s\<lparr>ss_authenticated := False, ss_username := [], ss_pending_username := [], ss_state := Idle\<rparr>)"

text \<open>The message \<^verbatim>\<open>[authzid] NUL authcid NUL passwd\<close> split at its first two NUL bytes.\<close>

definition split_plain :: "string \<Rightarrow> (string \<times> string) option" where
  "split_plain decoded = (case find_ch NUL decoded of None \<Rightarrow> None
     | Some first_nul \<Rightarrow> (case find_ch NUL (drop (first_nul + 1) decoded) of None \<Rightarrow> None
       | Some k \<Rightarrow> let second_nul = first_nul + 1 + k in
           Some (take (second_nul - first_nul - 1) (drop (first_nul + 1) decoded),
                 drop (second_nul + 1) decoded)))"

definition process_plain :: "codec \<Rightarrow> (string \<Rightarrow> string \<Rightarrow> bool) \<Rightarrow> string \<Rightarrow> sasl \<Rightarrow> response \<times> sasl" where
  "process_plain cd vf b64 s0 =
     (let s = s0\<lparr>ss_state := Idle\<rparr>; decoded = sasl_base64_decode cd b64 in
      if decoded = [] then auth_failure s
      else (case split_plain decoded of None \<Rightarrow> auth_failure s
      | Some (authcid, passwd) \<Rightarrow>
          if authcid = [] \<or> passwd = [] then auth_failure s
          else if vf authcid passwd then auth_success (s\<lparr>ss_username := authcid\<rparr>)
          else auth_failure s))"

definition begin_plain :: "codec \<Rightarrow> (string \<Rightarrow> string \<Rightarrow> bool) \<Rightarrow> string \<Rightarrow> sasl \<Rightarrow> response \<times> sasl" where
  "begin_plain cd vf resp s =
     (if resp = [] then ((334, []), s\<lparr>ss_state := WaitingPlainResponse\<rparr>)
      else process_plain cd vf resp s)"

definition begin_login :: "codec \<Rightarrow> sasl \<Rightarrow> response \<times> sasl" where
  "begin_login cd s = ((334, bio_write cd ''Username:''), s\<lparr>ss_state := WaitingLoginUsername\<rparr>)"

definition process_login :: "codec \<Rightarrow> (string \<Rightarrow> string \<Rightarrow> bool) \<Rightarrow> string \<Rightarrow> sasl \<Rightarrow> response \<times> sasl" where
  "process_login cd vf b64 s =
     (if ss_state s = WaitingLoginUsername then
        (let s1 = s\<lparr>ss_pending_username := sasl_base64_decode cd b64\<rparr> in
         if ss_pending_username s1 = [] then auth_failure s1
         else ((334, bio_write cd ''Password:''), s1\<lparr>ss_state := WaitingLoginPassword\<rparr>))
      else if ss_state s = WaitingLoginPassword then
        (let s1 = s\<lparr>ss_state := Idle\<rparr>; password = sasl_base64_decode cd b64 in
         if password = [] \<or> ss_pending_username s1 = [] then auth_failure s1
         else if vf (ss_pending_username s1) password
         then auth_success (s1\<lparr>ss_username := ss_pending_username s1, ss_pending_username := []\<rparr>)
         else auth_failure (s1\<lparr>ss_pending_username := []\<rparr>))
      else ((503, ''No authentication in progress''), s))"

text \<open>
  The loop that should normalise the mechanism name changes a copy of each character, so the
  comparison sees the name as the client wrote it.
\<close>

definition sasl_begin ::
  "codec \<Rightarrow> (string \<Rightarrow> string \<Rightarrow> bool) \<Rightarrow> string \<Rightarrow> string \<Rightarrow> sasl \<Rightarrow> response \<times> sasl" where
  "sasl_begin cd vf mech resp s =
     (if ss_authenticated s then ((503, ''Already authenticated''), s)
      else let s1 = s\<lparr>ss_attempts := ss_attempts s + 1\<rparr> in
        if ss_attempts s1 > MAX_AUTH_ATTEMPTS then ((534, ''Too many authentication attempts''), s1)
        else if mech = ''PLAIN'' then begin_plain cd vf resp (s1\<lparr>ss_mechanism := Plain\<rparr>)
        else if mech = ''LOGIN'' then begin_login cd (s1\<lparr>ss_mechanism := Login\<rparr>)
        else ((504, ''Authentication mechanism not supported''), s1))"

definition sasl_respond ::
  "codec \<Rightarrow> (string \<Rightarrow> string \<Rightarrow> bool) \<Rightarrow> string \<Rightarrow> sasl \<Rightarrow> response \<times> sasl" where
  "sasl_respond cd vf resp s =
     (if resp = ''*'' then ((501, ''Authentication cancelled''), sasl_reset s)
      else (case ss_state s of
              WaitingPlainResponse \<Rightarrow> process_plain cd vf resp s
            | WaitingLoginUsername \<Rightarrow> process_login cd vf resp s
            | WaitingLoginPassword \<Rightarrow> process_login cd vf resp s
            | Idle \<Rightarrow> ((503, ''No authentication in progress''), s)))"

section \<open>The exchange\<close>

datatype sasl_event = Begin string string | Respond string

fun sasl_step :: "codec \<Rightarrow> (string \<Rightarrow> string \<Rightarrow> bool) \<Rightarrow> sasl \<Rightarrow> sasl_event \<Rightarrow> response \<times> sasl" where
  "sasl_step cd vf s (Begin m r) = sasl_begin cd vf m r s"
| "sasl_step cd vf s (Respond r) = sasl_respond cd vf r s"

text \<open>
  The session is authenticated exactly when it names a user, and that user's credentials were
  accepted by the store; no exchange is open in an authenticated session.
\<close>

definition sasl_inv :: "(string \<Rightarrow> string \<Rightarrow> bool) \<Rightarrow> sasl \<Rightarrow> bool" where
  "sasl_inv vf s \<longleftrightarrow>
     (if ss_authenticated s then (\<exists>p. vf (ss_username s) p) \<and> ss_state s = Idle
      else ss_username s = [])
     \<and> (ss_state s = WaitingLoginPassword \<longrightarrow> ss_pending_username s \<noteq> [])"

lemma sasl_init_inv: "sasl_inv vf sasl_init"
  by (simp add: sasl_inv_def sasl_init_def)

lemmas sasl_defs = sasl_begin_def sasl_respond_def begin_plain_def begin_login_def process_plain_def
  process_login_def auth_success_def auth_failure_def sasl_reset_def Let_def

lemma process_plain_inv:
  "sasl_inv vf s \<Longrightarrow> \<not> ss_authenticated s \<Longrightarrow> sasl_inv vf (snd (process_plain cd vf b s))"
  by (auto simp: sasl_inv_def process_plain_def auth_success_def auth_failure_def Let_def
      split: option.splits)

lemma process_login_inv:
  "sasl_inv vf s \<Longrightarrow> \<not> ss_authenticated s \<Longrightarrow> sasl_inv vf (snd (process_login cd vf b s))"
  by (auto simp: sasl_inv_def process_login_def auth_success_def auth_failure_def Let_def)

lemma sasl_begin_inv: "sasl_inv vf s \<Longrightarrow> sasl_inv vf (snd (sasl_begin cd vf m r s))"
proof (cases "ss_authenticated s")
  case False
  assume i: "sasl_inv vf s"
  let ?s = "s\<lparr>ss_attempts := ss_attempts s + 1, ss_mechanism := Plain\<rparr>"
  have "sasl_inv vf ?s" "\<not> ss_authenticated ?s" using i False by (auto simp: sasl_inv_def)
  from process_plain_inv[OF this] have p: "sasl_inv vf (snd (process_plain cd vf r ?s))" .
  from i False p show ?thesis
    by (auto simp: sasl_begin_def begin_plain_def begin_login_def Let_def sasl_inv_def)
qed (simp add: sasl_begin_def)

lemma sasl_respond_inv: "sasl_inv vf s \<Longrightarrow> sasl_inv vf (snd (sasl_respond cd vf r s))"
proof -
  assume i: "sasl_inv vf s"
  then have "\<not> ss_authenticated s" if "ss_state s \<noteq> Idle"
    using that by (auto simp: sasl_inv_def split: if_splits)
  with i process_plain_inv[OF i] process_login_inv[OF i] show ?thesis
    by (cases "ss_state s") (auto simp: sasl_respond_def sasl_reset_def sasl_inv_def)
qed

interpretation sasl_run: event_machine "\<lambda>s e. snd (sasl_step cd vf s e)" "sasl_inv vf" for cd vf
proof
  fix s e assume "sasl_inv vf s"
  then show "sasl_inv vf (snd (sasl_step cd vf s e))"
    by (cases e) (simp_all add: sasl_begin_inv sasl_respond_inv)
qed

text \<open>
  The credentials in what a client sends: a text that decodes to a PLAIN message, or one text with the user name and one with the
  password of a LOGIN exchange. In a session that \<open>holds\<close> the texts \<open>ts\<close> the name of the user, and the one kept between the two steps of LOGIN,
  come from these texts.
\<close>

definition presented :: "codec \<Rightarrow> string set \<Rightarrow> (string \<times> string) set" where
  "presented cd ts = {(u, p). (\<exists>t \<in> ts. split_plain (sasl_base64_decode cd t) = Some (u, p)) \<or>
     (\<exists>t1 \<in> ts. \<exists>t2 \<in> ts. u = sasl_base64_decode cd t1 \<and> p = sasl_base64_decode cd t2)}"

definition holds :: "codec \<Rightarrow> (string \<Rightarrow> string \<Rightarrow> bool) \<Rightarrow> string set \<Rightarrow> sasl \<Rightarrow> bool" where
  "holds cd vf ts s \<longleftrightarrow>
     (ss_authenticated s \<longrightarrow> (\<exists>p. (ss_username s, p) \<in> presented cd ts \<and> vf (ss_username s) p)) \<and>
     (ss_pending_username s = [] \<or> (\<exists>t \<in> ts. ss_pending_username s = sasl_base64_decode cd t))"

fun sent_text :: "sasl_event \<Rightarrow> string" where
  "sent_text (Begin m r) = r"
| "sent_text (Respond r) = r"

lemma presented_mono: "ts \<subseteq> ts' \<Longrightarrow> presented cd ts \<subseteq> presented cd ts'"
  by (fastforce simp: presented_def)

lemma holds_mono: "holds cd vf ts s \<Longrightarrow> ts \<subseteq> ts' \<Longrightarrow> holds cd vf ts' s"
  unfolding holds_def using presented_mono by blast

lemma holds_init: "holds cd vf ts sasl_init"
  by (simp add: holds_def sasl_init_def)

lemma holds_plain: "holds cd vf ts s \<Longrightarrow> b \<in> ts \<Longrightarrow> holds cd vf ts (snd (process_plain cd vf b s))"
  by (auto simp: holds_def process_plain_def auth_success_def auth_failure_def presented_def Let_def split: option.splits)

lemma holds_login: "holds cd vf ts s \<Longrightarrow> b \<in> ts \<Longrightarrow> holds cd vf ts (snd (process_login cd vf b s))"
  by (auto simp: holds_def process_login_def auth_success_def auth_failure_def presented_def Let_def)

lemma holds_step: "holds cd vf ts s \<Longrightarrow> sent_text e \<in> ts \<Longrightarrow> holds cd vf ts (snd (sasl_step cd vf s e))"
proof (cases e)
  case (Begin m r)
  assume h: "holds cd vf ts s" "sent_text e \<in> ts"
  let ?s = "s\<lparr>ss_attempts := ss_attempts s + 1, ss_mechanism := Plain\<rparr>"
  have "holds cd vf ts ?s" using h(1) by (simp add: holds_def)
  from holds_plain[OF this] have "holds cd vf ts (snd (process_plain cd vf r ?s))" using h(2) Begin by simp
  with h(1) show ?thesis by (auto simp: Begin sasl_begin_def begin_plain_def begin_login_def holds_def Let_def)
next
  case (Respond r)
  assume h: "holds cd vf ts s" "sent_text e \<in> ts"
  then show ?thesis using holds_plain[OF h(1)] holds_login[OF h(1)]
    by (cases "ss_state s") (auto simp: Respond sasl_respond_def sasl_reset_def holds_def)
qed

lemma holds_run: "holds cd vf ts s \<Longrightarrow> sent_text ` set es \<subseteq> ts \<Longrightarrow> holds cd vf ts (foldl (\<lambda>s e. snd (sasl_step cd vf s e)) s es)"
  by (induction es arbitrary: s) (simp_all add: holds_step)

lemma auth_code:
  "\<not> ss_authenticated s \<Longrightarrow> fst (fst (process_plain cd vf b s)) = 235 \<longleftrightarrow>
     ss_authenticated (snd (process_plain cd vf b s))"
  "\<not> ss_authenticated s \<Longrightarrow> fst (fst (process_login cd vf b s)) = 235 \<longleftrightarrow>
     ss_authenticated (snd (process_login cd vf b s))"
  by (auto simp: process_plain_def process_login_def auth_success_def auth_failure_def Let_def
      split: option.splits)

lemma sasl_code_235:
  assumes "\<not> ss_authenticated s"
  shows "fst (fst (sasl_step cd vf s e)) = 235 \<longleftrightarrow> ss_authenticated (snd (sasl_step cd vf s e))"
  using assms auth_code[of s cd vf]
    auth_code(1)[of "s\<lparr>ss_attempts := ss_attempts s + 1, ss_mechanism := Plain\<rparr>" cd vf]
  by (cases e; cases "ss_state s")
    (auto simp: sasl_begin_def sasl_respond_def begin_plain_def begin_login_def sasl_reset_def Let_def)

text \<open>The counter: at the limit no further exchange starts, and only a cancellation lowers it.\<close>

lemma sasl_limit:
  assumes "\<not> ss_authenticated s" and "MAX_AUTH_ATTEMPTS \<le> ss_attempts s"
  shows "fst (fst (sasl_begin cd vf m r s)) = 534" "ss_state (snd (sasl_begin cd vf m r s)) = ss_state s"
  using assms by (auto simp: sasl_begin_def Let_def)

lemma process_attempts [simp]:
  "ss_attempts (snd (process_plain cd vf b s)) = ss_attempts s"
  "ss_attempts (snd (process_login cd vf b s)) = ss_attempts s"
  by (auto simp: process_plain_def process_login_def auth_success_def auth_failure_def Let_def
      split: option.splits)

lemma sasl_attempts_mono:
  assumes "e \<noteq> Respond ''*''"
  shows "ss_attempts s \<le> ss_attempts (snd (sasl_step cd vf s e))"
  using assms
  by (cases e; cases "ss_state s")
    (auto simp: sasl_begin_def sasl_respond_def begin_plain_def begin_login_def Let_def)

text \<open>
  One guess of a client that cancels: an AUTH PLAIN with the guess inline, then an empty AUTH
  LOGIN cancelled by \<^verbatim>\<open>*\<close>.
\<close>

definition guess_round :: "codec \<Rightarrow> (string \<Rightarrow> string \<Rightarrow> bool) \<Rightarrow> sasl \<Rightarrow> string \<Rightarrow> sasl" where
  "guess_round cd vf s b64 =
     snd (sasl_step cd vf (snd (sasl_step cd vf (snd (sasl_step cd vf s (Begin ''PLAIN'' b64)))
       (Begin ''LOGIN'' []))) (Respond ''*''))"

lemma process_plain_rejected:
  assumes "\<not> ss_authenticated (snd (process_plain cd vf b s))"
  shows "process_plain cd vf b s = auth_failure (s\<lparr>ss_state := Idle\<rparr>)"
  using assms by (auto simp: process_plain_def Let_def auth_success_def split: option.splits)

lemma guess_round_reset:
  assumes "\<not> ss_authenticated s" and "ss_attempts s = 0" and "b64 \<noteq> []"
    and "\<not> ss_authenticated (snd (sasl_begin cd vf ''PLAIN'' b64 s))"
  shows "\<not> ss_authenticated (guess_round cd vf s b64)" "ss_attempts (guess_round cd vf s b64) = 0"
    "ss_state (guess_round cd vf s b64) = Idle"
proof -
  let ?s = "s\<lparr>ss_attempts := 1, ss_mechanism := Plain\<rparr>"
  have "\<not> ss_authenticated (snd (process_plain cd vf b64 ?s))"
    using assms by (simp add: sasl_begin_def begin_plain_def Let_def)
  from process_plain_rejected[OF this] assms
  show "\<not> ss_authenticated (guess_round cd vf s b64)" "ss_attempts (guess_round cd vf s b64) = 0"
    "ss_state (guess_round cd vf s b64) = Idle"
    by (simp_all add: guess_round_def sasl_begin_def begin_plain_def begin_login_def sasl_respond_def
        sasl_reset_def auth_failure_def Let_def)
qed

section \<open>Properties\<close>

text \<open>
  C27. Whatever sequence of \<^verbatim>\<open>AUTH\<close> commands and responses a client sends, the session ends up
  authenticated only as a user whose name the client sent together with a password that the store accepts for it, and with no exchange
  open; an unauthenticated session names no user.
\<close>

theorem sasl_only_verified:
  "let s = foldl (\<lambda>s e. snd (sasl_step cd vf s e)) sasl_init es in
     if ss_authenticated s
     then ss_state s = Idle \<and> (\<exists>p. (ss_username s, p) \<in> presented cd (sent_text ` set es) \<and> vf (ss_username s) p)
     else ss_username s = []"
  using sasl_run.invar_run[OF sasl_init_inv, where cd = cd and es = es]
    holds_run[OF holds_init, of es "sent_text ` set es" cd vf]
  by (simp add: sasl_inv_def holds_def Let_def)

lemma sasl_attempts_run:
  "Respond ''*'' \<notin> set es \<Longrightarrow> ss_attempts s \<le> ss_attempts (foldl (\<lambda>s e. snd (sasl_step cd vf s e)) s es)"
proof (induction es arbitrary: s)
  case (Cons e es)
  then have "ss_attempts s \<le> ss_attempts (snd (sasl_step cd vf s e))" by (intro sasl_attempts_mono) auto
  moreover have "ss_attempts (snd (sasl_step cd vf s e)) \<le>
      ss_attempts (foldl (\<lambda>s e. snd (sasl_step cd vf s e)) (snd (sasl_step cd vf s e)) es)"
    using Cons by simp
  ultimately show ?case by simp
qed simp

text \<open>
  The attempt limit: once three attempts were made, no later \<^verbatim>\<open>AUTH\<close> of an unauthenticated
  session gets past code 534, as long as the client does not cancel an exchange.
\<close>

theorem sasl_attempt_limit:
  assumes "MAX_AUTH_ATTEMPTS \<le> ss_attempts s" "Respond ''*'' \<notin> set es"
    "s' = foldl (\<lambda>s e. snd (sasl_step cd vf s e)) s es" "\<not> ss_authenticated s'"
  shows "fst (fst (sasl_begin cd vf m r s')) = 534 \<and> \<not> ss_authenticated (snd (sasl_begin cd vf m r s'))"
  using sasl_attempts_run[OF assms(2), of s cd vf] assms(1,3,4) by (simp add: sasl_begin_def Let_def)

text \<open>Whether a PLAIN response carries credentials the store accepts.\<close>

definition plain_ok :: "codec \<Rightarrow> (string \<Rightarrow> string \<Rightarrow> bool) \<Rightarrow> string \<Rightarrow> bool" where
  "plain_ok cd vf b64 = (case split_plain (sasl_base64_decode cd b64) of None \<Rightarrow> False
     | Some (u, p) \<Rightarrow> sasl_base64_decode cd b64 \<noteq> [] \<and> u \<noteq> [] \<and> p \<noteq> [] \<and> vf u p)"

lemma begin_plain_ok:
  assumes "\<not> ss_authenticated s" "ss_attempts s = 0" "b64 \<noteq> []"
  shows "ss_authenticated (snd (sasl_begin cd vf ''PLAIN'' b64 s)) = plain_ok cd vf b64"
    "plain_ok cd vf b64 \<Longrightarrow> fst (fst (sasl_begin cd vf ''PLAIN'' b64 s)) = 235"
  using assms
  by (auto simp: sasl_begin_def begin_plain_def process_plain_def plain_ok_def auth_success_def auth_failure_def
      Let_def split: option.splits)

lemma guess_rounds:
  "\<forall>g \<in> set gs. g \<noteq> [] \<and> \<not> plain_ok cd vf g \<Longrightarrow> \<not> ss_authenticated s \<Longrightarrow> ss_attempts s = 0 \<Longrightarrow>
     \<not> ss_authenticated (foldl (guess_round cd vf) s gs) \<and> ss_attempts (foldl (guess_round cd vf) s gs) = 0"
proof (induction gs arbitrary: s)
  case (Cons g gs)
  then have "\<not> ss_authenticated (snd (sasl_begin cd vf ''PLAIN'' g s))" using begin_plain_ok(1)[of s g cd vf] by simp
  with guess_round_reset[of s g cd vf] Cons show ?case by simp
qed simp

text \<open>
  Cancelling lifts the limit: a client that follows every wrong guess by an exchange it
  cancels can try any number of passwords, and its next correct guess is accepted.
\<close>

theorem sasl_cancel_lifts_limit:
  assumes "\<forall>g \<in> set gs. g \<noteq> [] \<and> \<not> plain_ok cd vf g" "good \<noteq> []" "plain_ok cd vf good"
  shows "fst (fst (sasl_begin cd vf ''PLAIN'' good (foldl (guess_round cd vf) sasl_init gs))) = 235"
proof -
  have "\<not> ss_authenticated sasl_init" "ss_attempts sasl_init = 0" by (simp_all add: sasl_init_def)
  from guess_rounds[OF assms(1) this] show ?thesis using begin_plain_ok(2) assms(2,3) by blast
qed

definition sample_codec :: codec where
  "sample_codec = \<lparr>bio_read = Some, bio_write = (\<lambda>s. s)\<rparr>"

theorem sasl_cancel_lifts_limit_witness:
  "fst (fst (sasl_begin sample_codec (\<lambda>u p. u = ''bob'' \<and> p = ''pw'') ''PLAIN'' ([NUL] @ ''bob'' @ [NUL] @ ''pw'')
     (foldl (guess_round sample_codec (\<lambda>u p. u = ''bob'' \<and> p = ''pw'')) sasl_init
        (replicate 100 ([NUL] @ ''bob'' @ [NUL] @ ''wrong''))))) = 235"
proof (rule sasl_cancel_lifts_limit)
  show "\<forall>g \<in> set (replicate 100 ([NUL] @ ''bob'' @ [NUL] @ ''wrong'')). g \<noteq> [] \<and>
      \<not> plain_ok sample_codec (\<lambda>u p. u = ''bob'' \<and> p = ''pw'') g"
    by (simp add: plain_ok_def sasl_base64_decode_def sample_codec_def split_plain_def Let_def)
qed (simp_all add: plain_ok_def sasl_base64_decode_def sample_codec_def split_plain_def Let_def)

theorem sasl_attempt_limit_witness:
  "fst (fst (sasl_begin sample_codec (\<lambda>u p. False) ''PLAIN'' []
     (foldl (\<lambda>s e. snd (sasl_step sample_codec (\<lambda>u p. False) s e)) (sasl_init\<lparr>ss_attempts := 3\<rparr>)
       [Begin ''LOGIN'' []]))) = 534"
proof -
  have "\<not> ss_authenticated (foldl (\<lambda>s e. snd (sasl_step sample_codec (\<lambda>u p. False) s e))
      (sasl_init\<lparr>ss_attempts := 3\<rparr>) [Begin ''LOGIN'' []])"
    by (simp add: sasl_begin_def sasl_init_def Let_def)
  then show ?thesis
    using sasl_attempt_limit[of "sasl_init\<lparr>ss_attempts := 3\<rparr>" "[Begin ''LOGIN'' []]" _ sample_codec "\<lambda>u p. False"]
    by (simp add: sasl_init_def)
qed

end
