(* ===== verification/Submission.thy ===== *)
theory Submission
  imports Smtp_Session Sasl
begin

text \<open>
  \<^verbatim>\<open>src/smtp/submission_server.cpp\<close>: the submission session on port 587. The record \<open>subm\<close> has the
  fields of \<^verbatim>\<open>SMTP::SubmissionServer\<close> (the SASL session among them), the calls made on the event
  loop, the shared world and the log of what was sent to other mail servers. A handler that can
  throw returns an \<open>Inl\<close>. The resolver library, the sockets and the peer of an outbound
  connection are the record \<open>relay_env\<close>; the DKIM signer is the argument \<open>sign\<close>.
\<close>

datatype sub_state = Connected | Greeted | Authenticated | Mail | Rcpt | Data | Done

text \<open>Per relay attempt the domain and, once a connection stood, the host and the transcript.\<close>

type_synonym relay_log = "(string \<times> (string \<times> (bool \<times> string) list) option) list"

record subm =
  sb_state :: sub_state
  sb_tls_active :: bool
  sb_line_buf :: string
  sb_data_tail :: string
  sb_pending_close :: bool
  sb_env :: envelope
  sb_client_helo :: string
  sb_tls_upgrade_pending :: bool
  sb_sasl :: sasl
  sb_calls :: "loop_call list"
  sb_world :: world
  sb_relayed :: relay_log

section \<open>Text helpers\<close>

definition sub_trim :: "string \<Rightarrow> string" where
  "sub_trim sv = (case find_first_not_of ws_set sv of None \<Rightarrow> []
     | Some start \<Rightarrow> (case find_last_not_of ws_set sv of None \<Rightarrow> drop start sv
        | Some stop \<Rightarrow> take (stop - start + 1) (drop start sv)))"

definition sub_extract_address :: "string \<Rightarrow> string" where
  "sub_extract_address arg0 =
     (let arg1 = sub_trim arg0;
          arg2 = (case find_ch CHR '' '' arg1 of None \<Rightarrow> arg1 | Some space \<Rightarrow> take space arg1);
          arg3 = (if arg2 \<noteq> [] \<and> hd arg2 = CHR ''<'' \<and> last arg2 = CHR ''>''
                  then take (length arg2 - 2) (drop 1 arg2) else arg2)
      in sub_trim arg3)"

text \<open>
  One comma-separated piece of an address header. When \<^verbatim>\<open>>\<close> precedes \<^verbatim>\<open><\<close> the unsigned length
  wraps and everything after \<^verbatim>\<open><\<close> is taken.
\<close>

definition header_token :: "string \<Rightarrow> string list" where
  "header_token token0 =
     (let token1 = (case (find_ch CHR ''<'' token0, find_ch CHR ''>'' token0) of
                      (Some lt, Some gt) \<Rightarrow> (if lt < gt then take (gt - lt - 1) (drop (lt + 1) token0)
                                            else drop (lt + 1) token0)
                    | _ \<Rightarrow> token0);
          token2 = (case find_first_not_of [CHR '' '', TAB] token1 of None \<Rightarrow> token1
                    | Some start \<Rightarrow> (case find_last_not_of [CHR '' '', TAB] token1 of None \<Rightarrow> drop start token1
                        | Some stop \<Rightarrow> take (stop - start + 1) (drop start token1)))
      in if token2 = [] then [] else [token2])"

text \<open>
  \<^verbatim>\<open>extract_address(body, header_name)\<close>. The test \<^verbatim>\<open>line.empty() && line.back() == '\r'\<close> calls
  \<^verbatim>\<open>back()\<close> exactly on the empty line, which is undefined; a line that ends in a carriage return
  keeps it.
\<close>

fun header_addresses :: "string \<Rightarrow> bool \<Rightarrow> string list \<Rightarrow> string list cpp" where
  "header_addresses name in_header [] = Inr []"
| "header_addresses name in_header (line # ls) =
     (if line = [] then Inl Undefined_behaviour
      else
        let hit = (take (length name + 1) (lower line) = name @ '':'');
            fold = (in_header \<and> (hd line = CHR '' '' \<or> hd line = TAB));
            line' = (if hit then drop (length name + 1) line else line)
        in if hit \<or> fold
           then (case header_addresses name True ls of Inl e \<Rightarrow> Inl e
                 | Inr rest \<Rightarrow> Inr (concat (map header_token (getlines CHR '','' line')) @ rest))
           else header_addresses name False ls)"

definition extract_header_addresses :: "string \<Rightarrow> string \<Rightarrow> string list cpp" where
  "extract_header_addresses body header_name = header_addresses header_name False (getlines LF body)"

fun sub_strip_lines :: "string \<Rightarrow> bool \<Rightarrow> string list \<Rightarrow> string" where
  "sub_strip_lines name skipping [] = []"
| "sub_strip_lines name skipping (line # ls) =
     (let stripped = strip_cr line in
      if stripped = [] then line @ [LF] @ sub_strip_lines name False ls
      else if take (length name + 1) (lower stripped) = name @ '':'' then sub_strip_lines name True ls
      else if skipping \<and> (hd stripped = CHR '' '' \<or> hd stripped = TAB) then sub_strip_lines name skipping ls
      else line @ [LF] @ sub_strip_lines name False ls)"

definition sub_strip_header :: "string \<Rightarrow> string \<Rightarrow> string" where
  "sub_strip_header body header_name = sub_strip_lines header_name False (getlines LF body)"

section \<open>Outbound relay\<close>

record relay_env =
  res_query :: "string \<Rightarrow> string option"
  dn_expand :: "string \<Rightarrow> nat \<Rightarrow> string"
  resolves :: "string \<Rightarrow> bool"
  socket_ok :: bool
  connect_ok :: bool
  handshake_ok :: "string \<Rightarrow> bool"
  clear_in :: string
  tls_in :: string

definition byte_at :: "string \<Rightarrow> nat \<Rightarrow> nat" where
  "byte_at a i = of_char (a ! i)"

definition u16_at :: "string \<Rightarrow> nat \<Rightarrow> nat" where
  "u16_at a i = 256 * byte_at a i + byte_at a (i + 1)"

text \<open>The name-skipping loops of the MX answer; every turn moves the pointer forward.\<close>

function skip_qname :: "string \<Rightarrow> nat \<Rightarrow> nat" where
  "skip_qname a ptr =
     (if ptr < length a \<and> byte_at a ptr \<noteq> 0
      then (if byte_at a ptr \<ge> 192 then ptr + 2 else skip_qname a (ptr + byte_at a ptr + 1))
      else ptr)"
  by pat_completeness auto
termination
  by (relation "measure (\<lambda>(a, ptr). length a - ptr)") auto

function skip_rname :: "string \<Rightarrow> nat \<Rightarrow> nat" where
  "skip_rname a ptr =
     (if ptr < length a
      then (if byte_at a ptr \<ge> 192 then ptr + 2
            else if byte_at a ptr = 0 then ptr + 1
            else skip_rname a (ptr + byte_at a ptr + 1))
      else ptr)"
  by pat_completeness auto
termination
  by (relation "measure (\<lambda>(a, ptr). length a - ptr)") auto

declare skip_qname.simps [simp del] skip_rname.simps [simp del]

fun skip_questions :: "string \<Rightarrow> nat \<Rightarrow> nat \<Rightarrow> nat" where
  "skip_questions a 0 ptr = ptr"
| "skip_questions a (Suc i) ptr =
     (let p = skip_qname a ptr;
          q = (if p < length a \<and> byte_at a p = 0 then p + 1 else p)
      in skip_questions a i (q + 4))"

fun scan_mx :: "relay_env \<Rightarrow> string \<Rightarrow> nat \<Rightarrow> nat \<Rightarrow> nat \<times> string \<Rightarrow> nat \<times> string" where
  "scan_mx R a 0 ptr best = best"
| "scan_mx R a (Suc i) ptr (mx_prio, mx_host) =
     (let p = skip_rname a ptr in
      if p + 10 > length a then (mx_prio, mx_host)
      else
        let type = u16_at a p; rdlen = u16_at a (p + 8); rd = p + 10;
            best = (if type = 15 \<and> rd + 2 \<le> length a \<and> u16_at a rd < mx_prio
                    then (u16_at a rd, dn_expand R a (rd + 2)) else (mx_prio, mx_host))
        in scan_mx R a i (rd + rdlen) best)"

definition mx_host_of :: "relay_env \<Rightarrow> string \<Rightarrow> string cpp option" where
  "mx_host_of R domain = (case res_query R (c_str domain) of None \<Rightarrow> None
     | Some a \<Rightarrow> Some (if length a < 12 then Inl Undefined_behaviour
         else let (p, h) = scan_mx R a (u16_at a 6) (skip_questions a (u16_at a 4) 12) (65535, [])
              in Inr (if h = [] then domain else h)))"

record relay =
  rl_in :: string
  rl_tls :: bool
  rl_sent :: "(bool \<times> string) list"

fun recv_line :: "string \<Rightarrow> string \<Rightarrow> string \<times> string" where
  "recv_line line [] = (line, [])"
| "recv_line line (c # cs) =
     (let line' = line @ [c] in
      if length line' \<ge> 2 \<and> line' ! (length line' - 2) = CR \<and> last line' = LF then (line', cs)
      else recv_line line' cs)"

lemma recv_line_split: "recv_line l xs = (m, ys) \<Longrightarrow> m @ ys = l @ xs"
  by (induction l xs rule: recv_line.induct) (auto simp: Let_def split: if_splits)

lemma recv_line_shorter: "recv_line [] xs = (m, ys) \<Longrightarrow> m \<noteq> [] \<Longrightarrow> length ys < length xs"
  using recv_line_split[of "[]" xs m ys] by (metis append_Nil length_append length_greater_0_conv less_add_same_cancel2)

function expect_lines :: "nat \<Rightarrow> string list \<Rightarrow> string \<Rightarrow> bool \<times> string list \<times> string" where
  "expect_lines expected lines inp =
     (case recv_line [] inp of (lst, rest) \<Rightarrow>
        if lst = [] then (False, lines, rest)
        else let lines' = lines @ [lst] in
          if length lst \<ge> 4 \<and> lst ! 3 = CHR '' ''
          then ((case stoi (take 3 lst) of Inl e \<Rightarrow> False | Inr actual \<Rightarrow> actual = int expected), lines', rest)
          else if length lst < 4 then (False, lines', rest)
          else expect_lines expected lines' rest)"
  by pat_completeness auto
termination
  by (relation "measure (\<lambda>(e, l, inp). length inp)") (auto simp: recv_line_shorter[OF sym])

declare expect_lines.simps [simp del]

definition expect_multiline :: "nat \<Rightarrow> relay \<Rightarrow> bool \<times> string list \<times> relay" where
  "expect_multiline expected r =
     (case expect_lines expected [] (rl_in r) of (ok, ls, rest) \<Rightarrow> (ok, ls, r\<lparr>rl_in := rest\<rparr>))"

definition expect :: "nat \<Rightarrow> relay \<Rightarrow> bool \<times> relay" where
  "expect expected r = (case expect_multiline expected r of (ok, ls, r') \<Rightarrow> (ok, r'))"

text \<open>The results of \<^verbatim>\<open>send_line\<close> are never looked at; \<open>rl_sent\<close> holds what it was given.\<close>

definition send_line :: "string \<Rightarrow> relay \<Rightarrow> relay" where
  "send_line line r = r\<lparr>rl_sent := rl_sent r @ [(rl_tls r, line @ crlf)]\<rparr>"

definition stuff_line :: "string \<Rightarrow> string" where
  "stuff_line line = strip_cr (if line \<noteq> [] \<and> hd line = CHR ''.'' then CHR ''.'' # line else line)"

definition supports_tls :: "string list \<Rightarrow> bool" where
  "supports_tls caps = list_ex (\<lambda>line. has_sub ''STARTTLS'' (upper line)) caps"

text \<open>Greeting, EHLO with fall-back to HELO, and the TLS upgrade; \<open>None\<close> is an early \<^verbatim>\<open>return false\<close>.\<close>

definition relay_greet :: "server_env \<Rightarrow> relay_env \<Rightarrow> string \<Rightarrow> relay \<Rightarrow> bool \<times> relay" where
  "relay_greet E R mx_host r0 =
     (case expect 220 r0 of (False, r1) \<Rightarrow> (False, r1)
      | (True, r1) \<Rightarrow>
        (case expect_multiline 250 (send_line (''EHLO '' @ get_hostname E) r1) of
           (False, caps, r2) \<Rightarrow> expect 250 (send_line (''HELO '' @ get_hostname E) r2)
         | (True, caps, r2) \<Rightarrow>
             if \<not> supports_tls caps then (True, r2)
             else (case expect 220 (send_line ''STARTTLS'' r2) of
                     (False, r3) \<Rightarrow> (True, r3)
                   | (True, r3) \<Rightarrow>
                       if handshake_ok R mx_host
                       then (case expect_multiline 250
                                    (send_line (''EHLO '' @ get_hostname E) (r3\<lparr>rl_tls := True, rl_in := tls_in R\<rparr>)) of
                               (ok, ls, r4) \<Rightarrow> (ok, r4))
                       else (False, r3))))"

definition split_message :: "string \<Rightarrow> (string \<times> string) option" where
  "split_message body = (case find_sub [CR, LF, CR, LF] body of
       Some sep \<Rightarrow> Some (take (sep + 2) body, drop (sep + 4) body)
     | None \<Rightarrow> (case find_sub [LF, LF] body of
         Some sep \<Rightarrow> Some (take (sep + 1) body, drop (sep + 2) body)
       | None \<Rightarrow> None))"

definition relay_message :: "(string \<Rightarrow> string \<Rightarrow> string cpp) \<Rightarrow> string \<Rightarrow> relay \<Rightarrow> (bool \<times> relay) option" where
  "relay_message sign body r =
     (case split_message body of None \<Rightarrow> None
      | Some (msg_headers, msg_body) \<Rightarrow>
        (case sign msg_headers msg_body of
           Inl e \<Rightarrow> Some (False, r)
         | Inr outbound \<Rightarrow>
             Some (expect 250 (send_line ''.''
               (foldl (\<lambda>r line. send_line (stuff_line line) r) r
                  (getlines LF (outbound @ crlf @ msg_body)))))))"

definition relay_exchange ::
  "(string \<Rightarrow> string \<Rightarrow> string cpp) \<Rightarrow> string \<Rightarrow> string \<Rightarrow> string \<Rightarrow> relay \<Rightarrow> bool \<times> relay" where
  "relay_exchange sign from to body r0 =
     (let (ok1, r1) = expect 250 (send_line (''MAIL FROM:<'' @ from @ ''>'') r0);
          (ok2, r2) = (if ok1 then expect 250 (send_line (''RCPT TO:<'' @ to @ ''>'') r1) else (False, r1));
          (ok3, r3) = (if ok2 then expect 354 (send_line ''DATA'' r2) else (False, r2))
      in case (if ok3 then relay_message sign body r3 else Some (False, r3)) of
           None \<Rightarrow> (False, r3)
         | Some (ok4, r4) \<Rightarrow> (ok4, snd (expect 221 (send_line ''QUIT'' r4))))"

text \<open>
  \<^verbatim>\<open>relay_outbound\<close>: the result and, once a connection stands, the host and the transcript.
\<close>

definition relay_outbound ::
  "server_env \<Rightarrow> relay_env \<Rightarrow> (string \<Rightarrow> string \<Rightarrow> string cpp) \<Rightarrow> string \<Rightarrow> string \<Rightarrow> string \<Rightarrow> string
     \<Rightarrow> (bool \<times> (string \<times> (bool \<times> string) list) option) cpp" where
  "relay_outbound E R sign from to domain body =
     (case mx_host_of R domain of
        None \<Rightarrow> Inr (False, None)
      | Some (Inl e) \<Rightarrow> Inl e
      | Some (Inr mx_host) \<Rightarrow>
          if \<not> resolves R (c_str mx_host) \<or> \<not> socket_ok R \<or> \<not> connect_ok R then Inr (False, None)
          else (case relay_greet E R mx_host \<lparr>rl_in = clear_in R, rl_tls = False, rl_sent = []\<rparr> of
                  (False, r) \<Rightarrow> Inr (False, Some (mx_host, rl_sent r))
                | (True, r) \<Rightarrow>
                    (case relay_exchange sign from to body r of
                       (ok, r') \<Rightarrow> Inr (ok, Some (mx_host, rl_sent r')))))"

section \<open>Replies and commands\<close>

definition sub_reply :: "nat \<Rightarrow> string \<Rightarrow> subm \<Rightarrow> subm" where
  "sub_reply code text s = s\<lparr>sb_calls := sb_calls s @ [Write ((dec code @ '' '' @ text) @ crlf)]\<rparr>"

definition sub_reply_multiline :: "nat \<Rightarrow> string list \<Rightarrow> subm \<Rightarrow> subm" where
  "sub_reply_multiline code ls s = s\<lparr>sb_calls := sb_calls s @ [Write (multiline (dec code) ls)]\<rparr>"

definition sub_new :: "server_env \<Rightarrow> world \<Rightarrow> subm" where
  "sub_new E w = sub_reply 220 (get_hostname E @ '' ESMTP submission'')
     \<lparr>sb_state = Connected, sb_tls_active = False, sb_line_buf = [], sb_data_tail = [],
      sb_pending_close = False, sb_env = empty_env, sb_client_helo = [], sb_tls_upgrade_pending = False,
      sb_sasl = sasl_init, sb_calls = [], sb_world = w, sb_relayed = []\<rparr>"

definition sub_on_tls_established :: "subm \<Rightarrow> subm" where
  "sub_on_tls_established s = s\<lparr>sb_tls_active := True\<rparr>"

definition sub_ehlo :: "server_env \<Rightarrow> bool \<Rightarrow> string \<Rightarrow> subm \<Rightarrow> subm" where
  "sub_ehlo E tls arg s =
     (let s1 = s\<lparr>sb_client_helo := sub_trim arg, sb_env := empty_env, sb_state := Greeted\<rparr>;
          caps = [get_hostname E @ '' greets '' @ sb_client_helo s1, ''8BITMIME'', ''PIPELINING'', ''SIZE 52428800'']
      in sub_reply_multiline 250
           (if tls then caps @ [''AUTH PLAIN LOGIN''] else caps @ [''STARTTLS'', ''AUTH PLAIN LOGIN'']) s1)"

definition sub_starttls :: "bool \<Rightarrow> subm \<Rightarrow> subm" where
  "sub_starttls tls s =
     (if sb_tls_upgrade_pending s then sub_reply 503 ''TLS already pending'' s
      else if tls then sub_reply 503 ''TLS Already Active'' s
      else let s1 = (sub_reply 220 ''Ready to start TLS'' s)
                      \<lparr>sb_env := empty_env, sb_state := Greeted, sb_line_buf := [], sb_tls_upgrade_pending := True\<rparr>
        in s1\<lparr>sb_calls := sb_calls s1 @ [Upgrade_TLS]\<rparr>)"

text \<open>The outcome of a SASL step: the answer is sent, and code 235 moves the session on.\<close>

definition sub_auth_result :: "response \<times> sasl \<Rightarrow> subm \<Rightarrow> subm" where
  "sub_auth_result r s =
     (case r of ((code, message), sasl') \<Rightarrow>
        let s1 = sub_reply code message (s\<lparr>sb_sasl := sasl'\<rparr>)
        in if code = 235 then s1\<lparr>sb_state := Authenticated\<rparr> else s1)"

text \<open>\<open>store_check\<close> is \<^verbatim>\<open>store_.verify\<close> as the SASL session calls it.\<close>

definition store_check :: "crypto \<Rightarrow> string \<Rightarrow> world \<Rightarrow> string \<Rightarrow> string \<Rightarrow> bool" where
  "store_check cr ip w u p = fst (verify cr (w_db w) u p ip)"

definition sub_auth :: "codec \<Rightarrow> crypto \<Rightarrow> string \<Rightarrow> bool \<Rightarrow> string \<Rightarrow> subm \<Rightarrow> subm" where
  "sub_auth cd cr ip tls arg s =
     (if \<not> tls then sub_reply 538 ''5.7.11 Encryption required for AUTH'' s
      else if sb_state s = Authenticated then sub_reply 503 ''Already authenticated'' s
      else if sb_state s \<noteq> Greeted then sub_reply 503 ''Bad sequence of commands'' s
      else
        let sp = find_ch CHR '' '' arg;
            mech = (case sp of None \<Rightarrow> arg | Some n \<Rightarrow> take n arg);
            initial = (case sp of None \<Rightarrow> [] | Some n \<Rightarrow> drop (n + 1) arg)
        in sub_auth_result (sasl_begin cd (store_check cr ip (sb_world s)) mech initial (sb_sasl s)) s)"

definition sub_helo :: "server_env \<Rightarrow> string \<Rightarrow> subm \<Rightarrow> subm" where
  "sub_helo E arg s = (sub_reply 250 (get_hostname E)
     (s\<lparr>sb_client_helo := sub_trim arg, sb_env := empty_env\<rparr>))\<lparr>sb_state := Greeted\<rparr>"

text \<open>\<^verbatim>\<open>arg.substr(5)\<close> runs before the syntax check and throws on a shorter argument.\<close>

definition sub_mail :: "string \<Rightarrow> subm \<Rightarrow> subm cpp" where
  "sub_mail arg s =
     (if sb_state s \<noteq> Authenticated
      then Inr (if sb_state s = Greeted then sub_reply 530 ''5.7.0 Authentication Required'' s
                else sub_reply 503 ''Bad sequence of commands'' s)
      else if length arg < 5 then Inl Out_of_range
      else let addr = sub_extract_address (drop 5 arg) in
        if take 5 (upper arg) \<noteq> ''FROM:'' then Inr (sub_reply 501 ''Syntax: MAIL FROM:<address>'' s)
        else Inr (sub_reply 250 ''OK'' (s\<lparr>sb_env := (sb_env s)\<lparr>mail_from := addr\<rparr>, sb_state := Mail\<rparr>)))"

definition domain_part :: "string \<Rightarrow> string" where
  "domain_part addr = (case find_ch CHR ''@'' addr of None \<Rightarrow> [] | Some at \<Rightarrow> drop (at + 1) addr)"

definition sub_rcpt :: "server_env \<Rightarrow> string \<Rightarrow> subm \<Rightarrow> subm" where
  "sub_rcpt E arg s =
     (if sb_state s \<noteq> Mail \<and> sb_state s \<noteq> Rcpt then sub_reply 503 ''Bad Sequence of Commands'' s
      else if take 3 (upper arg) \<noteq> ''TO:'' then sub_reply 501 ''Syntax: RCPT TO:<addr>'' s
      else let addr = sub_extract_address (drop 3 arg) in
        if addr = [] then sub_reply 501 ''Empty Recipient'' s
        else if length (rcpt_to (sb_env s)) \<ge> 100 then sub_reply 452 ''4.5.3 Too Many Recipients'' s
        else if \<not> is_safe (lower (domain_part addr)) then sub_reply 550 ''Mailbox unavailable'' s
        else if domain_part addr \<noteq> get_hostname E then sub_reply 550 ''5.7.1 Relaying denied'' s
        else (case rcpt_alias_check E (mail_from (sb_env s)) addr (sb_world s) of
                (False, w) \<Rightarrow> sub_reply 550 ''Mailbox unavailable'' (s\<lparr>sb_world := w\<rparr>)
              | (True, w) \<Rightarrow>
                  sub_reply 250 ''OK''
                    (s\<lparr>sb_world := w, sb_env := (sb_env s)\<lparr>rcpt_to := rcpt_to (sb_env s) @ [addr]\<rparr>,
                       sb_state := Rcpt\<rparr>)))"

definition sub_data :: "subm \<Rightarrow> subm" where
  "sub_data s =
     (if sb_state s \<noteq> Rcpt then sub_reply 503 ''Bad sequence of commands'' s
      else (sub_reply 354 ''Start mail input; end with <CRLF>.<CRLF>'' s)
             \<lparr>sb_state := Data, sb_line_buf := [], sb_data_tail := []\<rparr>)"

definition sub_rset :: "subm \<Rightarrow> subm" where
  "sub_rset s = sub_reply 250 ''OK''
     (s\<lparr>sb_env := empty_env, sb_state := (if ss_authenticated (sb_sasl s) then Authenticated else Greeted)\<rparr>)"

definition sub_noop :: "subm \<Rightarrow> subm" where
  "sub_noop s = sub_reply 250 ''OK'' s"

definition sub_quit :: "server_env \<Rightarrow> subm \<Rightarrow> subm" where
  "sub_quit E s =
     (let s1 = (sub_reply 221 (get_hostname E @ '' closing connection'') s)\<lparr>sb_state := Done, sb_pending_close := True\<rparr>
      in s1\<lparr>sb_calls := sb_calls s1 @ [Close]\<rparr>)"

definition sub_process_line ::
  "server_env \<Rightarrow> codec \<Rightarrow> crypto \<Rightarrow> string \<Rightarrow> bool \<Rightarrow> string \<Rightarrow> subm \<Rightarrow> subm cpp" where
  "sub_process_line E cd cr ip tls line s =
     (if in_progress (sb_sasl s)
      then Inr (sub_auth_result (sasl_respond cd (store_check cr ip (sb_world s)) line (sb_sasl s)) s)
      else if line = [] then Inr s
      else
        let sp = find_ch CHR '' '' line;
            verb = upper (case sp of None \<Rightarrow> line | Some n \<Rightarrow> take n line);
            arg = (case sp of None \<Rightarrow> [] | Some n \<Rightarrow> drop (n + 1) line)
        in if verb = ''EHLO'' then Inr (sub_ehlo E tls arg s)
           else if verb = ''HELO'' then Inr (sub_helo E arg s)
           else if verb = ''MAIL'' then sub_mail arg s
           else if verb = ''RCPT'' then Inr (sub_rcpt E arg s)
           else if verb = ''DATA'' then Inr (sub_data s)
           else if verb = ''RSET'' then Inr (sub_rset s)
           else if verb = ''NOOP'' then Inr (sub_noop s)
           else if verb = ''QUIT'' then Inr (sub_quit E s)
           else if verb = ''VRFY'' \<or> verb = ''EXPN'' then Inr (sub_reply 502 ''Command not implemented'' s)
           else if verb = ''AUTH'' then Inr (sub_auth cd cr ip tls arg s)
           else if verb = ''STARTTLS'' then Inr (sub_starttls tls s)
           else Inr (sub_reply 500 ''Command unrecognised'' s))"

section \<open>Delivery and the byte loop\<close>

text \<open>
  The recipients of the envelope and then the \<^verbatim>\<open>Cc\<close> and \<^verbatim>\<open>Bcc\<close> addresses of the message whose
  domain, lower-cased, is the host name, each added once.
\<close>

definition add_header_rcpt :: "server_env \<Rightarrow> string list \<Rightarrow> string \<Rightarrow> string list" where
  "add_header_rcpt E all_rcpts addr =
     (case find_ch CHR ''@'' addr of None \<Rightarrow> all_rcpts
      | Some at \<Rightarrow>
          let domain = lower (drop (at + 1) addr)
          in if domain = [] \<or> domain \<noteq> get_hostname E then all_rcpts
             else if addr \<in> set all_rcpts then all_rcpts else all_rcpts @ [addr])"

definition sub_all_rcpts :: "server_env \<Rightarrow> envelope \<Rightarrow> string list cpp" where
  "sub_all_rcpts E ev =
     (case extract_header_addresses (env_body ev) ''cc'' of Inl e \<Rightarrow> Inl e
      | Inr ccs \<Rightarrow>
        (case extract_header_addresses (env_body ev) ''bcc'' of Inl e \<Rightarrow> Inl e
         | Inr bccs \<Rightarrow> Inr (foldl (add_header_rcpt E) (rcpt_to ev) (ccs @ bccs))))"

record sub_env =
  se_server :: server_env
  se_relay :: "nat \<Rightarrow> relay_env"
  se_sign :: "string \<Rightarrow> string \<Rightarrow> string cpp"
  se_codec :: codec
  se_crypto :: crypto
  se_ip :: string

definition sub_store :: "server_env \<Rightarrow> string \<Rightarrow> string \<Rightarrow> string \<Rightarrow> world \<Rightarrow> bool \<times> world" where
  "sub_store E from body rcpt w =
     (let target = alias_resolve (w_db w) rcpt
      in store_local E from rcpt target (local_part target) body w)"

text \<open>The body stored and relayed is the received one; the copy without \<^verbatim>\<open>Bcc\<close> is never used.\<close>

definition sub_deliver_one ::
  "sub_env \<Rightarrow> string \<Rightarrow> string \<Rightarrow> string \<Rightarrow> world \<times> relay_log \<Rightarrow> (bool \<times> world \<times> relay_log) cpp" where
  "sub_deliver_one S from body rcpt wl =
     (let (w, lg) = wl; E = se_server S; domain = domain_part rcpt in
      if \<not> is_safe (local_part rcpt) then Inr (False, w, lg)
      else if domain = [] \<or> domain = get_hostname E
      then (case sub_store E from body rcpt w of (ok, w') \<Rightarrow> Inr (ok, w', lg))
      else (case relay_outbound E (se_relay S (w_tick w)) (se_sign S) from rcpt domain body of
              Inl e \<Rightarrow> Inl e
            | Inr (ok, conn) \<Rightarrow> Inr (ok, w\<lparr>w_tick := w_tick w + 1\<rparr>, lg @ [(domain, conn)])))"

fun sub_deliver_all ::
  "sub_env \<Rightarrow> string \<Rightarrow> string \<Rightarrow> string list \<Rightarrow> bool \<times> world \<times> relay_log \<Rightarrow> (bool \<times> world \<times> relay_log) cpp" where
  "sub_deliver_all S from body [] acc = Inr acc"
| "sub_deliver_all S from body (rcpt # rs) (all_ok, wl) =
     (case sub_deliver_one S from body rcpt wl of Inl e \<Rightarrow> Inl e
      | Inr (ok, wl') \<Rightarrow> sub_deliver_all S from body rs (all_ok \<and> ok, wl'))"

definition sub_deliver :: "sub_env \<Rightarrow> subm \<Rightarrow> (bool \<times> world \<times> relay_log) cpp" where
  "sub_deliver S s =
     (case sub_all_rcpts (se_server S) (sb_env s) of Inl e \<Rightarrow> Inl e
      | Inr all_rcpts \<Rightarrow>
          sub_deliver_all S (mail_from (sb_env s)) (env_body (sb_env s)) all_rcpts (True, sb_world s, sb_relayed s))"

definition sub_finish_data :: "sub_env \<Rightarrow> subm \<Rightarrow> subm cpp" where
  "sub_finish_data S s =
     (case sub_deliver S s of Inl e \<Rightarrow> Inl e
      | Inr (ok, w, lg) \<Rightarrow>
          let s1 = s\<lparr>sb_world := w, sb_relayed := lg\<rparr>
          in Inr (if ok then (sub_reply 250 ''OK: Message Accepted'' s1)\<lparr>sb_state := Greeted, sb_env := empty_env\<rparr>
                  else sub_reply 452 ''Insufficient Storage'' s1))"

definition sub_data_byte :: "sub_env \<Rightarrow> char \<Rightarrow> subm \<Rightarrow> subm cpp" where
  "sub_data_byte S b s =
     (let s1 = s\<lparr>sb_line_buf := sb_line_buf s @ [b]\<rparr>;
          tail = sb_data_tail s @ [b];
          s2 = s1\<lparr>sb_data_tail := (if length tail > 5 then drop (length tail - 5) tail else tail)\<rparr>
      in if sb_data_tail s2 = eod
         then sub_finish_data S
                (s2\<lparr>sb_env := (sb_env s2)\<lparr>env_body := take (length (sb_line_buf s2) - 5) (sb_line_buf s2)\<rparr>,
                    sb_line_buf := [], sb_data_tail := []\<rparr>)
         else Inr s2)"

definition sub_command_byte :: "char \<Rightarrow> subm \<Rightarrow> subm" where
  "sub_command_byte b s =
     (let s1 = s\<lparr>sb_line_buf := sb_line_buf s @ [b]\<rparr>
      in if length (sb_line_buf s1) > 2048 then (sub_reply 500 ''Line too long'' s1)\<lparr>sb_line_buf := []\<rparr> else s1)"

definition sub_end_of_line :: "sub_env \<Rightarrow> bool \<Rightarrow> subm \<Rightarrow> subm cpp" where
  "sub_end_of_line S tls s =
     (case sub_process_line (se_server S) (se_codec S) (se_crypto S) (se_ip S) tls (strip_cr (sb_line_buf s))
             (s\<lparr>sb_line_buf := strip_cr (sb_line_buf s)\<rparr>) of
        Inl e \<Rightarrow> Inl e | Inr s1 \<Rightarrow> Inr (s1\<lparr>sb_line_buf := []\<rparr>))"

fun sub_on_data :: "sub_env \<Rightarrow> bool \<Rightarrow> subm \<Rightarrow> string \<Rightarrow> subm cpp" where
  "sub_on_data S tls s [] = Inr s"
| "sub_on_data S tls s (b # bs) =
     (if sb_state s = Data
      then (case sub_data_byte S b s of Inl e \<Rightarrow> Inl e | Inr s1 \<Rightarrow> sub_on_data S tls s1 bs)
      else if b = LF
      then (case sub_end_of_line S tls s of Inl e \<Rightarrow> Inl e
            | Inr s1 \<Rightarrow> if sb_tls_upgrade_pending s1 then Inr (s1\<lparr>sb_tls_upgrade_pending := False\<rparr>)
                        else sub_on_data S tls s1 bs)
      else sub_on_data S tls (sub_command_byte b s) bs)"

section \<open>The helpers are the ones of the inbound session\<close>

lemma sub_helpers [simp]: "sub_trim = trim" "sub_extract_address = extract_address"
proof -
  show t: "sub_trim = trim" by (rule ext) (simp add: sub_trim_def trim_def)
  show "sub_extract_address = extract_address"
    by (rule ext) (simp add: sub_extract_address_def extract_address_def t)
qed

lemma sub_strip_lines_eq: "sub_strip_lines n sk ls = strip_lines n sk ls"
  by (induction n sk ls rule: strip_lines.induct) (auto simp: Let_def)

lemma sub_strip_header_eq: "sub_strip_header = strip_header"
  by (intro ext) (simp add: sub_strip_header_def strip_header_def sub_strip_lines_eq)

section \<open>Case analyses\<close>

lemma sub_reply_fields [simp]:
  "sb_state (sub_reply n m s) = sb_state s" "sb_line_buf (sub_reply n m s) = sb_line_buf s"
  "sb_env (sub_reply n m s) = sb_env s" "sb_data_tail (sub_reply n m s) = sb_data_tail s"
  "sb_tls_upgrade_pending (sub_reply n m s) = sb_tls_upgrade_pending s"
  "sb_pending_close (sub_reply n m s) = sb_pending_close s" "sb_world (sub_reply n m s) = sb_world s"
  "sb_sasl (sub_reply n m s) = sb_sasl s" "sb_relayed (sub_reply n m s) = sb_relayed s"
  "sb_calls (sub_reply n m s) = sb_calls s @ [Write ((dec n @ '' '' @ m) @ crlf)]"
  by (simp_all add: sub_reply_def)

lemma sub_reply_multiline_fields [simp]:
  "sb_state (sub_reply_multiline n m s) = sb_state s" "sb_line_buf (sub_reply_multiline n m s) = sb_line_buf s"
  "sb_env (sub_reply_multiline n m s) = sb_env s" "sb_data_tail (sub_reply_multiline n m s) = sb_data_tail s"
  "sb_world (sub_reply_multiline n m s) = sb_world s"
  "sb_sasl (sub_reply_multiline n m s) = sb_sasl s" "sb_relayed (sub_reply_multiline n m s) = sb_relayed s"
  by (simp_all add: sub_reply_multiline_def)

lemma sub_line_cases:
  assumes "in_progress (sb_sasl s) \<Longrightarrow>
      P (Inr (sub_auth_result (sasl_respond cd (store_check cr ip (sb_world s)) line (sb_sasl s)) s))"
    "P (Inr s)" "P (Inr (sub_ehlo E tls arg s))" "P (Inr (sub_helo E arg s))" "P (sub_mail arg s)"
    "P (Inr (sub_rcpt E arg s))" "P (Inr (sub_data s))" "P (Inr (sub_rset s))" "P (Inr (sub_noop s))"
    "P (Inr (sub_quit E s))" "P (Inr (sub_reply 502 ''Command not implemented'' s))"
    "\<not> in_progress (sb_sasl s) \<Longrightarrow> P (Inr (sub_auth cd cr ip tls arg s))" "P (Inr (sub_starttls tls s))"
    "P (Inr (sub_reply 500 ''Command unrecognised'' s))"
    "arg = (case find_ch CHR '' '' line of None \<Rightarrow> [] | Some n \<Rightarrow> drop (n + 1) line)"
  shows "P (sub_process_line E cd cr ip tls line s)"
  using assms(1-14) unfolding sub_process_line_def Let_def assms(15)[symmetric] by presburger

lemma sub_rcpt_cases [case_names refused accepted]:
  obtains n m w where "sub_rcpt E arg s = sub_reply n m (s\<lparr>sb_world := w\<rparr>)" "w_fs w = w_fs (sb_world s)"
      "users (w_db w) = users (w_db (sb_world s))" "prep_ok (w_db w) = prep_ok (w_db (sb_world s))"
      "db_wf (w_db (sb_world s)) \<Longrightarrow> db_wf (w_db w)"
  | addr w where "sub_rcpt E arg s = sub_reply 250 ''OK'' (s\<lparr>sb_world := w,
        sb_env := (sb_env s)\<lparr>rcpt_to := rcpt_to (sb_env s) @ [addr]\<rparr>, sb_state := Rcpt\<rparr>)"
      "sb_state s \<in> {Mail, Rcpt}" "addr \<noteq> []" "domain_part addr = get_hostname E"
      "length (rcpt_to (sb_env s)) < 100" "w_fs w = w_fs (sb_world s)"
      "users (w_db w) = users (w_db (sb_world s))" "prep_ok (w_db w) = prep_ok (w_db (sb_world s))"
      "db_wf (w_db (sb_world s)) \<Longrightarrow> db_wf (w_db w)"
proof -
  let ?a = "sub_extract_address (drop 3 arg)" and ?w = "sb_world s"
  let ?r = "rcpt_alias_check E (mail_from (sb_env s)) ?a ?w"
  obtain b w where w: "?r = (b, w)" by fastforce
  then have sw: "w = snd ?r" by simp
  have fr: "w_fs w = w_fs ?w" "users (w_db w) = users (w_db ?w)" "prep_ok (w_db w) = prep_ok (w_db ?w)"
    "db_wf (w_db ?w) \<Longrightarrow> db_wf (w_db w)"
    unfolding sw by (simp_all add: rcpt_alias_check_wf)
  let ?go = "sb_state s \<in> {Mail, Rcpt} \<and> take 3 (upper arg) = ''TO:'' \<and> ?a \<noteq> [] \<and>
      length (rcpt_to (sb_env s)) < 100 \<and> is_safe (lower (domain_part ?a)) \<and> domain_part ?a = get_hostname E"
  show thesis
  proof (cases ?go)
    case True
    then have "sub_rcpt E arg s = (if b then sub_reply 250 ''OK'' (s\<lparr>sb_world := w,
        sb_env := (sb_env s)\<lparr>rcpt_to := rcpt_to (sb_env s) @ [?a]\<rparr>, sb_state := Rcpt\<rparr>)
        else sub_reply 550 ''Mailbox unavailable'' (s\<lparr>sb_world := w\<rparr>))"
      using w by (auto simp: sub_rcpt_def Let_def)
    with True fr that show thesis by (cases b) auto
  next
    case False
    then have "\<exists>n m. sub_rcpt E arg s = sub_reply n m (s\<lparr>sb_world := ?w\<rparr>)"
      by (auto simp: sub_rcpt_def Let_def)
    with that(1)[of _ _ ?w] show thesis by auto
  qed
qed

lemma verify_cong:
  assumes "users d = users d'" "prep_ok d = prep_ok d'"
  shows "verify cr d = verify cr d'"
  unfolding verify_def[abs_def] verify_body_def[abs_def] assms ..

lemma store_check_cong:
  "users (w_db w) = users (w_db w') \<Longrightarrow> prep_ok (w_db w) = prep_ok (w_db w')
     \<Longrightarrow> store_check cr ip w = store_check cr ip w'"
  by (intro ext) (simp add: store_check_def verify_cong[of "w_db w" "w_db w'"])

section \<open>The session invariant\<close>

definition sub_inv :: "sub_env \<Rightarrow> subm \<Rightarrow> bool" where
  "sub_inv S s =
     (sasl_inv (store_check (se_crypto S) (se_ip S) (sb_world s)) (sb_sasl s) \<and>
      (sb_state s \<in> {Authenticated, Mail, Rcpt, Data} \<longrightarrow> ss_authenticated (sb_sasl s)) \<and>
      (sb_state s \<in> {Rcpt, Data} \<longrightarrow> rcpt_to (sb_env s) \<noteq> []) \<and>
      length (rcpt_to (sb_env s)) \<le> 100 \<and>
      (\<forall>r \<in> set (rcpt_to (sb_env s)). domain_part r = get_hostname (se_server S)) \<and>
      (\<forall>(d, c) \<in> set (sb_relayed s). lower d = get_hostname (se_server S)) \<and>
      (if sb_state s = Data then sb_data_tail s = last5 (sb_line_buf s)
       else sb_data_tail s = [] \<and> length (sb_line_buf s) \<le> 2048) \<and>
      db_wf (w_db (sb_world s)))"

text \<open>What may change of a state without touching the invariant.\<close>

lemma sub_inv_frame:
  assumes "sub_inv S s" "sb_sasl t = sb_sasl s" "sb_state t = sb_state s" "sb_env t = sb_env s"
    "sb_relayed t = sb_relayed s" "sb_data_tail t = sb_data_tail s" "sb_line_buf t = sb_line_buf s"
    "users (w_db (sb_world t)) = users (w_db (sb_world s))"
    "prep_ok (w_db (sb_world t)) = prep_ok (w_db (sb_world s))"
    "db_wf (w_db (sb_world s)) \<Longrightarrow> db_wf (w_db (sb_world t))"
  shows "sub_inv S t"
  using assms(1,10)
  unfolding sub_inv_def assms(2-7) store_check_cong[OF assms(8,9)] by (simp add: split_beta)

lemma sub_cmd_inv:
  assumes "sub_inv S s" "sb_state s \<noteq> Data"
  shows "sub_inv S (sub_ehlo E tls arg s)" "sub_inv S (sub_helo E arg s)"
    "sub_inv S (sub_data s)" "sub_inv S (sub_rset s)" "sub_inv S (sub_quit E s)"
    "sub_inv S (sub_starttls tls s)"
proof -
  note d = sub_inv_def Let_def
  show "sub_inv S (sub_ehlo E tls arg s)" using assms by (simp add: d sub_ehlo_def)
  show "sub_inv S (sub_helo E arg s)" using assms by (simp add: d sub_helo_def)
  show "sub_inv S (sub_data s)" using assms by (simp add: d sub_data_def)
  show "sub_inv S (sub_rset s)" using assms by (simp add: d sub_rset_def)
  show "sub_inv S (sub_quit E s)" using assms by (simp add: d sub_quit_def)
  show "sub_inv S (sub_starttls tls s)" using assms by (simp add: d sub_starttls_def)
qed

lemma sub_reply_inv: "sub_inv S s \<Longrightarrow> sub_inv S (sub_reply n m s)"
  by (erule sub_inv_frame) simp_all

lemma sub_mail_inv: "sub_inv S s \<Longrightarrow> sub_mail arg s = Inr s' \<Longrightarrow> sub_inv S s'"
  by (auto simp: sub_mail_def Let_def sub_reply_inv split: if_splits) (simp add: sub_inv_def)

lemma sub_rcpt_inv: "sub_inv S s \<Longrightarrow> sub_inv S (sub_rcpt (se_server S) arg s)"
proof (rule sub_rcpt_cases[of "se_server S" arg s])
  fix n m w
  assume i: "sub_inv S s" and c: "sub_rcpt (se_server S) arg s = sub_reply n m (s\<lparr>sb_world := w\<rparr>)"
    and w: "users (w_db w) = users (w_db (sb_world s))" "prep_ok (w_db w) = prep_ok (w_db (sb_world s))"
      "db_wf (w_db (sb_world s)) \<Longrightarrow> db_wf (w_db w)"
  show ?thesis unfolding c by (rule sub_inv_frame[OF i]) (simp_all add: w)
next
  fix addr w
  assume i: "sub_inv S s" and c: "sub_rcpt (se_server S) arg s = sub_reply 250 ''OK'' (s\<lparr>sb_world := w,
      sb_env := (sb_env s)\<lparr>rcpt_to := rcpt_to (sb_env s) @ [addr]\<rparr>, sb_state := Rcpt\<rparr>)"
    and st: "sb_state s \<in> {Mail, Rcpt}" and ok: "domain_part addr = get_hostname (se_server S)"
      "length (rcpt_to (sb_env s)) < 100"
    and w: "users (w_db w) = users (w_db (sb_world s))" "prep_ok (w_db w) = prep_ok (w_db (sb_world s))"
      "db_wf (w_db (sb_world s)) \<Longrightarrow> db_wf (w_db w)"
  have "sub_inv S (s\<lparr>sb_world := w\<rparr>)" by (rule sub_inv_frame[OF i]) (simp_all add: w)
  with st ok show ?thesis unfolding c by (auto simp: sub_inv_def split: if_splits)
qed

text \<open>A SASL step of an unauthenticated session moves it on exactly when it authenticates.\<close>

lemma sub_auth_result_inv:
  fixes S s e
  defines "vf \<equiv> store_check (se_crypto S) (se_ip S) (sb_world s)"
  assumes i: "sub_inv S s" and st: "sb_state s \<noteq> Data" and na: "\<not> ss_authenticated (sb_sasl s)"
  shows "sub_inv S (sub_auth_result (sasl_step cd vf (sb_sasl s) e) s)"
proof -
  obtain code msg sl where r: "sasl_step cd vf (sb_sasl s) e = ((code, msg), sl)" by (metis surj_pair)
  have "sasl_inv vf (sb_sasl s)" using i by (simp add: sub_inv_def vf_def)
  then have inv: "sasl_inv vf sl" using sasl_run.invar_step[of vf "sb_sasl s" cd e] r by simp
  have auth: "code = 235 \<longleftrightarrow> ss_authenticated sl" using sasl_code_235[OF na, of cd vf e] r by simp
  have "sb_state s \<notin> {Authenticated, Mail, Rcpt, Data}" using i na by (auto simp: sub_inv_def)
  then show ?thesis
    using i inv auth st unfolding r sub_auth_result_def by (auto simp: Let_def sub_inv_def vf_def)
qed

lemma sub_auth_inv:
  assumes i: "sub_inv S s" and st: "sb_state s \<noteq> Data"
  shows "sub_inv S (sub_auth cd (se_crypto S) (se_ip S) tls arg s)"
proof (cases "tls \<and> sb_state s = Greeted")
  case True
  let ?vf = "store_check (se_crypto S) (se_ip S) (sb_world s)"
  let ?sp = "find_ch CHR '' '' arg"
  let ?m = "case ?sp of None \<Rightarrow> arg | Some n \<Rightarrow> take n arg" and ?r = "case ?sp of None \<Rightarrow> [] | Some n \<Rightarrow> drop (n + 1) arg"
  have eq: "sub_auth cd (se_crypto S) (se_ip S) tls arg s =
      sub_auth_result (sasl_begin cd ?vf ?m ?r (sb_sasl s)) s"
    using True by (simp add: sub_auth_def Let_def)
  show ?thesis
  proof (cases "ss_authenticated (sb_sasl s)")
    case False
    with sub_auth_result_inv[OF i st False, of cd "Begin ?m ?r"] eq show ?thesis by simp
  next
    case auth: True
    then have "sub_auth cd (se_crypto S) (se_ip S) tls arg s = sub_reply 503 ''Already authenticated'' s"
      unfolding eq by (simp add: sasl_begin_def sub_auth_result_def)
    with i show ?thesis by (simp add: sub_reply_inv)
  qed
next
  case False
  with i show ?thesis by (auto simp: sub_auth_def sub_reply_inv)
qed

lemma sub_respond_inv:
  assumes i: "sub_inv S s" and st: "sb_state s \<noteq> Data" and ip: "in_progress (sb_sasl s)"
  shows "sub_inv S (sub_auth_result (sasl_respond cd (store_check (se_crypto S) (se_ip S) (sb_world s)) line (sb_sasl s)) s)"
proof -
  have "\<not> ss_authenticated (sb_sasl s)"
    using i ip by (auto simp: sub_inv_def sasl_inv_def in_progress_def split: if_splits)
  from sub_auth_result_inv[OF i st this, of cd "Respond line"] show ?thesis by simp
qed

abbreviation sub_line :: "sub_env \<Rightarrow> bool \<Rightarrow> string \<Rightarrow> subm \<Rightarrow> subm cpp" where
  "sub_line S \<equiv> sub_process_line (se_server S) (se_codec S) (se_crypto S) (se_ip S)"

lemma sub_line_inv:
  assumes "sub_inv S s" "sb_state s \<noteq> Data" "sub_line S tls line s = Inr s'"
  shows "sub_inv S s'"
proof -
  let ?P = "\<lambda>r. r = Inr s' \<longrightarrow> sub_inv S s'"
  note inv = assms(1,2)
  have "?P (sub_line S tls line s)"
  proof (rule sub_line_cases[where P = ?P, OF _ _ _ _ _ _ _ _ _ _ _ _ _ _ refl])
    show "?P (sub_mail arg s)" for arg using sub_mail_inv[OF assms(1)] by blast
  qed (use inv in \<open>auto simp: sub_cmd_inv sub_reply_inv sub_rcpt_inv sub_auth_inv sub_respond_inv sub_noop_def\<close>)
  with assms(3) show ?thesis by simp
qed

lemma sub_line_enters_data:
  assumes "sb_state s \<noteq> Data" "sub_line S tls line s = Inr s'" "sb_state s' = Data"
  shows "sb_data_tail s' = [] \<and> sb_line_buf s' = []"
proof -
  let ?P = "\<lambda>r. r = Inr s' \<longrightarrow> sb_state s' = Data \<longrightarrow> sb_data_tail s' = [] \<and> sb_line_buf s' = []"
  have "?P (sub_line S tls line s)"
  proof (rule sub_line_cases[where P = ?P, OF _ _ _ _ _ _ _ _ _ _ _ _ _ _ refl])
    show "?P (Inr (sub_auth_result (sasl_respond cd vf line (sb_sasl s)) s))" for cd vf
      using assms(1) by (auto simp: sub_auth_result_def Let_def split: prod.splits if_splits)
    show "?P (Inr (sub_auth cd cr ip tls arg s))" for cd cr ip arg
      using assms(1) by (auto simp: sub_auth_def sub_auth_result_def Let_def split: prod.splits if_splits)
    show "?P (Inr (sub_rcpt E arg s))" for E arg
      by (rule sub_rcpt_cases[of E arg s]) (use assms(1) in auto)
  qed (use assms(1) in \<open>auto simp: sub_ehlo_def sub_helo_def sub_mail_def sub_data_def sub_rset_def sub_noop_def
        sub_quit_def sub_starttls_def Let_def split: if_splits\<close>)
  with assms(2,3) show ?thesis by simp
qed

lemma sub_end_of_line_inv:
  assumes "sub_inv S s" "sb_state s \<noteq> Data" "sub_end_of_line S tls s = Inr s'"
  shows "sub_inv S s'"
proof -
  let ?s = "s\<lparr>sb_line_buf := strip_cr (sb_line_buf s)\<rparr>"
  from assms(3) obtain t where t: "sub_line S tls (strip_cr (sb_line_buf s)) ?s = Inr t" "s' = t\<lparr>sb_line_buf := []\<rparr>"
    by (auto simp: sub_end_of_line_def split: sum.splits)
  have "length (strip_cr (sb_line_buf s)) \<le> length (sb_line_buf s)" by (simp add: strip_cr_def)
  moreover have "length (sb_line_buf s) \<le> 2048" using assms(1,2) by (simp add: sub_inv_def)
  ultimately have "length (strip_cr (sb_line_buf s)) \<le> 2048" by (rule le_trans)
  with assms(1,2) have "sub_inv S ?s" unfolding sub_inv_def by simp
  then have "sub_inv S t" by (rule sub_line_inv) (use t(1) assms(2) in simp_all)
  moreover have "sb_state t = Data \<Longrightarrow> sb_data_tail t = []"
    using sub_line_enters_data[OF _ t(1)] assms(2) by simp
  ultimately show ?thesis unfolding t(2) by (simp add: sub_inv_def split: if_splits)
qed

section \<open>Delivery\<close>

interpretation sub_store: delivery_target "sub_store E sndr body" "canon E (get_mailroot E)" for E sndr body
proof unfold_locales
  fix r w p
  assume "files (w_fs (snd (sub_store E sndr body r w))) p \<noteq> files (w_fs w) p"
  then show "prefix (canon E (get_mailroot E)) p"
    unfolding sub_store_def Let_def by (rule store_local_files(2))
qed

text \<open>\<open>delivered S wl wl'\<close>: what one or more deliveries may have done to the world and the relay log.\<close>

definition delivered :: "sub_env \<Rightarrow> world \<times> relay_log \<Rightarrow> world \<times> relay_log \<Rightarrow> bool" where
  "delivered S wl wl' =
     ((\<forall>p. files (w_fs (fst wl')) p \<noteq> files (w_fs (fst wl)) p \<longrightarrow>
         prefix (canon (se_server S) (get_mailroot (se_server S))) p) \<and>
      users (w_db (fst wl')) = users (w_db (fst wl)) \<and> prep_ok (w_db (fst wl')) = prep_ok (w_db (fst wl)) \<and>
      (db_wf (w_db (fst wl)) \<longrightarrow> db_wf (w_db (fst wl'))) \<and>
      (\<exists>more. snd wl' = snd wl @ more \<and> (\<forall>(d, c) \<in> set more. lower d = get_hostname (se_server S))))"

lemma delivered_refl [simp]: "delivered S wl wl"
  by (simp add: delivered_def)

lemma delivered_trans: "delivered S a b \<Longrightarrow> delivered S b c \<Longrightarrow> delivered S a c"
  unfolding delivered_def by (elim conjE exE, intro conjI) (metis, metis, metis, blast, fastforce)

lemma sub_deliver_one_delivered:
  assumes "sub_deliver_one S from body rcpt wl = Inr (ok, wl')"
    and dom: "domain_part rcpt = get_hostname (se_server S) \<or> lower (domain_part rcpt) = get_hostname (se_server S)"
  shows "delivered S wl wl'"
proof -
  obtain w lg where wl: "wl = (w, lg)" by fastforce
  let ?E = "se_server S" and ?d = "domain_part rcpt"
  consider "wl' = wl" | "\<exists>ok. sub_store ?E from body rcpt w = (ok, fst wl')" "snd wl' = lg"
    | c where "wl' = (w\<lparr>w_tick := w_tick w + 1\<rparr>, lg @ [(?d, c)])" "?d \<noteq> get_hostname ?E"
    using assms(1) wl
    by (auto simp: sub_deliver_one_def Let_def split: prod.splits sum.splits if_splits)
  then show ?thesis
  proof cases
    case 2
    then have f: "fst wl' = snd (sub_store ?E from body rcpt w)" by (metis snd_conv)
    have "db_wf (w_db w) \<Longrightarrow> db_wf (w_db (fst wl'))"
      unfolding f sub_store_def Let_def by (rule store_local_wf)
    moreover have "users (w_db (fst wl')) = users (w_db w)" "prep_ok (w_db (fst wl')) = prep_ok (w_db w)"
      unfolding f sub_store_def Let_def by simp_all
    ultimately show ?thesis
      using 2(2) sub_store.store_below[of ?E "from" body rcpt w] by (auto simp: delivered_def wl f)
  qed (use dom in \<open>auto simp: delivered_def wl\<close>)
qed

lemma sub_deliver_all_delivered:
  "sub_deliver_all S from body rs (ok, wl) = Inr (ok', wl') \<Longrightarrow>
     \<forall>r \<in> set rs. domain_part r = get_hostname (se_server S) \<or> lower (domain_part r) = get_hostname (se_server S)
     \<Longrightarrow> delivered S wl wl'"
proof (induction rs arbitrary: ok wl)
  case (Cons r rs)
  from Cons.prems(1) obtain o1 w1 where o: "sub_deliver_one S from body r wl = Inr (o1, w1)"
    and rest: "sub_deliver_all S from body rs (ok \<and> o1, w1) = Inr (ok', wl')"
    by (cases "sub_deliver_one S from body r wl") auto
  have "delivered S wl w1" using sub_deliver_one_delivered[OF o] Cons.prems(2) by simp
  moreover have "delivered S w1 wl'" using Cons.IH[OF rest] Cons.prems(2) by simp
  ultimately show ?case by (rule delivered_trans)
qed simp

lemma add_header_rcpt_set:
  assumes "r \<in> set (foldl (add_header_rcpt E) rs as)"
  shows "r \<in> set rs \<or> lower (domain_part r) = get_hostname E"
  using assms
proof (induction as arbitrary: rs)
  case (Cons a as)
  then have "r \<in> set (add_header_rcpt E rs a) \<or> lower (domain_part r) = get_hostname E" by simp
  then show ?case by (auto simp: add_header_rcpt_def domain_part_def Let_def split: option.splits if_splits)
qed simp

lemma sub_deliver_delivered:
  assumes "sub_inv S s" "sub_deliver S s = Inr (ok, w, lg)"
  shows "delivered S (sb_world s, sb_relayed s) (w, lg)"
proof -
  from assms(2) obtain rs hs where "rs = foldl (add_header_rcpt (se_server S)) (rcpt_to (sb_env s)) hs"
    and d: "sub_deliver_all S (mail_from (sb_env s)) (env_body (sb_env s)) rs (True, sb_world s, sb_relayed s) = Inr (ok, w, lg)"
    by (auto simp: sub_deliver_def sub_all_rcpts_def simp del: foldl_append split: sum.splits)
  then have "\<forall>r \<in> set rs. domain_part r = get_hostname (se_server S) \<or> lower (domain_part r) = get_hostname (se_server S)"
    using assms(1) add_header_rcpt_set by (fastforce simp: sub_inv_def)
  with d show ?thesis by (rule sub_deliver_all_delivered)
qed

lemma sub_data_byte_cases:
  assumes "sub_inv S s" "sb_state s = Data" "sub_data_byte S b s = Inr s'"
  obtains (collect) "s' = s\<lparr>sb_line_buf := sb_line_buf s @ [b], sb_data_tail := last5 (sb_line_buf s @ [b])\<rparr>"
  | (finish) t where "sub_inv S t" "sb_state t = Data" "sb_world t = sb_world s" "sb_sasl t = sb_sasl s"
      "sb_relayed t = sb_relayed s" "sb_line_buf t = []" "sub_finish_data S t = Inr s'"
proof -
  let ?t = "s\<lparr>sb_env := (sb_env s)\<lparr>env_body := take (length (sb_line_buf s) - 4) (sb_line_buf s)\<rparr>,
    sb_line_buf := [], sb_data_tail := []\<rparr>"
  have "sb_data_tail s = last5 (sb_line_buf s)" using assms(1,2) by (simp add: sub_inv_def)
  then have "last5 (sb_line_buf s @ [b]) = (let tail = sb_data_tail s @ [b] in
      if length tail > 5 then drop (length tail - 5) tail else tail)"
    by (simp add: last5_snoc Let_def)
  then have eq: "sub_data_byte S b s = (if last5 (sb_line_buf s @ [b]) = eod then sub_finish_data S ?t
      else Inr (s\<lparr>sb_line_buf := sb_line_buf s @ [b], sb_data_tail := last5 (sb_line_buf s @ [b])\<rparr>))"
    by (simp add: sub_data_byte_def Let_def)
  have "sub_inv S ?t" using assms(1,2) by (simp add: sub_inv_def)
  with eq assms(2,3) show thesis using collect finish[of ?t] by (auto split: if_splits)
qed

lemma sub_finish_delivered:
  assumes "sub_inv S t" "sub_finish_data S t = Inr s'"
  shows "delivered S (sb_world t, sb_relayed t) (sb_world s', sb_relayed s')"
  using assms sub_deliver_delivered[OF assms(1)]
  by (auto simp: sub_finish_data_def Let_def split: sum.splits if_splits)

lemma sub_finish_inv:
  assumes i: "sub_inv S t" and st: "sb_state t = Data" "sb_line_buf t = []" and f: "sub_finish_data S t = Inr s'"
  shows "sub_inv S s'"
proof -
  from f obtain ok w lg where d: "sub_deliver S t = Inr (ok, w, lg)" by (auto simp: sub_finish_data_def split: sum.splits)
  then have dv: "delivered S (sb_world t, sb_relayed t) (w, lg)" by (rule sub_deliver_delivered[OF i])
  let ?u = "t\<lparr>sb_world := w, sb_relayed := lg\<rparr>"
  have "sub_inv S (t\<lparr>sb_world := w\<rparr>)"
    by (rule sub_inv_frame[OF i]) (use dv in \<open>auto simp: delivered_def\<close>)
  moreover from dv i have "\<forall>(d, c) \<in> set lg. lower d = get_hostname (se_server S)"
    by (auto simp: sub_inv_def delivered_def)
  ultimately have "sub_inv S ?u" by (simp add: sub_inv_def split: if_splits)
  with f d st show ?thesis
    by (auto simp: sub_finish_data_def Let_def sub_reply_inv) (simp add: sub_inv_def)
qed

lemma sub_data_byte_inv:
  assumes "sub_inv S s" "sb_state s = Data" "sub_data_byte S b s = Inr s'"
  shows "sub_inv S s'"
proof (cases rule: sub_data_byte_cases[OF assms])
  case 1
  then show ?thesis using assms(1,2) by (simp add: sub_inv_def)
next
  case (2 t)
  from sub_finish_inv[OF 2(1,2,6,7)] show ?thesis .
qed

lemma sub_command_byte_inv: "sub_inv S s \<Longrightarrow> sb_state s \<noteq> Data \<Longrightarrow> sub_inv S (sub_command_byte b s)"
  by (simp add: sub_command_byte_def sub_inv_def Let_def)

lemma sub_new_inv: "db_wf (w_db w) \<Longrightarrow> sub_inv S (sub_new (se_server S) w)"
  by (simp add: sub_inv_def sub_new_def sasl_init_inv)

lemma sub_on_data_pres:
  assumes "sub_inv S s" "sub_on_data S tls s bs = Inr s'"
  shows "sub_inv S s'"
  using assms
proof (induction S tls s bs rule: sub_on_data.induct)
  case (2 S tls s b bs)
  have up: "sub_inv S t \<Longrightarrow> sub_inv S (t\<lparr>sb_tls_upgrade_pending := False\<rparr>)" for t
    by (rule sub_inv_frame) simp_all
  show ?case
  proof (cases "sb_state s = Data")
    case True
    with 2 show ?thesis using sub_data_byte_inv[of S s b] by (auto split: sum.splits)
  next
    case False
    show ?thesis
    proof (cases "b = LF")
      case True
      with 2 False show ?thesis using sub_end_of_line_inv[of S s tls]
        by (auto simp: up split: sum.splits if_splits)
    next
      case nl: False
      with 2 False show ?thesis using sub_command_byte_inv[of S s b] by simp
    qed
  qed
qed simp

text \<open>
  Submission invariant: whatever a client sends, in every state a read leaves behind the
  phases from \<^verbatim>\<open>Authenticated\<close> to \<^verbatim>\<open>Data\<close> are only reached by a session whose SASL exchange
  succeeded for a user whose password the store verifies; every envelope recipient is in the
  server's own domain; there are at most 100 of them; and every domain mail was relayed to
  is, up to case, the server's own.
\<close>

theorem sub_on_data_inv:
  assumes "sub_inv S s" "sub_on_data S tls s bs = Inr s'"
  shows "sub_inv S s'"
  using assms by (rule sub_on_data_pres)

section \<open>Who may write, and where\<close>

lemma sub_line_world:
  assumes "sub_line S tls line s = Inr s'"
  shows "w_fs (sb_world s') = w_fs (sb_world s)" "sb_relayed s' = sb_relayed s"
    "users (w_db (sb_world s')) = users (w_db (sb_world s))"
    "prep_ok (w_db (sb_world s')) = prep_ok (w_db (sb_world s))"
proof -
  let ?Q = "\<lambda>s'. w_fs (sb_world s') = w_fs (sb_world s) \<and> sb_relayed s' = sb_relayed s \<and>
    users (w_db (sb_world s')) = users (w_db (sb_world s)) \<and> prep_ok (w_db (sb_world s')) = prep_ok (w_db (sb_world s))"
  let ?P = "\<lambda>r. \<forall>s'. r = Inr s' \<longrightarrow> ?Q s'"
  have "?P (sub_line S tls line s)"
  proof (rule sub_line_cases[where P = ?P, OF _ _ _ _ _ _ _ _ _ _ _ _ _ _ refl])
    show "?P (Inr (sub_auth_result (sasl_respond cd vf line (sb_sasl s)) s))" for cd vf
      by (auto simp: sub_auth_result_def Let_def split: prod.splits if_splits)
    show "?P (Inr (sub_auth cd cr ip tls arg s))" for cd cr ip arg
      by (auto simp: sub_auth_def sub_auth_result_def Let_def split: prod.splits if_splits)
    show "?P (Inr (sub_rcpt E arg s))" for E arg
      by (rule sub_rcpt_cases[of E arg s]) auto
  qed (auto simp: sub_ehlo_def sub_helo_def sub_mail_def sub_data_def sub_rset_def sub_noop_def
        sub_quit_def sub_starttls_def Let_def split: if_splits)
  with assms show "w_fs (sb_world s') = w_fs (sb_world s)" "sb_relayed s' = sb_relayed s"
    "users (w_db (sb_world s')) = users (w_db (sb_world s))"
    "prep_ok (w_db (sb_world s')) = prep_ok (w_db (sb_world s))" by auto
qed

lemma sub_line_keeps_login:
  assumes "sub_line S tls line s = Inr s'" "\<not> in_progress (sb_sasl s)" "ss_authenticated (sb_sasl s) \<or> \<not> tls"
  shows "sb_sasl s' = sb_sasl s"
proof -
  let ?P = "\<lambda>r. \<forall>s'. r = Inr s' \<longrightarrow> sb_sasl s' = sb_sasl s"
  have "?P (sub_line S tls line s)"
  proof (rule sub_line_cases[where P = ?P, OF _ _ _ _ _ _ _ _ _ _ _ _ _ _ refl])
    show "?P (Inr (sub_auth cd cr ip tls arg s))" for cd cr ip arg
      using assms(3) by (auto simp: sub_auth_def sub_auth_result_def sasl_begin_def Let_def)
    show "?P (Inr (sub_rcpt E arg s))" for E arg
      by (rule sub_rcpt_cases[of E arg s]) auto
  qed (use assms(2) in \<open>auto simp: sub_ehlo_def sub_helo_def sub_mail_def sub_data_def sub_rset_def sub_noop_def
        sub_quit_def sub_starttls_def Let_def split: if_splits\<close>)
  with assms(1) show ?thesis by blast
qed

text \<open>
  \<open>authorised S s s'\<close>: files changed only below the root and only if the session is logged in at
  the end, a login, once made, stays, and so do the accounts.
\<close>

definition authorised :: "sub_env \<Rightarrow> subm \<Rightarrow> subm \<Rightarrow> bool" where
  "authorised S s s' =
     ((ss_authenticated (sb_sasl s) \<longrightarrow> sb_sasl s' = sb_sasl s) \<and>
      (\<forall>p. files (w_fs (sb_world s')) p \<noteq> files (w_fs (sb_world s)) p \<longrightarrow>
         prefix (canon (se_server S) (get_mailroot (se_server S))) p \<and> ss_authenticated (sb_sasl s')) \<and>
      users (w_db (sb_world s')) = users (w_db (sb_world s)) \<and> prep_ok (w_db (sb_world s')) = prep_ok (w_db (sb_world s)))"

lemma authorised_trans: "authorised S a b \<Longrightarrow> authorised S b c \<Longrightarrow> authorised S a c"
  unfolding authorised_def by metis

lemma sub_byte_authorised:
  assumes "sub_inv S s" "sb_state s = Data" "sub_data_byte S b s = Inr s'"
  shows "authorised S s s'"
proof (cases rule: sub_data_byte_cases[OF assms])
  case 1
  then show ?thesis by (simp add: authorised_def)
next
  case (2 t)
  have "sb_sasl s' = sb_sasl t" using 2(7) by (auto simp: sub_finish_data_def Let_def split: sum.splits)
  moreover have "ss_authenticated (sb_sasl s)" using assms(1,2) by (simp add: sub_inv_def)
  ultimately show ?thesis
    using sub_finish_delivered[OF 2(1,7)] 2(3,4) by (simp add: delivered_def authorised_def)
qed

lemma sub_eol_authorised:
  assumes "sub_inv S s" "sub_end_of_line S tls s = Inr s'"
  shows "authorised S s s'"
proof -
  let ?s = "s\<lparr>sb_line_buf := strip_cr (sb_line_buf s)\<rparr>"
  from assms(2) obtain t where t: "sub_line S tls (strip_cr (sb_line_buf s)) ?s = Inr t" "s' = t\<lparr>sb_line_buf := []\<rparr>"
    by (auto simp: sub_end_of_line_def split: sum.splits)
  have "ss_authenticated (sb_sasl s) \<Longrightarrow> \<not> in_progress (sb_sasl s)"
    using assms(1) by (simp add: sub_inv_def sasl_inv_def in_progress_def)
  then show ?thesis
    using sub_line_keeps_login[OF t(1)] sub_line_world[OF t(1)] t(2) by (simp add: authorised_def)
qed

lemma sub_on_data_authorised:
  assumes "sub_inv S s" "sub_on_data S tls s bs = Inr s'"
  shows "authorised S s s'"
  using assms
proof (induction S tls s bs rule: sub_on_data.induct)
  case (1 S tls s)
  then show ?case by (simp add: authorised_def)
next
  case (2 S tls s b bs)
  have up: "authorised S s t \<Longrightarrow> authorised S s (t\<lparr>sb_tls_upgrade_pending := False\<rparr>)" for t
    by (simp add: authorised_def)
  show ?case
  proof (cases "sb_state s = Data")
    case True
    with 2 show ?thesis using sub_data_byte_inv[of S s b] sub_byte_authorised[of S s b]
      by (auto split: sum.splits intro: authorised_trans)
  next
    case False
    have cb: "authorised S s (sub_command_byte b s)" by (simp add: authorised_def sub_command_byte_def Let_def)
    show ?thesis
    proof (cases "b = LF")
      case True
      with 2 False show ?thesis using sub_end_of_line_inv[of S s tls] sub_eol_authorised[of S s tls]
        by (auto simp: up split: sum.splits if_splits intro: authorised_trans)
    next
      case nl: False
      with 2 False show ?thesis using sub_command_byte_inv[of S s b] cb by (auto intro: authorised_trans)
    qed
  qed
qed

text \<open>
  On port 587 the file system changes only below the canonical mail root, and only in a
  session that has logged in as a user for whom the credential store verifies a password.
\<close>

theorem sub_writes_need_auth:
  assumes "sub_inv S s" "sub_on_data S tls s bs = Inr s'"
    and "files (w_fs (sb_world s')) p \<noteq> files (w_fs (sb_world s)) p"
  shows "prefix (canon (se_server S) (get_mailroot (se_server S))) p \<and> ss_authenticated (sb_sasl s') \<and>
    (\<exists>pw. fst (verify (se_crypto S) (w_db (sb_world s')) (ss_username (sb_sasl s')) pw (se_ip S)))"
  using sub_on_data_authorised[OF assms(1,2)] sub_on_data_pres[OF assms(1,2)] assms(3)
  by (auto simp: authorised_def sub_inv_def sasl_inv_def store_check_def)

section \<open>Errors and sequencing\<close>

lemma sub_mail_Inl: "sub_mail arg s = Inl e \<longleftrightarrow> e = Out_of_range \<and> sb_state s = Authenticated \<and> length arg < 5"
  by (auto simp: sub_mail_def Let_def)

lemma sub_line_Inl:
  assumes "verb = upper (case find_ch CHR '' '' line of None \<Rightarrow> line | Some n \<Rightarrow> take n line)"
    "arg = (case find_ch CHR '' '' line of None \<Rightarrow> [] | Some n \<Rightarrow> drop (n + 1) line)"
  shows "sub_process_line E cd cr ip tls line s = Inl e \<longleftrightarrow>
    \<not> in_progress (sb_sasl s) \<and> line \<noteq> [] \<and> verb = ''MAIL'' \<and> sub_mail arg s = Inl e"
  unfolding sub_process_line_def Let_def assms[symmetric] by simp

text \<open>
  The only line that can raise an exception is a \<^verbatim>\<open>MAIL\<close> shorter than ten bytes in the
  authenticated state; the exception is \<^verbatim>\<open>std::out_of_range\<close>.
\<close>

theorem sub_line_exceptions:
  "sub_process_line E cd cr ip tls line s = Inl e \<longleftrightarrow>
     e = Out_of_range \<and> sb_state s = Authenticated \<and> \<not> in_progress (sb_sasl s) \<and>
     upper (takeWhile (\<lambda>c. c \<noteq> CHR '' '') line) = ''MAIL'' \<and> length line < 10"
proof (cases "find_ch CHR '' '' line")
  case None
  then have t: "takeWhile (\<lambda>c. c \<noteq> CHR '' '') line = line" by (auto simp: find_ch_None takeWhile_eq_all_conv)
  have "upper line = ''MAIL'' \<Longrightarrow> length line = 4" by (drule arg_cong[of _ _ length]) simp
  then show ?thesis
    unfolding sub_line_Inl[OF refl refl] sub_mail_Inl t None option.case by fastforce
next
  case (Some n)
  note n = find_ch_SomeD[OF Some]
  have "upper (take n line) = ''MAIL'' \<Longrightarrow> n = 4"
    by (drule arg_cong[of _ _ length]) (use n(1) in simp)
  moreover have "line \<noteq> []" using n(1) by auto
  ultimately show ?thesis
    unfolding sub_line_Inl[OF refl refl] sub_mail_Inl n(3)[symmetric] Some option.case by fastforce
qed

text \<open>
  After a message was accepted the session is back in the greeted state although the SASL
  session stays authenticated, so the next \<^verbatim>\<open>MAIL\<close> is refused with 530 and the \<^verbatim>\<open>AUTH\<close> that
  answer asks for with 503: one connection submits one message (unless the client sends \<^verbatim>\<open>RSET\<close>).
\<close>

theorem sub_second_message:
  assumes "sub_inv S s" "sb_state s = Data" "sub_finish_data S s = Inr s'" "sb_state s' = Greeted"
  shows "sub_mail arg s' = Inr (sub_reply 530 ''5.7.0 Authentication Required'' s') \<and>
    sub_auth cd cr ip True arg' s' = sub_reply 503 ''Already authenticated'' s' \<and>
    sb_state (sub_rset s') = Authenticated"
proof -
  have a: "ss_authenticated (sb_sasl s)" using assms(1,2) by (simp add: sub_inv_def)
  moreover have "sb_sasl s' = sb_sasl s"
    using assms(3) by (auto simp: sub_finish_data_def Let_def split: sum.splits)
  ultimately have "ss_authenticated (sb_sasl s')" by simp
  with assms(4) show ?thesis
    by (simp add: sub_mail_def sub_auth_def Let_def sasl_begin_def sub_auth_result_def sub_rset_def)
qed

lemma sub_clear_sasl:
  "sub_on_data S tls s bs = Inr s' \<Longrightarrow> \<not> tls \<Longrightarrow> \<not> in_progress (sb_sasl s) \<Longrightarrow> sb_sasl s' = sb_sasl s"
proof (induction S tls s bs rule: sub_on_data.induct)
  case (2 S tls s b bs)
  have db: "sub_data_byte S b s = Inr t \<Longrightarrow> sb_sasl t = sb_sasl s" for t
    by (auto simp: sub_data_byte_def sub_finish_data_def Let_def split: sum.splits if_splits)
  have el: "sub_end_of_line S tls s = Inr t \<Longrightarrow> sb_sasl t = sb_sasl s" for t
    using "2.prems"(2,3) sub_line_keeps_login[of S tls _ "s\<lparr>sb_line_buf := strip_cr (sb_line_buf s)\<rparr>"]
    by (auto simp: sub_end_of_line_def split: sum.splits)
  have cb: "sb_sasl (sub_command_byte b s) = sb_sasl s" by (simp add: sub_command_byte_def Let_def)
  show ?case
  proof (cases "sb_state s = Data")
    case True
    with "2.prems"(1) obtain t where t: "sub_data_byte S b s = Inr t" "sub_on_data S tls t bs = Inr s'"
      by (auto split: sum.splits)
    with "2.IH"(1)[OF True t] "2.prems"(2,3) db[OF t(1)] show ?thesis by simp
  next
    case command: False
    show ?thesis
    proof (cases "b = LF")
      case True
      with "2.prems"(1) command obtain t where t: "sub_end_of_line S tls s = Inr t"
        "if sb_tls_upgrade_pending t then s' = t\<lparr>sb_tls_upgrade_pending := False\<rparr> else sub_on_data S tls t bs = Inr s'"
        by (auto split: sum.splits if_splits)
      with "2.IH"(2)[OF command True t(1)] "2.prems"(2,3) el[OF t(1)] show ?thesis by (simp split: if_splits)
    next
      case False
      with "2.IH"(3)[OF command False] "2.prems" cb command show ?thesis by simp
    qed
  qed
qed simp

text \<open>
  No credentials in clear: while TLS is off and no exchange is open, nothing a client sends
  changes the SASL session.
\<close>

theorem sub_no_auth_in_clear:
  assumes "\<not> in_progress (sb_sasl s)" "sub_on_data S False s bs = Inr s'"
  shows "sb_sasl s' = sb_sasl s"
  using assms by (intro sub_clear_sasl[of S False s bs]) simp_all

section \<open>Dot stuffing\<close>

text \<open>
  How RFC 5321 section 4.5.2 has a server read the lines of a message: up to the line with a
  single dot, a leading dot of any other line removed.
\<close>

fun rfc_receive :: "string list \<Rightarrow> (string list \<times> string list) option" where
  "rfc_receive [] = None"
| "rfc_receive (l # ls) =
     (if l = ''.'' then Some ([], ls)
      else map_option (\<lambda>(m, rest). ((if l \<noteq> [] \<and> hd l = CHR ''.'' then tl l else l) # m, rest)) (rfc_receive ls))"

lemma stuff_line_dot: "stuff_line l \<noteq> ''.''"
  by (cases l) (auto simp: stuff_line_def strip_cr_def)

lemma stuff_line_unstuff:
  "(if stuff_line l \<noteq> [] \<and> hd (stuff_line l) = CHR ''.'' then tl (stuff_line l) else stuff_line l) = strip_cr l"
  by (cases l) (auto simp: stuff_line_def strip_cr_def)

lemma rfc_receive_stuffed:
  "rfc_receive (map stuff_line ls @ ''.'' # rest) = Some (map strip_cr ls, rest)"
  by (induction ls) (simp_all add: stuff_line_dot stuff_line_unstuff)

text \<open>
  C18. The lines the relay sends for a message, read the way RFC 5321 prescribes, give exactly
  the lines of the signed message without their carriage returns, and what follows the final
  dot is the rest of the dialogue: nothing inside a message can end it or inject a command.
\<close>

theorem relay_dot_stuffing:
  assumes "split_message body = Some (h, b)" "sign h b = Inr signed_headers"
    "relay_message sign body r = Some (ok, r')"
  shows "\<exists>ls. rl_sent r' = rl_sent r @ map (\<lambda>l. (rl_tls r, l @ crlf)) ls \<and>
    rfc_receive ls = Some (map strip_cr (getlines LF (signed_headers @ crlf @ b)), [])"
proof -
  let ?ls = "getlines LF (signed_headers @ crlf @ b)"
  have sent: "rl_sent (foldl (\<lambda>r line. send_line (stuff_line line) r) q ls) =
        rl_sent q @ map (\<lambda>l. (rl_tls q, stuff_line l @ crlf)) ls \<and>
      rl_tls (foldl (\<lambda>r line. send_line (stuff_line line) r) q ls) = rl_tls q" for q ls
    by (induction ls arbitrary: q) (simp_all add: send_line_def)
  have "rl_sent (snd (expect n q)) = rl_sent q" for n q
    by (simp add: expect_def expect_multiline_def split: prod.splits)
  with assms sent[of r ?ls] have "rl_sent r' = rl_sent r @ map (\<lambda>l. (rl_tls r, l @ crlf)) (map stuff_line ?ls @ [''.''])"
    by (auto simp: relay_message_def send_line_def dest!: arg_cong[of _ _ snd])
  then show ?thesis using rfc_receive_stuffed[of ?ls "[]"] by blast
qed

section \<open>Concrete runs\<close>

definition sample_relay :: relay_env where
  "sample_relay = \<lparr>res_query = (\<lambda>_. None), dn_expand = (\<lambda>_ _. []), resolves = (\<lambda>_. False), socket_ok = True,
     connect_ok = True, handshake_ok = (\<lambda>_. True), clear_in = [], tls_in = []\<rparr>"

definition sample_sub :: sub_env where
  "sample_sub = \<lparr>se_server = sample_server, se_relay = (\<lambda>_. sample_relay), se_sign = (\<lambda>h b. Inr h),
     se_codec = sample_codec, se_crypto = sample_crypto, se_ip = ''10.0.0.1''\<rparr>"

lemma sample_sub_simps [simp]:
  "se_server sample_sub = sample_server" "se_crypto sample_sub = sample_crypto" "se_ip sample_sub = ''10.0.0.1''"
  by (simp_all add: sample_sub_def)

text \<open>A session that has logged in as \<^verbatim>\<open>bob\<close> and is receiving a message for him.\<close>

definition sample_sub_data :: subm where
  "sample_sub_data = (sub_new sample_server sample_world)\<lparr>sb_state := Data,
     sb_env := \<lparr>mail_from = ''a@x'', rcpt_to = [''bob@h''], env_body = []\<rparr>,
     sb_sasl := sasl_init\<lparr>ss_authenticated := True, ss_username := ''bob''\<rparr>\<rparr>"

lemma sample_login: "store_check sample_crypto ''10.0.0.1'' sample_world ''bob'' [NUL]"
proof -
  have salt: "derive_salt sample_crypto ''bob'' = Inr (concat (map (\<lambda>i. hex2 1) [0..<16]))"
    by (simp add: derive_salt_def sample_crypto_def)
  obtain bs where b: "read_salt (concat (map (\<lambda>i. hex2 1) [0..<16])) [0..<16] = Inr bs"
    using read_derived_salt(1)[OF salt] by blast
  have "hex2 0 = ''00''" by code_simp
  then have pb: "pbkdf2 sample_crypto [NUL] (concat (map (\<lambda>i. hex2 1) [0..<16])) n = Inr ''00''" for n
    using b by (simp add: pbkdf2_def) (simp add: sample_crypto_def)
  obtain h where "hash_data sample_crypto ''10.0.0.1'' 100000 = Inr h" using sample_hash_data by blast
  then show ?thesis
    using salt pb by (simp add: store_check_def verify_iff sample_world_def sample_defs safe_char_def isalnum_def)
qed

lemma sample_sub_data_inv: "sub_inv sample_sub sample_sub_data"
  using sample_login
  by (auto simp: sub_inv_def sample_sub_data_def sub_new_def sasl_inv_def sasl_init_def domain_part_def last5_def
      sample_world_def sample_db_facts)

lemma sample_sub_finish:
  "\<exists>s' f b. sub_finish_data sample_sub sample_sub_data = Inr s' \<and> sb_state s' = Greeted \<and>
     files (w_fs (sb_world s')) [''m'', ''bob'', ''new'', f] = Some b"
proof -
  obtain f w' where "store_local sample_server ''a@x'' ''bob@h'' ''bob@h'' ''bob'' [] sample_world = (True, w')"
    "files (w_fs w') [''m'', ''bob'', ''new'', f] = Some (trace_message sample_os ''h'' ''a@x'' ''bob@h'' [])"
    using sample_store[OF sample_bob(1)] by blast
  then show ?thesis
    by (auto simp: sub_finish_data_def sub_deliver_def sub_all_rcpts_def extract_header_addresses_def sample_sub_data_def
        sub_new_def sub_deliver_one_def sub_store_def sample_bob domain_part_def Let_def)
qed

lemma sample_sub_run:
  "\<exists>s' f b. sub_on_data sample_sub True (sample_sub_data\<lparr>sb_line_buf := butlast eod, sb_data_tail := butlast eod\<rparr>) [LF] = Inr s' \<and>
     files (w_fs (sb_world s')) [''m'', ''bob'', ''new'', f] = Some b"
proof -
  have "sub_data_byte sample_sub LF (sample_sub_data\<lparr>sb_line_buf := butlast eod, sb_data_tail := butlast eod\<rparr>) =
      sub_finish_data sample_sub sample_sub_data"
    by (simp add: sub_data_byte_def sample_sub_data_def sub_new_def sub_reply_def)
  moreover have "sb_state (sample_sub_data\<lparr>sb_line_buf := butlast eod, sb_data_tail := butlast eod\<rparr>) = Data"
    by (simp add: sample_sub_data_def)
  ultimately have "sub_on_data sample_sub True (sample_sub_data\<lparr>sb_line_buf := butlast eod, sb_data_tail := butlast eod\<rparr>) [LF] =
      (case sub_finish_data sample_sub sample_sub_data of Inl e \<Rightarrow> Inl e | Inr s1 \<Rightarrow> Inr s1)"
    by (simp split: sum.splits)
  with sample_sub_finish show ?thesis by fastforce
qed

theorem sub_writes_need_auth_witness:
  "\<exists>s' p. sub_on_data sample_sub True (sample_sub_data\<lparr>sb_line_buf := butlast eod, sb_data_tail := butlast eod\<rparr>) [LF] = Inr s' \<and>
     prefix [''m''] p \<and> ss_authenticated (sb_sasl s')"
proof -
  let ?s = "sample_sub_data\<lparr>sb_line_buf := butlast eod, sb_data_tail := butlast eod\<rparr>"
  obtain s' f b where r: "sub_on_data sample_sub True ?s [LF] = Inr s'"
    "files (w_fs (sb_world s')) [''m'', ''bob'', ''new'', f] = Some b" using sample_sub_run by blast
  have "sub_inv sample_sub ?s" using sample_sub_data_inv by (simp add: sub_inv_def last5_def sample_sub_data_def)
  moreover have "files (w_fs (sb_world s')) [''m'', ''bob'', ''new'', f] \<noteq> files (w_fs (sb_world ?s)) [''m'', ''bob'', ''new'', f]"
    using r(2) by (simp add: sample_sub_data_def sub_new_def sample_world_def)
  ultimately show ?thesis using sub_writes_need_auth[OF _ r(1)] r(1) by (auto simp: split_path_def)
qed

theorem sub_on_data_inv_witness:
  "\<exists>s'. sub_on_data sample_sub False (sub_new sample_server sample_world) ''N'' = Inr s' \<and> sub_inv sample_sub s'"
proof -
  have "\<exists>s'. sub_on_data sample_sub False (sub_new sample_server sample_world) ''N'' = Inr s'"
    by (simp add: sub_new_def)
  moreover have "sub_inv sample_sub (sub_new sample_server sample_world)"
    using sub_new_inv[of sample_world sample_sub] by (simp add: sample_world_def sample_db_facts)
  ultimately show ?thesis using sub_on_data_inv by blast
qed

theorem sub_second_message_witness:
  "\<exists>s'. sub_finish_data sample_sub sample_sub_data = Inr s' \<and>
     sub_mail ''FROM:<a@x>'' s' = Inr (sub_reply 530 ''5.7.0 Authentication Required'' s')"
proof -
  obtain s' where "sub_finish_data sample_sub sample_sub_data = Inr s'" "sb_state s' = Greeted"
    using sample_sub_finish by blast
  moreover have "sb_state sample_sub_data = Data" by (simp add: sample_sub_data_def)
  ultimately show ?thesis using sub_second_message[OF sample_sub_data_inv] by blast
qed

theorem sub_no_auth_in_clear_witness:
  "\<exists>s'. sub_on_data sample_sub False (sub_new sample_server sample_world) ''A'' = Inr s' \<and> sb_sasl s' = sasl_init"
proof -
  obtain s' where r: "sub_on_data sample_sub False (sub_new sample_server sample_world) ''A'' = Inr s'"
    by (simp add: sub_new_def)
  have "\<not> in_progress (sb_sasl (sub_new sample_server sample_world))"
    by (simp add: sub_new_def in_progress_def sasl_init_def)
  from sub_no_auth_in_clear[OF this r] r show ?thesis by (simp add: sub_new_def)
qed

theorem relay_dot_stuffing_witness:
  "\<exists>ls. rl_sent (snd (the (relay_message (\<lambda>h b. Inr h) ([CHR ''A'', LF, LF] @ ''.'') \<lparr>rl_in = [], rl_tls = False, rl_sent = []\<rparr>))) =
      map (\<lambda>l. (False, l @ crlf)) ls \<and>
    rfc_receive ls = Some (map strip_cr (getlines LF ([CHR ''A'', LF] @ crlf @ ''.'')), [])"
proof -
  let ?r = "\<lparr>rl_in = [], rl_tls = False, rl_sent = []\<rparr>"
  have sp: "split_message ([CHR ''A'', LF, LF] @ ''.'') = Some ([CHR ''A'', LF], ''.'')"
    by (simp add: split_message_def starts_with_def)
  then obtain ok r' where r: "relay_message (\<lambda>h b. Inr h) ([CHR ''A'', LF, LF] @ ''.'') ?r = Some (ok, r')"
    by (simp add: relay_message_def) (metis surj_pair)
  from relay_dot_stuffing[OF sp _ r] show ?thesis unfolding r by simp
qed

end
