(* ===== verification/Relay_Wire.thy ===== *)
theory Relay_Wire
  imports Submission
begin

text \<open>
  The sending side of the outbound relay (\<^verbatim>\<open>SubmissionServer::relay_outbound\<close>): \<^verbatim>\<open>send_all\<close> hands a line to
  \<^verbatim>\<open>send\<close> or \<^verbatim>\<open>SSL_write\<close> until all of it is taken. The dialogue of theory \<open>Submission\<close> does not depend on what these calls answer, because no
  caller looks at the result of \<^verbatim>\<open>send_line\<close>; here is what the peer gets.
\<close>

text \<open>The answers of \<^verbatim>\<open>raw_send\<close> are a list, one for each call, and every call after its end fails. No call takes more bytes than it is given.\<close>

function send_all :: "string \<Rightarrow> int list \<Rightarrow> bool \<times> string \<times> int list" where
  "send_all data answers =
     (if data = [] then (True, [], answers)
      else case answers of [] \<Rightarrow> (False, [], [])
        | n # ns \<Rightarrow>
            if n \<le> 0 then (False, [], ns)
            else case send_all (drop (nat n) data) ns of (ok, out, rest) \<Rightarrow> (ok, take (nat n) data @ out, rest))"
  by pat_completeness auto
termination
  by (relation "measure (\<lambda>(data, answers). length data)") auto

declare send_all.simps [simp del]

text \<open>What the lines of a dialogue put on the wire.\<close>

fun on_wire :: "string list \<Rightarrow> int list \<Rightarrow> string" where
  "on_wire [] answers = []"
| "on_wire (l # ls) answers = (case send_all l answers of (ok, out, rest) \<Rightarrow> out @ on_wire ls rest)"

lemma send_all_prefix: "send_all data ns = (ok, out, rest) \<Longrightarrow> prefix out data \<and> (ok \<longleftrightarrow> out = data)"
proof (induction data ns arbitrary: ok out rest rule: send_all.induct)
  case (1 data ns)
  show ?case
  proof (cases "data = [] \<or> ns = [] \<or> hd ns \<le> 0")
    case True
    with "1.prems" show ?thesis by (subst (asm) send_all.simps) (auto split: if_splits list.splits)
  next
    case False
    then obtain n ns' where ns: "ns = n # ns'" "0 < n" "data \<noteq> []" by (cases ns) auto
    obtain ok' out' rest' where r: "send_all (drop (nat n) data) ns' = (ok', out', rest')" by (metis surj_pair)
    have e: "ok = ok'" "out = take (nat n) data @ out'" using "1.prems" ns r by (subst (asm) send_all.simps, simp)+
    have "prefix out' (drop (nat n) data)" "ok' \<longleftrightarrow> out' = drop (nat n) data"
      using "1.IH"[OF ns(3) ns(1) _ r] ns(2) by auto
    then show ?thesis unfolding e by (metis append_take_drop_id same_append_eq same_prefix_prefix)
  qed
qed

text \<open>Every byte is taken one by one, or the whole line at once: both answers make \<open>send_all\<close> succeed.\<close>

lemma send_all_whole: "l \<noteq> [] \<Longrightarrow> send_all l (int (length l) # ns) = (True, l, ns)"
  by (subst send_all.simps) (simp add: send_all.simps[of "[]"])

lemma send_all_fails: "l \<noteq> [] \<Longrightarrow> send_all l (- 1 # ns) = (False, [], ns)"
  by (subst send_all.simps) simp

lemma on_wire_taken: "[] \<notin> set ls \<Longrightarrow> on_wire (ls @ ls') (map (int \<circ> length) ls @ ns) = concat ls @ on_wire ls' ns"
  by (induction ls) (auto simp: send_all_whole)

text \<open>
  A line that cannot be sent is left out of the message: the relay goes on with the next line, and the peer, if it takes those, receives the message with
  the line missing. The result of the relay does not depend on the sends, so the message is reported as delivered when the peer
  accepts what it got.
\<close>

theorem relay_drops_line:
  assumes "map snd (rl_sent r) = ls1 @ [l] @ ls2" "[] \<notin> set (map snd (rl_sent r))"
  shows "on_wire (map snd (rl_sent r)) (map (int \<circ> length) ls1 @ [- 1] @ map (int \<circ> length) ls2) = concat ls1 @ concat ls2"
proof -
  have "[] \<notin> set ls1" "[] \<notin> set ls2" "l \<noteq> []" using assms(2) unfolding assms(1) by auto
  then show ?thesis unfolding assms(1) using on_wire_taken[of ls1 "l # ls2" "- 1 # map (int \<circ> length) ls2"] on_wire_taken[of ls2 "[]" "[]"]
    by (simp add: send_all_fails)
qed

text \<open>The wire carries the dialogue if no call fails, however the kernel splits the lines.\<close>

theorem on_wire_complete:
  assumes "\<forall>n \<in> set ns. 0 < n" "length (concat ls) \<le> length ns"
  shows "on_wire ls ns = concat ls"
  using assms
proof (induction ls arbitrary: ns)
  case (Cons l ls)
  have "\<exists>k \<le> length l. send_all l ns = (True, l, drop k ns)" if "\<forall>n \<in> set ns. 0 < n" "length l \<le> length ns" for l and ns :: "int list"
    using that
  proof (induction l ns rule: send_all.induct)
    case (1 l ns)
    show ?case
    proof (cases "l = []")
      case False
      then obtain n ns' where ns: "ns = n # ns'" "0 < n" using "1.prems" by (cases ns) auto
      have "length (drop (nat n) l) \<le> length ns'" using "1.prems"(2) ns by simp
      then obtain k where k: "k \<le> length (drop (nat n) l)" "send_all (drop (nat n) l) ns' = (True, drop (nat n) l, drop k ns')"
        using "1.IH"[OF False ns(1)] "1.prems" ns by auto
      have "send_all l ns = (True, l, drop (Suc k) ns)" by (subst send_all.simps) (use False ns k(2) in simp)
      moreover have "Suc k \<le> length l" using k(1) False ns(2) by (cases l) (auto simp: Suc_le_eq nat_eq_iff zero_less_nat_eq)
      ultimately show ?thesis by blast
    qed (simp add: send_all.simps)
  qed
  then obtain k where k: "k \<le> length l" "send_all l ns = (True, l, drop k ns)" using Cons.prems by force
  have "on_wire ls (drop k ns) = concat ls" using Cons.prems k(1) by (intro Cons.IH) (auto dest: in_set_dropD)
  then show ?case using k(2) by simp
qed simp

theorem relay_drops_line_witness:
  "on_wire (map snd (rl_sent \<lparr>rl_in = [], rl_tls = False, rl_sent = [(False, ''a'' @ crlf), (False, ''b'' @ crlf), (False, ''.'' @ crlf)]\<rparr>)) [3, - 1, 3] =
     ''a'' @ crlf @ ''.'' @ crlf"
  using relay_drops_line[of "\<lparr>rl_in = [], rl_tls = False, rl_sent = [(False, ''a'' @ crlf), (False, ''b'' @ crlf), (False, ''.'' @ crlf)]\<rparr>"
      "[''a'' @ crlf]" "''b'' @ crlf" "[''.'' @ crlf]"]
  by simp

theorem on_wire_complete_witness: "on_wire [''ab''] [1, 1] = ''ab''"
  using on_wire_complete[of "[1, 1]" "[''ab'']"] by simp

end
