(* ===== verification/Submission_Login.thy ===== *)
theory Submission_Login
  imports Submission
begin

text \<open>
  Who gets into a submission session: only a client that sent a password the credential store accepts. The texts a
  client can give to the SASL exchange are the lines it sends and the initial responses of its \<^verbatim>\<open>AUTH\<close> commands; the user of a session and the
  password come from them.
\<close>

section \<open>What the client gave to the exchange\<close>

definition after_space :: "string \<Rightarrow> string" where
  "after_space l = (case find_ch CHR '' '' l of None \<Rightarrow> [] | Some n \<Rightarrow> drop (n + 1) l)"

definition sasl_texts :: "string \<Rightarrow> string set" where
  "sasl_texts seen = (\<Union>l \<in> {l. sent_line l seen}. {l, after_space (after_space l)})"

lemma sasl_texts_more: "sasl_texts seen \<subseteq> sasl_texts (seen @ r)"
  by (auto simp: sasl_texts_def dest: sent_line_more)

text \<open>The store as the session began with it, and what a session has of the client.\<close>

definition earned :: "sub_env \<Rightarrow> world \<Rightarrow> string \<Rightarrow> subm \<Rightarrow> bool" where
  "earned S w0 seen s \<longleftrightarrow> sub_inv S s \<and> suffix (sb_line_buf s) seen \<and>
     users (w_db (sb_world s)) = users (w_db w0) \<and> prep_ok (w_db (sb_world s)) = prep_ok (w_db w0) \<and>
     holds (se_codec S) (store_check (se_crypto S) (se_ip S) w0) (sasl_texts seen) (sb_sasl s) \<and>
     (sb_relayed s \<noteq> [] \<or> files (w_fs (sb_world s)) \<noteq> files (w_fs w0) \<longrightarrow> ss_authenticated (sb_sasl s))"

lemma sub_line_holds:
  assumes "holds (se_codec S) (store_check (se_crypto S) (se_ip S) (sb_world s)) ts (sb_sasl s)" "sub_line S tls line s = Inr s'"
    "line \<in> ts" "after_space (after_space line) \<in> ts"
  shows "holds (se_codec S) (store_check (se_crypto S) (se_ip S) (sb_world s)) ts (sb_sasl s')"
proof -
  let ?H = "holds (se_codec S) (store_check (se_crypto S) (se_ip S) (sb_world s)) ts"
  let ?P = "\<lambda>r. \<forall>s'. r = Inr s' \<longrightarrow> ?H (sb_sasl s')"
  have res: "?H (sb_sasl (sub_auth_result r s))" if "?H (snd r)" for r
    using that by (auto simp: sub_auth_result_def Let_def split: prod.splits)
  have "?P (sub_line S tls line s)"
  proof (rule sub_line_cases[where P = ?P, OF _ _ _ _ _ _ _ _ _ _ _ _ _ _ refl])
    show "?P (Inr (sub_auth_result (sasl_respond (se_codec S) (store_check (se_crypto S) (se_ip S) (sb_world s)) line (sb_sasl s)) s))"
      using res holds_step[OF assms(1), of "Respond line"] assms(3) by simp
    let ?arg = "case find_ch CHR '' '' line of None \<Rightarrow> [] | Some n \<Rightarrow> drop (n + 1) line"
    have a: "?arg = after_space line" by (simp add: after_space_def)
    show "?P (Inr (sub_auth (se_codec S) (se_crypto S) (se_ip S) tls ?arg s))"
      using res holds_step[OF assms(1), of "Begin m (after_space (after_space line))" for m] assms(1,4)
      unfolding a by (simp add: sub_auth_def after_space_def[symmetric] Let_def)
    show "?P (Inr (sub_rcpt E arg s))" for E arg
      using assms(1) by (rule_tac sub_rcpt_cases[of E arg s]) auto
  qed (use assms(1) in \<open>auto simp: sub_ehlo_def sub_helo_def sub_mail_def sub_data_def sub_rset_def sub_noop_def
        sub_quit_def sub_starttls_def Let_def split: if_splits\<close>)
  with assms(2) show ?thesis by blast
qed

section \<open>Bytes and reads\<close>

lemma earned_more: "earned S w0 seen s \<Longrightarrow> sb_line_buf s = [] \<Longrightarrow> earned S w0 (seen @ r) s"
  using holds_mono[OF _ sasl_texts_more] by (auto simp: earned_def)

lemma earned_line:
  assumes "earned S w0 seen s" "sb_state s \<noteq> Data" "sub_end_of_line S tls s = Inr s'"
  shows "earned S w0 (seen @ [LF]) s' \<and> sb_line_buf s' = []"
proof -
  let ?l = "strip_cr (sb_line_buf s)"
  obtain t where t: "sub_line S tls ?l (s\<lparr>sb_line_buf := ?l\<rparr>) = Inr t" "s' = t\<lparr>sb_line_buf := []\<rparr>"
    using assms(3) by (auto simp: sub_end_of_line_def split: sum.splits)
  have vf: "store_check (se_crypto S) (se_ip S) (sb_world s) = store_check (se_crypto S) (se_ip S) w0"
    using assms(1) by (intro store_check_cong) (simp_all add: earned_def)
  have "sent_line ?l (seen @ [LF])" using assms(1) by (intro line_sent) (simp add: earned_def)
  then have "?l \<in> sasl_texts (seen @ [LF])" "after_space (after_space ?l) \<in> sasl_texts (seen @ [LF])"
    by (auto simp: sasl_texts_def)
  moreover have "holds (se_codec S) (store_check (se_crypto S) (se_ip S) w0) (sasl_texts (seen @ [LF])) (sb_sasl s)"
    using assms(1) holds_mono[OF _ sasl_texts_more] by (auto simp: earned_def)
  ultimately have "holds (se_codec S) (store_check (se_crypto S) (se_ip S) w0) (sasl_texts (seen @ [LF])) (sb_sasl t)"
    using sub_line_holds[OF _ t(1)] vf by simp
  moreover have "sub_inv S s" using assms(1) by (simp add: earned_def)
  then have "sub_inv S s'" "authorised S s s'"
    using sub_end_of_line_inv[OF _ assms(2,3)] sub_eol_authorised[OF _ assms(3)] by auto
  ultimately show ?thesis using assms(1) sub_line_world[OF t(1)] t(2)
    by (auto simp: earned_def authorised_def)
qed

lemma earned_data:
  assumes "earned S w0 seen s" "sb_state s = Data" "sub_data_byte S b s = Inr s'"
  shows "earned S w0 (seen @ [b]) s'"
proof -
  have i: "sub_inv S s" using assms(1) by (simp add: earned_def)
  then have a: "ss_authenticated (sb_sasl s)" using assms(2) by (simp add: sub_inv_def)
  have "sub_inv S s'" "authorised S s s'"
    using sub_data_byte_inv[OF i assms(2,3)] sub_byte_authorised[OF i assms(2,3)] by auto
  moreover have "sb_line_buf s' = [] \<or> sb_line_buf s' = sb_line_buf s @ [b]"
    using assms(3) by (auto simp: sub_data_byte_def sub_finish_data_def Let_def split: sum.splits if_splits)
  moreover have "holds (se_codec S) (store_check (se_crypto S) (se_ip S) w0) (sasl_texts (seen @ [b])) (sb_sasl s)"
    using assms(1) holds_mono[OF _ sasl_texts_more] by (auto simp: earned_def)
  ultimately show ?thesis using assms(1) a by (auto simp: earned_def authorised_def suffix_snoc)
qed

lemma earned_command:
  assumes "earned S w0 seen s" "sb_state s \<noteq> Data"
  shows "earned S w0 (seen @ [b]) (sub_command_byte b s)"
proof -
  have "holds (se_codec S) (store_check (se_crypto S) (se_ip S) w0) (sasl_texts (seen @ [b])) (sb_sasl s)"
    using assms(1) holds_mono[OF _ sasl_texts_more] by (auto simp: earned_def)
  then show ?thesis using assms sub_command_byte_inv[of S s b]
    by (auto simp: earned_def sub_command_byte_def Let_def suffix_snoc)
qed

lemma earned_read:
  "sub_on_data S tls s bs = Inr s' \<Longrightarrow> earned S w0 seen s \<Longrightarrow> earned S w0 (seen @ bs) s'"
proof (induction S tls s bs arbitrary: seen rule: sub_on_data.induct)
  case (2 S tls s b bs)
  have up: "earned S w0 (seen @ [LF] @ bs) (t\<lparr>sb_tls_upgrade_pending := False\<rparr>)"
    if "earned S w0 (seen @ [LF]) t" "sb_line_buf t = []" for t
  proof -
    have "earned S w0 (seen @ [LF] @ bs) t" using earned_more[OF that] by simp
    moreover from this have "sub_inv S (t\<lparr>sb_tls_upgrade_pending := False\<rparr>)"
      unfolding earned_def by (elim conjE) (erule sub_inv_frame; simp)
    ultimately show ?thesis by (simp add: earned_def)
  qed
  consider "sb_state s = Data" | "sb_state s \<noteq> Data" "b = LF" | "sb_state s \<noteq> Data" "b \<noteq> LF" by blast
  then show ?case
  proof cases
    case 1
    then obtain t where t: "sub_data_byte S b s = Inr t" "sub_on_data S tls t bs = Inr s'"
      using 2(4) by (auto split: sum.splits)
    from 2(1)[OF 1 t(1) t(2) earned_data[OF 2(5) 1 t(1)]] show ?thesis by simp
  next
    case line: 2
    then obtain t where t: "sub_end_of_line S tls s = Inr t" using "2.prems"(1) by (auto split: sum.splits)
    note e = earned_line[OF "2.prems"(2) line(1) t]
    show ?thesis
    proof (cases "sb_tls_upgrade_pending t")
      case True
      then have "s' = t\<lparr>sb_tls_upgrade_pending := False\<rparr>" using "2.prems"(1) line t by simp
      then show ?thesis using up e line(2) by simp
    next
      case False
      then have "sub_on_data S tls t bs = Inr s'" using "2.prems"(1) line t by simp
      from "2.IH"(2)[OF line t False this] e line(2) show ?thesis by fastforce
    qed
  next
    case 3
    then have "sub_on_data S tls (sub_command_byte b s) bs = Inr s'" using "2.prems"(1) by simp
    from "2.IH"(3)[OF 3 this earned_command[OF "2.prems"(2) 3(1)]] show ?thesis by simp
  qed
qed simp

text \<open>A session is given reads, each with whether the connection was encrypted then.\<close>

definition sub_read :: "sub_env \<Rightarrow> subm cpp \<Rightarrow> bool \<times> string \<Rightarrow> subm cpp" where
  "sub_read S r b = (case r of Inl e \<Rightarrow> Inl e | Inr s \<Rightarrow> sub_on_data S (fst b) s (snd b))"

lemma sub_reads_stopped: "foldl (sub_read S) (Inl e) bs = Inl e"
  by (induction bs) (simp_all add: sub_read_def)

lemma earned_reads:
  "foldl (sub_read S) (Inr s) reads = Inr s' \<Longrightarrow> earned S w0 seen s \<Longrightarrow> earned S w0 (seen @ concat (map snd reads)) s'"
proof (induction reads arbitrary: s seen)
  case (Cons r reads)
  obtain t where t: "sub_on_data S (fst r) s (snd r) = Inr t" "foldl (sub_read S) (Inr t) reads = Inr s'"
    using Cons.prems(1) by (cases "sub_on_data S (fst r) s (snd r)") (auto simp: sub_read_def[of S "Inr s" r] sub_reads_stopped)
  from Cons.IH[OF t(2) earned_read[OF t(1) Cons.prems(2)]] show ?case by simp
qed simp

text \<open>
  C5. No mail without the password: if a submission session has logged in, has relayed a message or has stored one, then it names a user, and the client sent that
  name with a password that the store accepts for it from the address of the client.
\<close>

theorem submission_password_presented:
  assumes "foldl (sub_read S) (Inr (sub_new (se_server S) w0)) reads = Inr s" "db_wf (w_db w0)"
    "ss_authenticated (sb_sasl s) \<or> sb_relayed s \<noteq> [] \<or> files (w_fs (sb_world s)) \<noteq> files (w_fs w0)"
  shows "\<exists>p. (ss_username (sb_sasl s), p) \<in> presented (se_codec S) (sasl_texts (concat (map snd reads))) \<and>
    fst (verify (se_crypto S) (w_db w0) (ss_username (sb_sasl s)) p (se_ip S))"
proof -
  have "sub_inv S (sub_new (se_server S) w0)" by (rule sub_new_inv) (rule assms(2))
  then have "earned S w0 [] (sub_new (se_server S) w0)" by (simp add: earned_def sub_new_def holds_init)
  from earned_reads[OF assms(1) this] assms(3) show ?thesis by (auto simp: earned_def holds_def store_check_def)
qed

lemma sub_read_line:
  "sb_state s \<noteq> Data \<Longrightarrow> LF \<notin> set l \<Longrightarrow> length (sb_line_buf s) + length l \<le> 2048 \<Longrightarrow>
     sub_on_data S tls s (l @ bs) = sub_on_data S tls (s\<lparr>sb_line_buf := sb_line_buf s @ l\<rparr>) bs"
  by (induction l arbitrary: s) (auto simp: sub_command_byte_def Let_def)

lemma sample_sub_login:
  "\<exists>s. foldl (sub_read sample_sub) (Inr (sub_new sample_server sample_world))
      [(True, ''HELO'' @ [LF]), (True, (''AUTH PLAIN '' @ [NUL] @ ''bob'' @ [NUL, NUL]) @ [LF])] = Inr s \<and> ss_authenticated (sb_sasl s)"
proof -
  let ?s = "sub_new sample_server sample_world"
  define t where "t = (sub_helo sample_server [] ?s)\<lparr>sb_line_buf := []\<rparr>"
  have f [simp]: "sb_state ?s = Connected" "sb_line_buf ?s = []" "sb_sasl ?s = sasl_init" "sb_tls_upgrade_pending ?s = False"
    "sb_world ?s = sample_world" by (simp_all add: sub_new_def)
  have "upper ''HELO'' = ''HELO''" "find_ch CHR '' '' ''HELO'' = None" "strip_cr ''HELO'' = ''HELO''" "LF \<notin> set ''HELO''" by code_simp+
  then have 1: "sub_on_data sample_sub True ?s (''HELO'' @ [LF]) = Inr t"
    using sub_read_line[of ?s "''HELO''" sample_sub True "[LF]"]
    by (simp add: sub_end_of_line_def sub_process_line_def in_progress_def sasl_init_def sub_helo_def sub_reply_def t_def)
  have tf [simp]: "sb_state t = Greeted" "sb_line_buf t = []" "sb_sasl t = sasl_init" "sb_tls_upgrade_pending t = False"
    "sb_world t = sample_world" by (simp_all add: t_def sub_helo_def sub_new_def)
  define l where "l = ''AUTH PLAIN '' @ [NUL] @ ''bob'' @ [NUL, NUL]"
  have sp: "find_ch CHR '' '' l = Some 4" "upper (take 4 l) = ''AUTH''" "find_ch CHR '' '' (drop 5 l) = Some 5" "take 5 (drop 5 l) = ''PLAIN''"
    "drop 6 (drop 5 l) = [NUL] @ ''bob'' @ [NUL, NUL]" "strip_cr l = l" "LF \<notin> set l" "length l \<le> 2048" "l \<noteq> []" unfolding l_def by code_simp+
  have d: "split_plain ([NUL] @ ''bob'' @ [NUL, NUL]) = Some (''bob'', [NUL])" by code_simp
  let ?vf = "store_check sample_crypto ''10.0.0.1'' sample_world"
  have b: "sasl_begin (se_codec sample_sub) ?vf ''PLAIN'' ([NUL] @ ''bob'' @ [NUL, NUL]) sasl_init =
      ((235, ''2.7.0 Authentication successful''), sasl_init\<lparr>ss_attempts := 1, ss_username := ''bob'', ss_authenticated := True\<rparr>)"
    using d sample_login by (simp add: sasl_begin_def begin_plain_def process_plain_def sasl_base64_decode_def sample_sub_def sample_codec_def
        auth_success_def sasl_init_def Let_def)
  let ?u = "t\<lparr>sb_line_buf := l\<rparr>"
  have "sub_line sample_sub True l ?u = Inr (sub_auth (se_codec sample_sub) sample_crypto ''10.0.0.1'' True (drop 5 l) ?u)"
    using sp by (simp add: sub_process_line_def in_progress_def sasl_init_def)
  moreover have "sub_auth (se_codec sample_sub) sample_crypto ''10.0.0.1'' True (drop 5 l) ?u =
      sub_auth_result (sasl_begin (se_codec sample_sub) ?vf ''PLAIN'' ([NUL] @ ''bob'' @ [NUL, NUL]) sasl_init) ?u"
    using sp(3-5) by (simp add: sub_auth_def)
  ultimately have a: "\<exists>s. sub_end_of_line sample_sub True ?u = Inr s \<and> ss_authenticated (sb_sasl s) \<and> \<not> sb_tls_upgrade_pending s"
    unfolding b using sp(6) by (simp add: sub_end_of_line_def sub_auth_result_def sub_reply_def)
  show ?thesis
    using 1 a sub_read_line[of t l sample_sub True "[LF]"] sp(7,8) unfolding l_def[symmetric]
    by (auto simp: sub_read_def)
qed

theorem submission_password_presented_witness:
  "\<exists>(s :: subm) p. ss_authenticated (sb_sasl s) \<and> (ss_username (sb_sasl s), p) \<in> presented (se_codec sample_sub)
       (sasl_texts (''HELO'' @ [LF] @ (''AUTH PLAIN '' @ [NUL] @ ''bob'' @ [NUL, NUL]) @ [LF])) \<and>
     fst (verify sample_crypto (w_db sample_world) (ss_username (sb_sasl s)) p ''10.0.0.1'')"
proof -
  obtain s where s: "foldl (sub_read sample_sub) (Inr (sub_new (se_server sample_sub) sample_world))
      [(True, ''HELO'' @ [LF]), (True, (''AUTH PLAIN '' @ [NUL] @ ''bob'' @ [NUL, NUL]) @ [LF])] = Inr s" "ss_authenticated (sb_sasl s)"
    using sample_sub_login by auto
  have "db_wf (w_db sample_world)" by (simp add: sample_world_def sample_db_facts)
  then obtain p where "(ss_username (sb_sasl s), p) \<in> presented (se_codec sample_sub) (sasl_texts (concat (map snd
        [(True, ''HELO'' @ [LF]), (True, (''AUTH PLAIN '' @ [NUL] @ ''bob'' @ [NUL, NUL]) @ [LF])])))"
    "fst (verify sample_crypto (w_db sample_world) (ss_username (sb_sasl s)) p ''10.0.0.1'')"
    using submission_password_presented[OF s(1)] s(2) by auto
  with s(2) show ?thesis by (intro exI[of _ s] exI[of _ p]) simp
qed

end
