(* ===== verification/Imap_Mailbox.thy ===== *)
theory Imap_Mailbox
  imports World Sasl "HOL-Library.Multiset"
begin

text \<open>
  The mailbox part of \<^verbatim>\<open>src/imap/session.cpp\<close>: message numbers, flags in file names, listing a
  maildir, moving new mail to \<^verbatim>\<open>cur/\<close>, sequence sets and the text of a \<^verbatim>\<open>FETCH\<close> answer. What the code asks of
  the system (path resolution, directory listings, \<^verbatim>\<open>stat\<close>, the C date functions, memory) is the
  record \<open>imap_env\<close>; the order \<^verbatim>\<open>std::sort\<close> leaves equal elements in is not specified, so the sort
  is a parameter too. Message numbers are 32-bit words as in the code. The loop over a range
  \<^verbatim>\<open>lo:hi\<close> is a list of numbers; the code's loop would not end for \<^verbatim>\<open>hi = 0xFFFFFFFF\<close>, which needs
  that many messages in one mailbox.
\<close>

record message_meta =
  m_uuid :: "32 word"
  m_seq :: "32 word"
  m_filename :: string
  m_flags :: string
  m_size :: nat
  m_in_cur :: bool

record imap_env =
  mail_root :: string
  remote_ip :: string
  resolve_path :: "string \<Rightarrow> path"
  sys_at :: "nat \<Rightarrow> os_env"
  readdir :: "file_system \<Rightarrow> path \<Rightarrow> string list option"
  stat_size :: "file_system \<Rightarrow> path \<Rightarrow> nat option"
  sort_by_uuid :: "message_meta list \<Rightarrow> message_meta list"
  strptime_mktime :: "string \<Rightarrow> int option"
  strftime_gmt :: "32 word \<Rightarrow> string"
  base64 :: codec
  crypt :: crypto
  can_reserve :: "nat \<Rightarrow> bool"

section \<open>System calls\<close>

text \<open>A path string reaches the kernel through \<^verbatim>\<open>c_str()\<close>, so it ends at the first NUL.\<close>

definition path_of :: "imap_env \<Rightarrow> string \<Rightarrow> path" where
  "path_of E p = resolve_path E (c_str p)"

definition sys_mkdir :: "imap_env \<Rightarrow> string \<Rightarrow> world \<Rightarrow> world" where
  "sys_mkdir E p w =
     (let w1 = w\<lparr>w_tick := w_tick w + 1\<rparr>
      in if mkdir_ok (sys_at E (w_tick w)) (path_of E p)
         then w1\<lparr>w_fs := (w_fs w)\<lparr>dirs := insert (path_of E p) (dirs (w_fs w))\<rparr>\<rparr> else w1)"

definition sys_rename :: "imap_env \<Rightarrow> string \<Rightarrow> string \<Rightarrow> world \<Rightarrow> bool \<times> world" where
  "sys_rename E p q w =
     (let a = path_of E p; b = path_of E q; w1 = w\<lparr>w_tick := w_tick w + 1\<rparr>
      in case files (w_fs w) a of
           None \<Rightarrow> (False, w1)
         | Some c \<Rightarrow>
             if rename_ok (sys_at E (w_tick w)) a b
             then (True, w1\<lparr>w_fs := (w_fs w)\<lparr>files := (files (w_fs w))(a := None, b \<mapsto> c)\<rparr>\<rparr>)
             else (False, w1))"

definition sys_unlink :: "imap_env \<Rightarrow> string \<Rightarrow> world \<Rightarrow> world" where
  "sys_unlink E p w =
     (let w1 = w\<lparr>w_tick := w_tick w + 1\<rparr>
      in if remove_ok (sys_at E (w_tick w)) (path_of E p)
         then w1\<lparr>w_fs := (w_fs w)\<lparr>files := (files (w_fs w))(path_of E p := None)\<rparr>\<rparr> else w1)"

section \<open>File names\<close>

definition uuid_from_file :: "string \<Rightarrow> 32 word" where
  "uuid_from_file filename = (case find_ch CHR ''.'' filename of None \<Rightarrow> 1
     | Some dot \<Rightarrow> (case from_chars 32 (take dot filename) of None \<Rightarrow> 1 | Some uuid \<Rightarrow> of_nat uuid))"

definition Seen :: string where "Seen = BS # ''Seen''"
definition Answered :: string where "Answered = BS # ''Answered''"
definition Flagged :: string where "Flagged = BS # ''Flagged''"
definition Deleted :: string where "Deleted = BS # ''Deleted''"
definition Draft :: string where "Draft = BS # ''Draft''"

definition flags_from_file :: "string \<Rightarrow> string" where
  "flags_from_file filename = (case find_sub '':2,'' filename of None \<Rightarrow> []
     | Some pos \<Rightarrow>
         let raw = drop (pos + 3) filename;
             imap_flags = (if CHR ''D'' \<in> set raw then Draft @ '' '' else [])
                        @ (if CHR ''F'' \<in> set raw then Flagged @ '' '' else [])
                        @ (if CHR ''R'' \<in> set raw then Answered @ '' '' else [])
                        @ (if CHR ''S'' \<in> set raw then Seen @ '' '' else [])
                        @ (if CHR ''T'' \<in> set raw then Deleted @ '' '' else [])
         in if imap_flags \<noteq> [] \<and> last imap_flags = CHR '' '' then butlast imap_flags else imap_flags)"

definition flag_chars :: "string \<Rightarrow> string" where
  "flag_chars flags = (if has_sub Seen flags then ''S'' else []) @ (if has_sub Answered flags then ''R'' else [])
     @ (if has_sub Flagged flags then ''F'' else []) @ (if has_sub Deleted flags then ''T'' else [])
     @ (if has_sub Draft flags then ''D'' else [])"

text \<open>The file name \<^verbatim>\<open>STORE\<close> and \<^verbatim>\<open>APPEND\<close> give a message: the part before \<^verbatim>\<open>:2,\<close> and the flag characters.\<close>

definition base_name :: "string \<Rightarrow> string" where
  "base_name f = (case find_sub '':2,'' f of None \<Rightarrow> f | Some colon \<Rightarrow> take colon f)"

definition flagged_name :: "string \<Rightarrow> string \<Rightarrow> string" where
  "flagged_name base flags = base @ '':2,'' @ flag_chars flags"

section \<open>Listing a mailbox\<close>

definition mailbox_base :: "imap_env \<Rightarrow> string \<Rightarrow> string \<Rightarrow> string" where
  "mailbox_base E username mailbox =
     mail_root E @ ''/'' @ username @ (if mailbox \<noteq> ''INBOX'' then ''/.'' @ mailbox else [])"

text \<open>\<^verbatim>\<open>ent->d_name[0] == '.'\<close>\<close>

definition hidden :: "string \<Rightarrow> bool" where
  "hidden d_name \<longleftrightarrow> d_name \<noteq> [] \<and> hd d_name = CHR ''.''"

fun load_entries :: "imap_env \<Rightarrow> file_system \<Rightarrow> string \<Rightarrow> bool \<Rightarrow> message_meta list \<Rightarrow> string list \<Rightarrow> message_meta list" where
  "load_entries E fs dir is_cur ms [] = ms"
| "load_entries E fs dir is_cur ms (fname # ns) =
     (if hidden fname then load_entries E fs dir is_cur ms ns
      else (case stat_size E fs (path_of E (dir @ ''/'' @ fname)) of
              None \<Rightarrow> load_entries E fs dir is_cur ms ns
            | Some sz \<Rightarrow>
                load_entries E fs dir is_cur
                  (ms @ [\<lparr>m_uuid = uuid_from_file fname, m_seq = of_nat (length ms + 1), m_filename = fname,
                         m_flags = flags_from_file fname, m_size = sz, m_in_cur = is_cur\<rparr>]) ns))"

definition load_dir :: "imap_env \<Rightarrow> file_system \<Rightarrow> string \<Rightarrow> message_meta list \<Rightarrow> string \<Rightarrow> message_meta list" where
  "load_dir E fs base ms subdir =
     (let dir = base @ ''/'' @ subdir
      in case readdir E fs (path_of E dir) of None \<Rightarrow> ms
         | Some ns \<Rightarrow> load_entries E fs dir (subdir = ''cur'') ms ns)"

fun renumber :: "nat \<Rightarrow> message_meta list \<Rightarrow> message_meta list" where
  "renumber i [] = []"
| "renumber i (m # ms) = m\<lparr>m_seq := of_nat i + 1\<rparr> # renumber (i + 1) ms"

text \<open>\<^verbatim>\<open>std::max(next_uuid_, uuid + 1)\<close> on 32-bit words: the successor of the largest identifier is 0.\<close>

definition bump :: "32 word \<Rightarrow> message_meta \<Rightarrow> 32 word" where
  "bump next m = max next (m_uuid m + 1)"

definition load_mailbox :: "imap_env \<Rightarrow> file_system \<Rightarrow> string \<Rightarrow> string \<Rightarrow> message_meta list \<times> 32 word" where
  "load_mailbox E fs username mailbox =
     (let ms = renumber 0 (sort_by_uuid E (foldl (load_dir E fs (mailbox_base E username mailbox)) [] [''cur'', ''new'']))
      in (ms, foldl bump 1 ms))"

definition scan_new :: "imap_env \<Rightarrow> file_system \<Rightarrow> string \<Rightarrow> nat" where
  "scan_new E fs username =
     (case readdir E fs (path_of E (mail_root E @ ''/'' @ username @ ''/new'')) of None \<Rightarrow> 0
      | Some ns \<Rightarrow> length (filter (\<lambda>n. \<not> hidden n) ns))"

definition cur_name :: "string \<Rightarrow> string" where
  "cur_name fname = (if has_sub '':2,'' fname then fname else fname @ '':2,'')"

text \<open>One entry of \<^verbatim>\<open>new/\<close>, moved to \<^verbatim>\<open>cur/\<close> and appended to the open mailbox.\<close>

definition incorporate_entry ::
  "imap_env \<Rightarrow> string \<Rightarrow> message_meta list \<times> 32 word \<times> world \<Rightarrow> string \<Rightarrow> message_meta list \<times> 32 word \<times> world" where
  "incorporate_entry E username acc fname =
     (case acc of (ms, next, w) \<Rightarrow>
        if hidden fname then acc
        else
          let dst_name = cur_name fname;
              src = mail_root E @ ''/'' @ username @ ''/new'' @ ''/'' @ fname;
              dst = mail_root E @ ''/'' @ username @ ''/cur'' @ ''/'' @ dst_name
          in (case sys_rename E src dst w of
                (False, w1) \<Rightarrow> (ms, next, w1)
              | (True, w1) \<Rightarrow>
                  (case stat_size E (w_fs w1) (path_of E dst) of
                     None \<Rightarrow> (ms, next, w1)
                   | Some sz \<Rightarrow>
                       let meta = \<lparr>m_uuid = uuid_from_file dst_name, m_seq = of_nat (length ms) + 1, m_filename = dst_name,
                                   m_flags = [], m_size = sz, m_in_cur = True\<rparr>
                       in (ms @ [meta], bump next meta, w1))))"

section \<open>Sequence sets\<close>

definition parse_num :: "32 word \<Rightarrow> string \<Rightarrow> 32 word" where
  "parse_num max_seq s = (if s = ''*'' then max_seq
     else min (case from_chars 32 s of None \<Rightarrow> 0 | Some n \<Rightarrow> of_nat n) max_seq)"

definition seq_range :: "32 word \<Rightarrow> string \<Rightarrow> 32 word list" where
  "seq_range max_seq rng =
     (case find_ch CHR '':'' rng of
        None \<Rightarrow> (let n = parse_num max_seq rng in if n \<ge> 1 \<and> n \<le> max_seq then [n] else [])
      | Some colon \<Rightarrow>
          let lo0 = parse_num max_seq (take colon rng); hi0 = parse_num max_seq (drop (colon + 1) rng);
              lo = (if lo0 > hi0 then hi0 else lo0); hi = (if lo0 > hi0 then lo0 else hi0)
          in filter (\<lambda>i. i \<ge> 1 \<and> i \<le> max_seq) (map of_nat [unat lo ..< unat hi + 1]))"

definition parse_sequence_set :: "message_meta list \<Rightarrow> string \<Rightarrow> 32 word list" where
  "parse_sequence_set ms seqs =
     (let max_seq = of_nat (length ms)
      in if max_seq = 0 then [] else concat (map (seq_range max_seq) (getlines CHR '','' seqs)))"

section \<open>Reading messages\<close>

definition message_path :: "imap_env \<Rightarrow> string \<Rightarrow> string \<Rightarrow> message_meta \<Rightarrow> string" where
  "message_path E username selected msg =
     mailbox_base E username selected @ (if m_in_cur msg then ''/cur/'' else ''/new/'') @ m_filename msg"

text \<open>A file that cannot be opened gives an empty blob.\<close>

definition read_blob :: "imap_env \<Rightarrow> world \<Rightarrow> string \<Rightarrow> string \<Rightarrow> message_meta \<Rightarrow> string" where
  "read_blob E w username selected msg =
     (let p = path_of E (message_path E username selected msg)
      in if open_ok (sys_at E (w_tick w)) p then (case files (w_fs w) p of None \<Rightarrow> [] | Some c \<Rightarrow> c) else [])"

definition build_envelope :: string where
  "build_envelope = ''(NIL NIL NIL NIL NIL NIL NIL NIL NIL NIL)''"

definition dq :: "string \<Rightarrow> string" where
  "dq s = DQ # s @ [DQ]"

definition build_body :: "message_meta \<Rightarrow> string" where
  "build_body msg = ''('' @ dq ''APPLICATION'' @ '' '' @ dq ''OCTET-STREAM'' @ '' '' @ ''('' @ dq ''X-JAMS-Encrypted'' @ '' ''
     @ dq ''AES-256-GCM'' @ '') NIL NIL '' @ dq ''BASE64'' @ '' '' @ dec (m_size msg) @ '' NIL NIL NIL)''"

fun join_parts :: "string list \<Rightarrow> string" where
  "join_parts [] = []"
| "join_parts [p] = p"
| "join_parts (p # q # ps) = p @ '' '' @ join_parts (q # ps)"

definition fetch_parts :: "imap_env \<Rightarrow> world \<Rightarrow> string \<Rightarrow> string \<Rightarrow> message_meta \<Rightarrow> string \<Rightarrow> string list" where
  "fetch_parts E w username selected msg items =
     (let up = upper items; blob = read_blob E w username selected msg
      in (if has_sub ''FLAGS'' up then [''FLAGS ('' @ m_flags msg @ '')''] else [])
       @ (if has_sub ''UID'' up then [''UID '' @ dec (unat (m_uuid msg))] else [])
       @ (if has_sub ''RFC822.SIZE'' up then [''RFC822.SIZE '' @ dec (m_size msg)] else [])
       @ (if has_sub ''ENVELOPE'' up then [''ENVELOPE '' @ build_envelope] else [])
       @ (if has_sub ''BODYSTRUCTURE'' up then [''BODYSTRUCTURE '' @ build_body msg] else [])
       @ (if has_sub ''BODY['' up \<or> has_sub ''RFC822'' up
          then [''BODY[] {'' @ dec (length blob) @ ''}'' @ crlf @ blob] else [])
       @ (if has_sub ''INTERNALDATE'' up then [''INTERNALDATE '' @ strftime_gmt E (m_uuid msg)] else []))"

definition fetch_message :: "imap_env \<Rightarrow> world \<Rightarrow> string \<Rightarrow> string \<Rightarrow> message_meta \<Rightarrow> string \<Rightarrow> string" where
  "fetch_message E w username selected msg items =
     dec (unat (m_seq msg)) @ '' FETCH ('' @ join_parts (fetch_parts E w username selected msg items) @ '')''"

section \<open>Message numbers\<close>

text \<open>The messages of an open mailbox are numbered 1, 2, 3, \<dots> in order.\<close>

definition numbered :: "message_meta list \<Rightarrow> bool" where
  "numbered ms \<longleftrightarrow> (\<forall>i < length ms. m_seq (ms ! i) = of_nat i + 1)"

lemma length_renumber [simp]: "length (renumber i ms) = length ms"
  by (induction ms arbitrary: i) auto

lemma renumber_nth: "i < length ms \<Longrightarrow> renumber k ms ! i = (ms ! i)\<lparr>m_seq := of_nat (k + i) + 1\<rparr>"
proof (induction ms arbitrary: k i)
  case (Cons m ms)
  then show ?case by (cases i) (simp_all add: add.assoc)
qed simp

lemma renumber_numbered [simp]: "numbered (renumber 0 ms)"
  by (simp add: numbered_def renumber_nth)

lemma numbered_Nil [simp]: "numbered []"
  by (simp add: numbered_def)

lemma numbered_snoc: "numbered ms \<Longrightarrow> m_seq m = of_nat (length ms) + 1 \<Longrightarrow> numbered (ms @ [m])"
  by (auto simp: numbered_def nth_append less_Suc_eq)

lemma load_mailbox_numbered: "numbered (fst (load_mailbox E fs u mb))"
  by (simp add: load_mailbox_def Let_def)

lemma incorporate_entry_numbered:
  assumes "numbered (fst acc)"
  shows "numbered (fst (incorporate_entry E u acc f))"
proof (cases acc)
  case (fields ms nx w)
  have snoc: "numbered (ms @ [\<lparr>m_uuid = i, m_seq = of_nat (length ms) + 1, m_filename = n, m_flags = fl, m_size = sz,
      m_in_cur = c\<rparr>])" for i n fl sz c
    using assms fields by (intro numbered_snoc) simp_all
  show ?thesis
    using assms fields snoc unfolding incorporate_entry_def Let_def fields
    by (simp split: prod.split bool.split option.split)
qed

lemma incorporate_numbered: "numbered (fst acc) \<Longrightarrow> numbered (fst (foldl (incorporate_entry E u) acc fs))"
  by (induction fs arbitrary: acc) (simp_all add: incorporate_entry_numbered)

text \<open>A number of a sequence set is the number of exactly one message.\<close>

lemma parse_num_le: "parse_num m s \<le> m"
  by (simp add: parse_num_def)

lemma seq_range_bounds: "n \<in> set (seq_range m r) \<Longrightarrow> 1 \<le> n \<and> n \<le> m"
  by (auto simp: seq_range_def Let_def split: option.splits if_splits)

lemma sequence_set_bounds:
  assumes "n \<in> set (parse_sequence_set ms t)"
  shows "1 \<le> n" "n \<le> of_nat (length ms)"
  using assms seq_range_bounds[of n "of_nat (length ms)"]
  by (auto simp: parse_sequence_set_def Let_def split: if_splits)

lemma numbered_pos:
  assumes "numbered ms" "1 \<le> n" "n \<le> of_nat (length ms)"
  shows "unat n - 1 < length ms" "m_seq (ms ! (unat n - 1)) = n" "j < unat n - 1 \<Longrightarrow> m_seq (ms ! j) \<noteq> n"
proof -
  have n: "1 \<le> unat n" using assms(2) by (simp add: word_le_nat_alt)
  have "unat n \<le> length ms mod 2 ^ 32" using assms(3) by (simp add: word_le_nat_alt unat_of_nat)
  then have l: "unat n \<le> length ms" using mod_less_eq_dividend le_trans by blast
  with n show lt: "unat n - 1 < length ms" by linarith
  have num: "m_seq (ms ! i) = of_nat i + 1" if "i < length ms" for i using assms(1) that by (simp add: numbered_def)
  have suc: "of_nat (unat n - 1) + (1 :: 32 word) = n"
  proof -
    have "of_nat (unat n - 1 + 1) = n" using n by simp
    then show ?thesis by (simp only: of_nat_add of_nat_1)
  qed
  have un: "unat n < 2 ^ 32" using unsigned_less[of n] by simp
  show "m_seq (ms ! (unat n - 1)) = n" using num[OF lt] suc by simp
  show "m_seq (ms ! j) \<noteq> n" if "j < unat n - 1"
  proof
    assume "m_seq (ms ! j) = n"
    then have "of_nat j + (1 :: 32 word) = n" using num[of j] that lt by simp
    then have "unat (of_nat (j + 1) :: 32 word) = unat n" by (simp add: add.commute)
    moreover have "j + 1 < 2 ^ 32" using that un by linarith
    ultimately have "j + 1 = unat n" by (simp only: unat_of_nat) simp
    with that show False by linarith
  qed
qed

section \<open>Flags and identifiers in file names\<close>

lemma has_sub_Cons: "has_sub p (x # s) \<longleftrightarrow> starts_with p (x # s) \<or> has_sub p s"
  by (simp add: has_sub_def)

lemma starts_info: "starts_with '':2,'' (x # s) \<longleftrightarrow> x = CHR '':'' \<and> (\<exists>r. s = CHR ''2'' # CHR '','' # r)"
  unfolding starts_with_iff by auto

lemma info_overlap: "starts_with '':2,'' (x # b @ '':2,'' @ cs) \<Longrightarrow> starts_with '':2,'' (x # b)"
proof (cases b)
  case (Cons y b')
  assume "starts_with '':2,'' (x # b @ '':2,'' @ cs)"
  with Cons show ?thesis by (cases b') (simp_all add: starts_info)
qed (simp add: starts_info)

lemma find_info: "\<not> has_sub '':2,'' b \<Longrightarrow> find_sub '':2,'' (b @ '':2,'' @ cs) = Some (length b)"
proof (induction b)
  case Nil
  show ?case by (simp add: starts_info)
next
  case (Cons x b)
  then have "\<not> starts_with '':2,'' (x # b @ '':2,'' @ cs)" "\<not> has_sub '':2,'' b"
    using info_overlap by (auto simp only: has_sub_Cons)
  with Cons.IH show ?case by simp
qed

lemma take_find_sub: "find_sub p s = Some n \<Longrightarrow> p \<noteq> [] \<Longrightarrow> \<not> has_sub p (take n s)"
proof (induction s arbitrary: n)
  case (Cons x s)
  show ?case
  proof (cases n)
    case (Suc k)
    with Cons.prems have k: "find_sub p s = Some k" "\<not> starts_with p (x # s)" by (auto split: if_splits)
    then have "\<not> starts_with p (x # take k s)"
      by (metis append.assoc append_Cons append_take_drop_id starts_with_iff)
    with k(1) Cons.IH Cons.prems(2) Suc show ?thesis by (simp add: has_sub_Cons)
  qed (use Cons.prems in \<open>simp add: has_sub_def\<close>)
qed simp

lemma base_name_clean: "\<not> has_sub '':2,'' (base_name f)"
proof (cases "find_sub '':2,'' f")
  case (Some n)
  then show ?thesis using take_find_sub[OF Some] by (simp add: base_name_def)
qed (simp add: base_name_def has_sub_def)

lemma flags_of_flagged:
  assumes "\<not> has_sub '':2,'' b"
  shows "flag_chars (flags_from_file (flagged_name b fl)) = flag_chars fl"
proof -
  have *: "flag_chars (flags_from_file (flagged_name b fl)) =
    flag_chars (let raw = flag_chars fl;
       imap_flags = (if CHR ''D'' \<in> set raw then Draft @ '' '' else []) @ (if CHR ''F'' \<in> set raw then Flagged @ '' '' else [])
         @ (if CHR ''R'' \<in> set raw then Answered @ '' '' else []) @ (if CHR ''S'' \<in> set raw then Seen @ '' '' else [])
         @ (if CHR ''T'' \<in> set raw then Deleted @ '' '' else [])
     in if imap_flags \<noteq> [] \<and> last imap_flags = CHR '' '' then butlast imap_flags else imap_flags)"
    unfolding flags_from_file_def flagged_name_def find_info[OF assms] by (simp only: option.case) simp
  show ?thesis unfolding * unfolding flag_chars_def[of fl]
    by (cases "has_sub Seen fl"; cases "has_sub Answered fl"; cases "has_sub Flagged fl"; cases "has_sub Deleted fl";
        cases "has_sub Draft fl"; simp only: if_True if_False) code_simp+
qed

text \<open>
  Flags survive on disk: whatever file a message had, the name \<^verbatim>\<open>STORE\<close> gives it for a flag list
  is read back as a flag list with the same system flags.
\<close>

theorem flags_roundtrip: "flag_chars (flags_from_file (flagged_name (base_name f) fl)) = flag_chars fl"
  by (rule flags_of_flagged) (rule base_name_clean)

lemma unique_filename_uid:
  assumes "now_us os div 1000000 < 2 ^ 32"
  shows "uuid_from_file (unique_filename os n) = of_nat (now_us os div 1000000)"
proof -
  let ?t = "dec (now_us os div 1000000)"
  obtain r where r: "unique_filename os n = ?t @ CHR ''.'' # r"
    by (simp add: unique_filename_def Let_def)
  have "CHR ''.'' \<notin> set ?t" using dec_digits[of "CHR ''.''"] by (auto simp: isdigit_def)
  then have "find_ch CHR ''.'' (unique_filename os n) = Some (length ?t)" unfolding r by (rule find_ch_append)
  moreover have "from_chars 32 ?t = Some (now_us os div 1000000)"
    using from_chars_dec[OF assms, of "[]"] by simp
  ultimately show ?thesis by (simp add: uuid_from_file_def r)
qed

text \<open>
  Unique identifiers: the UID the IMAP server gives a delivered message is the second it was
  delivered in. Until the year 2106 two messages therefore have the same UID exactly when they were
  delivered in the same second, although RFC 3501 asks for unique ones.
\<close>

theorem delivered_uid_collision:
  assumes "now_us os div 1000000 < 2 ^ 32" "now_us os' div 1000000 < 2 ^ 32"
  shows "uuid_from_file (unique_filename os n) = uuid_from_file (unique_filename os' n')
    \<longleftrightarrow> now_us os div 1000000 = now_us os' div 1000000"
proof
  let ?a = "now_us os div 1000000" and ?b = "now_us os' div 1000000"
  assume "uuid_from_file (unique_filename os n) = uuid_from_file (unique_filename os' n')"
  then have "unat (of_nat ?a :: 32 word) = unat (of_nat ?b :: 32 word)"
    unfolding unique_filename_uid[OF assms(1)] unique_filename_uid[OF assms(2)] by (rule arg_cong)
  then have "?a mod 2 ^ 32 = ?b mod 2 ^ 32" by (simp only: unat_of_nat) simp
  then show "?a = ?b" by (simp only: mod_less[OF assms(1)] mod_less[OF assms(2)])
qed (simp only: unique_filename_uid[OF assms(1)] unique_filename_uid[OF assms(2)])

theorem delivered_uid_collision_witness:
  "uuid_from_file (unique_filename sample_os 5) = uuid_from_file (unique_filename (sample_os\<lparr>now_us := 1999999\<rparr>) 9)"
  using delivered_uid_collision[of sample_os "sample_os\<lparr>now_us := 1999999\<rparr>" 5 9] by (simp add: sample_os_def)

section \<open>What a mailbox contains\<close>

text \<open>The visible entries of one of the two directories of a mailbox.\<close>

definition entries :: "imap_env \<Rightarrow> file_system \<Rightarrow> string \<Rightarrow> string set" where
  "entries E fs dir = {f. (\<exists>ns. readdir E fs (path_of E dir) = Some ns \<and> f \<in> set ns) \<and> \<not> hidden f \<and>
     stat_size E fs (path_of E (dir @ ''/'' @ f)) \<noteq> None}"

definition place :: "message_meta \<Rightarrow> string \<times> bool" where
  "place m = (m_filename m, m_in_cur m)"

lemma load_entries_set:
  "place ` set (load_entries E fs dir c ms ns) = place ` set ms \<union>
   (\<lambda>f. (f, c)) ` {f \<in> set ns. \<not> hidden f \<and> stat_size E fs (path_of E (dir @ ''/'' @ f)) \<noteq> None}"
proof (induction ns arbitrary: ms)
  case (Cons f ns)
  let ?vis = "\<lambda>f. \<not> hidden f \<and> stat_size E fs (path_of E (dir @ ''/'' @ f)) \<noteq> None"
  have *: "{g \<in> set (f # ns). ?vis g} = (if ?vis f then {f} else {}) \<union> {g \<in> set ns. ?vis g}" by auto
  show ?case
  proof (cases "?vis f")
    case True
    then obtain sz where sz: "stat_size E fs (path_of E (dir @ ''/'' @ f)) = Some sz" by auto
    have "\<not> hidden f" using True ..
    then show ?thesis unfolding * if_P[OF True] load_entries.simps if_not_P[OF \<open>\<not> hidden f\<close>] sz option.case Cons.IH
      by (simp add: place_def Un_assoc del: append.simps)
  next
    case False
    then have "load_entries E fs dir c ms (f # ns) = load_entries E fs dir c ms ns" by auto
    then show ?thesis unfolding * if_not_P[OF False] by (simp add: Cons.IH)
  qed
qed simp

lemma load_dir_set:
  "place ` set (load_dir E fs base ms sub) = place ` set ms \<union> (\<lambda>f. (f, sub = ''cur'')) ` entries E fs (base @ ''/'' @ sub)"
proof (cases "readdir E fs (path_of E (base @ ''/'' @ sub))")
  case (Some ns)
  then have "entries E fs (base @ ''/'' @ sub) = {f \<in> set ns. \<not> hidden f \<and>
      stat_size E fs (path_of E ((base @ ''/'' @ sub) @ ''/'' @ f)) \<noteq> None}" by (auto simp: entries_def)
  with Some show ?thesis unfolding load_dir_def Let_def by (simp only: option.case load_entries_set)
qed (auto simp: load_dir_def entries_def)

lemma renumber_places: "place ` set (renumber i ms) = place ` set ms"
  by (induction ms arbitrary: i) (simp_all add: place_def)

text \<open>
  C33. Opening a mailbox lists it: the messages are exactly the visible files of its \<^verbatim>\<open>cur/\<close> and \<^verbatim>\<open>new/\<close>
  directories, each marked with the directory it is in.
\<close>

theorem load_mailbox_complete:
  assumes "\<And>ms. mset (sort_by_uuid E ms) = mset ms"
  shows "place ` set (fst (load_mailbox E fs u mb)) =
    (\<lambda>f. (f, True)) ` entries E fs (mailbox_base E u mb @ ''/cur'') \<union>
    (\<lambda>f. (f, False)) ` entries E fs (mailbox_base E u mb @ ''/new'')"
proof -
  have "set (sort_by_uuid E ms) = set ms" for ms using assms[of ms] by (rule mset_eq_setD)
  then show ?thesis
    by (simp add: load_mailbox_def Let_def renumber_places load_dir_set)
qed

text \<open>A mailbox \<^verbatim>\<open>/m/bob\<close> with one delivered message.\<close>

definition sample_imap :: imap_env where
  "sample_imap = \<lparr>mail_root = ''/m'', remote_ip = ''::1'', resolve_path = split_path, sys_at = (\<lambda>_. sample_os),
     readdir = (\<lambda>fs d. if d = [''m'', ''bob'', ''new''] then Some [''..'', ''9.x''] else None),
     stat_size = (\<lambda>fs p. map_option length (files fs p)), sort_by_uuid = sort_key m_uuid,
     strptime_mktime = (\<lambda>_. None), strftime_gmt = (\<lambda>_. []),
     base64 = \<lparr>bio_read = Some, bio_write = (\<lambda>s. s)\<rparr>, crypt = sample_crypto, can_reserve = (\<lambda>n. n < 1000)\<rparr>"

definition sample_mail :: file_system where
  "sample_mail = \<lparr>dirs = {}, files = [[''m'', ''bob'', ''new'', ''9.x''] \<mapsto> ''hello'']\<rparr>"

lemmas sample_imap_eval = sample_imap_def sample_mail_def mailbox_base_def path_of_def c_str_def split_path_def hidden_def

lemma sample_entries:
  "entries sample_imap sample_mail (mailbox_base sample_imap ''bob'' ''INBOX'' @ ''/cur'') = {}"
  "entries sample_imap sample_mail (mailbox_base sample_imap ''bob'' ''INBOX'' @ ''/new'') = {''9.x''}"
  by (auto simp: entries_def sample_imap_eval)

theorem load_mailbox_complete_witness:
  "place ` set (fst (load_mailbox sample_imap sample_mail ''bob'' ''INBOX'')) = {(''9.x'', False)}"
  by (subst load_mailbox_complete) (simp_all add: sample_entries, simp add: sample_imap_def)

lemma word_less_succ: "x \<noteq> - 1 \<Longrightarrow> x < x + (1 :: 32 word)"
proof -
  assume "x \<noteq> - 1"
  then have "1 + x \<noteq> 0" by (metis add.commute eq_neg_iff_add_eq_0)
  then show ?thesis by (simp add: word_less_nat_alt unatSuc add.commute[of x])
qed

lemma bump_mono: "n \<le> foldl bump n ms"
  by (induction ms arbitrary: n) (auto simp: bump_def intro: order_trans[OF max.cobounded1])

lemma bump_foldl: "m \<in> set ms \<Longrightarrow> m_uuid m \<noteq> - 1 \<Longrightarrow> m_uuid m < foldl bump n ms"
proof (induction ms arbitrary: n)
  case (Cons a ms)
  show ?case
  proof (cases "m = a")
    case True
    have "m_uuid a < m_uuid a + 1" using Cons.prems(2) True by (intro word_less_succ) simp
    also have "\<dots> \<le> bump n a" by (simp add: bump_def)
    also have "\<dots> \<le> foldl bump (bump n a) ms" by (rule bump_mono)
    finally show ?thesis using True by simp
  qed (use Cons in auto)
qed simp

text \<open>
  The predicted next identifier is larger than every identifier in the mailbox, except one
  that is already the largest 32-bit number (a file name that starts with 4294967295).
\<close>

theorem uidnext_above:
  assumes "m \<in> set (fst (load_mailbox E fs u mb))" "m_uuid m \<noteq> - 1"
  shows "m_uuid m < snd (load_mailbox E fs u mb)"
  using assms by (simp add: load_mailbox_def Let_def bump_foldl)

theorem uidnext_above_witness: "(9 :: 32 word) < snd (load_mailbox sample_imap sample_mail ''bob'' ''INBOX'')"
proof -
  let ?m = "\<lparr>m_uuid = 9, m_seq = 1, m_filename = ''9.x'', m_flags = [], m_size = 5, m_in_cur = False\<rparr>"
  have "?m \<in> set (fst (load_mailbox sample_imap sample_mail ''bob'' ''INBOX''))"
    by (simp add: load_mailbox_def load_dir_def sample_imap_eval uuid_from_file_def flags_from_file_def from_chars_def
        isdigit_def digits_val_def digit_val_def starts_with_def)
  from uidnext_above[OF this] show ?thesis by simp
qed

end
