(* ===== verification/Imap_Session.thy ===== *)
theory Imap_Session
  imports Imap_Mailbox
begin

text \<open>
  The IMAP session of \<^verbatim>\<open>src/imap/session.cpp\<close>. The record \<open>imap\<close> has the fields of
  \<^verbatim>\<open>IMAP::Session\<close>, the calls made on the event loop and the shared world; \<open>append_seq\<close> is the static
  counter of all sessions. Every command handler is one definition. \<^verbatim>\<open>reserve\<close> in \<^verbatim>\<open>APPEND\<close> is the one
  place that can raise an exception, so \<open>imap_process_line\<close> and \<open>imap_on_data\<close> return \<open>imap cpp\<close>.
  Logging is left out.
\<close>

datatype imap_state = NotAuthenticated | Authenticated | Selected | Logout

record imap =
  state :: imap_state
  line_buf :: string
  username :: string
  selected_mailbox :: string
  read_only :: bool
  auth_pending :: bool
  auth_tag :: string
  literal_pending :: bool
  literal_remaining :: nat
  literal_buf :: string
  append_tag :: string
  append_mailbox :: string
  append_flags :: string
  append_seq :: "32 word"
  messages :: "message_meta list"
  next_uuid :: "32 word"
  tls_upgrade_pending :: bool
  calls :: "loop_call list"
  wrld :: world

section \<open>Answers\<close>

definition send :: "string \<Rightarrow> imap \<Rightarrow> imap" where
  "send line s = s\<lparr>calls := calls s @ [Write (line @ crlf)]\<rparr>"

definition ok :: "string \<Rightarrow> string \<Rightarrow> imap \<Rightarrow> imap" where
  "ok tag msg = send (tag @ '' OK '' @ msg)"

definition no :: "string \<Rightarrow> string \<Rightarrow> imap \<Rightarrow> imap" where
  "no tag msg = send (tag @ '' NO '' @ msg)"

definition bad :: "string \<Rightarrow> string \<Rightarrow> imap \<Rightarrow> imap" where
  "bad tag msg = send (tag @ '' BAD '' @ msg)"

definition untagged :: "string \<Rightarrow> imap \<Rightarrow> imap" where
  "untagged data = send (''* '' @ data)"

definition imap_new :: "32 word \<Rightarrow> world \<Rightarrow> imap" where
  "imap_new n w = untagged ''OK [CAPABILITY IMAP4rev1 STARTTLS AUTH=PLAIN IDLE] JAMS IMAP server ready''
     \<lparr>state = NotAuthenticated, line_buf = [], username = [], selected_mailbox = [], read_only = False,
      auth_pending = False, auth_tag = [], literal_pending = False, literal_remaining = 0, literal_buf = [],
      append_tag = [], append_mailbox = [], append_flags = [], append_seq = n, messages = [], next_uuid = 1,
      tls_upgrade_pending = False, calls = [], wrld = w\<rparr>"

section \<open>Folders\<close>

definition ensure_mailbox_dirs :: "imap_env \<Rightarrow> string \<Rightarrow> imap \<Rightarrow> imap" where
  "ensure_mailbox_dirs E mailbox s =
     (let base = mailbox_base E (username s) mailbox
      in s\<lparr>wrld := foldl (\<lambda>w d. sys_mkdir E d w) (wrld s)
             (base # map (\<lambda>sub. base @ ''/'' @ sub) [''cur'', ''new'', ''tmp''])\<rparr>)"

definition ensure_standard_folders :: "imap_env \<Rightarrow> imap \<Rightarrow> imap" where
  "ensure_standard_folders E s = foldl (\<lambda>s f. ensure_mailbox_dirs E f s) s [''Sent'', ''Drafts'', ''Junk'', ''Trash'']"

definition incorporate_new :: "imap_env \<Rightarrow> imap \<Rightarrow> imap" where
  "incorporate_new E s =
     (case readdir E (w_fs (wrld s)) (path_of E (mail_root E @ ''/'' @ username s @ ''/new'')) of
        None \<Rightarrow> s
      | Some ns \<Rightarrow> (case foldl (incorporate_entry E (username s)) (messages s, next_uuid s, wrld s) ns of
            (ms, nx, w) \<Rightarrow> s\<lparr>messages := ms, next_uuid := nx, wrld := w\<rparr>))"

definition unquote :: "string \<Rightarrow> string" where
  "unquote t = (if length t \<ge> 2 \<and> hd t = DQ \<and> last t = DQ then take (length t - 2) (drop 1 t) else t)"

definition before_at :: "string \<Rightarrow> string" where
  "before_at user = (case find_ch CHR ''@'' user of None \<Rightarrow> user | Some at \<Rightarrow> take at user)"

section \<open>Commands of every state\<close>

definition cmd_capability :: "string \<Rightarrow> imap \<Rightarrow> imap" where
  "cmd_capability tag s = ok tag ''CAPABILITY completed''
     (untagged ''CAPABILITY IMAP4rev1 STARTTLS AUTH=PLAIN LITERAL+ SASL-IR'' s)"

definition imap_noop :: "imap_env \<Rightarrow> string \<Rightarrow> imap \<Rightarrow> imap" where
  "imap_noop E tag s = ok tag ''NOOP completed'' (if state s = Selected then incorporate_new E s else s)"

definition cmd_logout :: "string \<Rightarrow> imap \<Rightarrow> imap" where
  "cmd_logout tag s =
     (let s1 = (ok tag ''LOGOUT completed'' (untagged ''BYE JAMS IMAP server logging out'' s))\<lparr>state := Logout\<rparr>
      in s1\<lparr>calls := calls s1 @ [Close]\<rparr>)"

definition imap_starttls :: "string \<Rightarrow> imap \<Rightarrow> imap" where
  "imap_starttls tag s =
     (if tls_upgrade_pending s then bad tag ''TLS already pending'' s
      else let s1 = (ok tag ''Begin TLS negotiation'' s)\<lparr>tls_upgrade_pending := True\<rparr>
        in s1\<lparr>calls := calls s1 @ [Upgrade_TLS]\<rparr>)"

section \<open>Authentication\<close>

definition imap_verify :: "imap_env \<Rightarrow> imap \<Rightarrow> string \<Rightarrow> string \<Rightarrow> bool" where
  "imap_verify E s user pass = fst (verify (crypt E) (w_db (wrld s)) user pass (remote_ip E))"

definition cmd_login :: "imap_env \<Rightarrow> string \<Rightarrow> string \<Rightarrow> imap \<Rightarrow> imap" where
  "cmd_login E tag args s =
     (case next_token args of (t1, r1) \<Rightarrow> (case next_token r1 of (t2, r2) \<Rightarrow>
        let user = before_at (unquote t1); pass = unquote t2
        in if user = [] \<or> pass = [] then bad tag ''LOGIN requres username and password'' s
           else if \<not> imap_verify E s user pass then no tag ''[AUTHENTICATIONFAILED] Invalid credentials'' s
           else ok tag ''[CAPABILITY IMAP4rev1] LOGIN completed''
                  (ensure_standard_folders E (s\<lparr>username := user, state := Authenticated\<rparr>))))"

definition plain_decode :: "imap_env \<Rightarrow> string \<Rightarrow> string" where
  "plain_decode E b64 = (case bio_read (base64 E) b64 of None \<Rightarrow> [] | Some r \<Rightarrow> r)"

definition complete_plain_auth :: "imap_env \<Rightarrow> string \<Rightarrow> string \<Rightarrow> imap \<Rightarrow> imap" where
  "complete_plain_auth E tag b64 s =
     (case split_plain (plain_decode E b64) of
        None \<Rightarrow> bad tag ''Malformed PLAIN credentials'' s
      | Some (user0, pass) \<Rightarrow>
          let user = before_at user0
          in if \<not> imap_verify E s user pass then no tag ''[AUTHENTICATIONFAILED] Invalid credentials'' s
             else ok tag ''[CAPABILITY IMAP4rev1] Authentication successful''
                    (s\<lparr>username := user, state := Authenticated\<rparr>))"

definition cmd_auth :: "imap_env \<Rightarrow> string \<Rightarrow> string \<Rightarrow> imap \<Rightarrow> imap" where
  "cmd_auth E tag args s =
     (case next_token args of (t1, r1) \<Rightarrow> (case next_token r1 of (initial_response, r2) \<Rightarrow>
        if upper t1 \<noteq> ''PLAIN'' then no tag ''Unsupported authentication mechanism'' s
        else if initial_response = [] then (send ''+ '' s)\<lparr>auth_pending := True, auth_tag := tag\<rparr>
        else complete_plain_auth E tag initial_response s))"

section \<open>Mailbox commands\<close>

definition cmd_select :: "imap_env \<Rightarrow> string \<Rightarrow> string \<Rightarrow> bool \<Rightarrow> imap \<Rightarrow> imap" where
  "cmd_select E tag mailbox ro s =
     (let mbox0 = unquote mailbox in
      if mbox0 = [] then bad tag ''SELECT requires a mailbox name'' s
      else
        let mbox = (if upper mbox0 = ''INBOX'' then ''INBOX'' else mbox0)
        in (case load_mailbox E (w_fs (wrld s)) (username s) mbox of (ms, nx) \<Rightarrow>
              let s1 = s\<lparr>messages := ms, next_uuid := nx, selected_mailbox := mbox, read_only := ro, state := Selected\<rparr>;
                  s2 = foldl (\<lambda>s l. untagged l s) s1
                    [dec (length ms) @ '' EXISTS'', ''0 RECENT'',
                     ''FLAGS ('' @ Answered @ '' '' @ Flagged @ '' '' @ Deleted @ '' '' @ Seen @ '' '' @ Draft @ '')'',
                     ''OK [PERMANENTFLAGS ('' @ Answered @ '' '' @ Flagged @ '' '' @ Deleted @ '' '' @ Seen @ '' '' @ Draft
                       @ '' '' @ [BS] @ ''*)] Permanent flags'',
                     ''OK [UIDVALIDITY '' @ dec 0x4A414D53 @ ''] UIDs valid'',
                     ''OK [UIDNEXT '' @ dec (unat nx) @ ''] Next UID'']
              in if ro then ok tag ''[READ-ONLY] EXAMINE completed'' s2 else ok tag ''[READ-WRITE] SELECT completed'' s2))"

definition cmd_create :: "imap_env \<Rightarrow> string \<Rightarrow> string \<Rightarrow> imap \<Rightarrow> imap" where
  "cmd_create E tag args s =
     (let mbox = unquote args in
      if mbox = [] \<or> mbox = ''INBOX'' then no tag ''Cannot create that mailbox'' s
      else ok tag ''CREATE completed'' (ensure_mailbox_dirs E mbox s))"

definition list_line :: "string \<Rightarrow> string \<Rightarrow> string \<Rightarrow> string" where
  "list_line cmd attr mbox = cmd @ '' ('' @ [BS] @ ''HasNoChildren'' @ attr @ '') '' @ dq ''/'' @ '' '' @ dq mbox"

definition sub_folders :: "string list \<Rightarrow> string list" where
  "sub_folders ns = filter (\<lambda>mbox. mbox \<notin> {''cur'', ''new'', ''tmp'', ''Sent'', ''Drafts'', ''Junk'', ''Trash''})
     (map (drop 1) (filter (\<lambda>name. \<not> (length name < 2 \<or> name ! 0 \<noteq> CHR ''.'' \<or> name ! 1 = CHR ''.'')) ns))"

text \<open>\<^verbatim>\<open>cmd_list\<close> and \<^verbatim>\<open>cmd_lsub\<close> are the same function but for the keyword.\<close>

definition list_folders :: "string \<Rightarrow> imap_env \<Rightarrow> string \<Rightarrow> imap \<Rightarrow> imap" where
  "list_folders cmd E tag s =
     (let s1 = foldl (\<lambda>s l. untagged l s) s
            (list_line cmd [] ''INBOX'' # map (\<lambda>f. list_line cmd ('' '' @ BS # f) f) [''Sent'', ''Drafts'', ''Junk'', ''Trash'']);
          s2 = (case readdir E (w_fs (wrld s)) (path_of E (mail_root E @ ''/'' @ username s)) of None \<Rightarrow> s1
                | Some ns \<Rightarrow> foldl (\<lambda>s mbox. untagged (list_line cmd [] mbox) s) s1 (sub_folders ns))
      in ok tag (cmd @ '' completed'') s2)"

definition cmd_list :: "imap_env \<Rightarrow> string \<Rightarrow> imap \<Rightarrow> imap" where
  "cmd_list = list_folders ''LIST''"

definition cmd_lsub :: "imap_env \<Rightarrow> string \<Rightarrow> imap \<Rightarrow> imap" where
  "cmd_lsub = list_folders ''LSUB''"

text \<open>\<^verbatim>\<open>cmd_status\<close> counts the messages of the selected mailbox, whatever mailbox is named.\<close>

definition cmd_status :: "string \<Rightarrow> string \<Rightarrow> imap \<Rightarrow> imap" where
  "cmd_status tag args s =
     (let mbox = fst (next_token args); unseen = length (filter (\<lambda>m. \<not> has_sub Seen (m_flags m)) (messages s))
      in ok tag ''STATUS completed''
           (untagged (''STATUS '' @ mbox @ '' (MESSAGES '' @ dec (length (messages s)) @ '' UNSEEN '' @ dec unseen
              @ '' UIDNEXT '' @ dec (unat (next_uuid s)) @ '')'') s))"

definition cmd_uid_search :: "imap_env \<Rightarrow> string \<Rightarrow> string \<Rightarrow> imap \<Rightarrow> imap" where
  "cmd_uid_search E tag args s =
     (let uids = map m_uuid (messages s);
          results = (case find_sub ''SINCE '' (upper args) of
              None \<Rightarrow> uids
            | Some pos \<Rightarrow>
                let date_str = rev (dropWhile isspace (rev (dropWhile isspace (drop (pos + 6) args))))
                in (case strptime_mktime E (c_str date_str) of None \<Rightarrow> []
                    | Some since_t \<Rightarrow> filter (\<lambda>u. uint u \<ge> since_t) uids))
      in ok tag ''UID SEARCH completed''
           (untagged (''SEARCH'' @ concat (map (\<lambda>u. '' '' @ dec (unat u)) results)) s))"

section \<open>Messages\<close>

definition seq_index :: "message_meta list \<Rightarrow> 32 word \<Rightarrow> nat option" where
  "seq_index ms n = find (\<lambda>i. m_seq (ms ! i) = n) [0..<length ms]"

definition set_flags :: "nat \<Rightarrow> string \<Rightarrow> imap \<Rightarrow> imap" where
  "set_flags i fl s = s\<lparr>messages := (messages s)[i := (messages s ! i)\<lparr>m_flags := fl\<rparr>]\<rparr>"

text \<open>\<^verbatim>\<open>BODY[]\<close> without \<^verbatim>\<open>.PEEK\<close> marks a message as seen, in memory only.\<close>

definition fetch_one :: "imap_env \<Rightarrow> string \<Rightarrow> imap \<Rightarrow> 32 word \<Rightarrow> imap" where
  "fetch_one E items s n =
     (case seq_index (messages s) n of
        None \<Rightarrow> s
      | Some i \<Rightarrow>
          let m = messages s ! i;
              s1 = untagged (fetch_message E (wrld s) (username s) (selected_mailbox s) m items) s
          in if has_sub ''BODY['' (upper items) \<and> \<not> has_sub ''.PEEK'' (upper items) \<and> \<not> read_only s
                \<and> \<not> has_sub Seen (m_flags m)
             then set_flags i (m_flags m @ '' '' @ Seen) s1 else s1)"

definition cmd_fetch :: "imap_env \<Rightarrow> string \<Rightarrow> string \<Rightarrow> imap \<Rightarrow> imap" where
  "cmd_fetch E tag args s =
     (case find_ch CHR '' '' args of
        None \<Rightarrow> bad tag ''FETCH requires sequence-set and items'' s
      | Some sp \<Rightarrow>
          ok tag ''FETCH completed''
            (foldl (fetch_one E (drop (sp + 1) args)) s (parse_sequence_set (messages s) (take sp args))))"

text \<open>
  The \<^verbatim>\<open>trim\<close> of \<^verbatim>\<open>cmd_store\<close>: the count \<^verbatim>\<open>b - a + 1\<close> is computed in \<^verbatim>\<open>size_t\<close>, with \<^verbatim>\<open>npos\<close> as the largest
  value, so a string without a last character to keep is cut at \<^verbatim>\<open>a\<close> only.
\<close>

definition store_trim :: "string \<Rightarrow> string" where
  "store_trim t = (case find_first_not_of [CHR '' '', TAB, CHR ''(''] t of
      None \<Rightarrow> []
    | Some a \<Rightarrow>
        let b = (case find_last_not_of [CHR '' '', TAB, CHR '')''] t of None \<Rightarrow> - 1 | Some b \<Rightarrow> of_nat b) :: 64 word
        in take (unat (b - of_nat a + 1)) (drop a t))"

definition apply_flags :: "string \<Rightarrow> string \<Rightarrow> string \<Rightarrow> string" where
  "apply_flags up flags_str fl =
     (if up = ''FLAGS'' \<or> up = ''FLAGS.SILENT'' then flags_str
      else if up = ''+FLAGS'' \<or> up = ''+FLAGS.SILENT''
      then if has_sub flags_str fl then fl else fl @ (if fl = [] then [] else '' '') @ flags_str
      else if up = ''-FLAGS'' \<or> up = ''-FLAGS.SILENT''
      then (case find_sub flags_str fl of None \<Rightarrow> fl | Some pos \<Rightarrow> take pos fl @ drop (pos + length flags_str) fl)
      else fl)"

text \<open>The name on disk follows the flags; when the rename fails the old name stays.\<close>

definition persist_flags :: "imap_env \<Rightarrow> nat \<Rightarrow> imap \<Rightarrow> imap" where
  "persist_flags E i s =
     (let m = messages s ! i; new_name = flagged_name (base_name (m_filename m)) (m_flags m) in
      if new_name = m_filename m then s
      else (case sys_rename E (message_path E (username s) (selected_mailbox s) m)
                   (message_path E (username s) (selected_mailbox s) (m\<lparr>m_filename := new_name\<rparr>)) (wrld s) of
              (False, w) \<Rightarrow> s\<lparr>wrld := w\<rparr>
            | (True, w) \<Rightarrow> s\<lparr>wrld := w, messages := (messages s)[i := m\<lparr>m_filename := new_name\<rparr>]\<rparr>))"

definition store_one :: "imap_env \<Rightarrow> string \<Rightarrow> string \<Rightarrow> imap \<Rightarrow> 32 word \<Rightarrow> imap" where
  "store_one E up flags_str s n =
     (case seq_index (messages s) n of
        None \<Rightarrow> s
      | Some i \<Rightarrow>
          let fl = apply_flags up flags_str (m_flags (messages s ! i));
              s1 = persist_flags E i (set_flags i fl s)
          in if has_sub ''.SILENT'' up then s1
             else untagged (dec (unat n) @ '' FETCH (FLAGS ('' @ fl @ ''))'') s1)"

definition cmd_store :: "imap_env \<Rightarrow> string \<Rightarrow> string \<Rightarrow> imap \<Rightarrow> imap" where
  "cmd_store E tag args s =
     (if read_only s then no tag ''[READ-ONLY] Mailbox is read-only'' s
      else (case next_token args of (seq_str, r1) \<Rightarrow> (case next_token r1 of (action, r2) \<Rightarrow>
        ok tag ''STORE completed''
          (foldl (store_one E (upper action) (store_trim (rest_line r2))) s (parse_sequence_set (messages s) seq_str)))))"

text \<open>The loop of \<^verbatim>\<open>EXPUNGE\<close>: \<open>n\<close> is the number of messages kept so far.\<close>

fun expunge_loop :: "imap_env \<Rightarrow> nat \<Rightarrow> message_meta list \<Rightarrow> imap \<Rightarrow> message_meta list \<times> imap" where
  "expunge_loop E n [] s = ([], s)"
| "expunge_loop E n (m # ms) s =
     (if has_sub Deleted (m_flags m)
      then expunge_loop E n ms (untagged (dec (n + 1) @ '' EXPUNGE'')
             (s\<lparr>wrld := sys_unlink E (message_path E (username s) (selected_mailbox s) m) (wrld s)\<rparr>))
      else (case expunge_loop E (n + 1) ms s of (ms', s') \<Rightarrow> (m # ms', s')))"

definition cmd_expunge :: "imap_env \<Rightarrow> string \<Rightarrow> imap \<Rightarrow> imap" where
  "cmd_expunge E tag s =
     (if read_only s then no tag ''[READ-ONLY] Mailbox is read-only'' s
      else (case expunge_loop E 0 (messages s) s of
              (remaining, s1) \<Rightarrow> ok tag ''EXPUNGE completed'' (s1\<lparr>messages := renumber 0 remaining\<rparr>)))"

definition cmd_check :: "imap_env \<Rightarrow> string \<Rightarrow> imap \<Rightarrow> imap" where
  "cmd_check E tag s = ok tag ''CHECK completed'' (incorporate_new E s)"

definition cmd_close :: "imap_env \<Rightarrow> string \<Rightarrow> imap \<Rightarrow> imap" where
  "cmd_close E tag s =
     (let w = (if read_only s then wrld s
               else foldl (\<lambda>w m. if has_sub Deleted (m_flags m)
                                then sys_unlink E (message_path E (username s) (selected_mailbox s) m) w else w)
                      (wrld s) (messages s))
      in ok tag ''CLOSE completed'' (s\<lparr>wrld := w, messages := [], selected_mailbox := [], state := Authenticated\<rparr>))"

section \<open>APPEND\<close>

definition trim_ws :: "string \<Rightarrow> string" where
  "trim_ws ws = dropWhile (\<lambda>c. c = CHR '' '') ws"

text \<open>The mailbox name and the rest of the arguments; \<open>None\<close> for an unterminated quoted name.\<close>

definition append_target :: "string \<Rightarrow> (string \<times> string) option" where
  "append_target args =
     (if args \<noteq> [] \<and> hd args = DQ
      then (case find_ch DQ (drop 1 args) of None \<Rightarrow> None
            | Some n \<Rightarrow> Some (take n (drop 1 args), drop (n + 2) args))
      else (case find_ch CHR '' '' args of None \<Rightarrow> Some (args, [])
            | Some sp \<Rightarrow> Some (take sp args, drop sp args)))"

definition append_opts :: "string \<Rightarrow> string \<times> string" where
  "append_opts rest0 =
     (let rest1 = trim_ws rest0;
          (flags, rest2) = (if rest1 \<noteq> [] \<and> hd rest1 = CHR ''('' then
              (case find_ch CHR '')'' rest1 of None \<Rightarrow> ([], rest1)
               | Some close \<Rightarrow> (take (close - 1) (drop 1 rest1), trim_ws (drop (close + 1) rest1)))
            else ([], rest1));
          rest3 = (if rest2 \<noteq> [] \<and> hd rest2 = DQ then
              (case find_ch DQ (drop 1 rest2) of None \<Rightarrow> rest2 | Some n \<Rightarrow> trim_ws (drop (n + 2) rest2))
            else rest2)
      in (flags, rest3))"

definition literal_size :: "string \<Rightarrow> nat option" where
  "literal_size rest =
     (let inner = take (length rest - 2) (drop 1 rest);
          digits = (if inner \<noteq> [] \<and> last inner = CHR ''+'' then butlast inner else inner)
      in from_chars 64 digits)"

definition cmd_append :: "imap_env \<Rightarrow> string \<Rightarrow> string \<Rightarrow> imap \<Rightarrow> imap cpp" where
  "cmd_append E tag args s =
     (case append_target args of
        None \<Rightarrow> Inr (bad tag ''Unterminated mailbox name'' s)
      | Some (mbox, rest0) \<Rightarrow>
          if mbox = [] then Inr (bad tag ''APPEND requires a mailbox name'' s)
          else (case append_opts rest0 of (flags, rest) \<Rightarrow>
            if rest = [] \<or> hd rest \<noteq> CHR ''{'' \<or> last rest \<noteq> CHR ''}''
            then Inr (bad tag ''APPEND literal size missing'' s)
            else (case literal_size rest of
                    None \<Rightarrow> Inr (bad tag ''Bad literal size'' s)
                  | Some sz \<Rightarrow>
                      if sz > 2 ^ 63 - 1 then Inl Length_error
                      else if \<not> can_reserve E sz then Inl Bad_alloc
                      else Inr (send ''+ Ready for literal data''
                             ((ensure_mailbox_dirs E mbox s)
                                \<lparr>append_tag := tag, append_mailbox := mbox, append_flags := flags, literal_buf := [],
                                 literal_remaining := sz, literal_pending := True\<rparr>)))))"

definition append_name :: "os_env \<Rightarrow> imap \<Rightarrow> string" where
  "append_name os s = flagged_name
     (dec (now_us os div 1000000) @ ''.'' @ dec (pid os) @ ''.'' @ dec (unat (append_seq s)) @ ''.jams_append'') (append_flags s)"

definition complete_append :: "imap_env \<Rightarrow> imap \<Rightarrow> imap" where
  "complete_append E s0 =
     (let fname = append_name (sys_at E (w_tick (wrld s0))) s0;
          s = ensure_mailbox_dirs E (append_mailbox s0)
                (s0\<lparr>append_seq := append_seq s0 + 1, wrld := (wrld s0)\<lparr>w_tick := w_tick (wrld s0) + 1\<rparr>\<rparr>);
          p = path_of E (mailbox_base E (username s) (append_mailbox s) @ ''/cur/'' @ fname);
          w = wrld s; os = sys_at E (w_tick w)
      in if \<not> open_ok os p then no (append_tag s) ''APPEND failed: could not write message'' s
         else ok (append_tag s) ''APPEND completed''
                (s\<lparr>wrld := w\<lparr>w_tick := w_tick w + 1,
                              w_fs := (w_fs w)\<lparr>files := (files (w_fs w))(p \<mapsto> on_disk os (literal_buf s))\<rparr>\<rparr>\<rparr>))"

section \<open>Dispatch\<close>

definition strip_blank :: "string \<Rightarrow> string" where
  "strip_blank args = (if args \<noteq> [] \<and> hd args = CHR '' '' then drop 1 args else args)"

definition cmd_uid :: "imap_env \<Rightarrow> string \<Rightarrow> string \<Rightarrow> imap \<Rightarrow> imap" where
  "cmd_uid E tag args s =
     (case next_token args of (t, r) \<Rightarrow>
        let uid_cmd = upper t; uid_args = strip_blank (rest_line r)
        in if uid_cmd = ''FETCH'' then cmd_fetch E tag uid_args s
           else if uid_cmd = ''SEARCH'' then cmd_uid_search E tag uid_args s
           else if uid_cmd = ''STORE'' then cmd_store E tag uid_args s
           else bad tag ''Unknown UID command'' s)"

definition not_authenticated :: "imap_env \<Rightarrow> string \<Rightarrow> string \<Rightarrow> string \<Rightarrow> imap \<Rightarrow> imap" where
  "not_authenticated E tag command args s =
     (if command = ''STARTTLS'' then imap_starttls tag s
      else if command = ''LOGIN'' then cmd_login E tag args s
      else if command = ''AUTHENTICATE'' then cmd_auth E tag args s
      else no tag ''Not authenticated'' s)"

definition selected_command :: "imap_env \<Rightarrow> string \<Rightarrow> string \<Rightarrow> string \<Rightarrow> imap \<Rightarrow> imap" where
  "selected_command E tag command args s =
     (if state s = Selected then
        if command = ''FETCH'' then cmd_fetch E tag args s
        else if command = ''STORE'' then cmd_store E tag args s
        else if command = ''EXPUNGE'' then cmd_expunge E tag s
        else if command = ''CHECK'' then cmd_check E tag s
        else if command = ''CLOSE'' then cmd_close E tag s
        else bad tag ''Command not recognised in current state'' s
      else bad tag ''Command not recognised in current state'' s)"

definition dispatch :: "imap_env \<Rightarrow> string \<Rightarrow> string \<Rightarrow> string \<Rightarrow> imap \<Rightarrow> imap cpp" where
  "dispatch E tag command args s =
     (if command = ''CAPABILITY'' then Inr (cmd_capability tag s)
      else if command = ''NOOP'' then Inr (imap_noop E tag s)
      else if command = ''LOGOUT'' then Inr (cmd_logout tag s)
      else if state s = NotAuthenticated then Inr (not_authenticated E tag command args s)
      else if state s = Authenticated \<or> state s = Selected then
        if command = ''SELECT'' then Inr (cmd_select E tag args False s)
        else if command = ''EXAMINE'' then Inr (cmd_select E tag args True s)
        else if command = ''LIST'' then Inr (cmd_list E tag s)
        else if command = ''LSUB'' then Inr (cmd_lsub E tag s)
        else if command = ''STATUS'' then Inr (cmd_status tag args s)
        else if command = ''APPEND'' then cmd_append E tag args s
        else if command = ''CREATE'' then Inr (cmd_create E tag args s)
        else if command = ''SUBSCRIBE'' \<or> command = ''UNSUBSCRIBE'' then Inr (ok tag (command @ '' completed'') s)
        else if command = ''UID'' then Inr (cmd_uid E tag args s)
        else Inr (selected_command E tag command args s)
      else Inr (selected_command E tag command args s))"

definition imap_process_line :: "imap_env \<Rightarrow> string \<Rightarrow> imap \<Rightarrow> imap cpp" where
  "imap_process_line E line s =
     (if line = [] then Inr s
      else if auth_pending s then Inr (complete_plain_auth E (auth_tag s) line (s\<lparr>auth_pending := False\<rparr>))
      else (case next_token line of (tag, r1) \<Rightarrow> (case next_token r1 of (command, r2) \<Rightarrow>
              dispatch E tag (upper command) (strip_blank (rest_line r2)) s)))"

section \<open>The byte loop\<close>

text \<open>Bytes of a pending literal are moved to its buffer; the rest is left.\<close>

definition drain :: "imap_env \<Rightarrow> imap \<Rightarrow> string \<Rightarrow> imap \<times> string" where
  "drain E s bs =
     (if literal_pending s \<and> literal_remaining s > 0 then
        let n = min (length bs) (literal_remaining s);
            s1 = s\<lparr>literal_buf := literal_buf s @ take n bs, literal_remaining := literal_remaining s - n\<rparr>
        in (if literal_remaining s1 = 0 then complete_append E (s1\<lparr>literal_pending := False\<rparr>) else s1, drop n bs)
      else (s, bs))"

definition line_byte :: "char \<Rightarrow> imap \<Rightarrow> imap" where
  "line_byte b s =
     (let s1 = s\<lparr>line_buf := line_buf s @ [b]\<rparr>
      in if length (line_buf s1) > 8192 then (bad ''*'' ''Line too long'' s1)\<lparr>line_buf := []\<rparr> else s1)"

definition end_line :: "imap_env \<Rightarrow> imap \<Rightarrow> imap cpp" where
  "end_line E s =
     (case imap_process_line E (strip_cr (line_buf s)) (s\<lparr>line_buf := strip_cr (line_buf s)\<rparr>) of
        Inl e \<Rightarrow> Inl e | Inr s1 \<Rightarrow> Inr (s1\<lparr>line_buf := []\<rparr>))"

lemma drain_length: "length (snd (drain E s bs)) \<le> length bs"
  by (simp add: drain_def Let_def)

function imap_bytes :: "imap_env \<Rightarrow> imap \<Rightarrow> string \<Rightarrow> imap cpp" where
  "imap_bytes E s [] = Inr s"
| "imap_bytes E s (b # bs) =
     (if b = LF then
        (case end_line E s of
           Inl e \<Rightarrow> Inl e
         | Inr s1 \<Rightarrow>
             if tls_upgrade_pending s1 then Inr (s1\<lparr>tls_upgrade_pending := False\<rparr>)
             else imap_bytes E (fst (drain E s1 bs)) (snd (drain E s1 bs)))
      else imap_bytes E (line_byte b s) bs)"
  by pat_completeness auto
termination
  by (relation "measure (\<lambda>(E, s, bs). length bs)") (auto simp: less_Suc_eq_le drain_length split_beta)

definition imap_on_data :: "imap_env \<Rightarrow> imap \<Rightarrow> string \<Rightarrow> imap cpp" where
  "imap_on_data E s bs = (case drain E s bs of (s1, r) \<Rightarrow> imap_bytes E s1 r)"

section \<open>What the helpers leave alone\<close>

lemma send_fields [simp]:
  "state (send l s) = state s" "line_buf (send l s) = line_buf s" "username (send l s) = username s"
  "selected_mailbox (send l s) = selected_mailbox s" "read_only (send l s) = read_only s" "auth_pending (send l s) = auth_pending s"
  "auth_tag (send l s) = auth_tag s" "literal_pending (send l s) = literal_pending s" "literal_remaining (send l s) = literal_remaining s"
  "literal_buf (send l s) = literal_buf s" "append_tag (send l s) = append_tag s" "append_mailbox (send l s) = append_mailbox s"
  "append_flags (send l s) = append_flags s" "append_seq (send l s) = append_seq s" "messages (send l s) = messages s"
  "next_uuid (send l s) = next_uuid s" "tls_upgrade_pending (send l s) = tls_upgrade_pending s" "wrld (send l s) = wrld s"
  by (simp_all add: send_def)

lemmas answers = ok_def no_def bad_def untagged_def

lemma ensure_dirs_fields [simp]:
  "state (ensure_mailbox_dirs E mb s) = state s" "line_buf (ensure_mailbox_dirs E mb s) = line_buf s"
  "username (ensure_mailbox_dirs E mb s) = username s" "selected_mailbox (ensure_mailbox_dirs E mb s) = selected_mailbox s"
  "read_only (ensure_mailbox_dirs E mb s) = read_only s" "auth_pending (ensure_mailbox_dirs E mb s) = auth_pending s"
  "auth_tag (ensure_mailbox_dirs E mb s) = auth_tag s" "literal_pending (ensure_mailbox_dirs E mb s) = literal_pending s"
  "literal_remaining (ensure_mailbox_dirs E mb s) = literal_remaining s" "literal_buf (ensure_mailbox_dirs E mb s) = literal_buf s"
  "append_tag (ensure_mailbox_dirs E mb s) = append_tag s" "append_mailbox (ensure_mailbox_dirs E mb s) = append_mailbox s"
  "append_flags (ensure_mailbox_dirs E mb s) = append_flags s" "append_seq (ensure_mailbox_dirs E mb s) = append_seq s"
  "messages (ensure_mailbox_dirs E mb s) = messages s" "next_uuid (ensure_mailbox_dirs E mb s) = next_uuid s"
  "tls_upgrade_pending (ensure_mailbox_dirs E mb s) = tls_upgrade_pending s" "calls (ensure_mailbox_dirs E mb s) = calls s"
  by (simp_all add: ensure_mailbox_dirs_def Let_def)

lemma sys_mkdir_keeps [simp]: "w_db (sys_mkdir E d w) = w_db w" "files (w_fs (sys_mkdir E d w)) = files (w_fs w)"
  by (simp_all add: sys_mkdir_def Let_def)

lemma mkdirs_keep: "w_db (foldl (\<lambda>w d. sys_mkdir E d w) w ds) = w_db w"
  "files (w_fs (foldl (\<lambda>w d. sys_mkdir E d w) w ds)) = files (w_fs w)"
  by (induction ds arbitrary: w) simp_all

lemma ensure_dirs_world [simp]: "w_db (wrld (ensure_mailbox_dirs E mb s)) = w_db (wrld s)"
  "files (w_fs (wrld (ensure_mailbox_dirs E mb s))) = files (w_fs (wrld s))"
  by (simp_all add: ensure_mailbox_dirs_def Let_def mkdirs_keep del: foldl.simps list.map)

lemma complete_append_fields [simp]:
  "state (complete_append E s) = state s" "line_buf (complete_append E s) = line_buf s"
  "username (complete_append E s) = username s" "messages (complete_append E s) = messages s"
  "selected_mailbox (complete_append E s) = selected_mailbox s" "read_only (complete_append E s) = read_only s"
  "auth_pending (complete_append E s) = auth_pending s" "literal_pending (complete_append E s) = literal_pending s"
  "literal_remaining (complete_append E s) = literal_remaining s" "literal_buf (complete_append E s) = literal_buf s"
  "tls_upgrade_pending (complete_append E s) = tls_upgrade_pending s"
  "w_db (wrld (complete_append E s)) = w_db (wrld s)"
  by (simp_all add: complete_append_def Let_def answers)

lemma line_byte_fields [simp]:
  "state (line_byte b s) = state s" "username (line_byte b s) = username s" "messages (line_byte b s) = messages s"
  "auth_pending (line_byte b s) = auth_pending s" "literal_pending (line_byte b s) = literal_pending s"
  "literal_remaining (line_byte b s) = literal_remaining s"
  "tls_upgrade_pending (line_byte b s) = tls_upgrade_pending s" "wrld (line_byte b s) = wrld s"
  by (simp_all add: line_byte_def Let_def answers)

section \<open>The byte loop against a machine that reads one byte\<close>

definition in_literal :: "imap \<Rightarrow> bool" where
  "in_literal s \<longleftrightarrow> literal_pending s \<and> literal_remaining s > 0"

definition imap_byte :: "imap_env \<Rightarrow> imap \<Rightarrow> char \<Rightarrow> imap cpp" where
  "imap_byte E s b =
     (if in_literal s then
        let s1 = s\<lparr>literal_buf := literal_buf s @ [b], literal_remaining := literal_remaining s - 1\<rparr>
        in Inr (if literal_remaining s1 = 0 then complete_append E (s1\<lparr>literal_pending := False\<rparr>) else s1)
      else if b = LF then end_line E s
      else Inr (line_byte b s))"

fun run_bytes :: "imap_env \<Rightarrow> imap \<Rightarrow> string \<Rightarrow> imap cpp" where
  "run_bytes E s [] = Inr s"
| "run_bytes E s (b # bs) =
     (case imap_byte E s b of Inl e \<Rightarrow> Inl e
      | Inr s1 \<Rightarrow> if tls_upgrade_pending s1 then Inr (s1\<lparr>tls_upgrade_pending := False\<rparr>) else run_bytes E s1 bs)"

lemma drain_tls [simp]: "tls_upgrade_pending (fst (drain E s bs)) = tls_upgrade_pending s"
  by (simp add: drain_def Let_def)

lemma drain_inactive: "\<not> in_literal s \<Longrightarrow> drain E s bs = (s, bs)"
  by (auto simp: drain_def in_literal_def)

lemma drain_left: "in_literal (fst (drain E s bs)) \<Longrightarrow> snd (drain E s bs) = []"
  by (auto simp: drain_def in_literal_def Let_def split: if_splits)

lemma drain_step:
  assumes "in_literal s"
  shows "drain E s (b # bs) = (case imap_byte E s b of Inr s1 \<Rightarrow> drain E s1 bs)"
proof (cases "literal_remaining s")
  case (Suc n)
  with assms show ?thesis
    by (cases n) (simp_all add: drain_def imap_byte_def in_literal_def Let_def)
qed (use assms in \<open>simp add: in_literal_def\<close>)

lemma run_drain:
  "\<not> tls_upgrade_pending s \<Longrightarrow> run_bytes E s bs = run_bytes E (fst (drain E s bs)) (snd (drain E s bs))"
proof (induction bs arbitrary: s)
  case Nil
  then show ?case by (auto simp: drain_def in_literal_def Let_def split: if_splits)
next
  case (Cons b bs)
  show ?case
  proof (cases "in_literal s")
    case True
    then obtain s1 where s1: "imap_byte E s b = Inr s1" "\<not> tls_upgrade_pending s1"
      using Cons.prems by (simp add: imap_byte_def Let_def)
    then show ?thesis using Cons.IH[OF s1(2)] drain_step[OF True, of E b bs] by simp
  qed (simp add: drain_inactive)
qed

lemma bytes_run:
  "\<not> tls_upgrade_pending s \<Longrightarrow> (in_literal s \<Longrightarrow> bs = []) \<Longrightarrow> imap_bytes E s bs = run_bytes E s bs"
proof (induction E s bs rule: imap_bytes.induct)
  case (2 E s b bs)
  then have a: "\<not> in_literal s" by auto
  show ?case
  proof (cases "b = LF")
    case True
    show ?thesis
    proof (cases "end_line E s")
      case (Inr s1)
      show ?thesis
      proof (cases "tls_upgrade_pending s1")
        case False
        from "2.IH"(1)[OF True Inr False] False
        have "imap_bytes E (fst (drain E s1 bs)) (snd (drain E s1 bs)) = run_bytes E (fst (drain E s1 bs)) (snd (drain E s1 bs))"
          using drain_left by simp
        with True Inr False a run_drain[OF False, of E bs] show ?thesis by (simp add: imap_byte_def)
      qed (use True Inr a in \<open>simp add: imap_byte_def\<close>)
    qed (use True a in \<open>simp add: imap_byte_def\<close>)
  next
    case False
    moreover have "\<not> in_literal (line_byte b s)" using a by (simp add: in_literal_def)
    ultimately show ?thesis using "2.IH"(2) "2.prems"(1) a by (simp add: imap_byte_def)
  qed
qed simp

lemma on_data_run: "\<not> tls_upgrade_pending s \<Longrightarrow> imap_on_data E s bs = run_bytes E s bs"
  using run_drain[of s E bs] bytes_run[of "fst (drain E s bs)" "snd (drain E s bs)" E] drain_left[of E s bs]
  by (simp add: imap_on_data_def split_beta)

section \<open>The session invariant\<close>

text \<open>
  \<open>w0\<close> is the world the session started in. IMAP never writes the database; it touches the file
  system only for a user whose password the store accepted; messages are numbered without gaps
  and exist only while a mailbox is selected (or after \<^verbatim>\<open>LOGOUT\<close>); the line buffer is bounded.
\<close>

definition verified_user :: "imap_env \<Rightarrow> world \<Rightarrow> string \<Rightarrow> bool" where
  "verified_user E w0 u \<longleftrightarrow> (\<exists>p. fst (verify (crypt E) (w_db w0) u p (remote_ip E)))"

definition imap_inv :: "imap_env \<Rightarrow> world \<Rightarrow> imap \<Rightarrow> bool" where
  "imap_inv E w0 s \<longleftrightarrow>
     w_db (wrld s) = w_db w0 \<and>
     (state s = Authenticated \<or> state s = Selected \<or> literal_pending s \<longrightarrow> verified_user E w0 (username s)) \<and>
     (w_fs (wrld s) \<noteq> w_fs w0 \<longrightarrow> verified_user E w0 (username s)) \<and>
     (auth_pending s \<longrightarrow> state s = NotAuthenticated) \<and>
     (state s = NotAuthenticated \<or> state s = Authenticated \<longrightarrow> messages s = []) \<and>
     numbered (messages s) \<and> length (line_buf s) \<le> 8192"

lemma inv_send [simp]: "imap_inv E w0 (send l s) = imap_inv E w0 s"
  by (simp add: imap_inv_def)

lemma inv_sends [simp]: "imap_inv E w0 (foldl (\<lambda>s l. untagged (f l) s) s ls) = imap_inv E w0 s"
  by (induction ls arbitrary: s) (simp_all add: answers)

lemma inv_calls [simp]: "imap_inv E w0 (s\<lparr>calls := c\<rparr>) = imap_inv E w0 s"
  by (simp add: imap_inv_def)

lemma inv_tls [simp]: "imap_inv E w0 (s\<lparr>tls_upgrade_pending := b\<rparr>) = imap_inv E w0 s"
  by (simp add: imap_inv_def)

lemma inv_world:
  "imap_inv E w0 s \<Longrightarrow> verified_user E w0 (username s) \<Longrightarrow> w_db w = w_db (wrld s) \<Longrightarrow> imap_inv E w0 (s\<lparr>wrld := w\<rparr>)"
  by (auto simp: imap_inv_def)

lemma inv_messages:
  "imap_inv E w0 s \<Longrightarrow> state s = Selected \<Longrightarrow> numbered ms \<Longrightarrow> imap_inv E w0 (s\<lparr>messages := ms\<rparr>)"
  by (auto simp: imap_inv_def)

lemma inv_user: "imap_inv E w0 s \<Longrightarrow> state s = Authenticated \<or> state s = Selected \<Longrightarrow> verified_user E w0 (username s)"
  by (auto simp: imap_inv_def)

lemma ensure_dirs_inv:
  assumes "imap_inv E w0 s" "verified_user E w0 (username s)"
  shows "imap_inv E w0 (ensure_mailbox_dirs E mb s)"
proof -
  have eq: "ensure_mailbox_dirs E mb s = s\<lparr>wrld := wrld (ensure_mailbox_dirs E mb s)\<rparr>"
    by (simp add: ensure_mailbox_dirs_def Let_def)
  show ?thesis by (subst eq) (use assms in \<open>intro inv_world; simp\<close>)
qed

lemma sys_calls_db [simp]: "w_db (snd (sys_rename E p q w)) = w_db w" "w_db (sys_unlink E p w) = w_db w"
  by (simp_all add: sys_rename_def sys_unlink_def Let_def split: option.split)

lemma incorporate_entry_db [simp]: "w_db (snd (snd (incorporate_entry E u acc f))) = w_db (snd (snd acc))"
proof (cases acc)
  case (fields ms nx w)
  have "w_db w1 = w_db w" if "sys_rename E p q w = (b, w1)" for p q b w1
    using sys_calls_db(1)[of E p q w] that by simp
  then show ?thesis unfolding incorporate_entry_def Let_def fields
    by (simp split: prod.split bool.split option.split)
qed

lemma incorporate_db [simp]: "w_db (snd (snd (foldl (incorporate_entry E u) acc ns))) = w_db (snd (snd acc))"
  by (induction ns arbitrary: acc) simp_all

lemma incorporate_new_inv:
  assumes "imap_inv E w0 s" "state s = Selected"
  shows "imap_inv E w0 (incorporate_new E s)"
proof (cases "readdir E (w_fs (wrld s)) (path_of E (mail_root E @ ''/'' @ username s @ ''/new''))")
  case (Some ns)
  obtain ms nx w where f: "foldl (incorporate_entry E (username s)) (messages s, next_uuid s, wrld s) ns = (ms, nx, w)"
    by (metis prod_cases3)
  have "numbered ms" using incorporate_numbered[of "(messages s, next_uuid s, wrld s)" E "username s" ns] assms(1) f
    by (simp add: imap_inv_def)
  moreover have "w_db w = w_db (wrld s)" using incorporate_db[of E "username s" "(messages s, next_uuid s, wrld s)" ns] f by simp
  ultimately show ?thesis using assms inv_user[OF assms(1)] unfolding incorporate_new_def Some
    by (simp add: f imap_inv_def)
qed (simp add: incorporate_new_def assms)

lemma numbered_update: "numbered ms \<Longrightarrow> m_seq m = m_seq (ms ! i) \<Longrightarrow> numbered (ms[i := m])"
  by (cases "i < length ms") (auto simp: numbered_def nth_list_update)

lemma seq_index_bound: "seq_index ms n = Some i \<Longrightarrow> i < length ms"
  by (auto simp: seq_index_def find_Some_iff)

lemma numbered_seq_index:
  assumes "numbered ms" "1 \<le> n" "n \<le> of_nat (length ms)"
  shows "seq_index ms n = Some (unat n - 1)"
  unfolding seq_index_def find_Some_iff
  using numbered_pos[OF assms] by (intro exI[of _ "unat n - 1"]) simp

lemma set_flags_inv: "imap_inv E w0 s \<Longrightarrow> state s = Selected \<Longrightarrow> imap_inv E w0 (set_flags i fl s)"
  unfolding set_flags_def by (rule inv_messages) (simp_all add: numbered_update imap_inv_def)

lemma set_flags_fields [simp]: "state (set_flags i fl s) = state s" "username (set_flags i fl s) = username s"
  "wrld (set_flags i fl s) = wrld s" "length (messages (set_flags i fl s)) = length (messages s)"
  "selected_mailbox (set_flags i fl s) = selected_mailbox s"
  by (simp_all add: set_flags_def)

lemma fetch_one_inv: "imap_inv E w0 s \<Longrightarrow> state s = Selected \<Longrightarrow> imap_inv E w0 (fetch_one E items s n) \<and> state (fetch_one E items s n) = Selected"
  by (simp add: fetch_one_def Let_def answers set_flags_inv split: option.split)

lemma fetch_fold_inv:
  "imap_inv E w0 s \<Longrightarrow> state s = Selected \<Longrightarrow> imap_inv E w0 (foldl (fetch_one E items) s ns)"
  by (induction ns arbitrary: s) (simp_all add: fetch_one_inv)

lemma persist_flags_fields [simp]: "state (persist_flags E i s) = state s" "username (persist_flags E i s) = username s"
  "length (messages (persist_flags E i s)) = length (messages s)"
  by (simp_all add: persist_flags_def Let_def split: prod.split bool.split)

lemma persist_flags_inv:
  assumes "imap_inv E w0 s" "state s = Selected"
  shows "imap_inv E w0 (persist_flags E i s)"
proof -
  let ?m = "messages s ! i"
  let ?new = "?m\<lparr>m_filename := flagged_name (base_name (m_filename ?m)) (m_flags ?m)\<rparr>"
  obtain b w where r: "sys_rename E (message_path E (username s) (selected_mailbox s) ?m)
      (message_path E (username s) (selected_mailbox s) ?new) (wrld s) = (b, w)" by fastforce
  have "w_db w = w_db (wrld s)" using sys_calls_db(1) r by (metis snd_conv)
  then have 1: "imap_inv E w0 (s\<lparr>wrld := w\<rparr>)" using assms inv_user by (intro inv_world) blast+
  then have "imap_inv E w0 (s\<lparr>wrld := w, messages := (messages s)[i := ?new]\<rparr>)"
    using assms by (intro inv_messages numbered_update) (simp_all add: imap_inv_def)
  with 1 assms show ?thesis unfolding persist_flags_def Let_def r by (simp split: bool.split)
qed

lemma store_one_inv: "imap_inv E w0 s \<Longrightarrow> state s = Selected \<Longrightarrow> imap_inv E w0 (store_one E up fl s n) \<and> state (store_one E up fl s n) = Selected"
  by (simp add: store_one_def Let_def answers set_flags_inv persist_flags_inv split: option.split)

lemma store_fold_inv:
  "imap_inv E w0 s \<Longrightarrow> state s = Selected \<Longrightarrow> imap_inv E w0 (foldl (store_one E up fl) s ns)"
  by (induction ns arbitrary: s) (simp_all add: store_one_inv)

lemma expunge_loop_keeps:
  "imap_inv E w0 s \<Longrightarrow> state s = Selected \<Longrightarrow>
   imap_inv E w0 (snd (expunge_loop E n ms s)) \<and> state (snd (expunge_loop E n ms s)) = Selected"
proof (induction ms arbitrary: n s)
  case (Cons m ms)
  let ?s1 = "untagged (dec (n + 1) @ '' EXPUNGE'')
    (s\<lparr>wrld := sys_unlink E (message_path E (username s) (selected_mailbox s) m) (wrld s)\<rparr>)"
  have "imap_inv E w0 ?s1" "state ?s1 = Selected"
    using Cons.prems inv_user[OF Cons.prems(1)] by (simp_all add: answers inv_world)
  then show ?case using Cons.IH[of ?s1 n] Cons.IH[OF Cons.prems, of "n + 1"] by (auto simp: split_beta)
qed simp

lemma expunge_inv: "imap_inv E w0 s \<Longrightarrow> state s = Selected \<Longrightarrow> imap_inv E w0 (cmd_expunge E tag s)"
  using expunge_loop_keeps[of E w0 s 0 "messages s"]
  by (simp add: cmd_expunge_def answers inv_messages split_beta)

lemma unlinks_db: "w_db (foldl (\<lambda>w m. if P m then sys_unlink E (f m) w else w) w ms) = w_db w"
  by (induction ms arbitrary: w) simp_all

lemma close_inv: "imap_inv E w0 s \<Longrightarrow> state s = Selected \<Longrightarrow> imap_inv E w0 (cmd_close E tag s)"
  using inv_user[of E w0 s]
  by (simp add: cmd_close_def answers Let_def) (simp add: imap_inv_def unlinks_db)

lemma standard_folders_inv:
  assumes "imap_inv E w0 s" "verified_user E w0 (username s)"
  shows "imap_inv E w0 (ensure_standard_folders E s)"
proof -
  have "imap_inv E w0 (foldl (\<lambda>s f. ensure_mailbox_dirs E f s) s fs)" for fs
    using assms by (induction fs arbitrary: s) (simp_all add: ensure_dirs_inv)
  then show ?thesis unfolding ensure_standard_folders_def by blast
qed

lemma logged_in_inv:
  "imap_inv E w0 s \<Longrightarrow> state s = NotAuthenticated \<Longrightarrow> imap_verify E s u p \<Longrightarrow> \<not> auth_pending s \<Longrightarrow>
   imap_inv E w0 (s\<lparr>username := u, state := Authenticated\<rparr>) \<and> verified_user E w0 u"
  by (auto simp: imap_inv_def imap_verify_def verified_user_def)

lemma login_inv:
  assumes "imap_inv E w0 s" "state s = NotAuthenticated" "\<not> auth_pending s"
  shows "imap_inv E w0 (cmd_login E tag args s)"
proof -
  have "imap_inv E w0 (ensure_standard_folders E (s\<lparr>username := u, state := Authenticated\<rparr>))" if "imap_verify E s u p" for u p
    using logged_in_inv[OF assms(1,2) that assms(3)] by (intro standard_folders_inv) simp_all
  then show ?thesis using assms(1) by (simp add: cmd_login_def answers Let_def split: prod.split)
qed

lemma plain_auth_inv:
  "imap_inv E w0 s \<Longrightarrow> state s = NotAuthenticated \<Longrightarrow> \<not> auth_pending s \<Longrightarrow> imap_inv E w0 (complete_plain_auth E tag b64 s)"
  by (simp add: complete_plain_auth_def answers Let_def logged_in_inv split: option.split prod.split)

lemma auth_inv:
  assumes "imap_inv E w0 s" "state s = NotAuthenticated" "\<not> auth_pending s"
  shows "imap_inv E w0 (cmd_auth E tag args s)"
proof -
  have "imap_inv E w0 (s\<lparr>auth_pending := True, auth_tag := tag\<rparr>)" using assms by (simp add: imap_inv_def)
  then have "imap_inv E w0 ((send ''+ '' s)\<lparr>auth_pending := True, auth_tag := tag\<rparr>)" by (simp add: imap_inv_def)
  then show ?thesis using assms plain_auth_inv[OF assms] by (simp add: cmd_auth_def answers split: prod.split)
qed

lemma select_inv:
  assumes "imap_inv E w0 s" "state s = Authenticated \<or> state s = Selected"
  shows "imap_inv E w0 (cmd_select E tag mb ro s)"
proof -
  have "imap_inv E w0 (s\<lparr>messages := fst (load_mailbox E fs u m), next_uuid := nx, selected_mailbox := m, read_only := ro,
      state := Selected\<rparr>)" for fs u m nx
    using assms inv_user[OF assms] load_mailbox_numbered[of E fs u m] by (auto simp: imap_inv_def)
  then show ?thesis using assms(1)
    unfolding cmd_select_def Let_def split_beta inv_sends[where f = "\<lambda>l. l"] answers
    by (auto simp only: inv_send inv_sends[where f = "\<lambda>l. l", unfolded answers] split: if_split)
qed

lemma append_inv:
  assumes "imap_inv E w0 s" "state s = Authenticated \<or> state s = Selected" "cmd_append E tag args s = Inr s'"
  shows "imap_inv E w0 s'"
proof -
  have "imap_inv E w0 ((ensure_mailbox_dirs E mb s)\<lparr>append_tag := tag, append_mailbox := mb, append_flags := fl, literal_buf := [],
      literal_remaining := n, literal_pending := True\<rparr>)" for mb fl n
    using ensure_dirs_inv[OF assms(1) inv_user[OF assms(1,2)], of mb] inv_user[OF assms(1,2)] by (simp add: imap_inv_def)
  then show ?thesis using assms(1,3)
    by (auto simp: cmd_append_def answers split: option.splits prod.splits if_splits)
qed

lemma fetch_inv:
  assumes "imap_inv E w0 s" "state s = Authenticated \<or> state s = Selected"
  shows "imap_inv E w0 (cmd_fetch E tag args s)"
proof (cases "state s = Selected")
  case True
  then show ?thesis using assms(1) fetch_fold_inv by (simp add: cmd_fetch_def answers split: option.split)
next
  case False
  then have "messages s = []" using assms by (auto simp: imap_inv_def)
  then show ?thesis using assms(1) by (simp add: cmd_fetch_def answers parse_sequence_set_def split: option.split)
qed

lemma store_inv:
  assumes "imap_inv E w0 s" "state s = Authenticated \<or> state s = Selected"
  shows "imap_inv E w0 (cmd_store E tag args s)"
proof (cases "state s = Selected")
  case True
  then show ?thesis using assms(1) store_fold_inv by (simp add: cmd_store_def answers split: prod.split)
next
  case False
  then have "messages s = []" using assms by (auto simp: imap_inv_def)
  then show ?thesis using assms(1) by (simp add: cmd_store_def answers parse_sequence_set_def split: prod.split)
qed

lemma list_inv: "imap_inv E w0 s \<Longrightarrow> imap_inv E w0 (list_folders cmd E tag s)"
  unfolding list_folders_def Let_def answers
  by (simp only: inv_send split: option.split)
    (simp only: inv_sends[unfolded answers] inv_sends[where f = "\<lambda>l. l", unfolded answers] simp_thms)

lemma not_authenticated_inv:
  assumes "imap_inv E w0 s" "state s = NotAuthenticated" "\<not> auth_pending s"
  shows "imap_inv E w0 (not_authenticated E tag command args s)"
  using assms login_inv[OF assms] auth_inv[OF assms]
  by (simp add: not_authenticated_def imap_starttls_def answers Let_def)

lemma selected_command_inv:
  assumes "imap_inv E w0 s"
  shows "imap_inv E w0 (selected_command E tag command args s)"
  using assms fetch_inv[of E w0 s] store_inv[of E w0 s] expunge_inv[of E w0 s] close_inv[of E w0 s] incorporate_new_inv[of E w0 s]
  by (simp add: selected_command_def answers cmd_check_def)

lemma logout_inv: "imap_inv E w0 s \<Longrightarrow> \<not> auth_pending s \<Longrightarrow> imap_inv E w0 (cmd_logout tag s)"
  by (simp add: cmd_logout_def Let_def answers) (simp add: imap_inv_def)

text \<open>The case analysis on the command name; \<open>P\<close> is a property of results.\<close>

lemma if_result: "(c \<Longrightarrow> P a) \<Longrightarrow> (\<not> c \<Longrightarrow> P b) \<Longrightarrow> P (if c then a else b)"
  by simp

lemma dispatch_cases:
  assumes "P (Inr (cmd_capability tag s))" "P (Inr (imap_noop E tag s))" "P (Inr (cmd_logout tag s))"
    and "state s = NotAuthenticated \<Longrightarrow> P (Inr (not_authenticated E tag command args s))"
    and "\<And>ro. state s = Authenticated \<or> state s = Selected \<Longrightarrow> P (Inr (cmd_select E tag args ro s))"
    and "state s = Authenticated \<or> state s = Selected \<Longrightarrow> P (Inr (cmd_list E tag s))"
    and "state s = Authenticated \<or> state s = Selected \<Longrightarrow> P (Inr (cmd_lsub E tag s))"
    and "state s = Authenticated \<or> state s = Selected \<Longrightarrow> P (Inr (cmd_status tag args s))"
    and "state s = Authenticated \<or> state s = Selected \<Longrightarrow> P (cmd_append E tag args s)"
    and "state s = Authenticated \<or> state s = Selected \<Longrightarrow> P (Inr (cmd_create E tag args s))"
    and "state s = Authenticated \<or> state s = Selected \<Longrightarrow> P (Inr (ok tag (command @ '' completed'') s))"
    and "state s = Authenticated \<or> state s = Selected \<Longrightarrow> P (Inr (cmd_uid E tag args s))"
    and "state s \<noteq> NotAuthenticated \<Longrightarrow> P (Inr (selected_command E tag command args s))"
  shows "P (dispatch E tag command args s)"
  unfolding dispatch_def by (rule if_result[where P = P]; (rule assms; assumption)?)+

definition keeps_inv :: "imap_env \<Rightarrow> world \<Rightarrow> imap cpp \<Rightarrow> bool" where
  "keeps_inv E w0 r \<longleftrightarrow> (\<forall>s'. r = Inr s' \<longrightarrow> imap_inv E w0 s')"

lemma keeps_inv_Inr [simp]: "keeps_inv E w0 (Inr s') = imap_inv E w0 s'"
  by (simp add: keeps_inv_def)

lemma dispatch_inv:
  assumes i: "imap_inv E w0 s" and a: "\<not> auth_pending s"
  shows "keeps_inv E w0 (dispatch E tag command args s)"
proof (rule dispatch_cases)
  show "keeps_inv E w0 (Inr (cmd_capability tag s))" "keeps_inv E w0 (Inr (imap_noop E tag s))"
    "keeps_inv E w0 (Inr (cmd_logout tag s))"
    using i logout_inv[OF i a] incorporate_new_inv[OF i] by (simp_all add: cmd_capability_def imap_noop_def answers)
  show "keeps_inv E w0 (Inr (cmd_list E tag s))" "keeps_inv E w0 (Inr (cmd_lsub E tag s))"
    "keeps_inv E w0 (Inr (cmd_status tag args s))" "keeps_inv E w0 (Inr (ok tag (command @ '' completed'') s))"
    "keeps_inv E w0 (Inr (selected_command E tag command args s))"
    using i list_inv[OF i] selected_command_inv[OF i]
    by (simp_all add: cmd_list_def cmd_lsub_def cmd_status_def answers Let_def)
  show "keeps_inv E w0 (Inr (not_authenticated E tag command args s))" if "state s = NotAuthenticated"
    using not_authenticated_inv[OF i that a] by simp
  assume st: "state s = Authenticated \<or> state s = Selected"
  show "keeps_inv E w0 (Inr (cmd_select E tag args ro s))" for ro using select_inv[OF i st] by simp
  show "keeps_inv E w0 (cmd_append E tag args s)" using append_inv[OF i st] by (simp add: keeps_inv_def)
  show "keeps_inv E w0 (Inr (cmd_create E tag args s))" "keeps_inv E w0 (Inr (cmd_uid E tag args s))"
    using i fetch_inv[OF i st] store_inv[OF i st] ensure_dirs_inv[OF i inv_user[OF i st]]
    by (simp_all add: cmd_uid_def cmd_create_def cmd_uid_search_def answers Let_def split: prod.split)
qed

lemma imap_process_line_inv:
  assumes "imap_inv E w0 s" "imap_process_line E line s = Inr s'"
  shows "imap_inv E w0 s'"
proof (cases "line \<noteq> [] \<and> auth_pending s")
  case True
  then have "imap_inv E w0 (s\<lparr>auth_pending := False\<rparr>)" "state (s\<lparr>auth_pending := False\<rparr>) = NotAuthenticated"
    using assms(1) by (simp_all add: imap_inv_def)
  with True assms(2) plain_auth_inv show ?thesis by (auto simp: imap_process_line_def)
next
  case False
  then show ?thesis
    using assms dispatch_inv[OF assms(1)] by (auto simp: imap_process_line_def keeps_inv_def split_beta split: if_splits)
qed

lemma inv_line_buf: "imap_inv E w0 s \<Longrightarrow> length l \<le> 8192 \<Longrightarrow> imap_inv E w0 (s\<lparr>line_buf := l\<rparr>)"
  by (auto simp: imap_inv_def)

lemma inv_buf: "imap_inv E w0 s \<Longrightarrow> length (line_buf s) \<le> 8192"
  by (simp add: imap_inv_def)

lemma strip_cr_length: "length (strip_cr l) \<le> length l"
  by (simp add: strip_cr_def)

lemma end_line_inv:
  assumes "imap_inv E w0 s" "end_line E s = Inr s'"
  shows "imap_inv E w0 s'"
proof -
  have "imap_inv E w0 (s\<lparr>line_buf := strip_cr (line_buf s)\<rparr>)"
    using assms(1) inv_buf[OF assms(1)] strip_cr_length[of "line_buf s"] by (intro inv_line_buf) simp_all
  moreover obtain s1 where "imap_process_line E (strip_cr (line_buf s)) (s\<lparr>line_buf := strip_cr (line_buf s)\<rparr>) = Inr s1"
    "s' = s1\<lparr>line_buf := []\<rparr>" using assms(2) by (simp add: end_line_def split: sum.splits)
  ultimately show ?thesis using imap_process_line_inv[of E w0] inv_line_buf[of E w0 s1 "[]"] by simp
qed

lemma line_byte_inv: "imap_inv E w0 s \<Longrightarrow> imap_inv E w0 (line_byte b s)"
  by (simp add: line_byte_def Let_def answers imap_inv_def)

lemma complete_append_inv:
  assumes "imap_inv E w0 s" "verified_user E w0 (username s)"
  shows "imap_inv E w0 (complete_append E s)"
  using assms by (auto simp: imap_inv_def)

lemma imap_byte_inv:
  assumes "imap_inv E w0 s" "imap_byte E s b = Inr s'"
  shows "imap_inv E w0 s'"
proof (cases "in_literal s")
  case True
  then have v: "verified_user E w0 (username s)" using assms(1) by (simp add: imap_inv_def in_literal_def)
  let ?s1 = "s\<lparr>literal_buf := literal_buf s @ [b], literal_remaining := literal_remaining s - 1\<rparr>"
  have 1: "imap_inv E w0 ?s1" using assms(1) by (simp add: imap_inv_def)
  have "imap_inv E w0 (?s1\<lparr>literal_pending := False\<rparr>)" using assms(1) by (simp add: imap_inv_def)
  then have "imap_inv E w0 (complete_append E (?s1\<lparr>literal_pending := False\<rparr>))" by (rule complete_append_inv) (simp add: v)
  with 1 True assms(2) show ?thesis by (auto simp: imap_byte_def Let_def split: if_splits)
next
  case False
  with assms show ?thesis using line_byte_inv end_line_inv by (auto simp: imap_byte_def split: if_splits)
qed

lemma run_bytes_inv: "imap_inv E w0 s \<Longrightarrow> run_bytes E s bs = Inr s' \<Longrightarrow> imap_inv E w0 s'"
proof (induction bs arbitrary: s)
  case (Cons b bs)
  then show ?case using imap_byte_inv[OF Cons.prems(1)]
    by (cases "imap_byte E s b") (auto split: if_splits)
qed simp

text \<open>A connection is a sequence of reads; an exception ends it.\<close>

definition imap_read :: "imap_env \<Rightarrow> imap cpp \<Rightarrow> string \<Rightarrow> imap cpp" where
  "imap_read E r bs = (case r of Inl e \<Rightarrow> Inl e | Inr s \<Rightarrow> imap_on_data E s bs)"

definition between_reads :: "imap_env \<Rightarrow> world \<Rightarrow> imap cpp \<Rightarrow> bool" where
  "between_reads E w0 r \<longleftrightarrow> keeps_inv E w0 r \<and> (\<forall>s. r = Inr s \<longrightarrow> \<not> tls_upgrade_pending s)"

lemma run_bytes_tls: "\<not> tls_upgrade_pending s \<Longrightarrow> run_bytes E s bs = Inr s' \<Longrightarrow> \<not> tls_upgrade_pending s'"
proof (induction bs arbitrary: s)
  case (Cons b bs)
  then show ?case by (cases "imap_byte E s b") (auto split: if_splits)
qed simp

interpretation imap_life: event_machine "imap_read E" "between_reads E w0" for E w0
proof
  fix r bs assume r: "between_reads E w0 r"
  show "between_reads E w0 (imap_read E r bs)"
  proof (cases r)
    case (Inl e)
    then show ?thesis by (simp add: between_reads_def imap_read_def keeps_inv_def)
  next
    case (Inr s)
    then have "\<not> tls_upgrade_pending s" "imap_inv E w0 s" using r by (simp_all add: between_reads_def)
    then show ?thesis using run_bytes_tls[of s E bs] run_bytes_inv[of E w0 s bs] Inr
      by (auto simp: between_reads_def imap_read_def keeps_inv_def on_data_run)
  qed
qed

lemma imap_new_inv: "between_reads E w0 (Inr (imap_new n w0))"
  by (simp add: between_reads_def imap_new_def answers imap_inv_def)

text \<open>
  C11. Session invariant: whatever bytes a client sends in whatever pieces, the session stays in a legal state,
  or an exception ends it.
\<close>

theorem imap_session_inv:
  "case foldl (imap_read E) (Inr (imap_new n w0)) reads of Inl e \<Rightarrow> True | Inr s \<Rightarrow> imap_inv E w0 s"
  using imap_life.invar_run[OF imap_new_inv, of E w0 n reads]
  by (auto simp: between_reads_def keeps_inv_def split: sum.split)

text \<open>
  No access without a password: if the file system differs from the one the connection started
  with, the session has a user name, and the credential store accepts a password for it.
\<close>

theorem imap_writes_need_login:
  assumes "foldl (imap_read E) (Inr (imap_new n w0)) reads = Inr s" "w_fs (wrld s) \<noteq> w_fs w0"
  shows "\<exists>p. p \<noteq> [] \<and> username s \<noteq> [] \<and> fst (verify (crypt E) (w_db w0) (username s) p (remote_ip E))"
proof -
  have "imap_inv E w0 s" using imap_life.invar_run[OF imap_new_inv, of E w0 n reads] assms(1)
    by (simp add: between_reads_def)
  then obtain p where p: "fst (verify (crypt E) (w_db w0) (username s) p (remote_ip E))"
    using assms(2) by (auto simp: imap_inv_def verified_user_def)
  from verified.vf_user[OF p] verified.vf_passwd[OF p] p show ?thesis by blast
qed

text \<open>
  C21. The byte loop with its fast path for literals does what a machine does that
  reads one byte at a time.
\<close>

theorem on_data_bytewise: "\<not> tls_upgrade_pending s \<Longrightarrow> imap_on_data E s bs = run_bytes E s bs"
  by (rule on_data_run)

lemma line_byte_short: "length (line_buf s) < 8192 \<Longrightarrow> line_byte b s = s\<lparr>line_buf := line_buf s @ [b]\<rparr>"
  by (simp add: line_byte_def Let_def)

lemma imap_line:
  "LF \<notin> set l \<Longrightarrow> length (line_buf s) + length l \<le> 8192 \<Longrightarrow>
   imap_bytes E s (l @ [LF]) = imap_bytes E (s\<lparr>line_buf := line_buf s @ l\<rparr>) [LF]"
proof (induction l arbitrary: s)
  case (Cons b l)
  then have "imap_bytes E s ((b # l) @ [LF]) = imap_bytes E (s\<lparr>line_buf := line_buf s @ [b]\<rparr>) (l @ [LF])"
    by (auto simp: line_byte_short)
  then show ?case using Cons.IH[of "s\<lparr>line_buf := line_buf s @ [b]\<rparr>"] Cons.prems by simp
qed simp

section \<open>Splitting of the data\<close>

definition logged :: "imap \<Rightarrow> bool" where
  "logged s \<longleftrightarrow> state s \<noteq> NotAuthenticated \<and> \<not> auth_pending s \<and> \<not> tls_upgrade_pending s"

lemma logged_send [simp]: "logged (send l s) = logged s"
  by (simp add: logged_def)

lemma logged_world [simp]: "logged (s\<lparr>wrld := w\<rparr>) = logged s" "logged (s\<lparr>messages := ms\<rparr>) = logged s"
  "logged (s\<lparr>line_buf := l\<rparr>) = logged s" "logged (s\<lparr>calls := c\<rparr>) = logged s"
  by (simp_all add: logged_def)

lemma logged_foldl: "(\<And>s x. logged s \<Longrightarrow> logged (f s x)) \<Longrightarrow> logged s \<Longrightarrow> logged (foldl f s xs)"
  by (induction xs arbitrary: s) simp_all

lemma logged_helpers:
  assumes "logged s"
  shows "logged (ensure_mailbox_dirs E mb s)" "logged (set_flags i fl s)" "logged (persist_flags E i s)"
    "logged (fetch_one E items s n)" "logged (store_one E up fl s n)" "logged (incorporate_new E s)"
  using assms
  by (simp_all add: ensure_mailbox_dirs_def set_flags_def persist_flags_def fetch_one_def store_one_def incorporate_new_def
      answers Let_def split: option.split prod.split bool.split)
    (simp_all add: logged_def)

lemma logged_expunge: "logged s \<Longrightarrow> logged (snd (expunge_loop E n ms s))"
  by (induction ms arbitrary: n s) (simp_all add: answers split_beta)

definition stays_logged :: "imap cpp \<Rightarrow> bool" where
  "stays_logged r \<longleftrightarrow> (\<forall>s'. r = Inr s' \<longrightarrow> logged s')"

lemma stays_logged_Inr [simp]: "stays_logged (Inr s') = logged s'"
  by (simp add: stays_logged_def)

lemma logged_messages:
  assumes "logged s"
  shows "logged (cmd_fetch E tag args s)" "logged (cmd_store E tag args s)" "logged (cmd_expunge E tag s)"
    "logged (cmd_close E tag s)" "logged (cmd_check E tag s)" "logged (imap_noop E tag s)"
  using assms logged_foldl[where s = s and f = "fetch_one E _"] logged_foldl[where s = s and f = "store_one E _ _"]
    logged_expunge[OF assms, of E 0 "messages s"] logged_helpers
  by (simp_all add: cmd_fetch_def cmd_store_def cmd_expunge_def cmd_close_def cmd_check_def imap_noop_def answers Let_def
      split_beta split: option.split) (simp_all add: logged_def)

lemma logged_folders:
  assumes "logged s"
  shows "logged (list_folders cmd E tag s)" "logged (cmd_select E tag mb ro s)" "logged (cmd_uid_search E tag args s)"
    "logged (cmd_status tag args s)" "logged (cmd_create E tag args s)" "logged (cmd_logout tag s)"
    "logged (cmd_capability tag s)"
proof -
  have u: "logged s \<Longrightarrow> logged (foldl (\<lambda>s l. untagged (f l) s) s ls)" for f :: "string \<Rightarrow> string" and s ls
    by (rule logged_foldl) (simp_all add: answers)
  show "logged (list_folders cmd E tag s)"
    unfolding list_folders_def Let_def ok_def logged_send
    using assms u[OF assms, of "\<lambda>l. l"] by (auto simp only: option.case split: option.split intro!: u)
  have "logged (s\<lparr>messages := ms, next_uuid := nx, selected_mailbox := m, read_only := ro, state := Selected\<rparr>)" for ms nx m
    using assms by (simp add: logged_def)
  then show "logged (cmd_select E tag mb ro s)"
    using assms unfolding cmd_select_def Let_def split_beta ok_def bad_def
    by (auto simp only: logged_send intro!: u[where f = "\<lambda>l. l"] split: if_split)
  show "logged (cmd_uid_search E tag args s)" "logged (cmd_status tag args s)" "logged (cmd_create E tag args s)"
    "logged (cmd_capability tag s)" "logged (cmd_logout tag s)"
    using assms logged_helpers(1)[OF assms]
    by (simp_all add: cmd_uid_search_def cmd_status_def cmd_create_def cmd_capability_def cmd_logout_def answers Let_def)
      (simp add: logged_def)
qed

lemma logged_append:
  assumes "logged s" shows "stays_logged (cmd_append E tag args s)"
proof -
  have "logged ((ensure_mailbox_dirs E mb s)\<lparr>append_tag := tag, append_mailbox := mb, append_flags := fl, literal_buf := [],
      literal_remaining := n, literal_pending := True\<rparr>)" for mb fl n
    using logged_helpers(1)[OF assms, of E mb] by (simp add: logged_def)
  then show ?thesis using assms
    by (simp add: cmd_append_def answers stays_logged_def split: option.split prod.split)
qed

lemma logged_dispatch:
  assumes "logged s" shows "stays_logged (dispatch E tag command args s)"
proof (rule dispatch_cases)
  show "stays_logged (cmd_append E tag args s)" by (rule logged_append) fact
  show "stays_logged (Inr (not_authenticated E tag command args s))" if "state s = NotAuthenticated"
    using assms that by (simp add: logged_def)
qed (use assms logged_messages[OF assms] logged_folders[OF assms] in
    \<open>simp_all add: cmd_list_def cmd_lsub_def cmd_uid_def selected_command_def answers Let_def split_beta\<close>)

lemma logged_byte:
  assumes "logged s" shows "stays_logged (imap_byte E s b)"
proof -
  let ?s = "s\<lparr>line_buf := strip_cr (line_buf s)\<rparr>"
  have "stays_logged (imap_process_line E line ?s)" for line
    using logged_dispatch[of ?s E] assms unfolding imap_process_line_def split_beta
    by (simp add: stays_logged_def) (simp add: logged_def)
  then have "stays_logged (end_line E s)"
    by (simp add: end_line_def stays_logged_def split: sum.split)
  moreover have "logged (line_byte b s)" using assms by (simp add: line_byte_def Let_def answers)
  moreover have "logged (complete_append E s')" if "logged s'" for s' using that by (simp add: logged_def)
  ultimately show ?thesis using assms by (simp add: imap_byte_def Let_def) (simp add: logged_def)
qed

lemma run_logged:
  assumes "logged s"
  shows "run_bytes E s (xs @ ys) = (case run_bytes E s xs of Inl e \<Rightarrow> Inl e | Inr s1 \<Rightarrow> run_bytes E s1 ys)"
    and "stays_logged (run_bytes E s xs)"
proof -
  show "run_bytes E s (xs @ ys) = (case run_bytes E s xs of Inl e \<Rightarrow> Inl e | Inr s1 \<Rightarrow> run_bytes E s1 ys)"
    using assms
  proof (induction xs arbitrary: s)
    case (Cons b xs)
    then show ?case using logged_byte[OF Cons.prems, of E b]
      by (cases "imap_byte E s b") (auto simp: stays_logged_def logged_def)
  qed simp
  show "stays_logged (run_bytes E s xs)"
    using assms
  proof (induction xs arbitrary: s)
    case (Cons b xs)
    show ?case
    proof (cases "imap_byte E s b")
      case (Inr s1)
      then have "logged s1" using logged_byte[OF Cons.prems, of E b] by simp
      moreover have "\<not> tls_upgrade_pending s1" using \<open>logged s1\<close> by (simp add: logged_def)
      ultimately show ?thesis using Inr Cons.IH by simp
    qed (simp add: stays_logged_def)
  qed simp
qed

text \<open>
  After login it does not matter how the network cuts the data into reads: literals and lines
  may be split anywhere.
\<close>

theorem imap_chunks:
  assumes "state s \<noteq> NotAuthenticated" "\<not> auth_pending s" "\<not> tls_upgrade_pending s"
  shows "imap_on_data E s (xs @ ys) = imap_read E (imap_on_data E s xs) ys"
proof -
  have l: "logged s" using assms by (simp add: logged_def)
  show ?thesis
    using run_logged[OF l, of E xs] assms(3)
    by (cases "run_bytes E s xs") (auto simp: on_data_run imap_read_def stays_logged_def logged_def)
qed

section \<open>Every command is answered\<close>

definition tagged :: "string \<Rightarrow> loop_call \<Rightarrow> bool" where
  "tagged tag c \<longleftrightarrow> (\<exists>m. c = Write (tag @ '' OK '' @ m @ crlf) \<or> c = Write (tag @ '' NO '' @ m @ crlf) \<or>
     c = Write (tag @ '' BAD '' @ m @ crlf))"

text \<open>
  The calls after a command: untagged answers and then the tagged one, which the request to
  close or to start TLS may follow, or a continuation request while more input is expected.
\<close>

definition completed :: "string \<Rightarrow> imap \<Rightarrow> imap \<Rightarrow> bool" where
  "completed tag s s' \<longleftrightarrow> (\<exists>pre c rest. calls s' = calls s @ map Write pre @ c # rest \<and>
     (tagged tag c \<and> rest = [] \<or>
      tagged tag c \<and> (rest = [Close] \<and> state s' = Logout \<or> rest = [Upgrade_TLS] \<and> tls_upgrade_pending s') \<or>
      (\<exists>t. c = Write (''+ '' @ t)) \<and> rest = [] \<and> (auth_pending s' \<or> literal_pending s')))"

lemma completed_answer:
  assumes "wrote (calls s) (calls s0)"
  shows "completed tag s (ok tag m s0)" "completed tag s (no tag m s0)" "completed tag s (bad tag m s0)"
proof -
  obtain pre where pre: "calls s0 = calls s @ map Write pre" using assms by (auto simp: wrote_def)
  have "completed tag s s'" if "calls s' = calls s0 @ [c]" "tagged tag c" for s' c
    using that pre unfolding completed_def by auto
  moreover have "calls (ok tag m s0) = calls s0 @ [Write (tag @ '' OK '' @ m @ crlf)]"
    "calls (no tag m s0) = calls s0 @ [Write (tag @ '' NO '' @ m @ crlf)]"
    "calls (bad tag m s0) = calls s0 @ [Write (tag @ '' BAD '' @ m @ crlf)]"
    by (simp_all add: answers send_def)
  ultimately show "completed tag s (ok tag m s0)" "completed tag s (no tag m s0)" "completed tag s (bad tag m s0)"
    by (auto simp: tagged_def)
qed

lemma calls_foldl: "(\<And>s x. wrote (calls s) (calls (f s x))) \<Longrightarrow> wrote (calls s) (calls (foldl f s xs))"
proof (induction xs arbitrary: s)
  case (Cons x xs)
  then show ?case using wrote_trans[of "calls s" "calls (f s x)"] by simp
qed simp

lemma calls_untagged [simp]: "wrote (calls s) (calls (untagged l s))"
  by (simp add: answers send_def)

lemma calls_helpers [simp]:
  "calls (set_flags i fl s) = calls s" "calls (persist_flags E i s) = calls s" "calls (incorporate_new E s) = calls s"
  "wrote (calls s) (calls (fetch_one E items s n))" "wrote (calls s) (calls (store_one E up fl s n))"
  by (simp_all add: set_flags_def persist_flags_def incorporate_new_def fetch_one_def store_one_def untagged_def send_def Let_def
      split: option.split prod.split bool.split)

lemma calls_expunge: "wrote (calls s) (calls (snd (expunge_loop E n ms s)))"
proof (induction ms arbitrary: n s)
  case (Cons m ms)
  let ?s = "untagged (dec (n + 1) @ '' EXPUNGE'')
    (s\<lparr>wrld := sys_unlink E (message_path E (username s) (selected_mailbox s) m) (wrld s)\<rparr>)"
  have "wrote (calls s) (calls ?s)" using calls_untagged[of "s\<lparr>wrld := _\<rparr>"] by simp
  then have "wrote (calls s) (calls (snd (expunge_loop E n ms ?s)))" using Cons.IH[of ?s n] by (rule wrote_trans)
  then show ?case using Cons.IH[of s "n + 1"] by (simp add: split_beta)
qed simp

lemma completed_messages:
  "completed tag s (cmd_fetch E tag args s)" "completed tag s (cmd_store E tag args s)" "completed tag s (cmd_expunge E tag s)"
  "completed tag s (cmd_close E tag s)" "completed tag s (cmd_check E tag s)" "completed tag s (imap_noop E tag s)"
  using calls_foldl[of "fetch_one E _" s] calls_foldl[of "store_one E _ _" s] calls_expunge[of s E 0 "messages s"]
  by (simp_all add: cmd_fetch_def cmd_store_def cmd_expunge_def cmd_close_def cmd_check_def imap_noop_def Let_def split_beta
      completed_answer split: option.split)

lemma completed_folders:
  "completed tag s (list_folders cmd E tag s)" "completed tag s (cmd_select E tag mb ro s)" "completed tag s (cmd_uid_search E tag args s)"
  "completed tag s (cmd_status tag args s)" "completed tag s (cmd_create E tag args s)" "completed tag s (cmd_capability tag s)"
  "completed tag s (cmd_login E tag args s)" "completed tag s (complete_plain_auth E tag b64 s)"
proof -
  have u: "wrote (calls s) (calls (foldl (\<lambda>s l. untagged (f l) s) s ls))" for f :: "string \<Rightarrow> string" and s ls
    by (rule calls_foldl) simp
  have d: "calls (ensure_standard_folders E s) = calls s" for s by (simp add: ensure_standard_folders_def)
  let ?s1 = "foldl (\<lambda>s l. untagged l s) s
    (list_line cmd [] ''INBOX'' # map (\<lambda>f. list_line cmd ('' '' @ BS # f) f) [''Sent'', ''Drafts'', ''Junk'', ''Trash''])"
  have 1: "wrote (calls s) (calls ?s1)" by (rule u)
  then have "wrote (calls s) (calls (foldl (\<lambda>s mbox. untagged (list_line cmd [] mbox) s) ?s1 ls))" for ls
    using u by (rule wrote_trans)
  with 1 show "completed tag s (list_folders cmd E tag s)"
    unfolding list_folders_def Let_def by (auto simp only: option.case split: option.split intro!: completed_answer(1))
  have "wrote (calls s) (calls (foldl (\<lambda>s l. untagged l s) (s\<lparr>messages := ms, next_uuid := nx, selected_mailbox := m,
      read_only := ro, state := Selected\<rparr>) ls))" for ms nx m ls
    using u[of "s\<lparr>messages := ms, next_uuid := nx, selected_mailbox := m, read_only := ro, state := Selected\<rparr>" "\<lambda>l. l" ls] by simp
  then show "completed tag s (cmd_select E tag mb ro s)"
    unfolding cmd_select_def Let_def split_beta
    by (auto simp only: split: if_split intro!: completed_answer(1) completed_answer(3)[OF wrote_refl])
  show "completed tag s (cmd_uid_search E tag args s)" "completed tag s (cmd_status tag args s)"
    "completed tag s (cmd_create E tag args s)" "completed tag s (cmd_capability tag s)"
    "completed tag s (cmd_login E tag args s)" "completed tag s (complete_plain_auth E tag b64 s)"
    by (simp_all add: cmd_uid_search_def cmd_status_def cmd_create_def cmd_capability_def cmd_login_def complete_plain_auth_def
        Let_def split_beta d completed_answer split: option.split)
qed

definition completes :: "string \<Rightarrow> imap \<Rightarrow> imap cpp \<Rightarrow> bool" where
  "completes tag s r \<longleftrightarrow> (\<forall>s'. r = Inr s' \<longrightarrow> completed tag s s')"

lemma completes_Inr [simp]: "completes tag s (Inr s') = completed tag s s'"
  by (simp add: completes_def)

lemma completed_append: "completes tag s (cmd_append E tag args s)"
proof -
  have "completed tag s (send ''+ Ready for literal data'' (s0\<lparr>append_tag := tag, append_mailbox := mb, append_flags := fl,
      literal_buf := [], literal_remaining := n, literal_pending := True\<rparr>))" if "calls s0 = calls s" for s0 mb fl n
    using that unfolding completed_def by (intro exI[of _ "[]"]) (simp add: send_def)
  then show ?thesis
    by (simp add: cmd_append_def completed_answer completes_def split: option.split prod.split)
qed

lemma completed_not_authenticated: "completed tag s (not_authenticated E tag command args s)"
proof -
  have "completed tag s ((send ''+ '' s)\<lparr>auth_pending := True, auth_tag := tag\<rparr>)"
    unfolding completed_def by (intro exI[of _ "[]"]) (simp add: send_def)
  then have a: "completed tag s (cmd_auth E tag args s)"
    by (simp add: cmd_auth_def completed_answer completed_folders split_beta)
  have "tagged tag (Write (tag @ '' OK Begin TLS negotiation'' @ crlf))"
    unfolding tagged_def by (intro exI[of _ "''Begin TLS negotiation''"]) simp
  then have "completed tag s (imap_starttls tag s)" if "\<not> tls_upgrade_pending s"
    using that unfolding completed_def by (intro exI[of _ "[]"]) (simp add: imap_starttls_def answers send_def Let_def)
  then have "completed tag s (imap_starttls tag s)" by (simp add: imap_starttls_def completed_answer)
  with a show ?thesis by (simp add: not_authenticated_def completed_answer completed_folders)
qed

lemma completed_logout: "completed tag s (cmd_logout tag s)"
proof -
  have "tagged tag (Write (tag @ '' OK LOGOUT completed'' @ crlf))"
    unfolding tagged_def by (intro exI[of _ "''LOGOUT completed''"]) simp
  then show ?thesis unfolding completed_def
    by (intro exI[of _ "[''* BYE JAMS IMAP server logging out'' @ crlf]"]) (simp add: cmd_logout_def answers send_def Let_def)
qed

lemma dispatch_completes: "completes tag s (dispatch E tag command args s)"
proof (rule dispatch_cases)
  show "completes tag s (cmd_append E tag args s)" by (rule completed_append)
qed (simp_all add: completed_messages completed_folders completed_logout completed_not_authenticated cmd_list_def cmd_lsub_def
    completed_answer cmd_uid_def selected_command_def Let_def split_beta)

text \<open>
  Every command line that has a tag is answered: after it the session has sent any number of untagged answers and one
  that begins with the tag and \<^verbatim>\<open>OK\<close>, \<^verbatim>\<open>NO\<close> or \<^verbatim>\<open>BAD\<close>, or it asks for the continuation of the command
  (or an exception ended the session).
\<close>

theorem imap_answers: "case dispatch E tag command args s of Inl e \<Rightarrow> True | Inr s' \<Rightarrow> completed tag s s'"
  using dispatch_completes[of tag s E command args] by (auto simp: completes_def split: sum.split)

text \<open>What the event loop relies on: the session answers before it closes the connection.\<close>

lemma completed_first: "completed tag s s' \<Longrightarrow> write_first (calls s) \<Longrightarrow> write_first (calls s')"
  by (auto simp: completed_def tagged_def intro!: write_first_append write_first_writes)

lemma line_first:
  assumes "write_first (calls s)" "imap_process_line E line s = Inr s'"
  shows "write_first (calls s')"
proof -
  have "completed tag (s\<lparr>auth_pending := False\<rparr>) (complete_plain_auth E tag b64 (s\<lparr>auth_pending := False\<rparr>))" for tag b64
    by (rule completed_folders)
  from completed_first[OF this] show ?thesis
    using assms completed_first dispatch_completes
    by (auto simp: imap_process_line_def completes_def split_beta split: if_splits) metis
qed

lemma byte_first:
  assumes "write_first (calls s)" "imap_byte E s b = Inr s'"
  shows "write_first (calls s')"
proof -
  have w: "wrote (calls s0) (calls (complete_append E s0))" "wrote (calls s0) (calls (line_byte b s0))" for s0
    by (simp_all add: complete_append_def line_byte_def answers send_def Let_def)
  have "write_first (calls s1)" if "end_line E s = Inr s1" for s1
    using that line_first[of "s\<lparr>line_buf := strip_cr (line_buf s)\<rparr>" E] assms(1) by (auto simp: end_line_def split: sum.splits)
  then show ?thesis using assms write_first_wrote[OF _ w(1)] write_first_wrote[OF _ w(2)]
    by (auto simp: imap_byte_def Let_def split: if_splits)
qed

lemma on_data_first:
  assumes "write_first (calls s)" "\<not> tls_upgrade_pending s" "imap_on_data E s bs = Inr s'"
  shows "write_first (calls s') \<and> \<not> tls_upgrade_pending s'"
proof -
  have "run_bytes E s bs = Inr s'" using assms(2,3) on_data_run by simp
  then show ?thesis using assms(1,2)
  proof (induction bs arbitrary: s)
    case (Cons b bs)
    then obtain s1 where "imap_byte E s b = Inr s1" by (cases "imap_byte E s b") auto
    then show ?case using Cons byte_first[of s E b s1] by (auto split: if_splits)
  qed auto
qed

lemma on_data_exn:
  assumes "\<not> tls_upgrade_pending s" "imap_on_data E s bs = Inl e"
  shows "e = Length_error \<or> e = Bad_alloc"
proof -
  have d: "e = Length_error \<or> e = Bad_alloc" if "dispatch E tag command args s = Inl e" for tag command args s
    using that by (auto simp: dispatch_def cmd_append_def split: if_splits option.splits prod.splits)
  have b: "e = Length_error \<or> e = Bad_alloc" if "imap_byte E s b = Inl e" for s b
    using that d by (auto simp: imap_byte_def end_line_def imap_process_line_def Let_def split_beta split: if_splits sum.splits)
  have "run_bytes E s bs = Inl e" using assms on_data_run by simp
  then show ?thesis
  proof (induction bs arbitrary: s)
    case (Cons x bs)
    then show ?case using b by (cases "imap_byte E s x") (auto split: if_splits)
  qed simp
qed

section \<open>Read-only mailboxes\<close>

lemma fetch_read_only:
  "read_only s \<Longrightarrow> wrld (foldl (fetch_one E items) s ns) = wrld s \<and> messages (foldl (fetch_one E items) s ns) = messages s"
proof (induction ns arbitrary: s)
  case (Cons n ns)
  have "wrld (fetch_one E items s n) = wrld s \<and> messages (fetch_one E items s n) = messages s \<and> read_only (fetch_one E items s n)"
    using Cons.prems by (simp add: fetch_one_def Let_def answers split: option.split)
  with Cons.IH[of "fetch_one E items s n"] show ?case by simp
qed simp

text \<open>
  A mailbox opened with \<^verbatim>\<open>EXAMINE\<close> is not changed by the commands on its messages: neither files nor flags,
  also not by the implicit \<^verbatim>\<open>\Seen\<close> of \<^verbatim>\<open>FETCH\<close> and the implicit expunge of \<^verbatim>\<open>CLOSE\<close>.
\<close>

theorem read_only_safe:
  assumes "read_only s"
  shows "wrld (cmd_fetch E tag args s) = wrld s \<and> messages (cmd_fetch E tag args s) = messages s \<and>
    wrld (cmd_store E tag args s) = wrld s \<and> messages (cmd_store E tag args s) = messages s \<and>
    wrld (cmd_expunge E tag s) = wrld s \<and> messages (cmd_expunge E tag s) = messages s \<and> wrld (cmd_close E tag s) = wrld s"
  using assms fetch_read_only[OF assms]
  by (simp add: cmd_fetch_def cmd_store_def cmd_expunge_def cmd_close_def answers Let_def split: option.split)

section \<open>EXPUNGE\<close>

text \<open>What a client does with the answer \<^verbatim>\<open>n EXPUNGE\<close>: it forgets its \<open>n\<close>-th message.\<close>

definition forget :: "'a list \<Rightarrow> nat \<Rightarrow> 'a list" where
  "forget xs n = take (n - 1) xs @ drop n xs"

definition is_deleted :: "message_meta \<Rightarrow> bool" where
  "is_deleted m = has_sub Deleted (m_flags m)"

fun expunge_numbers :: "nat \<Rightarrow> message_meta list \<Rightarrow> nat list" where
  "expunge_numbers n [] = []"
| "expunge_numbers n (m # ms) = (if is_deleted m then (n + 1) # expunge_numbers n ms else expunge_numbers (n + 1) ms)"

definition expunge_line :: "nat \<Rightarrow> loop_call" where
  "expunge_line n = Write (''* '' @ dec n @ '' EXPUNGE'' @ crlf)"

lemma forget_all:
  "foldl forget (pre @ ms) (expunge_numbers (length pre) ms) = pre @ filter (\<lambda>m. \<not> is_deleted m) ms"
proof (induction ms arbitrary: pre)
  case (Cons m ms)
  show ?case
  proof (cases "is_deleted m")
    case True
    then show ?thesis using Cons.IH[of pre] by (simp add: forget_def)
  next
    case False
    then show ?thesis using Cons.IH[of "pre @ [m]"] by simp
  qed
qed simp

lemma expunge_loop_result:
  "fst (expunge_loop E n ms s) = filter (\<lambda>m. \<not> is_deleted m) ms"
  "calls (snd (expunge_loop E n ms s)) = calls s @ map expunge_line (expunge_numbers n ms)"
  "files (w_fs (wrld (snd (expunge_loop E n ms s)))) p = files (w_fs (wrld s)) p \<or>
     (\<exists>m \<in> set ms. is_deleted m \<and> p = path_of E (message_path E (username s) (selected_mailbox s) m))"
proof (induction ms arbitrary: n s)
  case (Cons m ms)
  let ?s = "\<lambda>n s. untagged (dec (n + 1) @ '' EXPUNGE'')
    (s\<lparr>wrld := sys_unlink E (message_path E (username s) (selected_mailbox s) m) (wrld s)\<rparr>)"
  {
    case (1 n s)
    show ?case using Cons.IH(1)[of n "?s n s"] Cons.IH(1)[of "n + 1" s] by (simp add: is_deleted_def split_beta)
  next
    case (2 n s)
    show ?case using Cons.IH(2)[of n "?s n s"] Cons.IH(2)[of "n + 1" s]
      by (simp add: is_deleted_def split_beta answers expunge_line_def send_def)
  next
    case (3 n s)
    have "files (w_fs (wrld (?s n s))) p = files (w_fs (wrld s)) p \<or>
        p = path_of E (message_path E (username s) (selected_mailbox s) m)"
      by (simp add: answers sys_unlink_def Let_def)
    then show ?case using Cons.IH(3)[of n "?s n s"] Cons.IH(3)[of "n + 1" s]
      by (auto simp: is_deleted_def split_beta answers)
  }
qed simp_all

text \<open>
  C20. \<^verbatim>\<open>EXPUNGE\<close> is a refinement of deleting in a list: the session keeps exactly the messages without
  \<^verbatim>\<open>\Deleted\<close>, a client that follows the untagged answers ends up with the same list, the messages are
  renumbered, and no file changes but those of deleted messages.
\<close>

theorem expunge_spec:
  assumes "\<not> read_only s"
  shows "messages (cmd_expunge E tag s) = renumber 0 (filter (\<lambda>m. \<not> is_deleted m) (messages s)) \<and>
    (\<exists>ns. calls (cmd_expunge E tag s) = calls s @ map expunge_line ns @ [Write (tag @ '' OK EXPUNGE completed'' @ crlf)] \<and>
       foldl forget (messages s) ns = filter (\<lambda>m. \<not> is_deleted m) (messages s)) \<and>
    (\<forall>p. files (w_fs (wrld (cmd_expunge E tag s))) p \<noteq> files (w_fs (wrld s)) p \<longrightarrow>
       (\<exists>m \<in> set (messages s). is_deleted m \<and> p = path_of E (message_path E (username s) (selected_mailbox s) m)))"
proof -
  note r = expunge_loop_result[of E 0 "messages s" s]
  have e: "cmd_expunge E tag s = ok tag ''EXPUNGE completed''
      ((snd (expunge_loop E 0 (messages s) s))\<lparr>messages := renumber 0 (fst (expunge_loop E 0 (messages s) s))\<rparr>)"
    using assms by (simp add: cmd_expunge_def split_beta)
  have "calls (cmd_expunge E tag s) = calls s @ map expunge_line (expunge_numbers 0 (messages s))
      @ [Write (tag @ '' OK EXPUNGE completed'' @ crlf)]"
    by (simp add: e r(2) answers send_def)
  moreover have "foldl forget (messages s) (expunge_numbers 0 (messages s)) = filter (\<lambda>m. \<not> is_deleted m) (messages s)"
    using forget_all[of "[]" "messages s"] by simp
  moreover have "messages (cmd_expunge E tag s) = renumber 0 (filter (\<lambda>m. \<not> is_deleted m) (messages s))"
    by (simp add: e r(1) answers)
  ultimately show ?thesis using r(3) by (auto simp: e answers)
qed

section \<open>Numbers beyond the mailbox\<close>

lemma of_nat_le_word: "n < 2 ^ 32 \<Longrightarrow> m \<le> n \<Longrightarrow> (of_nat m :: 32 word) \<le> of_nat n"
  by (simp add: word_le_nat_alt unat_of_nat)

lemma dec_no_sep: "CHR '','' \<notin> set (dec n)" "CHR '':'' \<notin> set (dec n)" "dec n \<noteq> ''*''"
  using dec_digits[of "CHR '',''" n] dec_digits[of "CHR '':''" n] dec_digits[of "CHR ''*''" n] by (auto simp: isdigit_def)

text \<open>
  A number larger than the mailbox means its last message: \<^verbatim>\<open>parse_num\<close> takes the minimum with the
  number of messages. \<^verbatim>\<open>UID FETCH\<close> and \<^verbatim>\<open>UID STORE\<close> pass their identifiers, which are UNIX times, through
  the same function, so they address the last message whatever message has the identifier.
\<close>

theorem uid_means_last_message:
  assumes "ms \<noteq> []" "length ms \<le> uid" "uid < 2 ^ 32"
  shows "parse_sequence_set ms (dec uid) = [of_nat (length ms)]"
proof -
  let ?max = "of_nat (length ms) :: 32 word"
  have l: "length ms < 2 ^ 32" using assms(2,3) by linarith
  then have u: "unat ?max = length ms" by (simp add: unat_of_nat)
  then have n0: "?max \<noteq> 0" "1 \<le> ?max" using assms(1) by (auto simp: word_le_nat_alt Suc_le_eq)
  have "from_chars 32 (dec uid) = Some uid" using from_chars_dec[of uid 32 "[]"] assms(3) by simp
  then have "parse_num ?max (dec uid) = ?max"
    using of_nat_le_word[OF assms(3,2)] dec_no_sep(3)[of uid] by (simp add: parse_num_def min_def)
  moreover have "find_ch CHR '':'' (dec uid) = None" unfolding find_ch_None by (rule dec_no_sep(2))
  ultimately have "seq_range ?max (dec uid) = [?max]" using n0 by (simp add: seq_range_def)
  moreover have "getlines CHR '','' (dec uid) = [dec uid]" using dec_no_sep(1) by (intro getlines_no_delim) simp_all
  ultimately show ?thesis using n0 by (simp add: parse_sequence_set_def)
qed

section \<open>Mailbox names\<close>

lemma verified_name: "verified_user E w0 u \<Longrightarrow> CHR ''/'' \<notin> set u" "verified_user E w0 u \<Longrightarrow> u \<noteq> []"
  using verified.vf_safe[of "crypt E" "w_db w0" u _ "remote_ip E"] verified.vf_user[of "crypt E" "w_db w0" u _ "remote_ip E"]
    safe_char_special unfolding verified_user_def by blast+

lemma split_path_mid: "CHR ''/'' \<notin> set e \<Longrightarrow> e \<noteq> [] \<Longrightarrow> split_path (p @ ''/'' @ e @ ''/'' @ r) = split_path p @ [e] @ split_path r"
  using getlines_split[of "CHR ''/''" p "e @ ''/'' @ r"] getlines_line[of "CHR ''/''" e r]
  by (simp add: split_path_def getlines_snoc_delim)

lemma lex_norm_up: "e \<noteq> ''.'' \<Longrightarrow> e \<noteq> ''..'' \<Longrightarrow> lex_norm (p @ [e] @ [''.''] @ [''..''] @ r) = lex_norm (p @ r)"
  by (simp add: lex_norm_def norm_step_def)

lemma path_escape:
  assumes u: "verified_user E w0 u" "u \<noteq> ''.''" "u \<noteq> ''..''" and v: "verified_user E w0 v"
  shows "lex_norm (split_path (mailbox_base E u (''/../'' @ v) @ ''/'' @ r)) = lex_norm (split_path (mailbox_base E v ''INBOX'' @ ''/'' @ r))"
proof -
  note n = verified_name[OF u(1)] verified_name[OF v]
  have "mailbox_base E u (''/../'' @ v) @ ''/'' @ r = mail_root E @ ''/'' @ u @ ''/'' @ ''./../'' @ v @ ''/'' @ r"
    by (simp add: mailbox_base_def)
  then have "split_path (mailbox_base E u (''/../'' @ v) @ ''/'' @ r) =
      split_path (mail_root E) @ [u] @ split_path (''./../'' @ v @ ''/'' @ r)"
    using split_path_mid[OF n(1,2), of "mail_root E" "''./../'' @ v @ ''/'' @ r"] by simp
  also have "split_path (''./../'' @ v @ ''/'' @ r) = [''.''] @ [''..''] @ [v] @ split_path r"
    using split_path_mid[OF n(3,4), of "''./..''" r] by (simp add: split_path_def)
  finally have "split_path (mailbox_base E u (''/../'' @ v) @ ''/'' @ r) =
      split_path (mail_root E) @ [u] @ [''.''] @ [''..''] @ [v] @ split_path r" .
  moreover have "split_path (mailbox_base E v ''INBOX'' @ ''/'' @ r) = split_path (mail_root E) @ [v] @ split_path r"
    using split_path_mid[OF n(3,4), of "mail_root E" r] by (simp add: mailbox_base_def)
  ultimately show ?thesis using lex_norm_up[OF u(2,3), of "split_path (mail_root E)" "[v] @ split_path r"] by simp
qed

lemma c_str_append: "NUL \<notin> set a \<Longrightarrow> c_str (a @ r) = a @ c_str r"
  unfolding c_str_def by (rule takeWhile_append2) auto

lemma verified_no_nul: "verified_user E w0 u \<Longrightarrow> NUL \<notin> set u"
  using verified.vf_safe[of "crypt E" "w_db w0" u _ "remote_ip E"] safe_char_special unfolding verified_user_def by blast

lemma load_dir_cong:
  assumes "\<And>r. path_of E (a @ ''/'' @ r) = path_of E (b @ ''/'' @ r)"
  shows "load_dir E fs a = load_dir E fs b"
proof (intro ext)
  fix ms sub
  have "path_of E (a @ ''/'' @ sub @ ''/'' @ f) = path_of E (b @ ''/'' @ sub @ ''/'' @ f)" for f
    by (rule assms)
  then have "load_entries E fs (a @ ''/'' @ sub) c ns xs = load_entries E fs (b @ ''/'' @ sub) c ns xs" for c ns xs
    by (induction xs arbitrary: ns) (simp_all split: option.split)
  then show "load_dir E fs a ms sub = load_dir E fs b ms sub"
    unfolding load_dir_def Let_def assms[of sub] by presburger
qed


section \<open>APPEND\<close>

lemma append_base_clean:
  "\<not> has_sub '':2,'' (dec a @ ''.'' @ dec b @ ''.'' @ dec c @ ''.jams_append'')"
proof
  assume "has_sub '':2,'' (dec a @ ''.'' @ dec b @ ''.'' @ dec c @ ''.jams_append'')"
  then have "CHR '':'' \<in> set (dec a @ ''.'' @ dec b @ ''.'' @ dec c @ ''.jams_append'')"
    unfolding has_sub_iff by fastforce
  then show False using dec_no_sep(2) by simp
qed


text \<open>
  An empty message is never stored: after \<^verbatim>\<open>APPEND\<close> with the size \<^verbatim>\<open>{0}\<close> the session asks for the literal, and
  the line that ends it is taken as an empty command: nothing is written and no answer is sent.
\<close>

theorem append_empty_hangs:
  assumes "cmd_append E tag args s = Inr s'" "literal_pending s'" "literal_remaining s' = 0" "\<not> tls_upgrade_pending s"
    "line_buf s = []"
  shows "imap_on_data E s' crlf = Inr s'"
proof -
  have "line_buf s' = [] \<and> tls_upgrade_pending s' = tls_upgrade_pending s"
    using assms(1,5) by (auto simp: cmd_append_def answers split: option.splits prod.splits if_splits)
  with assms show ?thesis
    by (simp add: imap_on_data_def drain_def line_byte_def end_line_def imap_process_line_def strip_cr_def)
qed

text \<open>
  The only exception: a command line of a logged-in client raises one exactly when it is an \<^verbatim>\<open>APPEND\<close> whose literal is announced
  larger than a vector can be (\<open>Length_error\<close>) or than the memory that can be had (\<open>Bad_alloc\<close>).
  Nobody catches it in the session, and in the main program it ends the server.
\<close>

theorem imap_exception:
  "dispatch E tag command args s = Inl e \<longleftrightarrow> command = ''APPEND'' \<and> (state s = Authenticated \<or> state s = Selected) \<and>
     (\<exists>mbox rest0 flags rest n. append_target args = Some (mbox, rest0) \<and> mbox \<noteq> [] \<and> append_opts rest0 = (flags, rest) \<and>
        rest \<noteq> [] \<and> hd rest = CHR ''{'' \<and> last rest = CHR ''}'' \<and> literal_size rest = Some n \<and>
        (n > 2 ^ 63 - 1 \<and> e = Length_error \<or> n \<le> 2 ^ 63 - 1 \<and> \<not> can_reserve E n \<and> e = Bad_alloc))"
    (is "?L \<longleftrightarrow> _ \<and> _ \<and> ?R")
proof -
  have r: "cmd_append E tag args s = Inl e \<longleftrightarrow> ?R"
    by (auto simp: cmd_append_def split: option.split prod.split)
  have "dispatch E tag command args s = Inl e \<longleftrightarrow>
      command = ''APPEND'' \<and> (state s = Authenticated \<or> state s = Selected) \<and> cmd_append E tag args s = Inl e"
  proof (cases "command = ''APPEND''")
    case True
    then show ?thesis by (cases "state s") (simp_all add: dispatch_def)
  next
    case False
    have "\<exists>s'. dispatch E tag command args s = Inr s'"
      unfolding dispatch_def if_not_P[OF False] by (rule if_result[where P = "\<lambda>r. \<exists>s'. r = Inr s'"]; (rule exI, rule refl)?)+
    with False show ?thesis by auto
  qed
  with r show ?thesis by simp
qed

section \<open>Concrete sessions\<close>

text \<open>Two accounts \<^verbatim>\<open>bob\<close> and \<^verbatim>\<open>eve\<close>, both with the password \<^verbatim>\<open>p\<close>.\<close>

definition imap_user :: "string \<Rightarrow> user_row" where
  "imap_user u = sample_user\<lparr>u_username := u, u_hash := Some ''70''\<rparr>"

definition imap_world :: world where
  "imap_world = \<lparr>w_db = ensure_schema\<lparr>users := [imap_user ''bob'', imap_user ''eve'']\<rparr>, w_fs = sample_mail, w_tick = 0\<rparr>"

lemma sample_salt: "\<exists>bs. derive_salt sample_crypto u = Inr (concat (map (\<lambda>i. hex2 1) [0..<16])) \<and>
    read_salt (concat (map (\<lambda>i. hex2 1) [0..<16])) [0..<16] = Inr bs"
proof -
  have "derive_salt sample_crypto u = Inr (concat (map (\<lambda>i. hex2 1) [0..<16]))"
    by (simp add: derive_salt_def sample_crypto_def)
  from read_derived_salt(1)[OF this] this show ?thesis by blast
qed

lemma imap_user_verified:
  assumes "u = ''bob'' \<or> u = ''eve''"
  shows "fst (verify sample_crypto (w_db imap_world) u ''p'' ip)"
proof -
  have safe: "list_all safe_char u" "u \<noteq> []" using assms by (auto simp: safe_char_def isalnum_def)
  obtain bs where bs: "derive_salt sample_crypto u = Inr (concat (map (\<lambda>i. hex2 1) [0..<16]))"
    "read_salt (concat (map (\<lambda>i. hex2 1) [0..<16])) [0..<16] = Inr bs" using sample_salt by blast
  obtain h where h: "hash_data sample_crypto ip 100000 = Inr h" using sample_salt[of ip] by (auto simp: hash_data_def)
  have x: "hex2 (of_nat (of_char CHR ''p'')) = ''70''" by code_simp
  have "pbkdf2 sample_crypto ''p'' (concat (map (\<lambda>i. hex2 1) [0..<16])) 100000 = Inr ''70''"
    using bs(2) x by (simp add: pbkdf2_def) (simp add: sample_crypto_def)
  moreover have "find (\<lambda>r. u_username r = u \<and> u_active r = 1) (users (w_db imap_world)) = Some (imap_user u)"
    using assms by (auto simp: imap_world_def imap_user_def sample_user_def)
  moreover have "prep_ok (w_db imap_world)" by (simp add: imap_world_def ensure_schema_def)
  ultimately show ?thesis unfolding verify_iff using safe bs(1) h
    by (simp add: imap_user_def sample_user_def col_int_def)
qed

lemma imap_sample_user: "u = ''bob'' \<or> u = ''eve'' \<Longrightarrow> verified_user sample_imap imap_world u"
  using imap_user_verified[of u "remote_ip sample_imap"] by (auto simp: verified_user_def sample_imap_def)


theorem uid_means_last_message_witness:
  "parse_sequence_set [\<lparr>m_uuid = 1700000000, m_seq = 1, m_filename = ''a'', m_flags = [], m_size = 3, m_in_cur = True\<rparr>,
     \<lparr>m_uuid = 1700000007, m_seq = 2, m_filename = ''b'', m_flags = [], m_size = 3, m_in_cur = True\<rparr>] (dec 1700000000) = [2]"
  by (subst uid_means_last_message) simp_all

text \<open>A session of \<^verbatim>\<open>bob\<close> with the inbox open.\<close>

definition sample_msg :: message_meta where
  "sample_msg = \<lparr>m_uuid = 9, m_seq = 1, m_filename = ''9.x'', m_flags = Deleted, m_size = 5, m_in_cur = False\<rparr>"

definition sample_session :: imap where
  "sample_session = (imap_new 0 imap_world)\<lparr>state := Selected, username := ''bob'', selected_mailbox := ''INBOX'',
     messages := [sample_msg]\<rparr>"

lemma sample_session_simps [simp]: "state sample_session = Selected" "\<not> auth_pending sample_session"
  "\<not> tls_upgrade_pending sample_session" "line_buf sample_session = []" "\<not> read_only sample_session"
  "messages sample_session = [sample_msg]" "literal_buf sample_session = []" "username sample_session = ''bob''"
  by (simp_all add: sample_session_def imap_new_def answers)

theorem on_data_bytewise_witness:
  "imap_on_data sample_imap sample_session ''x'' = run_bytes sample_imap sample_session ''x''"
  by (rule on_data_bytewise) simp

theorem imap_chunks_witness:
  "imap_on_data sample_imap sample_session (''a NO'' @ ''OP'' @ crlf) =
   imap_read sample_imap (imap_on_data sample_imap sample_session ''a NO'') (''OP'' @ crlf)"
  by (rule imap_chunks) simp_all

theorem read_only_safe_witness:
  "messages (cmd_expunge sample_imap ''a'' (sample_session\<lparr>read_only := True\<rparr>)) = [sample_msg]"
  using read_only_safe[of "sample_session\<lparr>read_only := True\<rparr>" sample_imap "''a''" "[]"] by simp

theorem expunge_spec_witness: "messages (cmd_expunge sample_imap ''a'' sample_session) = []"
proof -
  have "is_deleted sample_msg" by code_simp
  then show ?thesis using expunge_spec[of sample_session sample_imap "''a''"] by simp
qed


lemma sample_append: "\<exists>s'. cmd_append sample_imap ''a'' ''Sent {0}'' sample_session = Inr s' \<and> literal_pending s' \<and> literal_remaining s' = 0"
  by (simp add: cmd_append_def append_target_def append_opts_def trim_ws_def literal_size_def from_chars_def isdigit_def
      digits_val_def digit_val_def sample_imap_def Let_def)

theorem append_empty_hangs_witness:
  "\<exists>s'. cmd_append sample_imap ''a'' ''Sent {0}'' sample_session = Inr s' \<and> imap_on_data sample_imap s' crlf = Inr s'"
  using sample_append append_empty_hangs[of sample_imap "''a''" "''Sent {0}''" sample_session] by auto

lemma imap_sample_login:
  "\<exists>s. imap_on_data sample_imap (imap_new 0 imap_world) (''a LOGIN bob p'' @ crlf) = Inr s \<and>
     username s = ''bob'' \<and> [''m'', ''bob'', ''.Sent''] \<in> dirs (w_fs (wrld s))"
proof -
  let ?s = "imap_new 0 imap_world" and ?l = "''a LOGIN bob p'' @ [CR]"
  let ?s1 = "?s\<lparr>line_buf := ''a LOGIN bob p''\<rparr>"
  have f: "state ?s = NotAuthenticated" "line_buf ?s = []" "\<not> auth_pending ?s" "\<not> literal_pending ?s"
    "\<not> tls_upgrade_pending ?s" "wrld ?s = imap_world"
    by (simp_all add: imap_new_def answers)
  have "imap_on_data sample_imap ?s (?l @ [LF]) = imap_bytes sample_imap ?s (?l @ [LF])"
    using f(4) by (simp add: imap_on_data_def drain_def)
  also have "\<dots> = imap_bytes sample_imap (?s\<lparr>line_buf := ?l\<rparr>) [LF]"
    using imap_line[of ?l ?s sample_imap] f(2) by simp
  finally have 1: "imap_on_data sample_imap ?s (?l @ [LF]) = imap_bytes sample_imap (?s\<lparr>line_buf := ?l\<rparr>) [LF]" .
  have v: "imap_verify sample_imap ?s1 ''bob'' ''p''"
    using imap_user_verified[of "''bob''"] f(6) by (simp add: imap_verify_def sample_imap_def)
  have "imap_process_line sample_imap ''a LOGIN bob p'' ?s1 = dispatch sample_imap ''a'' ''LOGIN'' ''bob p'' ?s1"
    using f(3) by (simp add: imap_process_line_def next_token_def isspace_def rest_line_def strip_blank_def toupper_def)
  also have "\<dots> = Inr (cmd_login sample_imap ''a'' ''bob p'' ?s1)"
    using f(1) by (simp add: dispatch_def not_authenticated_def)
  also have "cmd_login sample_imap ''a'' ''bob p'' ?s1 = ok ''a'' ''[CAPABILITY IMAP4rev1] LOGIN completed''
      (ensure_standard_folders sample_imap (?s1\<lparr>username := ''bob'', state := Authenticated\<rparr>))"
    using v by (simp add: cmd_login_def next_token_def isspace_def unquote_def before_at_def)
  finally have p: "imap_process_line sample_imap ''a LOGIN bob p'' ?s1 = Inr (ok ''a'' ''[CAPABILITY IMAP4rev1] LOGIN completed''
      (ensure_standard_folders sample_imap (?s1\<lparr>username := ''bob'', state := Authenticated\<rparr>)))" .
  define s2 where "s2 = ensure_standard_folders sample_imap (?s1\<lparr>username := ''bob'', state := Authenticated\<rparr>)"
  have s2: "username s2 = ''bob''" "\<not> tls_upgrade_pending s2" "\<not> literal_pending s2"
    using f by (simp_all add: s2_def ensure_standard_folders_def)
  have "sys_mkdir sample_imap d w = w\<lparr>w_tick := w_tick w + 1, w_fs := (w_fs w)\<lparr>dirs := insert (path_of sample_imap d) (dirs (w_fs w))\<rparr>\<rparr>"
    for d w by (simp add: sys_mkdir_def sample_imap_def Let_def)
  moreover have "path_of sample_imap (mailbox_base sample_imap ''bob'' ''Sent'') = [''m'', ''bob'', ''.Sent'']"
    by (simp add: sample_imap_eval)
  ultimately have d: "[''m'', ''bob'', ''.Sent''] \<in> dirs (w_fs (wrld s2))"
    by (simp add: s2_def ensure_standard_folders_def ensure_mailbox_dirs_def Let_def)
  have e: "end_line sample_imap (?s\<lparr>line_buf := ?l\<rparr>) = Inr ((ok ''a'' ''[CAPABILITY IMAP4rev1] LOGIN completed'' s2)\<lparr>line_buf := []\<rparr>)"
    using p by (simp add: end_line_def strip_cr_def s2_def)
  have "imap_on_data sample_imap ?s (?l @ [LF]) = Inr ((ok ''a'' ''[CAPABILITY IMAP4rev1] LOGIN completed'' s2)\<lparr>line_buf := []\<rparr>)"
    unfolding 1 imap_bytes.simps e using s2 by (simp add: answers drain_def)
  then show ?thesis using s2 d by (simp add: answers)
qed

theorem imap_writes_need_login_witness:
  "\<exists>s. foldl (imap_read sample_imap) (Inr (imap_new 0 imap_world)) [''a LOGIN bob p'' @ crlf] = Inr s \<and>
     (\<exists>p. fst (verify (crypt sample_imap) (w_db imap_world) (username s) p (remote_ip sample_imap)))"
proof -
  obtain s where s: "imap_on_data sample_imap (imap_new 0 imap_world) (''a LOGIN bob p'' @ crlf) = Inr s"
    "[''m'', ''bob'', ''.Sent''] \<in> dirs (w_fs (wrld s))" using imap_sample_login by blast
  have r: "foldl (imap_read sample_imap) (Inr (imap_new 0 imap_world)) [''a LOGIN bob p'' @ crlf] = Inr s"
    using s(1) by (simp add: imap_read_def)
  have "w_fs (wrld s) \<noteq> w_fs imap_world" using s(2) by (auto simp: imap_world_def sample_mail_def)
  from imap_writes_need_login[OF r this] r show ?thesis by blast
qed

end
