(* ===== verification/Imap_Login.thy ===== *)
theory Imap_Login
  imports Imap_Session
begin

text \<open>
  Who gets into an IMAP session: a client has to send a password that the credential store accepts. Until a line with
  such a password arrives the session stays locked: not logged in, with the file system untouched.
\<close>

section \<open>The credentials in a line\<close>

text \<open>The user name and password that a line can present: as the arguments of \<^verbatim>\<open>LOGIN\<close>, as the initial response of
  \<^verbatim>\<open>AUTHENTICATE PLAIN\<close>, or as the answer to its challenge.\<close>

definition plain_pairs :: "imap_env \<Rightarrow> string \<Rightarrow> (string \<times> string) list" where
  "plain_pairs E b64 = (case split_plain (plain_decode E b64) of None \<Rightarrow> [] | Some (u, p) \<Rightarrow> [(before_at u, p)])"

definition login_pairs :: "imap_env \<Rightarrow> string \<Rightarrow> (string \<times> string) list" where
  "login_pairs E line =
     (let args = strip_blank (rest_line (snd (next_token (snd (next_token line)))));
          t1 = fst (next_token args); t2 = fst (next_token (snd (next_token args)))
      in (before_at (unquote t1), unquote t2) # plain_pairs E t2 @ plain_pairs E line)"

definition accepts :: "imap_env \<Rightarrow> world \<Rightarrow> string \<Rightarrow> bool" where
  "accepts E w line \<longleftrightarrow> list_ex (\<lambda>(u, p). fst (verify (crypt E) (w_db w) u p (remote_ip E))) (login_pairs E line)"

section \<open>A locked session\<close>

definition locked :: "world \<Rightarrow> imap \<Rightarrow> bool" where
  "locked w0 s \<longleftrightarrow> (state s = NotAuthenticated \<or> state s = Logout) \<and> \<not> literal_pending s \<and> w_fs (wrld s) = w_fs w0 \<and> w_db (wrld s) = w_db w0"

lemma locked_fields [simp]:
  "locked w0 (send l s) = locked w0 s" "locked w0 (s\<lparr>line_buf := b\<rparr>) = locked w0 s" "locked w0 (s\<lparr>auth_pending := p\<rparr>) = locked w0 s"
  "locked w0 (s\<lparr>auth_pending := p, auth_tag := t\<rparr>) = locked w0 s" "locked w0 (s\<lparr>tls_upgrade_pending := p\<rparr>) = locked w0 s"
  "locked w0 (s\<lparr>calls := ks\<rparr>) = locked w0 s"
  by (simp_all add: locked_def send_def)

lemma locked_answers [simp]: "locked w0 (ok t m s) = locked w0 s" "locked w0 (no t m s) = locked w0 s" "locked w0 (bad t m s) = locked w0 s"
  "locked w0 (untagged m s) = locked w0 s"
  by (simp_all add: answers)

lemma refused: "list_ex (\<lambda>(u, p). fst (verify (crypt E) (w_db w0) u p (remote_ip E))) ps = False \<Longrightarrow> (u, p) \<in> set ps \<Longrightarrow> locked w0 s \<Longrightarrow>
    \<not> imap_verify E s u p"
  by (auto simp: list_ex_iff imap_verify_def locked_def)

lemma locked_plain: "locked w0 s \<Longrightarrow> list_ex (\<lambda>(u, p). fst (verify (crypt E) (w_db w0) u p (remote_ip E))) (plain_pairs E b64) = False \<Longrightarrow>
    locked w0 (complete_plain_auth E tag b64 s)"
  using refused[of E w0 "plain_pairs E b64" _ _ s]
  by (auto simp: complete_plain_auth_def plain_pairs_def Let_def split: option.splits)

lemma locked_line:
  assumes "locked w0 s" "\<not> accepts E w0 line" "imap_process_line E line s = Inr s'"
  shows "locked w0 s'"
proof -
  obtain tag r1 where 1: "next_token line = (tag, r1)" by fastforce
  obtain command r2 where 2: "next_token r1 = (command, r2)" by fastforce
  obtain t1 r3 where 3: "next_token (strip_blank (rest_line r2)) = (t1, r3)" by fastforce
  obtain t2 r4 where 4: "next_token r3 = (t2, r4)" by fastforce
  let ?ex = "list_ex (\<lambda>(u, p). fst (verify (crypt E) (w_db w0) u p (remote_ip E)))"
  have n: "?ex [(before_at (unquote t1), unquote t2)] = False" "?ex (plain_pairs E t2) = False" "?ex (plain_pairs E line) = False"
    using assms(2) by (auto simp: accepts_def login_pairs_def 1 2 3 4 Let_def)
  have v: "\<not> imap_verify E s (before_at (unquote t1)) (unquote t2)" using refused[OF n(1) _ assms(1)] by simp
  have "locked w0 (cmd_login E tag (strip_blank (rest_line r2)) s)" using assms(1) v by (simp add: cmd_login_def 3 4 Let_def)
  moreover have "locked w0 (cmd_auth E tag (strip_blank (rest_line r2)) s)"
    using assms(1) locked_plain[OF assms(1) n(2)] by (simp add: cmd_auth_def 3 4)
  moreover have "locked w0 (imap_starttls tag s)" using assms(1) by (simp add: imap_starttls_def Let_def)
  moreover have st: "state s = NotAuthenticated \<or> state s = Logout" using assms(1) by (simp add: locked_def)
  then have "locked w0 (cmd_capability tag s)" "locked w0 (imap_noop E tag s)"
    using assms(1) by (auto simp: cmd_capability_def imap_noop_def)
  moreover have "locked w0 (cmd_logout tag s)" using assms(1) by (auto simp: cmd_logout_def locked_def answers send_def Let_def)
  moreover have "locked w0 (selected_command E tag (upper command) (strip_blank (rest_line r2)) s)"
    using assms(1) st by (auto simp: selected_command_def)
  moreover have "locked w0 (complete_plain_auth E (auth_tag s) line (s\<lparr>auth_pending := False\<rparr>))"
    using locked_plain[of w0 "s\<lparr>auth_pending := False\<rparr>", OF _ n(3)] assms(1) by simp
  moreover have "\<not> literal_pending s" using assms(1) by (simp add: locked_def)
  ultimately show ?thesis using assms(1,3) st
    by (auto simp: imap_process_line_def 1 2 dispatch_def not_authenticated_def split: if_splits)
qed

section \<open>The bytes a session has read\<close>

text \<open>The line buffer of a locked session is the end of what the client sent.\<close>

definition traced :: "world \<Rightarrow> string \<Rightarrow> imap \<Rightarrow> bool" where
  "traced w0 seen s \<longleftrightarrow> locked w0 s \<and> suffix (line_buf s) seen"

lemma traced_byte:
  assumes "traced w0 seen s" "\<And>l. sent_line l (seen @ [b]) \<Longrightarrow> \<not> accepts E w0 l" "imap_byte E s b = Inr s'"
  shows "traced w0 (seen @ [b]) s'"
proof (cases "b = LF")
  case True
  have nl: "\<not> in_literal s" using assms(1) by (simp add: traced_def locked_def in_literal_def)
  let ?l = "strip_cr (line_buf s)"
  obtain t where t: "imap_process_line E ?l (s\<lparr>line_buf := ?l\<rparr>) = Inr t" "s' = t\<lparr>line_buf := []\<rparr>"
    using assms(3) True nl by (auto simp: imap_byte_def end_line_def split: sum.splits)
  have "\<not> accepts E w0 ?l" using assms(1) line_sent True by (auto simp: traced_def intro!: assms(2))
  then have "locked w0 t" using locked_line[of w0 "s\<lparr>line_buf := ?l\<rparr>" E ?l t] t(1) assms(1) by (simp add: traced_def)
  then show ?thesis using t(2) by (simp add: traced_def)
next
  case False
  have "\<not> in_literal s" using assms(1) by (simp add: traced_def locked_def in_literal_def)
  then have "s' = line_byte b s" using assms(3) False by (simp add: imap_byte_def)
  then show ?thesis using assms(1) by (auto simp: traced_def line_byte_def Let_def suffix_snoc)
qed

lemma upgrade_at_line:
  assumes "imap_byte E s b = Inr s'" "tls_upgrade_pending s'" "\<not> tls_upgrade_pending s" "\<not> in_literal s"
  shows "line_buf s' = []"
  using assms by (cases "b = LF") (auto simp: imap_byte_def end_line_def line_byte_def Let_def answers send_def split: sum.splits if_splits)

lemma traced_run:
  "run_bytes E s bs = Inr s' \<Longrightarrow> traced w0 seen s \<Longrightarrow> \<not> tls_upgrade_pending s \<Longrightarrow> (\<And>l. sent_line l (seen @ bs) \<Longrightarrow> \<not> accepts E w0 l) \<Longrightarrow>
     traced w0 (seen @ bs) s'"
proof (induction bs arbitrary: s seen)
  case (Cons b bs)
  obtain s1 where s1: "imap_byte E s b = Inr s1" using Cons.prems(1) by (auto split: sum.splits)
  have sub: "sent_line l (seen @ b # bs)" if "sent_line l (seen @ [b])" for l
    using sent_line_more[OF that, of bs] by simp
  have t: "traced w0 (seen @ [b]) s1" by (rule traced_byte[OF Cons.prems(2) _ s1]) (use Cons.prems(4) sub in blast)
  have nl: "\<not> in_literal s" using Cons.prems(2) by (simp add: traced_def locked_def in_literal_def)
  show ?case
  proof (cases "tls_upgrade_pending s1")
    case True
    then have "s' = s1\<lparr>tls_upgrade_pending := False\<rparr>" using Cons.prems(1) s1 by simp
    then show ?thesis using t upgrade_at_line[OF s1 True Cons.prems(3) nl] by (simp add: traced_def)
  next
    case False
    then have "run_bytes E s1 bs = Inr s'" using Cons.prems(1) s1 by simp
    from Cons.IH[OF this t False] Cons.prems(4) show ?thesis by simp
  qed
qed simp

lemma traced_reads:
  "foldl (imap_read E) (Inr s) reads = Inr s' \<Longrightarrow> traced w0 seen s \<Longrightarrow> \<not> tls_upgrade_pending s \<Longrightarrow>
     (\<And>l. sent_line l (seen @ concat reads) \<Longrightarrow> \<not> accepts E w0 l) \<Longrightarrow> traced w0 (seen @ concat reads) s'"
proof (induction reads arbitrary: s seen)
  case (Cons r reads)
  have stop: "foldl (imap_read E) (Inl e) rs = Inl e" for e rs by (induction rs) (simp_all add: imap_read_def)
  obtain s1 where s1: "imap_on_data E s r = Inr s1" "foldl (imap_read E) (Inr s1) reads = Inr s'"
    using Cons.prems(1) stop by (cases "imap_on_data E s r") (auto simp: imap_read_def[of E "Inr s" r])
  have "run_bytes E s r = Inr s1" using s1(1) Cons.prems(3) by (simp add: on_data_run)
  moreover have "\<not> accepts E w0 l" if "sent_line l (seen @ r)" for l
    using sent_line_more[OF that, of "concat reads"] Cons.prems(4)[of l] by simp
  ultimately have "traced w0 (seen @ r) s1" "\<not> tls_upgrade_pending s1"
    using traced_run[OF _ Cons.prems(2,3)] run_bytes_tls[OF Cons.prems(3)] by blast+
  from Cons.IH[OF s1(2) this] Cons.prems(4) show ?case by simp
qed simp

text \<open>
  C6. No access without the password: if an IMAP session has logged in, or if any file differs from when the connection began, then the client has sent
  a line with a user name and a password for it that the credential store accepts from the address of the client.
\<close>

theorem imap_password_presented:
  assumes "foldl (imap_read E) (Inr (imap_new n w0)) reads = Inr s"
    "w_fs (wrld s) \<noteq> w_fs w0 \<or> state s = Authenticated \<or> state s = Selected"
  shows "\<exists>l u p. sent_line l (concat reads) \<and> (u, p) \<in> set (login_pairs E l) \<and> fst (verify (crypt E) (w_db w0) u p (remote_ip E))"
proof (rule ccontr)
  assume no: "\<not> (\<exists>l u p. sent_line l (concat reads) \<and> (u, p) \<in> set (login_pairs E l) \<and> fst (verify (crypt E) (w_db w0) u p (remote_ip E)))"
  have "traced w0 [] (imap_new n w0)" "\<not> tls_upgrade_pending (imap_new n w0)"
    by (simp_all add: traced_def locked_def imap_new_def answers send_def)
  from traced_reads[OF assms(1) this] no have "traced w0 (concat reads) s" by (auto simp: accepts_def list_ex_iff)
  then show False using assms(2) by (auto simp: traced_def locked_def)
qed

theorem imap_password_presented_witness:
  "\<exists>l u p. sent_line l (''a LOGIN bob p'' @ crlf) \<and> (u, p) \<in> set (login_pairs sample_imap l) \<and>
     fst (verify (crypt sample_imap) (w_db imap_world) u p (remote_ip sample_imap))"
proof -
  obtain s where s: "imap_on_data sample_imap (imap_new 0 imap_world) (''a LOGIN bob p'' @ crlf) = Inr s"
    "[''m'', ''bob'', ''.Sent''] \<in> dirs (w_fs (wrld s))" using imap_sample_login by blast
  have r: "foldl (imap_read sample_imap) (Inr (imap_new 0 imap_world)) [''a LOGIN bob p'' @ crlf] = Inr s"
    using s(1) by (simp add: imap_read_def)
  have "w_fs (wrld s) \<noteq> w_fs imap_world" using s(2) by (auto simp: imap_world_def sample_mail_def)
  then show ?thesis using imap_password_presented[OF r] by simp
qed

end
