(* ===== verification/Tls_Conn.thy ===== *)
theory Tls_Conn
  imports Prelude
begin

text \<open>
  \<^verbatim>\<open>src/tls/tls_conn.cpp\<close>: one TLS connection on two memory buffers. OpenSSL's connection object is a
  value of a type parameter with the operations of the record \<open>ssl_lib\<close>, each of which also returns
  what it wrote to the output buffer. The plain text is handed to a callback while \<^verbatim>\<open>feed_encryption\<close> runs,
  and the callback may use the same connection to answer; so the operation works on a context
  \<open>'c\<close> that holds the connection (\<open>get\<close>, \<open>put\<close>). The read loop may not end, since OpenSSL may ask to be called
  again; it is a partial function.
\<close>

datatype ssl_read = Plain_text string | Want_read | Zero_return | Want_write | Want_x509_lookup | Read_error

record 'x ssl_lib =
  bio_write_in :: "'x \<Rightarrow> string \<Rightarrow> 'x option"
  ssl_do_read :: "'x \<Rightarrow> ssl_read \<times> 'x \<times> string"
  ssl_do_write :: "'x \<Rightarrow> string \<Rightarrow> bool \<times> 'x \<times> string"
  ssl_do_handshake :: "'x \<Rightarrow> bool \<times> 'x \<times> string"

record 'x tls_conn =
  ssl :: 'x
  wbio :: string
  handshake_done :: bool

definition tls_new :: "'x \<Rightarrow> 'x tls_conn" where
  "tls_new x = \<lparr>ssl = x, wbio = [], handshake_done = False\<rparr>"

section \<open>Operations\<close>

text \<open>\<^verbatim>\<open>BIO_read\<close> of at most 4096 bytes until the buffer is empty.\<close>

function drain_loop :: "string \<Rightarrow> string \<Rightarrow> string" where
  "drain_loop out w = (if w = [] then out else drain_loop (out @ take 4096 w) (drop 4096 w))"
  by pat_completeness auto
termination
  by (relation "measure (\<lambda>(out, w). length w)") auto

declare drain_loop.simps [simp del]

definition drain_wbio :: "'x tls_conn \<Rightarrow> string \<times> 'x tls_conn" where
  "drain_wbio t = (drain_loop [] (wbio t), t\<lparr>wbio := []\<rparr>)"

definition drive_handshake :: "'x ssl_lib \<Rightarrow> 'x tls_conn \<Rightarrow> string \<times> 'x tls_conn" where
  "drive_handshake L t =
     (case ssl_do_handshake L (ssl t) of (ret, x, w) \<Rightarrow>
        (case drain_wbio (t\<lparr>ssl := x, wbio := wbio t @ w\<rparr>) of (out, t1) \<Rightarrow>
           (out, if ret then t1\<lparr>handshake_done := True\<rparr> else t1)))"

text \<open>The result of \<^verbatim>\<open>encrypt\<close>, or its exception, and the connection afterwards.\<close>

definition encrypt :: "'x ssl_lib \<Rightarrow> string \<Rightarrow> 'x tls_conn \<Rightarrow> string cpp \<times> 'x tls_conn" where
  "encrypt L plain t =
     (if \<not> handshake_done t then (Inl (Logic_error ''TlsConn::encrypt called before handshake''), t)
      else (case ssl_do_write L (ssl t) plain of (ret, x, w) \<Rightarrow>
        let t1 = t\<lparr>ssl := x, wbio := wbio t @ w\<rparr>
        in if \<not> ret then (Inl (Runtime_error ''SSL_write failed''), t1)
           else (case drain_wbio t1 of (out, t2) \<Rightarrow> (Inr out, t2))))"

text \<open>The loop around \<^verbatim>\<open>SSL_read\<close>. If a callback removes the connection the code goes on with a freed object.\<close>

partial_function (option) read_loop ::
  "'x ssl_lib \<Rightarrow> ('c \<Rightarrow> 'x tls_conn option) \<Rightarrow> ('x tls_conn \<Rightarrow> 'c \<Rightarrow> 'c) \<Rightarrow> ('c \<Rightarrow> string \<Rightarrow> 'c run) \<Rightarrow> 'c
     \<Rightarrow> ('c run \<times> string) option" where
  "read_loop L get put cb c =
     (case get c of None \<Rightarrow> Some ((c, Some Undefined_behaviour), [])
      | Some t \<Rightarrow>
         (case ssl_do_read L (ssl t) of (r, x, w) \<Rightarrow>
            let t1 = t\<lparr>ssl := x, wbio := wbio t @ w\<rparr>
            in (case r of
                  Plain_text p \<Rightarrow>
                    (case cb (put t1 c) p of (c2, Some e) \<Rightarrow> Some ((c2, Some e), []) | (c2, None) \<Rightarrow> read_loop L get put cb c2)
                | Want_read \<Rightarrow> Some ((put t1 c, None), [])
                | Zero_return \<Rightarrow> Some ((put t1 c, None), [])
                | Want_write \<Rightarrow> (case drain_wbio t1 of (out, t2) \<Rightarrow> Some ((put t2 c, None), out))
                | Want_x509_lookup \<Rightarrow> read_loop L get put cb (put t1 c)
                | Read_error \<Rightarrow> Some ((put t1 c, None), []))))"

text \<open>The output buffer is emptied after the loop.\<close>

definition finish_feed ::
  "('c \<Rightarrow> 'x tls_conn option) \<Rightarrow> ('x tls_conn \<Rightarrow> 'c \<Rightarrow> 'c) \<Rightarrow> 'c run \<times> string \<Rightarrow> 'c run \<times> string" where
  "finish_feed get put r =
     (case r of ((c, Some e), pending_cipher) \<Rightarrow> ((c, Some e), [])
      | ((c, None), pending_cipher) \<Rightarrow>
          (case get c of None \<Rightarrow> ((c, Some Undefined_behaviour), [])
           | Some t \<Rightarrow> (case drain_wbio t of (out, t1) \<Rightarrow> ((put t1 c, None), pending_cipher @ out))))"

definition feed_encryption ::
  "'x ssl_lib \<Rightarrow> ('c \<Rightarrow> 'x tls_conn option) \<Rightarrow> ('x tls_conn \<Rightarrow> 'c \<Rightarrow> 'c) \<Rightarrow> ('c \<Rightarrow> string \<Rightarrow> 'c run) \<Rightarrow> string \<Rightarrow> 'c
     \<Rightarrow> ('c run \<times> string) option" where
  "feed_encryption L get put cb cipher_in c =
     (case get c of None \<Rightarrow> Some ((c, Some Undefined_behaviour), [])
      | Some t \<Rightarrow>
         (case (if cipher_in \<noteq> [] then bio_write_in L (ssl t) cipher_in else Some (ssl t)) of
            None \<Rightarrow> Some ((c, Some (Runtime_error ''BIO_write to rbio failed'')), [])
          | Some x \<Rightarrow>
              let t1 = t\<lparr>ssl := x\<rparr>
              in if \<not> handshake_done t1 then (case drive_handshake L t1 of (out, t2) \<Rightarrow> Some ((put t2 c, None), out))
                 else map_option (finish_feed get put) (read_loop L get put cb (put t1 c))))"

section \<open>Draining\<close>

lemma drain_loop_all: "drain_loop out w = out @ w"
proof (induction out w rule: drain_loop.induct)
  case (1 out w)
  then show ?case by (subst drain_loop.simps) (simp add: append_assoc[symmetric] del: append_assoc, simp)
qed

lemma drain_wbio_all: "drain_wbio t = (wbio t, t\<lparr>wbio := []\<rparr>)"
  by (simp add: drain_wbio_def drain_loop_all)

text \<open>
  C23. Before the handshake is finished no byte from the network reaches the session, whatever the session would do
  with it, also not in the call that finishes the handshake: data the client sent right behind its
  last handshake message stays in OpenSSL until the next read.
\<close>

theorem handshake_no_plaintext:
  assumes "get c = Some t" "\<not> handshake_done t"
  shows "feed_encryption L get put cb d c = feed_encryption L get put cb' d c"
  using assms by (simp add: feed_encryption_def Let_def split: option.split)

section \<open>The read loop ends\<close>

text \<open>
  OpenSSL's side of termination: \<open>m\<close> bounds the answers still to come. A record read lowers it, a
  request to call again lowers it, and what the callback does to the connection does not raise it.
\<close>

lemma read_loop_ends:
  assumes read: "\<And>x r x' w. ssl_do_read L x = (r, x', w) \<Longrightarrow>
      (\<exists>p. r = Plain_text p) \<or> r = Want_x509_lookup \<Longrightarrow> m x' < (m x :: nat)"
    and put: "\<And>t c. get (put t c) = Some t"
    and cb: "\<And>c p c' t t'. cb c p = (c', None) \<Longrightarrow> get c = Some t \<Longrightarrow> get c' = Some t' \<Longrightarrow> m (ssl t') \<le> m (ssl t)"
  shows "\<exists>r. read_loop L get put cb c = Some r"
proof -
  have "\<exists>r. read_loop L get put cb c = Some r" if "get c = Some t" for c t
    using that
  proof (induction "m (ssl t)" arbitrary: c t rule: less_induct)
    case less
    obtain r x w where x: "ssl_do_read L (ssl t) = (r, x, w)" by (metis prod_cases3)
    let ?t = "t\<lparr>ssl := x, wbio := wbio t @ w\<rparr>"
    consider (again) "r = Want_x509_lookup" | (plain) p where "r = Plain_text p" | (stop) "r \<in> {Want_read, Zero_return, Want_write, Read_error}"
      by (cases r) auto
    then show ?case
    proof cases
      case again
      have "m (ssl ?t) < m (ssl t)" using read[OF x] again by simp
      then have "\<exists>r. read_loop L get put cb (put ?t c) = Some r" using less.hyps put by blast
      then show ?thesis using less.prems x again by (simp add: read_loop.simps[of L get put cb c])
    next
      case (plain p)
      have lt: "m (ssl ?t) < m (ssl t)" using read[OF x] plain by simp
      obtain c2 ex where c2: "cb (put ?t c) p = (c2, ex)" by fastforce
      have "\<exists>r. read_loop L get put cb c2 = Some r" if "ex = None"
      proof (cases "get c2")
        case None
        then show ?thesis by (simp add: read_loop.simps[of L get put cb c2])
      next
        case (Some t2)
        have "m (ssl t2) \<le> m (ssl ?t)" using cb[of "put ?t c" p c2 ?t t2] c2 that put Some by simp
        then show ?thesis using less.hyps[OF _ Some] lt by simp
      qed
      then show ?thesis using less.prems x plain c2
        by (cases ex) (simp_all add: read_loop.simps[of L get put cb c])
    next
      case stop
      then show ?thesis using less.prems x
        by (auto simp: read_loop.simps[of L get put cb c] Let_def split: prod.split)
    qed
  qed
  then show ?thesis
  proof (cases "get c")
    case None
    then show ?thesis by (simp add: read_loop.simps[of L get put cb c])
  qed blast
qed


section \<open>Invariants through the read loop\<close>

text \<open>
  What the callback keeps, the whole call keeps: \<open>P\<close> holds of the contexts between the calls, \<open>Q\<close> of those in
  which an exception was raised.
\<close>

definition outcome :: "('c \<Rightarrow> bool) \<Rightarrow> ('c \<Rightarrow> bool) \<Rightarrow> 'c run \<Rightarrow> bool" where
  "outcome P Q r \<longleftrightarrow> (case r of (c, None) \<Rightarrow> P c | (c, Some e) \<Rightarrow> e = Undefined_behaviour \<or> Q c)"

lemma outcome_simps [simp]: "outcome P Q (c, None) = P c" "outcome P Q (c, Some e) = (e = Undefined_behaviour \<or> Q c)"
  by (simp_all add: outcome_def)

lemma outcome_end: "P c \<Longrightarrow> Q c \<Longrightarrow> outcome P Q (c, ex)"
  by (cases ex) simp_all

lemma outcome_and_then: "outcome P Q r \<Longrightarrow> (\<And>s. P s \<Longrightarrow> outcome P Q (f s)) \<Longrightarrow> outcome P Q (and_then r f)"
  by (cases r; cases "snd r") auto

definition keeps_ctx :: "('c \<Rightarrow> bool) \<Rightarrow> ('c \<Rightarrow> bool) \<Rightarrow> ('c \<Rightarrow> 'x tls_conn option) \<Rightarrow> ('x tls_conn \<Rightarrow> 'c \<Rightarrow> 'c) \<Rightarrow> ('c \<Rightarrow> string \<Rightarrow> 'c run) \<Rightarrow> bool"
  where "keeps_ctx P Q get put cb \<longleftrightarrow>
     (\<forall>t c. P c \<longrightarrow> get c \<noteq> None \<longrightarrow> P (put t c)) \<and> (\<forall>c p. P c \<longrightarrow> outcome P Q (cb c p))"

lemma read_loop_keeps:
  assumes "read_loop L get put cb c = Some y" "keeps_ctx P Q get put cb" "P c"
  shows "outcome P Q (fst y)"
proof -
  have "keeps_ctx P Q get put cb \<longrightarrow> P c \<longrightarrow> outcome P Q (fst y)"
    using assms(1)
  proof (rule read_loop.raw_induct[rotated 1])
    fix rl :: "'b ssl_lib \<Rightarrow> ('a \<Rightarrow> 'b tls_conn option) \<Rightarrow> ('b tls_conn \<Rightarrow> 'a \<Rightarrow> 'a) \<Rightarrow> ('a \<Rightarrow> string \<Rightarrow> 'a run) \<Rightarrow> 'a \<Rightarrow> ('a run \<times> string) option"
      and L get put cb c y
    assume IH: "\<And>L get put cb c y. rl L get put cb c = Some y \<Longrightarrow> keeps_ctx P Q get put cb \<longrightarrow> P c \<longrightarrow> outcome P Q (fst y)"
      and y: "(case get c of None \<Rightarrow> Some ((c, Some Undefined_behaviour), [])
        | Some t \<Rightarrow> (case ssl_do_read L (ssl t) of (r, x, w) \<Rightarrow>
            let t1 = t\<lparr>ssl := x, wbio := wbio t @ w\<rparr>
            in (case r of
                  Plain_text p \<Rightarrow> (case cb (put t1 c) p of (c2, None) \<Rightarrow> rl L get put cb c2 | (c2, Some e) \<Rightarrow> Some ((c2, Some e), []))
                | Want_read \<Rightarrow> Some ((put t1 c, None), [])
                | Zero_return \<Rightarrow> Some ((put t1 c, None), [])
                | Want_write \<Rightarrow> (case drain_wbio t1 of (out, t2) \<Rightarrow> Some ((put t2 c, None), out))
                | Want_x509_lookup \<Rightarrow> rl L get put cb (put t1 c)
                | Read_error \<Rightarrow> Some ((put t1 c, None), [])))) = Some y"
    show "keeps_ctx P Q get put cb \<longrightarrow> P c \<longrightarrow> outcome P Q (fst y)"
    proof (intro impI)
      assume k: "keeps_ctx P Q get put cb" and P: "P c"
      show "outcome P Q (fst y)"
      proof (cases "get c")
        case None
        then show ?thesis using y by auto
      next
        case (Some t)
        obtain r x w where x: "ssl_do_read L (ssl t) = (r, x, w)" by (metis prod_cases3)
        have p: "P (put u c)" for u using k P Some by (simp add: keeps_ctx_def)
        have cb: "outcome P Q (cb (put u c) d)" for u d using k p by (simp add: keeps_ctx_def)
        show ?thesis
        proof (cases r)
          case (Plain_text d)
          let ?t = "t\<lparr>ssl := x, wbio := wbio t @ w\<rparr>"
          obtain c2 ex where c2: "cb (put ?t c) d = (c2, ex)" by fastforce
          show ?thesis
          proof (cases ex)
            case None
            then have "rl L get put cb c2 = Some y" "P c2" using y Some x Plain_text c2 cb[of ?t d] by simp_all
            then show ?thesis using IH k by blast
          next
            case (Some e)
            then show ?thesis using y \<open>get c = Some t\<close> x Plain_text c2 cb[of ?t d] by auto
          qed
        next
          case Want_x509_lookup
          then have "rl L get put cb (put (t\<lparr>ssl := x, wbio := wbio t @ w\<rparr>) c) = Some y" using y Some x by simp
          then show ?thesis using IH k p by blast
        qed (use y Some x p in \<open>auto split: prod.splits\<close>)
      qed
    qed
  qed
  with assms(2,3) show ?thesis by blast
qed

lemma feed_keeps:
  assumes "feed_encryption L get put cb d c = Some y" "keeps_ctx P Q get put cb" "P c" "\<And>c. P c \<Longrightarrow> Q c"
  shows "outcome P Q (fst y)"
proof (cases "get c")
  case (Some t)
  have p: "P (put u c')" if "P c'" "get c' \<noteq> None" for u c' using assms(2) that by (simp add: keeps_ctx_def)
  have f: "outcome P Q (fst (finish_feed get put r))" if "outcome P Q (fst r)" for r
  proof (cases r)
    case (Pair q out)
    obtain c' ex where q: "q = (c', ex)" by fastforce
    show ?thesis using that Pair q p[of c'] by (cases ex) (auto simp: finish_feed_def split: option.split prod.split)
  qed
  have l: "outcome P Q (fst r)" if "read_loop L get put cb (put u c) = Some r" for u r
    using read_loop_keeps[OF that assms(2)] p[OF assms(3)] Some by simp
  show ?thesis using assms(1,3) Some p[OF assms(3)] f l assms(4)
    by (auto simp: feed_encryption_def Let_def split: option.splits if_splits prod.splits)
qed (use assms in \<open>auto simp: feed_encryption_def\<close>)

text \<open>A sample engine: the state counts the records left to read.\<close>

definition sample_ssl :: "nat ssl_lib" where
  "sample_ssl = \<lparr>bio_write_in = (\<lambda>n d. Some (n + 1)), ssl_do_read = (\<lambda>n. if n = 0 then (Want_read, n, []) else (Plain_text ''x'', n - 1, [])),
     ssl_do_write = (\<lambda>n d. (True, n, d)), ssl_do_handshake = (\<lambda>n. (True, n, ''hello''))\<rparr>"

theorem handshake_no_plaintext_witness:
  "feed_encryption sample_ssl Some (\<lambda>t c. t) (\<lambda>c p. (c, None)) ''hi'' (tls_new 0) =
   feed_encryption sample_ssl Some (\<lambda>t c. t) (\<lambda>c p. (c, Some Out_of_range)) ''hi'' (tls_new 0)"
  by (rule handshake_no_plaintext, rule refl) (simp add: tls_new_def)


end
