(* ===== verification/Uring_Loop.thy ===== *)
theory Uring_Loop
  imports Tls_Conn Dns_Resolver "HOL-Library.AList"
begin

text \<open>
  \<^verbatim>\<open>src/io/io_uring_loop.cpp\<close>: the event loop of one port. Its maps are association lists. The kernel
  is a list of operations: \<open>submitted\<close> is the history of all that were given to the ring and
  \<open>outstanding\<close> the user data of those not yet completed; a completion is an event that carries
  the result and, for a read, the bytes. A session is a value with the operations of \<^verbatim>\<open>SMTP::ISession\<close>
  (record \<open>isession\<close>); it returns the calls it makes on the loop, which the loop carries out in order.
  \<open>shared\<close> is what the sessions of a port share. Exceptions keep the state in which they were
  raised (\<open>'st run\<close>), because \<^verbatim>\<open>on_read\<close> catches those of the TLS layer and goes on. A session that is destroyed
  while one of its own methods runs is undefined behaviour. Logging is left out.
\<close>

unbundle bit_operations_syntax

datatype op_type = Op_Accept | Op_Read | Op_Write | Op_Close | Op_Timer

fun op_code :: "op_type \<Rightarrow> 64 word" where
  "op_code Op_Accept = 0" | "op_code Op_Read = 1" | "op_code Op_Write = 2" | "op_code Op_Close = 3" | "op_code Op_Timer = 4"

definition encode_userdata :: "op_type \<Rightarrow> 64 word \<Rightarrow> 64 word" where
  "encode_userdata oper conn_id = push_bit 60 (op_code oper) OR (conn_id AND 0x0FFFFFFFFFFFFFFF)"

text \<open>A value outside the enumeration matches no case of the switch.\<close>

definition decode_op :: "64 word \<Rightarrow> op_type option" where
  "decode_op userdata = find (\<lambda>oper. op_code oper = drop_bit 60 userdata) [Op_Accept, Op_Read, Op_Write, Op_Close, Op_Timer]"

definition decode_conn_id :: "64 word \<Rightarrow> 64 word" where
  "decode_conn_id userdata = userdata AND 0x0FFFFFFFFFFFFFFF"

section \<open>State\<close>

datatype kernel_op = K_Accept | K_Recv int | K_Send int string | K_Timeout int

record conn_buffer =
  write_queue :: "string list"
  write_pending :: bool
  closing :: bool
  inflight :: int
  fd :: int

record ('w, 's) isession =
  s_on_data :: "bool \<Rightarrow> 'w \<Rightarrow> 's \<Rightarrow> string \<Rightarrow> 'w \<times> 's \<times> loop_call list \<times> cpp_exn option"
  s_wants_close :: "'s \<Rightarrow> bool"
  s_wants_tls :: "'s \<Rightarrow> bool"
  s_clear_tls :: "'s \<Rightarrow> 's"
  s_create :: "64 word \<Rightarrow> string \<Rightarrow> 'w \<Rightarrow> 's \<times> loop_call list"

record ('w, 's, 'x) loop_env =
  sess :: "('w, 's) isession"
  tls_lib :: "'x ssl_lib"
  tls_ctx :: bool
  new_server_ssl :: "'x option"
  sq_space :: "nat \<Rightarrow> bool"
  timer_action :: "nat \<Rightarrow> 'w \<Rightarrow> 'w"
  dns_completion :: "64 word \<Rightarrow> int \<Rightarrow> 'w \<Rightarrow> 'w"

record ('w, 's, 'x) uring =
  buffers :: "(64 word \<times> conn_buffer) list"
  sessions :: "(64 word \<times> 's) list"
  tls_conns :: "(64 word \<times> 'x tls_conn) list"
  next_conn_id :: "64 word"
  timers :: "(64 word \<times> int \<times> nat) list"
  timer_next_id :: "64 word"
  submitted :: "(64 word \<times> kernel_op) list"
  outstanding :: "64 word list"
  closed_fds :: "int list"
  shared :: 'w

definition buf :: "('w, 's, 'x) uring \<Rightarrow> 64 word \<Rightarrow> conn_buffer option" where
  "buf st c = map_of (buffers st) c"

definition put_buf :: "64 word \<Rightarrow> conn_buffer \<Rightarrow> ('w, 's, 'x) uring \<Rightarrow> ('w, 's, 'x) uring" where
  "put_buf c b st = st\<lparr>buffers := AList.update c b (buffers st)\<rparr>"

definition is_tls_active :: "('w, 's, 'x) uring \<Rightarrow> 64 word \<Rightarrow> bool" where
  "is_tls_active st c = (case map_of (tls_conns st) c of None \<Rightarrow> False | Some t \<Rightarrow> handshake_done t)"

section \<open>Operations on the ring\<close>

text \<open>\<^verbatim>\<open>get_sqe\<close>, the preparation of an entry and \<^verbatim>\<open>submit\<close>.\<close>

definition submit_sqe :: "('w, 's, 'x) loop_env \<Rightarrow> 64 word \<Rightarrow> kernel_op \<Rightarrow> ('w, 's, 'x) uring \<Rightarrow> ('w, 's, 'x) uring run" where
  "submit_sqe E ud oper st =
     (if sq_space E (length (submitted st))
      then (st\<lparr>submitted := submitted st @ [(ud, oper)], outstanding := outstanding st @ [ud]\<rparr>, None)
      else (st, Some (Runtime_error ''io_uring SQ Overflow - increase depth of the queue'')))"

definition arm_accept :: "('w, 's, 'x) loop_env \<Rightarrow> ('w, 's, 'x) uring \<Rightarrow> ('w, 's, 'x) uring run" where
  "arm_accept E st = submit_sqe E (encode_userdata Op_Accept 0) K_Accept st"

definition add_inflight :: "64 word \<Rightarrow> int \<Rightarrow> ('w, 's, 'x) uring \<Rightarrow> ('w, 's, 'x) uring" where
  "add_inflight c n st = (case buf st c of None \<Rightarrow> st | Some b \<Rightarrow> put_buf c (b\<lparr>inflight := inflight b + n\<rparr>) st)"

definition arm_read :: "('w, 's, 'x) loop_env \<Rightarrow> 64 word \<Rightarrow> ('w, 's, 'x) uring \<Rightarrow> ('w, 's, 'x) uring run" where
  "arm_read E c st =
     (case buf st c of None \<Rightarrow> (st, Some Undefined_behaviour)
      | Some b \<Rightarrow> and_then (submit_sqe E (encode_userdata Op_Read c) (K_Recv (fd b)) st) (\<lambda>st1. (add_inflight c 1 st1, None)))"

definition flush_write :: "('w, 's, 'x) loop_env \<Rightarrow> 64 word \<Rightarrow> ('w, 's, 'x) uring \<Rightarrow> ('w, 's, 'x) uring run" where
  "flush_write E c st =
     (case buf st c of None \<Rightarrow> (st, None)
      | Some b \<Rightarrow>
          if write_queue b = [] then (st, None)
          else and_then (submit_sqe E (encode_userdata Op_Write c) (K_Send (fd b) (hd (write_queue b)))
                           (put_buf c (b\<lparr>write_pending := True\<rparr>) st))
                 (\<lambda>st1. (add_inflight c 1 st1, None)))"

text \<open>A connection is only taken apart when none of its operations is outstanding.\<close>

definition submit_close :: "64 word \<Rightarrow> ('w, 's, 'x) uring \<Rightarrow> ('w, 's, 'x) uring" where
  "submit_close c st =
     (case buf st c of None \<Rightarrow> st
      | Some b \<Rightarrow>
          if inflight b > 0 then put_buf c (b\<lparr>closing := True\<rparr>) st
          else st\<lparr>buffers := AList.delete c (buffers st), sessions := AList.delete c (sessions st),
                  tls_conns := AList.delete c (tls_conns st), closed_fds := closed_fds st @ [fd b]\<rparr>)"

definition enqueue_write :: "('w, 's, 'x) loop_env \<Rightarrow> 64 word \<Rightarrow> string \<Rightarrow> ('w, 's, 'x) uring \<Rightarrow> ('w, 's, 'x) uring run" where
  "enqueue_write E c d st =
     (case buf st c of None \<Rightarrow> (st, None)
      | Some b \<Rightarrow>
          let st1 = put_buf c (b\<lparr>write_queue := write_queue b @ [d]\<rparr>) st
          in if \<not> write_pending b then flush_write E c st1 else (st1, None))"

definition put_tls :: "64 word \<Rightarrow> 'x tls_conn \<Rightarrow> ('w, 's, 'x) uring \<Rightarrow> ('w, 's, 'x) uring" where
  "put_tls c t st = st\<lparr>tls_conns := AList.update c t (tls_conns st)\<rparr>"

definition submit_write ::
  "('w, 's, 'x) loop_env \<Rightarrow> 64 word \<Rightarrow> string \<Rightarrow> bool \<Rightarrow> ('w, 's, 'x) uring \<Rightarrow> ('w, 's, 'x) uring run" where
  "submit_write E c d raw st =
     (case buf st c of None \<Rightarrow> (st, None)
      | Some b \<Rightarrow>
          (case (if raw then None else map_of (tls_conns st) c) of
             None \<Rightarrow> enqueue_write E c d st
           | Some t \<Rightarrow>
               if \<not> handshake_done t then enqueue_write E c d st
               else (case encrypt (tls_lib E) d t of
                       (Inl e, t1) \<Rightarrow> (submit_close c (put_tls c t1 st), None)
                     | (Inr d1, t1) \<Rightarrow> enqueue_write E c d1 (put_tls c t1 st))))"

definition upgrade_tls :: "('w, 's, 'x) loop_env \<Rightarrow> 64 word \<Rightarrow> ('w, 's, 'x) uring \<Rightarrow> ('w, 's, 'x) uring run" where
  "upgrade_tls E c st =
     (if \<not> tls_ctx E then (submit_close c st, None)
      else (case map_of (sessions st) c of None \<Rightarrow> (st, None)
            | Some s \<Rightarrow> (case new_server_ssl E of None \<Rightarrow> (st, Some (Runtime_error ''SSL_new failed''))
                | Some x \<Rightarrow> (put_tls c (tls_new x) st, None))))"

section \<open>Sessions\<close>

fun perform :: "('w, 's, 'x) loop_env \<Rightarrow> 64 word \<Rightarrow> ('w, 's, 'x) uring \<Rightarrow> loop_call \<Rightarrow> ('w, 's, 'x) uring run" where
  "perform E c st (Write d) = submit_write E c d False st"
| "perform E c st Close = (submit_close c st, None)"
| "perform E c st Upgrade_TLS = upgrade_tls E c st"

fun perform_all :: "('w, 's, 'x) loop_env \<Rightarrow> 64 word \<Rightarrow> ('w, 's, 'x) uring \<Rightarrow> loop_call list \<Rightarrow> ('w, 's, 'x) uring run" where
  "perform_all E c st [] = (st, None)"
| "perform_all E c st (k # ks) = and_then (perform E c st k) (\<lambda>st1. perform_all E c st1 ks)"

text \<open>
  The session a call of \<^verbatim>\<open>on_data\<close> leaves when it throws: the one before the byte that raised the exception.
\<close>

definition before_exn :: "(string \<Rightarrow> 's cpp) \<Rightarrow> 's \<Rightarrow> string \<Rightarrow> 's" where
  "before_exn f s d = foldl (\<lambda>s n. case f (take n d) of Inl e \<Rightarrow> s | Inr s' \<Rightarrow> s') s [0..<length d]"

text \<open>\<^verbatim>\<open>on_data\<close> of the session of a connection, with the calls it makes.\<close>

definition session_data :: "('w, 's, 'x) loop_env \<Rightarrow> 64 word \<Rightarrow> ('w, 's, 'x) uring \<Rightarrow> string \<Rightarrow> ('w, 's, 'x) uring run" where
  "session_data E c st d =
     (case map_of (sessions st) c of None \<Rightarrow> (st, None)
      | Some s \<Rightarrow>
          (case s_on_data (sess E) (is_tls_active st c) (shared st) s d of (w, s1, ks, ex) \<Rightarrow>
             and_then (perform_all E c (st\<lparr>shared := w, sessions := AList.update c s1 (sessions st)\<rparr>) ks)
               (\<lambda>st1. if map_of (sessions st1) c = None then (st1, Some Undefined_behaviour) else (st1, ex))))"

section \<open>Completions\<close>

definition on_accept ::
  "('w, 's, 'x) loop_env \<Rightarrow> int \<Rightarrow> string \<Rightarrow> ('w, 's, 'x) uring \<Rightarrow> ('w, 's, 'x) uring run" where
  "on_accept E res ip st0 =
     and_then (arm_accept E st0) (\<lambda>st.
       if length (buffers st) \<ge> 100 then (st\<lparr>closed_fds := closed_fds st @ [res]\<rparr>, None)
       else if res \<le> 0 then (st, None)
       else
         let cid = next_conn_id st;
             st1 = put_buf cid \<lparr>write_queue = [], write_pending = False, closing = False, inflight = 0, fd = res\<rparr>
                     (st\<lparr>next_conn_id := cid + 1\<rparr>)
         in (case s_create (sess E) cid ip (shared st1) of (s, ks) \<Rightarrow>
               and_then (perform_all E cid st1 ks) (\<lambda>st2.
                 arm_read E cid (st2\<lparr>sessions := AList.update cid s (sessions st2)\<rparr>))))"

definition after_read :: "('w, 's, 'x) loop_env \<Rightarrow> 64 word \<Rightarrow> ('w, 's, 'x) uring \<Rightarrow> ('w, 's, 'x) uring run" where
  "after_read E c st =
     (case buf st c of None \<Rightarrow> (st, None)
      | Some b \<Rightarrow>
          if (case map_of (sessions st) c of None \<Rightarrow> False | Some s \<Rightarrow> s_wants_close (sess E) s) then (submit_close c st, None)
          else if \<not> closing b then arm_read E c st
          else (submit_close c st, None))"

abbreviation ECANCELED :: int where "ECANCELED \<equiv> 125"
abbreviation ENOENT :: int where "ENOENT \<equiv> 2"
abbreviation ETIME :: int where "ETIME \<equiv> 62"

text \<open>
  The callback for decrypted data, called by \<^verbatim>\<open>feed_encryption\<close> of the connection. If the session upgrades again, the new
  connection takes the place of the one that is running, which is destroyed; \<open>handshake_done\<close> tells them apart.
\<close>

definition tls_data :: "('w, 's, 'x) loop_env \<Rightarrow> 64 word \<Rightarrow> ('w, 's, 'x) uring \<Rightarrow> string \<Rightarrow> ('w, 's, 'x) uring run" where
  "tls_data E c st d = and_then (session_data E c st d) (\<lambda>st1. if is_tls_active st1 c then (st1, None) else (st1, Some Undefined_behaviour))"

text \<open>The branch for an encrypted connection; \<open>None\<close> if OpenSSL keeps the read loop going for ever.\<close>

definition read_tls ::
  "('w, 's, 'x) loop_env \<Rightarrow> 64 word \<Rightarrow> string \<Rightarrow> ('w, 's, 'x) uring \<Rightarrow> ('w, 's, 'x) uring run option" where
  "read_tls E c d st =
     map_option (\<lambda>(r, to_send).
         case and_then r (\<lambda>st1. if to_send \<noteq> [] then submit_write E c to_send True st1 else (st1, None)) of
           (st2, None) \<Rightarrow> after_read E c st2
         | (st2, Some e) \<Rightarrow> if e = Undefined_behaviour then (st2, Some e) else (submit_close c st2, None))
       (feed_encryption (tls_lib E) (\<lambda>st. map_of (tls_conns st) c) (put_tls c) (tls_data E c) d st)"

definition on_read ::
  "('w, 's, 'x) loop_env \<Rightarrow> 64 word \<Rightarrow> int \<Rightarrow> string \<Rightarrow> ('w, 's, 'x) uring \<Rightarrow> ('w, 's, 'x) uring run option" where
  "on_read E c res d st0 =
     (if buf st0 c = None \<or> map_of (sessions st0) c = None then Some (st0, None)
      else
        let st = add_inflight c (- 1) st0
        in if res \<le> 0 then
             (if res = - ECANCELED \<or> res = - ENOENT then Some (st, None) else Some (submit_close c st, None))
           else if map_of (tls_conns st) c \<noteq> None then read_tls E c d st
           else Some (and_then (session_data E c st d) (after_read E c)))"

definition on_write :: "('w, 's, 'x) loop_env \<Rightarrow> 64 word \<Rightarrow> int \<Rightarrow> ('w, 's, 'x) uring \<Rightarrow> ('w, 's, 'x) uring run" where
  "on_write E c res st0 =
     (case buf st0 c of None \<Rightarrow> (st0, None)
      | Some b0 \<Rightarrow>
          let st = add_inflight c (- 1) st0; b = b0\<lparr>inflight := inflight b0 - 1\<rparr>
          in if res < 0 then (submit_close c st, None)
             else
               let b1 = b\<lparr>write_queue := (if write_queue b = [] then [] else tl (write_queue b)), write_pending := False\<rparr>;
                   st1 = put_buf c b1 st
               in if (case map_of (sessions st1) c of None \<Rightarrow> False | Some s \<Rightarrow> s_wants_tls (sess E) s)
                  then and_then (upgrade_tls E c (st1\<lparr>sessions := AList.map_entry c (s_clear_tls (sess E)) (sessions st1)\<rparr>)) (\<lambda>st2.
                         case buf st2 c of None \<Rightarrow> (st2, Some Undefined_behaviour)
                         | Some b2 \<Rightarrow> if \<not> closing b2 then arm_read E c st2 else (st2, None))
                  else if write_queue b1 \<noteq> [] \<and> \<not> closing b1 then flush_write E c st1
                  else if closing b1 then (submit_close c st1, None)
                  else (st1, None))"

definition arm_periodic_timer :: "('w, 's, 'x) loop_env \<Rightarrow> int \<Rightarrow> nat \<Rightarrow> ('w, 's, 'x) uring \<Rightarrow> ('w, 's, 'x) uring run" where
  "arm_periodic_timer E interval action st =
     (let tid = timer_next_id st;
          st1 = st\<lparr>timer_next_id := tid + 1,
                   timers := (if map_of (timers st) tid = None then AList.update tid (interval, action) (timers st) else timers st)\<rparr>
      in submit_sqe E (encode_userdata Op_Timer tid) (K_Timeout (case map_of (timers st1) tid of Some (n, a) \<Rightarrow> n | None \<Rightarrow> 0)) st1)"

definition on_timer :: "('w, 's, 'x) loop_env \<Rightarrow> 64 word \<Rightarrow> int \<Rightarrow> bool \<Rightarrow> ('w, 's, 'x) uring \<Rightarrow> ('w, 's, 'x) uring run" where
  "on_timer E tid res shutdown st =
     (case map_of (timers st) tid of None \<Rightarrow> (st, None)
      | Some (interval, action) \<Rightarrow>
          if res \<noteq> - ETIME then (st, None)
          else
            let st1 = st\<lparr>shared := timer_action E action (shared st)\<rparr>
            in if shutdown then (st1, None) else submit_sqe E (encode_userdata Op_Timer tid) (K_Timeout interval) st1)"

text \<open>One completion: its user data, result, the bytes of a read, the peer of an accept and the shutdown flag.\<close>

record cqe =
  user_data :: "64 word"
  cqe_res :: int
  cqe_data :: string
  cqe_peer :: string
  cqe_shutdown :: bool

definition handle_cqe :: "('w, 's, 'x) loop_env \<Rightarrow> cqe \<Rightarrow> ('w, 's, 'x) uring \<Rightarrow> ('w, 's, 'x) uring run option" where
  "handle_cqe E q st =
     (let ud = user_data q; c = decode_conn_id ud in
      if dns_is_completion ud then Some (st\<lparr>shared := dns_completion E ud (cqe_res q) (shared st)\<rparr>, None)
      else (case decode_op ud of
              None \<Rightarrow> Some (st, None)
            | Some Op_Accept \<Rightarrow> Some (on_accept E (cqe_res q) (cqe_peer q) st)
            | Some Op_Read \<Rightarrow> on_read E c (cqe_res q) (cqe_data q) st
            | Some Op_Write \<Rightarrow> Some (on_write E c (cqe_res q) st)
            | Some Op_Close \<Rightarrow> Some (submit_close c st, None)
            | Some Op_Timer \<Rightarrow> Some (on_timer E c (cqe_res q) (cqe_shutdown q) st)))"

text \<open>
  A step of \<^verbatim>\<open>run\<close>: the kernel completes one outstanding operation, or the resolver's socket has a completion.
  Connection numbers have 60 bits in the user data; runs that use up all of them are left out.
\<close>

inductive loop_step :: "('w, 's, 'x) loop_env \<Rightarrow> ('w, 's, 'x) uring \<Rightarrow> ('w, 's, 'x) uring \<Rightarrow> bool" for E where
  complete: "user_data q \<in> set (outstanding st) \<Longrightarrow> unat (next_conn_id st) < 2 ^ 60 - 1 \<Longrightarrow>
    handle_cqe E q (st\<lparr>outstanding := remove1 (user_data q) (outstanding st)\<rparr>) = Some (st', None) \<Longrightarrow> loop_step E st st'"
| resolver: "dns_is_completion (user_data q) \<Longrightarrow> handle_cqe E q st = Some (st', None) \<Longrightarrow> loop_step E st st'"

text \<open>
  The constructor: the answers of the kernel to the set-up of the ring and of the listening socket, whether the certificate
  could be loaded and the resolver be created. Without a certificate the process is aborted; without a resolver the loop runs
  all the same. The texts of \<^verbatim>\<open>strerror\<close> are left out of the messages.
\<close>

record start_env =
  queue_init :: int
  tls_loads :: bool
  resolver_ok :: bool
  socket_res :: int
  bind_res :: int
  listen_res :: int

definition setup_listen_socket :: "start_env \<Rightarrow> int cpp" where
  "setup_listen_socket P =
     (if socket_res P < 0 then Inl (Runtime_error ''socket(): '')
      else if bind_res P < 0 then Inl (Runtime_error ''bind(): '')
      else if listen_res P < 0 then Inl (Runtime_error ''listen(): '')
      else Inr (socket_res P))"

datatype 'a started = Started (listen_fd: int) (has_resolver: bool) 'a | Aborted | Start_failed cpp_exn

text \<open>The loop after its constructor, and what \<^verbatim>\<open>run\<close> and \<^verbatim>\<open>arm_periodic_timer\<close> make of it.\<close>

definition loop_new :: "'w \<Rightarrow> ('w, 's, 'x) uring" where
  "loop_new w = \<lparr>buffers = [], sessions = [], tls_conns = [], next_conn_id = 1, timers = [], timer_next_id = 1,
     submitted = [], outstanding = [], closed_fds = [], shared = w\<rparr>"

definition loop_start :: "start_env \<Rightarrow> 'w \<Rightarrow> ('w, 's, 'x) uring started" where
  "loop_start P w =
     (if queue_init P < 0 then Start_failed (Runtime_error ''io_uring_queue_init failed: '')
      else if \<not> tls_loads P then Aborted
      else (case setup_listen_socket P of Inl e \<Rightarrow> Start_failed e | Inr f \<Rightarrow> Started f (resolver_ok P) (loop_new w)))"

inductive loop_reaches :: "('w, 's, 'x) loop_env \<Rightarrow> 'w \<Rightarrow> ('w, 's, 'x) uring \<Rightarrow> bool" for E w where
  new: "loop_reaches E w (loop_new w)"
| timer: "loop_reaches E w st \<Longrightarrow> arm_periodic_timer E n a st = (st', None) \<Longrightarrow> loop_reaches E w st'"
| run: "loop_reaches E w st \<Longrightarrow> arm_accept E st = (st', None) \<Longrightarrow> loop_reaches E w st'"
| step: "loop_reaches E w st \<Longrightarrow> loop_step E st st' \<Longrightarrow> loop_reaches E w st'"

text \<open>
  The loop of \<^verbatim>\<open>run\<close> over completions in the order in which the kernel delivers them; \<open>None\<close> if one of them was not
  outstanding, or when a handler does not return.
\<close>

fun run_cqes :: "('w, 's, 'x) loop_env \<Rightarrow> ('w, 's, 'x) uring \<Rightarrow> cqe list \<Rightarrow> ('w, 's, 'x) uring run option" where
  "run_cqes E st [] = Some (st, None)"
| "run_cqes E st (q # qs) =
     (if user_data q \<in> set (outstanding st) \<and> unat (next_conn_id st) < 2 ^ 60 - 1
      then (case handle_cqe E q (st\<lparr>outstanding := remove1 (user_data q) (outstanding st)\<rparr>) of
              None \<Rightarrow> None
            | Some (st1, None) \<Rightarrow> run_cqes E st1 qs
            | Some (st1, Some e) \<Rightarrow> Some (st1, Some e))
      else None)"

section \<open>User data\<close>

lemma conn_mask: "(0x0FFFFFFFFFFFFFFF :: 64 word) = mask 60"
  by (simp add: mask_eq_exp_minus_1)

lemma packed_conn: "(push_bit 60 x OR (c AND mask 60)) AND mask 60 = (c AND mask 60 :: 64 word)"
  by (rule bit_word_eqI) (auto simp: bit_simps)

lemma packed_code: "drop_bit 60 (push_bit 60 x OR (c AND mask 60) :: 64 word) = take_bit 4 x"
  by (rule bit_word_eqI) (auto simp: bit_simps dest: bit_imp_le_length)

lemma op_code_small: "take_bit 4 (op_code oper) = op_code oper"
  by (cases oper) simp_all

lemma op_code_inject [simp]: "op_code a = op_code b \<longleftrightarrow> a = b"
  by (cases a; cases b) simp_all

lemma userdata_decode:
  "decode_op (encode_userdata oper c) = Some oper" "decode_conn_id (encode_userdata oper c) = c AND mask 60"
  "\<not> dns_is_completion (encode_userdata oper c)"
proof -
  have d: "drop_bit 60 (encode_userdata oper c) = op_code oper"
    unfolding encode_userdata_def conn_mask packed_code by (rule op_code_small)
  show "decode_op (encode_userdata oper c) = Some oper" unfolding decode_op_def d by (cases oper) simp_all
  show "decode_conn_id (encode_userdata oper c) = c AND mask 60"
    unfolding decode_conn_id_def encode_userdata_def conn_mask by (rule packed_conn)
  show "\<not> dns_is_completion (encode_userdata oper c)" unfolding dns_is_completion_def d by (cases oper) simp_all
qed

lemma userdata_of:
  assumes "decode_op ud = Some oper"
  shows "ud = encode_userdata oper (decode_conn_id ud)"
proof -
  have "op_code oper = drop_bit 60 ud" using assms by (auto simp: decode_op_def split: if_splits)
  moreover have "push_bit 60 (drop_bit 60 ud) OR ((ud AND mask 60) AND mask 60) = (ud :: 64 word)"
    by (rule bit_word_eqI) (auto simp: bit_simps)
  ultimately show ?thesis by (simp add: encode_userdata_def decode_conn_id_def conn_mask)
qed

text \<open>The numbers that fit in the user data.\<close>

definition cid_ok :: "64 word \<Rightarrow> bool" where "cid_ok c \<longleftrightarrow> c AND mask 60 = c"

lemma decoded_ok: "cid_ok (decode_conn_id ud)"
  by (simp add: cid_ok_def decode_conn_id_def conn_mask)

lemma encode_kind: "encode_userdata k c = encode_userdata k' c' \<Longrightarrow> k = k'"
  using userdata_decode(1)[of k c] userdata_decode(1)[of k' c'] by simp

lemma encode_inject: "cid_ok c \<Longrightarrow> cid_ok c' \<Longrightarrow> encode_userdata k c = encode_userdata k' c' \<longleftrightarrow> k = k' \<and> c = c'"
  using userdata_decode[of k c] userdata_decode[of k' c'] by (auto simp: cid_ok_def)

end
