(* ===== verification/Uring_Inv.thy ===== *)
theory Uring_Inv
  imports Uring_Loop
begin

text \<open>
  The bookkeeping of the event loop: \<^verbatim>\<open>inflight\<close> is the number of a connection's outstanding operations, there is at most
  one read and one write, and no operation of a connection that was taken apart is outstanding. The laws a session
  has to keep are a locale, \<open>session_contract\<close>; the server's three kinds of session are
  instances of it.
\<close>

text \<open>
  The user data of an operation gives back its kind and its connection (the low 60 bits of the number), and
  is never taken for a completion of the resolver, whose operations share the ring.
\<close>

theorem userdata_roundtrip:
  "decode_op (encode_userdata k c) = Some k \<and> decode_conn_id (encode_userdata k c) = c AND mask 60 \<and>
   \<not> dns_is_completion (encode_userdata k c)"
  by (simp add: userdata_decode)

text \<open>
  The loop does not look at how much the kernel sent: a write of which only some or no bytes were taken is treated
  like a complete one, and the rest of the data is dropped.
\<close>

theorem short_write_ignored:
  assumes "0 \<le> res" "0 \<le> res'"
  shows "on_write E c res st = on_write E c res' st"
  using assms by (simp add: on_write_def Let_def split: option.split)


text \<open>
  Once a connection is closing no further write begins: when the current one completes, what is still
  queued for the client is dropped.
\<close>

theorem closing_drops_queue:
  assumes "buf st c = Some b" "closing b" "case map_of (sessions st) c of None \<Rightarrow> True | Some s \<Rightarrow> \<not> s_wants_tls (sess E) s"
  shows "submitted (fst (on_write E c res st)) = submitted st"
  using assms by (auto simp: on_write_def Let_def add_inflight_def put_buf_def submit_close_def split: option.splits)

section \<open>The operations of a connection\<close>

text \<open>The outstanding operations of one kind, and what a connection is in the loop.\<close>

definition ops :: "op_type \<Rightarrow> ('w, 's, 'x) uring \<Rightarrow> 64 word \<Rightarrow> nat" where
  "ops k st c = count_list (outstanding st) (encode_userdata k c)"

lemma ops_outstanding: "0 < ops k st c \<longleftrightarrow> encode_userdata k c \<in> set (outstanding st)"
  unfolding ops_def neq0_conv[symmetric] count_list_0_iff by simp

text \<open>
  \<open>own e n c st\<close>: connection \<open>c\<close> has \<open>n\<close> reads and at most one write outstanding, \<^verbatim>\<open>inflight\<close> is their number, and
  \<^verbatim>\<open>write_pending\<close> says that the front of a non-empty queue is being written. After an exception (\<open>e\<close>) and on a
  connection that is closing, \<^verbatim>\<open>write_pending\<close> may be set although nothing is being written.
\<close>

definition own :: "bool \<Rightarrow> nat \<Rightarrow> 64 word \<Rightarrow> ('w, 's, 'x) uring \<Rightarrow> bool" where
  "own e n c st \<longleftrightarrow> (case buf st c of None \<Rightarrow> ops Op_Read st c = 0 \<and> ops Op_Write st c = 0
     | Some b \<Rightarrow> ops Op_Read st c = n \<and> ops Op_Write st c \<le> 1 \<and> inflight b = int n + int (ops Op_Write st c)
         \<and> (ops Op_Write st c = 1 \<longrightarrow> write_pending b) \<and> (write_pending b \<longrightarrow> write_queue b \<noteq> [])
         \<and> (write_pending b \<longrightarrow> e \<or> closing b \<or> ops Op_Write st c = 1))"

text \<open>Every connection has a session, with the property \<open>ok\<close>, and TLS only runs on connections.\<close>

definition linked :: "('s \<Rightarrow> bool) \<Rightarrow> 64 word \<Rightarrow> ('w, 's, 'x) uring \<Rightarrow> bool" where
  "linked ok c st \<longleftrightarrow> (buf st c = None \<longleftrightarrow> map_of (sessions st) c = None) \<and> (map_of (tls_conns st) c \<noteq> None \<longrightarrow> buf st c \<noteq> None)
     \<and> (\<forall>s. map_of (sessions st) c = Some s \<longrightarrow> ok s)"

definition is_open :: "64 word \<Rightarrow> ('w, 's, 'x) uring \<Rightarrow> bool" where
  "is_open c st \<longleftrightarrow> (case buf st c of None \<Rightarrow> False | Some b \<Rightarrow> \<not> closing b)"

text \<open>What an operation on connection \<open>c\<close> leaves alone: the other connections; and it opens none.\<close>

definition touches :: "64 word \<Rightarrow> ('w, 's, 'x) uring \<Rightarrow> ('w, 's, 'x) uring \<Rightarrow> bool" where
  "touches c st st' \<longleftrightarrow> next_conn_id st' = next_conn_id st \<and> (buf st c = None \<longrightarrow> buf st' c = None)
     \<and> (is_open c st' \<longrightarrow> is_open c st) \<and> length (buffers st') \<le> length (buffers st)
     \<and> (\<forall>c'. c' \<noteq> c \<longrightarrow> buf st' c' = buf st c' \<and> map_of (sessions st') c' = map_of (sessions st) c'
          \<and> map_of (tls_conns st') c' = map_of (tls_conns st) c'
          \<and> (cid_ok c' \<longrightarrow> ops Op_Read st' c' = ops Op_Read st c' \<and> ops Op_Write st' c' = ops Op_Write st c'))"

lemma length_update_present: "map_of al k \<noteq> None \<Longrightarrow> length (AList.update k v al) = length al"
  by (induction al) auto

lemma length_update_le: "length (AList.update k v al) \<le> Suc (length al)"
  by (induction al) auto

lemma length_put_buf: "buf st c \<noteq> None \<Longrightarrow> length (buffers (put_buf c b st)) = length (buffers st)"
  by (simp add: buf_def put_buf_def length_update_present)

lemma touches_refl [simp]: "touches c st st"
  by (simp add: touches_def)

lemma touches_trans [trans]: "touches c st st' \<Longrightarrow> touches c st' st'' \<Longrightarrow> touches c st st''"
  by (auto simp: touches_def)

lemma buf_put_buf [simp]: "buf (put_buf c b st) c' = (if c' = c then Some b else buf st c')"
  by (simp add: buf_def put_buf_def update_conv')

lemma put_buf_fields [simp]:
  "sessions (put_buf c b st) = sessions st" "tls_conns (put_buf c b st) = tls_conns st" "outstanding (put_buf c b st) = outstanding st"
  "next_conn_id (put_buf c b st) = next_conn_id st" "ops k (put_buf c b st) c' = ops k st c'"
  by (simp_all add: put_buf_def ops_def)

lemma put_tls_fields [simp]:
  "sessions (put_tls c t st) = sessions st" "buffers (put_tls c t st) = buffers st" "buf (put_tls c t st) c' = buf st c'" "outstanding (put_tls c t st) = outstanding st"
  "next_conn_id (put_tls c t st) = next_conn_id st" "ops k (put_tls c t st) c' = ops k st c'"
  "map_of (tls_conns (put_tls c t st)) c' = (if c' = c then Some t else map_of (tls_conns st) c')"
  by (simp_all add: put_tls_def ops_def buf_def update_conv')

lemma session_put_fields [simp]:
  "buf (st\<lparr>shared := w, sessions := S\<rparr>) c' = buf st c'" "ops k (st\<lparr>shared := w, sessions := S\<rparr>) c' = ops k st c'"
  "buf (st\<lparr>sessions := S\<rparr>) c' = buf st c'" "ops k (st\<lparr>sessions := S\<rparr>) c' = ops k st c'"
  "buf (st\<lparr>next_conn_id := i\<rparr>) c' = buf st c'" "ops k (st\<lparr>next_conn_id := i\<rparr>) c' = ops k st c'"
  "buf (st\<lparr>outstanding := o'\<rparr>) c' = buf st c'"
  "buf (st\<lparr>shared := w\<rparr>) c' = buf st c'" "ops k (st\<lparr>shared := w\<rparr>) c' = ops k st c'"
  by (simp_all add: buf_def ops_def)

lemma ops_submit: "ops k (st\<lparr>submitted := x, outstanding := outstanding st @ [ud]\<rparr>) c =
    ops k st c + (if encode_userdata k c = ud then 1 else 0)"
  by (simp add: ops_def)

lemma touches_put [simp]:
  "buf st c = Some b0 \<Longrightarrow> (closing b0 \<Longrightarrow> closing b) \<Longrightarrow> touches c st (put_buf c b st)" "touches c st (put_tls c t st)"
  "touches c st (st\<lparr>shared := w, sessions := AList.update c s (sessions st)\<rparr>)"
  "touches c st (st\<lparr>sessions := AList.map_entry c f (sessions st)\<rparr>)" "touches c st (st\<lparr>sessions := AList.update c s (sessions st)\<rparr>)"
  by (auto simp: touches_def is_open_def update_conv' map_of_map_entry length_put_buf split: option.splits)


lemma before_exn_keeps: "P s \<Longrightarrow> (\<And>n s'. f (take n d) = Inr s' \<Longrightarrow> P s') \<Longrightarrow> P (before_exn f s d)"
proof -
  assume s: "P s" and f: "\<And>n s'. f (take n d) = Inr s' \<Longrightarrow> P s'"
  have "P (foldl (\<lambda>s n. case f (take n d) of Inl e \<Rightarrow> s | Inr s' \<Rightarrow> s') s ns)" for ns
    using s by (induction ns arbitrary: s) (auto split: sum.split dest: f)
  then show ?thesis by (simp add: before_exn_def)
qed

section \<open>Frame\<close>

lemma touches_submit: "cid_ok c \<Longrightarrow> touches c st (fst (submit_sqe E (encode_userdata k c) x st))"
  by (auto simp: submit_sqe_def touches_def is_open_def ops_submit encode_inject buf_def)

lemma touches_and_then:
  "touches c st (fst r) \<Longrightarrow> (\<And>s. touches c st s \<Longrightarrow> touches c st (fst (f s))) \<Longrightarrow> touches c st (fst (and_then r f))"
  by (cases r; cases "snd r") auto

lemma touches_inflight: "touches c st (add_inflight c n st)"
  by (auto simp: add_inflight_def split: option.split intro!: touches_put)

lemma touches_then_inflight: "touches c st s \<Longrightarrow> touches c st (add_inflight c n s)"
  by (rule touches_trans[OF _ touches_inflight])

lemma touches_close: "touches c st (submit_close c st)"
  by (auto simp: submit_close_def touches_def is_open_def buf_def put_buf_def length_update_present length_delete_le update_conv' delete_conv' ops_def split: option.split)

lemma touches_read: "cid_ok c \<Longrightarrow> touches c st (fst (arm_read E c st))"
  by (auto simp: arm_read_def split: option.split intro!: touches_and_then touches_submit touches_then_inflight)

lemma touches_flush: "cid_ok c \<Longrightarrow> touches c st (fst (flush_write E c st))"
  by (auto simp: flush_write_def split: option.split intro!: touches_and_then touches_then_inflight
      touches_trans[OF _ touches_submit] touches_put)

lemma touches_enqueue: "cid_ok c \<Longrightarrow> touches c st (fst (enqueue_write E c d st))"
  by (auto simp: enqueue_write_def Let_def split: option.split intro!: touches_trans[OF _ touches_flush] touches_put)

lemma touches_write: "cid_ok c \<Longrightarrow> touches c st (fst (submit_write E c d raw st))"
  by (auto simp: submit_write_def split: option.split sum.split prod.split
      intro!: touches_enqueue touches_trans[OF touches_put(2) touches_enqueue] touches_trans[OF touches_put(2) touches_close])

lemma touches_upgrade: "touches c st (fst (upgrade_tls E c st))"
  by (auto simp: upgrade_tls_def touches_close split: option.split)

lemma touches_perform: "cid_ok c \<Longrightarrow> touches c st (fst (perform E c st k))"
  by (cases k) (simp_all add: touches_write touches_close touches_upgrade)

lemma touches_perform_all: "cid_ok c \<Longrightarrow> touches c st (fst (perform_all E c st ks))"
  by (induction ks arbitrary: st) (auto intro!: touches_and_then touches_perform intro: touches_trans)

lemma touches_session: "cid_ok c \<Longrightarrow> touches c st (fst (session_data E c st d))"
  unfolding session_data_def
  by (auto split: option.split prod.split intro!: touches_and_then intro: touches_trans[OF touches_put(3) touches_perform_all])

lemma touches_after: "cid_ok c \<Longrightarrow> touches c st (fst (after_read E c st))"
  by (auto simp: after_read_def touches_close touches_read split: option.split)

section \<open>A connection's own operations\<close>

lemma submit_cases:
  obtains (armed) st1 where "submit_sqe E ud x st = (st1, None)" "\<And>c. buf st1 c = buf st c" "buffers st1 = buffers st" "sessions st1 = sessions st"
      "tls_conns st1 = tls_conns st" "next_conn_id st1 = next_conn_id st"
      "\<And>k c. ops k st1 c = ops k st c + (if encode_userdata k c = ud then 1 else 0)"
    | (full) e where "submit_sqe E ud x st = (st, Some e)" "e \<noteq> Undefined_behaviour"
proof (cases "sq_space E (length (submitted st))")
  case True
  then show ?thesis by (intro armed[of "st\<lparr>submitted := submitted st @ [(ud, x)], outstanding := outstanding st @ [ud]\<rparr>"]) (simp_all add: submit_sqe_def ops_def buf_def)
next
  case False
  then show ?thesis by (intro full[of "Runtime_error ''io_uring SQ Overflow - increase depth of the queue''"]) (simp_all add: submit_sqe_def)
qed

lemma encode_other [simp]:
  "encode_userdata Op_Read c \<noteq> encode_userdata Op_Write c'" "encode_userdata Op_Write c \<noteq> encode_userdata Op_Read c'"
  using encode_kind by blast+

lemma inflight_fields [simp]:
  "sessions (add_inflight c n st) = sessions st" "tls_conns (add_inflight c n st) = tls_conns st"
  "ops k (add_inflight c n st) c' = ops k st c'"
  "buf (add_inflight c n st) c' = (if c' = c then map_option (\<lambda>b. b\<lparr>inflight := inflight b + n\<rparr>) (buf st c) else buf st c')"
  by (simp_all add: add_inflight_def split: option.split)

lemma own_absent: "own e n c st \<Longrightarrow> buf st c = None \<Longrightarrow> own e' n' c st"
  by (simp add: own_def)

lemma own_raised: "own False n c st \<Longrightarrow> own True n c st"
  by (auto simp: own_def split: option.splits)

lemma own_flush:
  assumes "own False n c st" "buf st c = Some b" "\<not> write_pending b"
  shows "outcome (own False n c) (own True n c) (flush_write E c st)"
proof (cases "write_queue b = []")
  case False
  let ?s = "put_buf c (b\<lparr>write_pending := True\<rparr>) st"
  have o: "ops Op_Read st c = n" "ops Op_Write st c = 0" "inflight b = int n" using assms by (auto simp: own_def)
  show ?thesis
    by (rule submit_cases[of E "encode_userdata Op_Write c" "K_Send (fd b) (hd (write_queue b))" ?s])
      (use assms False o in \<open>simp_all add: flush_write_def own_def\<close>)
qed (use assms in \<open>simp add: flush_write_def\<close>)

lemma own_enqueue:
  assumes "own False n c st"
  shows "outcome (own False n c) (own True n c) (enqueue_write E c d st)"
proof (cases "buf st c")
  case (Some b)
  let ?s = "put_buf c (b\<lparr>write_queue := write_queue b @ [d]\<rparr>) st"
  have "own False n c ?s" using assms Some by (auto simp: own_def)
  then show ?thesis using Some own_flush[of n c ?s "b\<lparr>write_queue := write_queue b @ [d]\<rparr>" E] by (simp add: enqueue_write_def Let_def)
qed (use assms in \<open>simp add: enqueue_write_def\<close>)

lemma own_close: "own e n c st \<Longrightarrow> own False n c (submit_close c st)"
  by (auto simp: own_def submit_close_def buf_def[of "st\<lparr>buffers := _, sessions := _, tls_conns := _, closed_fds := _\<rparr>"] delete_conv'
      ops_def[of _ "st\<lparr>buffers := _, sessions := _, tls_conns := _, closed_fds := _\<rparr>"] ops_def[symmetric] split: option.splits)

lemma own_put_tls [simp]: "own e n c (put_tls c' t st) = own e n c st"
  by (simp add: own_def split: option.split)

lemma own_session [simp]: "own e n c (st\<lparr>shared := w, sessions := S\<rparr>) = own e n c st" "own e n c (st\<lparr>sessions := S\<rparr>) = own e n c st"
  "own e n c (st\<lparr>shared := w\<rparr>) = own e n c st"
  by (simp_all add: own_def split: option.split)

lemma own_write: "own False n c st \<Longrightarrow> outcome (own False n c) (own True n c) (submit_write E c d raw st)"
  by (auto simp: submit_write_def intro!: own_enqueue own_close split: option.split sum.split prod.split)

lemma own_upgrade: "own False n c st \<Longrightarrow> outcome (own False n c) (own True n c) (upgrade_tls E c st)"
  by (auto simp: upgrade_tls_def intro!: own_close own_raised split: option.split)

lemma own_perform: "own False n c st \<Longrightarrow> outcome (own False n c) (own True n c) (perform E c st k)"
  by (cases k) (simp_all add: own_write own_upgrade own_close)

lemma own_perform_all: "own False n c st \<Longrightarrow> outcome (own False n c) (own True n c) (perform_all E c st ks)"
  by (induction ks arbitrary: st) (auto intro!: outcome_and_then[OF own_perform])

lemma own_data: "own False n c st \<Longrightarrow> outcome (own False n c) (own True n c) (session_data E c st d)"
  by (auto simp: session_data_def split: option.split prod.split intro!: outcome_and_then[OF own_perform_all] outcome_end intro: own_raised)

lemma own_read: "cid_ok c \<Longrightarrow> own False 0 c st \<Longrightarrow> outcome (own False 1 c) (own True 0 c) (arm_read E c st)"
proof (cases "buf st c")
  case (Some b)
  assume "own False 0 c st"
  then show ?thesis
    by (rule_tac submit_cases[of E "encode_userdata Op_Read c" "K_Recv (fd b)" st]) (use Some in \<open>auto simp: arm_read_def own_def\<close>)
qed (simp add: arm_read_def)

section \<open>Connections and their sessions\<close>

lemma submit_then_fields:
  "sessions (fst (and_then (submit_sqe E ud x st) (\<lambda>s. (add_inflight c n s, None)))) = sessions st"
  "tls_conns (fst (and_then (submit_sqe E ud x st) (\<lambda>s. (add_inflight c n s, None)))) = tls_conns st"
  "buf (fst (and_then (submit_sqe E ud x st) (\<lambda>s. (add_inflight c n s, None)))) c = None \<longleftrightarrow> buf st c = None"
  by (rule submit_cases[of E ud x st]; simp)+

lemma flush_fields [simp]:
  "sessions (fst (flush_write E c st)) = sessions st" "tls_conns (fst (flush_write E c st)) = tls_conns st"
  "buf (fst (flush_write E c st)) c = None \<longleftrightarrow> buf st c = None"
  by (simp_all add: flush_write_def submit_then_fields del: not_None_eq split: option.split)

lemma enqueue_fields [simp]:
  "sessions (fst (enqueue_write E c d st)) = sessions st" "tls_conns (fst (enqueue_write E c d st)) = tls_conns st"
  "buf (fst (enqueue_write E c d st)) c = None \<longleftrightarrow> buf st c = None"
  by (simp_all add: enqueue_write_def Let_def del: not_None_eq split: option.split)

lemma enqueue_no_exn: "sq_space E = (\<lambda>n. True) \<Longrightarrow> snd (enqueue_write E c d st) = None"
  by (simp add: enqueue_write_def flush_write_def submit_sqe_def Let_def split: option.split)

lemma arm_read_fields [simp]:
  "sessions (fst (arm_read E c st)) = sessions st" "tls_conns (fst (arm_read E c st)) = tls_conns st"
  "buf (fst (arm_read E c st)) c = None \<longleftrightarrow> buf st c = None"
  by (simp_all add: arm_read_def submit_then_fields del: not_None_eq split: option.split)

lemma linked_close: "linked ok c st \<Longrightarrow> linked ok c (submit_close c st)"
  by (auto simp: linked_def submit_close_def buf_def put_buf_def delete_conv' update_conv' split: option.split)

lemma linked_put_tls: "linked ok c st \<Longrightarrow> buf st c \<noteq> None \<Longrightarrow> linked ok c (put_tls c t st)"
  by (auto simp: linked_def)

lemma linked_enqueue: "linked ok c st \<Longrightarrow> linked ok c (fst (enqueue_write E c d st))"
  unfolding linked_def enqueue_fields by blast

lemma linked_write: "linked ok c st \<Longrightarrow> linked ok c (fst (submit_write E c d raw st))"
  by (auto simp: submit_write_def intro!: linked_enqueue linked_close linked_put_tls split: option.split sum.split prod.split)

lemma linked_upgrade: "linked ok c st \<Longrightarrow> linked ok c (fst (upgrade_tls E c st))"
  by (auto simp: upgrade_tls_def linked_close split: option.split intro!: linked_put_tls) (simp add: linked_def)

lemma linked_perform: "linked ok c st \<Longrightarrow> linked ok c (fst (perform E c st k))"
  by (cases k) (simp_all add: linked_write linked_upgrade linked_close)

lemma linked_and_then: "linked ok c (fst r) \<Longrightarrow> (\<And>s. linked ok c s \<Longrightarrow> linked ok c (fst (f s))) \<Longrightarrow> linked ok c (fst (and_then r f))"
  by (cases r; cases "snd r") auto

lemma linked_perform_all: "linked ok c st \<Longrightarrow> linked ok c (fst (perform_all E c st ks))"
  by (induction ks arbitrary: st) (auto intro!: linked_and_then linked_perform)

lemma linked_arm: "linked ok c st \<Longrightarrow> linked ok c (fst (arm_read E c st))"
  unfolding linked_def arm_read_fields by blast

lemma linked_after: "linked ok c st \<Longrightarrow> linked ok c (fst (after_read E c st))"
  by (auto simp: after_read_def linked_close linked_arm split: option.split)

section \<open>The invariant\<close>

definition conn_inv :: "('s \<Rightarrow> bool) \<Rightarrow> 64 word \<Rightarrow> ('w, 's, 'x) uring \<Rightarrow> bool" where
  "conn_inv ok c st \<longleftrightarrow> (own False 0 c st \<or> own False 1 c st) \<and> linked ok c st"

definition table_ok :: "('w, 's, 'x) uring \<Rightarrow> bool" where
  "table_ok st \<longleftrightarrow> length (buffers st) \<le> 100 \<and> (\<forall>c. buf st c \<noteq> None \<longrightarrow> cid_ok c \<and> c < next_conn_id st)"

definition others :: "('s \<Rightarrow> bool) \<Rightarrow> 64 word \<Rightarrow> ('w, 's, 'x) uring \<Rightarrow> bool" where
  "others ok c st \<longleftrightarrow> table_ok st \<and> (\<forall>c'. cid_ok c' \<longrightarrow> c' \<noteq> c \<longrightarrow> conn_inv ok c' st)"

definition loop_inv :: "('s \<Rightarrow> bool) \<Rightarrow> ('w, 's, 'x) uring \<Rightarrow> bool" where
  "loop_inv ok st \<longleftrightarrow> table_ok st \<and> (\<forall>c. cid_ok c \<longrightarrow> conn_inv ok c st)"

lemma loop_inv_split: "cid_ok c \<Longrightarrow> loop_inv ok st \<longleftrightarrow> others ok c st \<and> conn_inv ok c st"
  by (auto simp: loop_inv_def others_def)

lemma conn_inv_same:
  "buf st' c = buf st c \<Longrightarrow> map_of (sessions st') c = map_of (sessions st) c \<Longrightarrow> map_of (tls_conns st') c = map_of (tls_conns st) c \<Longrightarrow>
   ops Op_Read st' c = ops Op_Read st c \<Longrightarrow> ops Op_Write st' c = ops Op_Write st c \<Longrightarrow> conn_inv ok c st' = conn_inv ok c st"
  by (cases "buf st c") (simp_all add: conn_inv_def own_def linked_def)

lemma others_touch: "others ok c st \<Longrightarrow> touches c st st' \<Longrightarrow> others ok c st'"
proof -
  assume o: "others ok c st" and t: "touches c st st'"
  have "buf st c' \<noteq> None" if "buf st' c' \<noteq> None" for c' using t that by (cases "c' = c") (auto simp: touches_def)
  then have "table_ok st'" using o t by (auto simp: others_def table_ok_def touches_def)
  moreover have "conn_inv ok c' st' = conn_inv ok c' st" if "cid_ok c'" "c' \<noteq> c" for c'
    using t that by (intro conn_inv_same) (auto simp: touches_def)
  ultimately show ?thesis using o by (auto simp: others_def)
qed

text \<open>The loop while it handles an operation of connection \<open>c\<close> that began in \<open>st0\<close>.\<close>

definition mid :: "('s \<Rightarrow> bool) \<Rightarrow> bool \<Rightarrow> nat \<Rightarrow> 64 word \<Rightarrow> ('w, 's, 'x) uring \<Rightarrow> ('w, 's, 'x) uring \<Rightarrow> bool" where
  "mid ok e n c st0 st \<longleftrightarrow> touches c st0 st \<and> own e n c st \<and> linked ok c st"

lemma mid_raised: "mid ok False n c st0 st \<Longrightarrow> mid ok True n c st0 st"
  by (simp add: mid_def own_raised)

lemma mid_start: "own False n c st \<Longrightarrow> linked ok c st \<Longrightarrow> mid ok False n c st st"
  by (simp add: mid_def)

lemma mid_inv: "cid_ok c \<Longrightarrow> others ok c st0 \<Longrightarrow> mid ok False n c st0 st \<Longrightarrow> n = 0 \<or> n = 1 \<Longrightarrow> loop_inv ok st"
  by (auto simp: loop_inv_split[of c] mid_def conn_inv_def intro: others_touch)

lemma outcome_conj3:
  assumes "touches c st0 (fst r)" "outcome (own False n c) (own e m c) r" "linked ok c (fst r)"
  shows "outcome (mid ok False n c st0) (mid ok e m c st0) r"
  using assms by (cases r; cases "snd r") (auto simp: mid_def)

lemma mid_close: "mid ok e n c st0 st \<Longrightarrow> mid ok False n c st0 (submit_close c st)"
  by (auto simp: mid_def own_close linked_close intro: touches_trans[OF _ touches_close])

lemma mid_write: "cid_ok c \<Longrightarrow> mid ok False n c st0 st \<Longrightarrow> outcome (mid ok False n c st0) (mid ok True n c st0) (submit_write E c d raw st)"
  by (rule outcome_conj3) (auto simp: mid_def own_write linked_write intro: touches_trans[OF _ touches_write])

lemma mid_after_read:
  assumes c: "cid_ok c" and m: "mid ok False 0 c st0 st"
  shows "ends_in (\<lambda>s. mid ok False 0 c st0 s \<or> mid ok False 1 c st0 s) (after_read E c st)"
proof (cases "buf st c")
  case (Some b)
  have t: "touches c st0 (fst (arm_read E c st))" using m touches_trans[OF _ touches_read[OF c]] by (auto simp: mid_def)
  have l: "linked ok c (fst (arm_read E c st))" using m by (simp add: mid_def linked_arm)
  have "outcome (own False 1 c) (own True 0 c) (arm_read E c st)" using own_read[OF c, of st E] m by (simp add: mid_def)
  from outcome_conj3[OF t this l] have "ends_in (mid ok False 1 c st0) (arm_read E c st)"
    by (auto simp: outcome_def ends_in_def split: prod.splits option.splits)
  then show ?thesis using Some mid_close[OF m] by (auto simp: after_read_def ends_in_def split: option.split)
qed (use m in \<open>simp add: after_read_def\<close>)

section \<open>Completions\<close>

definition finished :: "64 word \<Rightarrow> ('w, 's, 'x) uring \<Rightarrow> ('w, 's, 'x) uring" where
  "finished ud st = st\<lparr>outstanding := remove1 ud (outstanding st)\<rparr>"

lemma count_list_remove1: "count_list (remove1 x xs) y = count_list xs y - (if x = y then 1 else 0)"
  by (induction xs) (auto simp: count_list_0_iff)

lemma finished_fields [simp]:
  "buf (finished ud st) c = buf st c" "buffers (finished ud st) = buffers st" "sessions (finished ud st) = sessions st" "tls_conns (finished ud st) = tls_conns st"
  "ops k (finished ud st) c = ops k st c - (if ud = encode_userdata k c then 1 else 0)" "next_conn_id (finished ud st) = next_conn_id st"
  by (simp_all add: finished_def buf_def ops_def count_list_remove1)

lemma touches_finished: "cid_ok c \<Longrightarrow> touches c st (finished (encode_userdata k c) st)"
  by (auto simp: touches_def is_open_def encode_inject)

lemma finished_others: "cid_ok c \<Longrightarrow> loop_inv ok st \<Longrightarrow> others ok c (add_inflight c n (finished (encode_userdata k c) st))"
  by (auto simp: loop_inv_split[of c] intro!: touches_then_inflight touches_finished elim!: others_touch)

lemma mid_ends:
  assumes "cid_ok c" "loop_inv ok st" "mid ok False m c (add_inflight c n (finished (encode_userdata k c) st)) st'" "m = 0 \<or> m = 1"
  shows "loop_inv ok st' \<and> touches c st st'"
  using mid_inv[OF assms(1) finished_others[OF assms(1,2)] assms(3,4)] assms(3)
    touches_trans[OF touches_then_inflight[OF touches_finished[OF assms(1)]]] by (auto simp: mid_def)

text \<open>The connection when the loop begins to handle a completed read or write.\<close>

lemma read_done:
  assumes "cid_ok c" "loop_inv ok st" "encode_userdata Op_Read c \<in> set (outstanding st)"
  obtains b where "buf st c = Some b" "map_of (sessions st) c \<noteq> None"
    "own False 0 c (add_inflight c (- 1) (finished (encode_userdata Op_Read c) st))"
    "linked ok c (add_inflight c (- 1) (finished (encode_userdata Op_Read c) st))"
proof -
  have n: "0 < ops Op_Read st c" using assms(3) by (simp add: ops_outstanding)
  have i: "own False 0 c st \<or> own False 1 c st" "linked ok c st" using assms(1,2) by (auto simp: loop_inv_def conn_inv_def)
  then obtain b where b: "buf st c = Some b" using n by (cases "buf st c") (auto simp: own_def)
  show ?thesis
  proof (rule that[OF b])
    show "map_of (sessions st) c \<noteq> None" using i(2) b by (simp add: linked_def)
    show "own False 0 c (add_inflight c (- 1) (finished (encode_userdata Op_Read c) st))" using i n b by (auto simp: own_def)
    show "linked ok c (add_inflight c (- 1) (finished (encode_userdata Op_Read c) st))" using i b by (simp add: linked_def)
  qed
qed

lemma write_done:
  assumes "cid_ok c" "loop_inv ok st" "encode_userdata Op_Write c \<in> set (outstanding st)"
  obtains b n where "buf st c = Some b" "map_of (sessions st) c \<noteq> None" "n = 0 \<or> n = 1"
    "write_queue b \<noteq> []" "inflight b = int n + 1" "ops Op_Read st c = n" "ops Op_Write st c = 1"
    "own True n c (add_inflight c (- 1) (finished (encode_userdata Op_Write c) st))"
    "linked ok c (add_inflight c (- 1) (finished (encode_userdata Op_Write c) st))"
proof -
  have w: "0 < ops Op_Write st c" using assms(3) by (simp add: ops_outstanding)
  have "own False 0 c st \<or> own False 1 c st" using assms(1,2) by (auto simp: loop_inv_def conn_inv_def)
  then obtain n where i: "own False n c st" "n = 0 \<or> n = 1" by blast
  have l: "linked ok c st" using assms(1,2) by (auto simp: loop_inv_def conn_inv_def)
  obtain b where b: "buf st c = Some b" using i(1) w by (cases "buf st c") (auto simp: own_def)
  have o: "ops Op_Write st c = 1" using i(1) w b by (simp add: own_def)
  show ?thesis
  proof (rule that[OF b])
    show "map_of (sessions st) c \<noteq> None" using l b by (simp add: linked_def)
    show "own True n c (add_inflight c (- 1) (finished (encode_userdata Op_Write c) st))" using i b o by (auto simp: own_def)
    show "linked ok c (add_inflight c (- 1) (finished (encode_userdata Op_Write c) st))" using l b by (simp add: linked_def)
    show "n = 0 \<or> n = 1" by (fact i(2))
  qed (use i(1) b o in \<open>simp_all add: own_def\<close>)
qed

lemma mid_flush:
  assumes "cid_ok c" "mid ok False n c st0 st" "buf st c = Some b" "\<not> write_pending b"
  shows "outcome (mid ok False n c st0) (mid ok True n c st0) (flush_write E c st)"
proof (rule outcome_conj3)
  show "touches c st0 (fst (flush_write E c st))" using assms(1,2) touches_trans[OF _ touches_flush] by (auto simp: mid_def)
  show "outcome (own False n c) (own True n c) (flush_write E c st)" using assms own_flush by (auto simp: mid_def)
  show "linked ok c (fst (flush_write E c st))" using assms(2) unfolding mid_def linked_def flush_fields by blast
qed

text \<open>The state of the connection after a write, before the loop decides what comes next.\<close>

abbreviation popped :: "conn_buffer \<Rightarrow> conn_buffer" where
  "popped b \<equiv> b\<lparr>inflight := inflight b - 1, write_queue := tl (write_queue b), write_pending := False\<rparr>"

lemma others_submit: "k \<noteq> Op_Read \<Longrightarrow> k \<noteq> Op_Write \<Longrightarrow> loop_inv ok st \<Longrightarrow>
    submit_sqe E (encode_userdata k c') x st = (st', ex) \<Longrightarrow> loop_inv ok st'"
proof (rule submit_cases[of E "encode_userdata k c'" x st])
  fix st1
  assume k: "k \<noteq> Op_Read" "k \<noteq> Op_Write" and i: "loop_inv ok st" and e: "submit_sqe E (encode_userdata k c') x st = (st', ex)"
    and s: "submit_sqe E (encode_userdata k c') x st = (st1, None)" "\<And>c. buf st1 c = buf st c" "buffers st1 = buffers st" "sessions st1 = sessions st"
      "tls_conns st1 = tls_conns st" "next_conn_id st1 = next_conn_id st"
      "\<And>k' c. ops k' st1 c = ops k' st c + (if encode_userdata k' c = encode_userdata k c' then 1 else 0)"
  have "ops k' st1 c = ops k' st c" if "k' \<noteq> k" for k' c using s(7) encode_kind that by force
  then have "conn_inv ok c st1 = conn_inv ok c st" for c using k s by (intro conn_inv_same) auto
  then show ?thesis using i e s by (simp add: loop_inv_def table_ok_def)
qed (simp add: loop_inv_def)

lemma timer_inv:
  assumes "loop_inv ok st" "on_timer E tid res sd st = (st', None)"
  shows "loop_inv ok st'"
proof -
  have "conn_inv ok c (st\<lparr>shared := w\<rparr>) = conn_inv ok c st" for c w by (rule conn_inv_same) simp_all
  then have "loop_inv ok (st\<lparr>shared := w\<rparr>)" for w using assms(1) by (simp add: loop_inv_def table_ok_def)
  then show ?thesis using assms others_submit[of Op_Timer ok "st\<lparr>shared := _\<rparr>" E tid]
    by (auto simp: on_timer_def Let_def cid_ok_def split: option.splits if_splits)
qed

section \<open>Closing\<close>

text \<open>A connection that is closing and waits for \<open>n\<close> reads and a write, or is gone.\<close>

definition shut :: "nat \<Rightarrow> 64 word \<Rightarrow> ('w, 's, 'x) uring \<Rightarrow> bool" where
  "shut n c st \<longleftrightarrow> own False n c st \<and> (case buf st c of None \<Rightarrow> True | Some b \<Rightarrow> closing b \<and> inflight b > 0)"

lemma shut_close: "own e n c st \<Longrightarrow> shut n c (submit_close c st)"
  using own_close[of e n c st]
  by (auto simp: shut_def submit_close_def buf_def[of "st\<lparr>buffers := _, sessions := _, tls_conns := _, closed_fds := _\<rparr>"] delete_conv'
      split: option.split)

lemma after_read_shut: "\<not> is_open c st \<Longrightarrow> own False 0 c st \<Longrightarrow> ends_in (shut 0 c) (after_read E c st)"
  by (cases "buf st c") (auto simp: after_read_def is_open_def shut_close intro: shut_def[THEN iffD2])

text \<open>The completions a connection still waits for: a read may begin one more write.\<close>

definition close_left :: "64 word \<Rightarrow> ('w, 's, 'x) uring \<Rightarrow> nat" where
  "close_left c st = 2 * ops Op_Read st c + ops Op_Write st c"

definition own_op :: "64 word \<Rightarrow> cqe \<Rightarrow> bool" where
  "own_op c q \<longleftrightarrow> user_data q = encode_userdata Op_Read c \<or> user_data q = encode_userdata Op_Write c"

definition not_cancelled :: "cqe \<Rightarrow> bool" where
  "not_cancelled q \<longleftrightarrow> decode_op (user_data q) = Some Op_Read \<longrightarrow> cqe_res q \<noteq> - ECANCELED \<and> cqe_res q \<noteq> - ENOENT"

lemma new_id:
  assumes "unat (c :: 64 word) < 2 ^ 60 - 1"
  shows "cid_ok c" "c < c + 1"
proof -
  have "unat (take_bit 60 c) = unat c" using assms by (simp add: unsigned_take_bit_eq take_bit_nat_eq_self)
  then have "take_bit 60 c = c" by (simp only: word_unat_eq_iff)
  then show "cid_ok c" by (simp add: cid_ok_def take_bit_eq_mask)
  show "c < c + 1" using assms by (simp add: word_less_nat_alt unat_word_ariths)
qed

text \<open>What other completions leave of a connection.\<close>

definition same_conn :: "64 word \<Rightarrow> ('w, 's, 'x) uring \<Rightarrow> ('w, 's, 'x) uring \<Rightarrow> bool" where
  "same_conn c st st' \<longleftrightarrow> buf st' c = buf st c \<and> ops Op_Read st' c = ops Op_Read st c \<and> ops Op_Write st' c = ops Op_Write st c
     \<and> next_conn_id st \<le> next_conn_id st'"

lemma same_touches: "touches c' st st' \<Longrightarrow> cid_ok c \<Longrightarrow> c \<noteq> c' \<Longrightarrow> same_conn c st st'"
  by (simp add: same_conn_def touches_def)

lemma same_trans: "same_conn c st st' \<Longrightarrow> same_conn c st' st'' \<Longrightarrow> same_conn c st st''"
  by (auto simp: same_conn_def)

lemma same_submit: "k \<noteq> Op_Read \<Longrightarrow> k \<noteq> Op_Write \<Longrightarrow> same_conn c st (fst (submit_sqe E (encode_userdata k c') x st))"
  by (rule submit_cases[of E "encode_userdata k c'" x st]) (auto simp: same_conn_def dest: encode_kind)

lemma same_accept:
  assumes "unat (next_conn_id st) < 2 ^ 60 - 1" "cid_ok c" "c < next_conn_id st" "on_accept E res ip st = (st', None)"
  shows "same_conn c st st'"
proof -
  obtain s where s: "arm_accept E st = (s, None)" using assms(4) by (cases "arm_accept E st"; cases "snd (arm_accept E st)") (auto simp: on_accept_def)
  have t: "same_conn c st s" using same_submit[of Op_Accept c st E 0 K_Accept] s by (simp add: arm_accept_def)
  have nx: "next_conn_id s = next_conn_id st" using s by (auto simp: arm_accept_def submit_sqe_def split: if_splits)
  let ?c = "next_conn_id s"
  note n = new_id[of ?c, unfolded nx, OF assms(1)]
  let ?s = "put_buf ?c \<lparr>write_queue = [], write_pending = False, closing = False, inflight = 0, fd = res\<rparr> (s\<lparr>next_conn_id := ?c + 1\<rparr>)"
  have u: "same_conn c s ?s" using assms(3) n nx by (auto simp: same_conn_def)
  have "same_conn c ?s st'" if "and_then (perform_all E ?c ?s ks) (\<lambda>st2. arm_read E ?c (st2\<lparr>sessions := AList.update ?c x (sessions st2)\<rparr>)) = (st', None)" for ks x
  proof (rule same_touches[of ?c])
    have "touches ?c ?s (fst (and_then (perform_all E ?c ?s ks) (\<lambda>st2. arm_read E ?c (st2\<lparr>sessions := AList.update ?c x (sessions st2)\<rparr>))))"
      using n nx by (intro touches_and_then touches_perform_all) (auto intro: touches_trans[OF touches_trans[OF _ touches_put(5)] touches_read])
    then show "touches ?c ?s st'" using that by simp
  qed (use assms(2,3) nx in auto)
  then have "same_conn c s st'" using assms(4) s same_trans[OF u] by (auto simp: on_accept_def Let_def same_conn_def buf_def ops_def split: if_splits prod.splits)
  then show ?thesis using same_trans[OF t] by blast
qed

section \<open>A session outlives its own calls\<close>

definition plain :: "64 word \<Rightarrow> ('w, 's, 'x) uring \<Rightarrow> bool" where
  "plain c st \<longleftrightarrow> (case map_of (tls_conns st) c of None \<Rightarrow> True | Some t \<Rightarrow> \<not> handshake_done t)"

text \<open>A connection with an operation outstanding, and one on which a write begins one.\<close>

definition busy :: "64 word \<Rightarrow> ('w, 's, 'x) uring \<Rightarrow> bool" where
  "busy c st \<longleftrightarrow> plain c st \<and> (case buf st c of None \<Rightarrow> False | Some b \<Rightarrow> 0 < inflight b)"

definition ready :: "64 word \<Rightarrow> ('w, 's, 'x) uring \<Rightarrow> bool" where
  "ready c st \<longleftrightarrow> plain c st \<and> (case buf st c of None \<Rightarrow> False | Some b \<Rightarrow> 0 \<le> inflight b \<and> (write_pending b \<longrightarrow> 0 < inflight b))"

lemma busy_ready: "busy c st \<Longrightarrow> ready c st"
  by (auto simp: busy_def ready_def split: option.splits)

lemma busy_close: "busy c st \<Longrightarrow> busy c (submit_close c st)"
  by (auto simp: busy_def submit_close_def plain_def split: option.splits)

lemma flush_busy:
  assumes "plain c st" "buf st c = Some b" "0 \<le> inflight b" "write_queue b \<noteq> []" "flush_write E c st = (st', None)"
  shows "busy c st'"
proof (rule submit_cases[of E "encode_userdata Op_Write c" "K_Send (fd b) (hd (write_queue b))" "put_buf c (b\<lparr>write_pending := True\<rparr>) st"])
  fix st1
  assume "submit_sqe E (encode_userdata Op_Write c) (K_Send (fd b) (hd (write_queue b))) (put_buf c (b\<lparr>write_pending := True\<rparr>) st) = (st1, None)"
    "\<And>c'. buf st1 c' = buf (put_buf c (b\<lparr>write_pending := True\<rparr>) st) c'" "tls_conns st1 = tls_conns (put_buf c (b\<lparr>write_pending := True\<rparr>) st)"
  then show ?thesis using assms by (auto simp: flush_write_def busy_def plain_def)
qed (use assms in \<open>auto simp: flush_write_def\<close>)

lemma write_busy:
  assumes "ready c st" "submit_write E c d False st = (st', None)"
  shows "busy c st'"
proof -
  obtain b where b: "buf st c = Some b" "0 \<le> inflight b" "write_pending b \<Longrightarrow> 0 < inflight b" "plain c st"
    using assms(1) by (auto simp: ready_def split: option.splits)
  have "enqueue_write E c d st = (st', None)" using assms(2) b(1,4) by (auto simp: submit_write_def plain_def split: option.splits)
  then show ?thesis using b flush_busy[of c "put_buf c (b\<lparr>write_queue := write_queue b @ [d]\<rparr>) st" "b\<lparr>write_queue := write_queue b @ [d]\<rparr>" E st']
    by (auto simp: enqueue_write_def Let_def busy_def plain_def split: if_splits)
qed

lemma upgrade_keeps:
  assumes "tls_ctx E" "upgrade_tls E c st = (st', None)"
  shows "busy c st \<Longrightarrow> busy c st'" "ready c st \<Longrightarrow> ready c st'"
  using assms by (auto simp: upgrade_tls_def busy_def ready_def plain_def tls_new_def split: option.splits)

lemma perform_busy:
  assumes "tls_ctx E" "busy c st" "perform_all E c st ks = (st', None)"
  shows "busy c st'"
  using assms(2,3)
proof (induction ks arbitrary: st)
  case (Cons k ks)
  obtain st1 where k: "perform E c st k = (st1, None)" and r: "perform_all E c st1 ks = (st', None)"
    using Cons.prems(2) by (cases "perform E c st k"; cases "snd (perform E c st k)") auto
  have "busy c st1" using k Cons.prems(1) write_busy[OF busy_ready] busy_close upgrade_keeps(1)[OF assms(1)] by (cases k) auto
  then show ?case using Cons.IH r by blast
qed simp

lemma perform_stays:
  assumes "tls_ctx E" "ready c st" "write_first ks" "perform_all E c st ks = (st', None)"
  shows "buf st' c \<noteq> None"
  using assms(2-4)
proof (induction ks arbitrary: st)
  case (Cons k ks)
  obtain st1 where k: "perform E c st k = (st1, None)" and r: "perform_all E c st1 ks = (st', None)"
    using Cons.prems(3) by (cases "perform E c st k"; cases "snd (perform E c st k)") auto
  show ?case
  proof (cases k)
    case (Write d)
    then have "busy c st'" using perform_busy[OF assms(1) write_busy[OF Cons.prems(1)] r] k by simp
    then show ?thesis by (auto simp: busy_def split: option.splits)
  next
    case Upgrade_TLS
    then show ?thesis using Cons.IH[OF upgrade_keeps(2)[OF assms(1) _ Cons.prems(1)] _ r] Cons.prems(2) k by simp
  qed (use Cons.prems(2) in simp)
qed (auto simp: ready_def split: option.splits)

text \<open>The loop's own operations are defined on every connection.\<close>

lemma submit_defined: "snd (and_then (submit_sqe E ud x st) (\<lambda>s. (f s, None))) \<noteq> Some Undefined_behaviour"
  by (rule submit_cases[of E ud x st]) auto

lemma enqueue_defined: "snd (enqueue_write E c d st) \<noteq> Some Undefined_behaviour"
  by (auto simp: enqueue_write_def flush_write_def Let_def submit_defined split: option.split)

lemma perform_defined: "snd (perform E c st k) \<noteq> Some Undefined_behaviour"
  by (cases k) (auto simp: submit_write_def upgrade_tls_def enqueue_defined split: option.split sum.split prod.split)

lemma perform_all_defined: "snd (perform_all E c st ks) \<noteq> Some Undefined_behaviour"
proof (induction ks arbitrary: st)
  case (Cons k ks)
  show ?case using perform_defined[of E c st k] Cons.IH by (cases "perform E c st k"; cases "snd (perform E c st k)") auto
qed simp

lemma after_read_defined: "snd (after_read E c st) \<noteq> Some Undefined_behaviour"
  by (auto simp: after_read_def arm_read_def submit_defined split: option.split)

text \<open>
  What the loop relies on: a session never leaves a TLS upgrade for the loop to begin, a new session only
  writes, and the first of the calls that write or close is a write. The
  constructor of the loop aborts without a TLS context.
\<close>

locale session_contract =
  fixes E :: "('w, 's, 'x) loop_env" and ok :: "'s \<Rightarrow> bool"
  assumes data_law: "ok s \<Longrightarrow> s_on_data (sess E) tls w s d = (w', s', ks, ex) \<Longrightarrow> ok s' \<and> write_first ks"
    and create_law: "s_create (sess E) c ip w = (s, ks) \<Longrightarrow> ok s \<and> (\<forall>k\<in>set ks. \<exists>d. k = Write d)"
    and ok_law: "ok s \<Longrightarrow> \<not> s_wants_tls (sess E) s"
    and ctx_law: "tls_ctx E"
begin

lemma linked_session: "linked ok c st \<Longrightarrow> linked ok c (fst (session_data E c st d))"
proof (cases "map_of (sessions st) c")
  case (Some s)
  assume l: "linked ok c st"
  obtain w s1 ks ex where d: "s_on_data (sess E) (is_tls_active st c) (shared st) s d = (w, s1, ks, ex)" by (metis prod_cases4)
  have "ok s1" using l Some data_law d by (auto simp: linked_def)
  then have "linked ok c (st\<lparr>shared := w, sessions := AList.update c s1 (sessions st)\<rparr>)"
    using l Some by (auto simp: linked_def update_conv')
  then show ?thesis using Some d by (auto simp: session_data_def intro!: linked_and_then linked_perform_all)
qed (simp add: session_data_def)

lemma mid_session: "cid_ok c \<Longrightarrow> mid ok False n c st0 st \<Longrightarrow> outcome (mid ok False n c st0) (mid ok True n c st0) (session_data E c st d)"
  by (rule outcome_conj3) (auto simp: mid_def own_data linked_session intro: touches_trans[OF _ touches_session])

lemma mid_tls_data: "cid_ok c \<Longrightarrow> mid ok False n c st0 st \<Longrightarrow> outcome (mid ok False n c st0) (mid ok True n c st0) (tls_data E c st d)"
  unfolding tls_data_def by (rule outcome_and_then[OF mid_session]) auto

text \<open>What an encrypted read comes to: the data was handled, or an exception was caught, or the session is gone.\<close>

lemma read_tls_ends:
  assumes c: "cid_ok c" and m: "mid ok False 0 c st0 st" and r: "read_tls E c d st = Some r"
  shows "(\<exists>s. mid ok False 0 c st0 s \<and> r = after_read E c s) \<or> (\<exists>s. mid ok True 0 c st0 s \<and> r = (submit_close c s, None))
    \<or> (\<exists>s. r = (s, Some Undefined_behaviour))"
proof -
  let ?get = "\<lambda>st. map_of (tls_conns st) c"
  let ?f = "\<lambda>out st1. if out \<noteq> [] then submit_write E c out True st1 else (st1, None)"
  obtain y out where f: "feed_encryption (tls_lib E) ?get (put_tls c) (tls_data E c) d st = Some (y, out)"
    and r': "r = (case and_then y (?f out) of
           (st2, None) \<Rightarrow> after_read E c st2
         | (st2, Some e) \<Rightarrow> if e = Undefined_behaviour then (st2, Some e) else (submit_close c st2, None))"
    using r by (auto simp: read_tls_def)
  have "mid ok False 0 c st0 (put_tls c t s)" if "mid ok False 0 c st0 s" "?get s \<noteq> None" for t s
    using that by (auto simp: mid_def linked_def intro: touches_trans)
  then have "keeps_ctx (mid ok False 0 c st0) (mid ok True 0 c st0) ?get (put_tls c) (tls_data E c)"
    using mid_tls_data[OF c] by (auto simp: keeps_ctx_def)
  from feed_keeps[OF f this m mid_raised] have "outcome (mid ok False 0 c st0) (mid ok True 0 c st0) y" by simp
  then have o: "outcome (mid ok False 0 c st0) (mid ok True 0 c st0) (and_then y (?f out))"
    by (rule outcome_and_then) (simp add: mid_write[OF c])
  obtain st2 ex where e: "and_then y (?f out) = (st2, ex)" by fastforce
  then show ?thesis using o r' by (cases ex) auto
qed

lemma mid_read_tls:
  assumes c: "cid_ok c" and m: "mid ok False 0 c st0 st" and r: "read_tls E c d st = Some r"
  shows "ends_in (\<lambda>s. mid ok False 0 c st0 s \<or> mid ok False 1 c st0 s) r"
  using read_tls_ends[OF assms] mid_after_read[OF c, of ok st0 _ E] mid_close[of ok True 0 c st0] by auto

lemma on_read_mid:
  assumes "cid_ok c" "loop_inv ok st" "encode_userdata Op_Read c \<in> set (outstanding st)"
    "on_read E c res d (finished (encode_userdata Op_Read c) st) = Some (st', None)"
  shows "loop_inv ok st' \<and> touches c st st'"
proof (rule read_done[OF assms(1-3)])
  fix b
  let ?s = "add_inflight c (- 1) (finished (encode_userdata Op_Read c) st)"
  assume b: "buf st c = Some b" and s: "map_of (sessions st) c \<noteq> None" and o: "own False 0 c ?s" and l: "linked ok c ?s"
  have m: "mid ok False 0 c ?s ?s" using o l by (rule mid_start)
  have p: "outcome (mid ok False 0 c ?s) (mid ok True 0 c ?s) (session_data E c ?s d)" by (rule mid_session[OF assms(1) m])
  have "ends_in (\<lambda>s. mid ok False 0 c ?s s \<or> mid ok False 1 c ?s s) (and_then (session_data E c ?s d) (after_read E c))"
    by (rule ends_in_and_then[where P = "mid ok False 0 c ?s"])
      (use p mid_after_read[OF assms(1)] in \<open>auto simp: outcome_def ends_in_def split: prod.splits option.splits\<close>)
  moreover have "ends_in (\<lambda>s. mid ok False 0 c ?s s \<or> mid ok False 1 c ?s s) r" if "read_tls E c d ?s = Some r" for r
    by (rule mid_read_tls[OF assms(1) m that])
  ultimately have "mid ok False 0 c ?s st' \<or> mid ok False 1 c ?s st'" using assms(4) b s m mid_close[OF m]
    by (auto simp: on_read_def Let_def ends_in_def split: if_splits)
  then show ?thesis using mid_ends[OF assms(1,2)] by blast
qed

lemma on_write_mid:
  assumes "cid_ok c" "loop_inv ok st" "encode_userdata Op_Write c \<in> set (outstanding st)"
    "on_write E c res (finished (encode_userdata Op_Write c) st) = (st', None)"
  shows "loop_inv ok st' \<and> touches c st st'"
proof (rule write_done[OF assms(1-3)])
  fix b n
  let ?s = "add_inflight c (- 1) (finished (encode_userdata Op_Write c) st)"
  assume b: "buf st c = Some b" "map_of (sessions st) c \<noteq> None" and n: "n = 0 \<or> n = 1" and q: "write_queue b \<noteq> []"
    and f: "inflight b = int n + 1" "ops Op_Read st c = n" "ops Op_Write st c = 1"
    and o: "own True n c ?s" and l: "linked ok c ?s"
  let ?p = "put_buf c (popped b) ?s"
  have m: "mid ok True n c ?s ?s" using o l by (simp add: mid_def)
  have tp: "touches c ?s ?p" by (rule touches_put(1)[of _ _ "b\<lparr>inflight := inflight b + - 1\<rparr>"]) (use b in simp_all)
  have p: "mid ok False n c ?s ?p" using b f l tp by (auto simp: mid_def own_def linked_def)
  obtain x where x: "map_of (sessions st) c = Some x" "\<not> s_wants_tls (sess E) x" using b(2) l ok_law by (auto simp: linked_def)
  have fl: "ends_in (mid ok False n c ?s) (flush_write E c ?p)"
    using mid_flush[OF assms(1) p, of "popped b" E] by (auto simp: outcome_def ends_in_def split: prod.splits option.splits)
  have "mid ok False n c ?s st'" using assms(4) b q x fl p mid_close[OF m] mid_close[OF p]
    by (auto simp: on_write_def Let_def ends_in_def split: if_splits)
  then show ?thesis using mid_ends[OF assms(1,2)] n by blast
qed

lemma arm_accept_inv: "loop_inv ok st \<Longrightarrow> arm_accept E st = (st', None) \<Longrightarrow> loop_inv ok st'"
  by (rule others_submit[of Op_Accept]) (simp_all add: arm_accept_def)

lemma submit_close_inv: "cid_ok c \<Longrightarrow> loop_inv ok st \<Longrightarrow> loop_inv ok (submit_close c st)"
  using mid_close[OF mid_start[of _ c st ok]] mid_inv[of c ok st] by (auto simp: loop_inv_split[of c ok st] conn_inv_def)

text \<open>A greeting is written, and the connection is still there afterwards.\<close>

lemma greeting_stays:
  assumes "perform_all E c st ks = (st', None)" "\<forall>k\<in>set ks. \<exists>d. k = Write d" "map_of (tls_conns st) c = None" "buf st c \<noteq> None"
  shows "map_of (tls_conns st') c = None \<and> buf st' c \<noteq> None"
  using assms
proof (induction ks arbitrary: st)
  case (Cons k ks)
  obtain d where k: "k = Write d" using Cons.prems(2) by auto
  obtain st1 where s: "enqueue_write E c d st = (st1, None)" and r: "perform_all E c st1 ks = (st', None)"
    using Cons.prems k by (cases "enqueue_write E c d st"; cases "snd (enqueue_write E c d st)") (auto simp: submit_write_def split: option.splits)
  have "tls_conns st1 = tls_conns st" "buf st1 c = None \<longleftrightarrow> buf st c = None"
    using enqueue_fields[of E c d st] s by (simp_all del: not_None_eq)
  then show ?case using Cons.IH[OF r] Cons.prems by simp
qed simp

lemma accepted_inv:
  fixes s :: "('w, 's, 'x) uring" and res :: int
  defines "c \<equiv> next_conn_id s"
  defines "s1 \<equiv> put_buf c \<lparr>write_queue = [], write_pending = False, closing = False, inflight = 0, fd = res\<rparr> (s\<lparr>next_conn_id := c + 1\<rparr>)"
  assumes i: "loop_inv ok s" and n: "unat c < 2 ^ 60 - 1" and room: "length (buffers s) < 100" and x: "s_create (sess E) c ip (shared s1) = (x, ks)"
    and r: "and_then (perform_all E c s1 ks) (\<lambda>st2. arm_read E c (st2\<lparr>sessions := AList.update c x (sessions st2)\<rparr>)) = (st', None)"
  shows "loop_inv ok st'"
proof -
  note c = new_id(1)[OF n] and lt = new_id(2)[OF n]
  have z: "buf s c = None" using i by (auto simp: loop_inv_def table_ok_def c_def)
  have ci: "conn_inv ok c s" using i c by (simp add: loop_inv_def)
  have "conn_inv ok c' s1 = conn_inv ok c' s" if "c' \<noteq> c" for c' using that by (intro conn_inv_same) (simp_all add: s1_def)
  moreover have "length (buffers s1) \<le> 100" using room by (auto simp: s1_def put_buf_def intro: order.trans[OF length_update_le])
  then have "table_ok s1" using i c lt by (auto simp: loop_inv_def table_ok_def s1_def c_def intro: less_trans)
  ultimately have os: "others ok c s1" using i by (simp add: others_def loop_inv_def)
  have ow: "own False 0 c s1" "map_of (tls_conns s1) c = None" using ci z by (auto simp: conn_inv_def own_def linked_def s1_def)
  obtain s2 where p: "perform_all E c s1 ks = (s2, None)" and r: "arm_read E c (s2\<lparr>sessions := AList.update c x (sessions s2)\<rparr>) = (st', None)"
    using r by (cases "perform_all E c s1 ks"; cases "snd (perform_all E c s1 ks)") auto
  let ?s3 = "s2\<lparr>sessions := AList.update c x (sessions s2)\<rparr>"
  have g: "map_of (tls_conns s2) c = None" "buf s2 c \<noteq> None"
    using greeting_stays[OF p _ ow(2)] create_law[OF x] by (auto simp: s1_def)
  have t: "touches c s1 ?s3" using touches_trans[OF touches_perform_all[OF c, of s1 E ks] touches_put(5)] p by simp
  have o: "own False 0 c ?s3" using own_perform_all[OF ow(1), of E ks] p by simp
  have l: "linked ok c ?s3" using g create_law[OF x] by (simp add: linked_def update_conv')
  have "mid ok False 1 c s1 st'"
    using own_read[OF c o, of E] r linked_arm[OF l, of E] touches_trans[OF t touches_read[OF c, of _ E]] by (simp add: mid_def)
  then show ?thesis using mid_inv[OF c os] by blast
qed

lemma on_accept_inv:
  assumes i: "loop_inv ok st" and b: "unat (next_conn_id st) < 2 ^ 60 - 1" and a: "on_accept E res ip st = (st', None)"
  shows "loop_inv ok st'"
proof -
  obtain s where s: "arm_accept E st = (s, None)" using a by (cases "arm_accept E st"; cases "snd (arm_accept E st)") (auto simp: on_accept_def)
  have si: "loop_inv ok s" by (rule arm_accept_inv[OF i s])
  have nx: "next_conn_id s = next_conn_id st" using s by (auto simp: arm_accept_def submit_sqe_def split: if_splits)
  have "conn_inv ok c' (s\<lparr>closed_fds := f\<rparr>) = conn_inv ok c' s" "buf (s\<lparr>closed_fds := f\<rparr>) c' = buf s c'" for c' f
    by (rule conn_inv_same) (simp_all add: buf_def ops_def)
  then have "loop_inv ok (s\<lparr>closed_fds := f\<rparr>)" for f using si by (simp add: loop_inv_def table_ok_def)
  then show ?thesis using a s si b nx by (auto simp: on_accept_def Let_def split: if_splits prod.splits intro: accepted_inv)
qed

lemma step_inv:
  assumes "loop_step E st st'" "loop_inv ok st"
  shows "loop_inv ok st'"
  using assms(1)
proof cases
  case (complete q)
  let ?ud = "user_data q" let ?c = "decode_conn_id (user_data q)"
  show ?thesis
  proof (cases "dns_is_completion ?ud")
    case True
    have "conn_inv ok c (finished ?ud st\<lparr>shared := w\<rparr>) = conn_inv ok c st" for c w
      using True userdata_decode(3) by (intro conn_inv_same) auto
    then show ?thesis using True complete assms(2) by (auto simp: handle_cqe_def Let_def finished_def[symmetric] loop_inv_def table_ok_def)
  next
    case False
    note h = complete(3)[unfolded finished_def[symmetric] handle_cqe_def Let_def, simplified False if_False]
    have e: "encode_userdata k ?c = ?ud" if "decode_op ?ud = Some k" for k using userdata_of[OF that] by simp
    have fi: "conn_inv ok c (finished ?ud st) = conn_inv ok c st" if "decode_op ?ud \<notin> {Some Op_Read, Some Op_Write}" for c
      using that userdata_decode(1) by (intro conn_inv_same) auto
    have f: "loop_inv ok (finished ?ud st)" if "decode_op ?ud \<notin> {Some Op_Read, Some Op_Write}"
      using fi[OF that] assms(2) by (auto simp: loop_inv_def table_ok_def)
    show ?thesis
    proof (cases "decode_op ?ud")
      case None
      then show ?thesis using h f by simp
    next
      case (Some k)
      then show ?thesis
      proof (cases k)
        case Op_Accept
        then show ?thesis using h Some f complete(2) on_accept_inv[of "finished ?ud st"] by simp
      next
        case Op_Read
        then show ?thesis using h Some e[OF Some] on_read_mid[OF decoded_ok assms(2), of ?ud] complete(1) by simp
      next
        case Op_Write
        then show ?thesis using h Some e[OF Some] on_write_mid[OF decoded_ok assms(2), of ?ud] complete(1) by simp
      next
        case Op_Close
        then show ?thesis using h Some f submit_close_inv[OF decoded_ok, of "finished ?ud st" ?ud] by simp
      next
        case Op_Timer
        then show ?thesis using h Some f timer_inv[of ok "finished ?ud st"] by simp
      qed
    qed
  qed
next
  case (resolver q)
  have "conn_inv ok c (st\<lparr>shared := w\<rparr>) = conn_inv ok c st" for c w by (rule conn_inv_same) simp_all
  then show ?thesis using resolver assms(2) by (auto simp: handle_cqe_def Let_def loop_inv_def table_ok_def)
qed

lemma reaches_inv: "loop_reaches E w st \<Longrightarrow> loop_inv ok st"
proof (induction rule: loop_reaches.induct)
  case new
  show ?case by (simp add: loop_new_def loop_inv_def table_ok_def conn_inv_def own_def linked_def buf_def ops_def)
next
  case (timer st n a st')
  have "conn_inv ok c (st\<lparr>timer_next_id := i, timers := ts\<rparr>) = conn_inv ok c st" "buf (st\<lparr>timer_next_id := i, timers := ts\<rparr>) c = buf st c" for c i ts
    by (rule conn_inv_same) (simp_all add: buf_def ops_def)
  then have "loop_inv ok (st\<lparr>timer_next_id := i, timers := ts\<rparr>)" for i ts using timer.IH by (simp add: loop_inv_def table_ok_def)
  then show ?case using timer.hyps(2) others_submit[of Op_Timer ok "st\<lparr>timer_next_id := _, timers := _\<rparr>" E]
    by (auto simp: arm_periodic_timer_def Let_def)
next
  case (run st st')
  then show ?case using arm_accept_inv by blast
next
  case (step st st')
  then show ?case using step_inv by blast
qed

lemma on_read_shut:
  assumes "cid_ok c" "loop_inv ok st" "encode_userdata Op_Read c \<in> set (outstanding st)" "\<not> is_open c st" "res \<noteq> - ECANCELED" "res \<noteq> - ENOENT"
    "on_read E c res d (finished (encode_userdata Op_Read c) st) = Some (st', None)"
  shows "shut 0 c st'"
proof (rule read_done[OF assms(1-3)])
  fix b
  let ?s = "add_inflight c (- 1) (finished (encode_userdata Op_Read c) st)"
  assume b: "buf st c = Some b" and s: "map_of (sessions st) c \<noteq> None" and o: "own False 0 c ?s" and l: "linked ok c ?s"
  have m: "mid ok False 0 c ?s ?s" using o l by (rule mid_start)
  have n: "\<not> is_open c ?s" using assms(4) b by (simp add: is_open_def)
  have a: "ends_in (shut 0 c) (after_read E c s)" if "mid ok False 0 c ?s s" for s
    using that n after_read_shut[of c s E] by (auto simp: mid_def touches_def)
  have p: "outcome (mid ok False 0 c ?s) (mid ok True 0 c ?s) (session_data E c ?s d)" by (rule mid_session[OF assms(1) m])
  have "ends_in (shut 0 c) (and_then (session_data E c ?s d) (after_read E c))"
    by (rule ends_in_and_then[where P = "mid ok False 0 c ?s"])
      (use p a in \<open>auto simp: outcome_def ends_in_def split: prod.splits option.splits\<close>)
  moreover have "ends_in (shut 0 c) r" if "read_tls E c d ?s = Some r" for r
    using read_tls_ends[OF assms(1) m that] a shut_close by (auto simp: mid_def)
  ultimately show ?thesis using assms(5-7) b s o shut_close[of False 0 c ?s]
    by (auto simp: on_read_def Let_def ends_in_def split: if_splits)
qed

lemma on_write_shut:
  assumes "cid_ok c" "loop_inv ok st" "encode_userdata Op_Write c \<in> set (outstanding st)" "\<not> is_open c st"
    "on_write E c res (finished (encode_userdata Op_Write c) st) = (st', None)"
  shows "shut (ops Op_Read st c) c st' \<and> ops Op_Write st' c = 0"
proof (rule write_done[OF assms(1-3)])
  fix b n
  let ?s = "add_inflight c (- 1) (finished (encode_userdata Op_Write c) st)"
  assume b: "buf st c = Some b" "map_of (sessions st) c \<noteq> None" and n: "n = 0 \<or> n = 1" and q: "write_queue b \<noteq> []"
    and f: "inflight b = int n + 1" "ops Op_Read st c = n" "ops Op_Write st c = 1"
    and o: "own True n c ?s" and l: "linked ok c ?s"
  let ?p = "put_buf c (popped b) ?s"
  have p: "own False n c ?p" using b f by (auto simp: own_def)
  obtain x where x: "map_of (sessions st) c = Some x" "\<not> s_wants_tls (sess E) x" using b(2) l ok_law by (auto simp: linked_def)
  have cl: "closing b" using assms(4) b by (simp add: is_open_def)
  have "st' = submit_close c ?s \<or> st' = submit_close c ?p" using assms(5) b q x cl
    by (auto simp: on_write_def Let_def split: if_splits)
  moreover have "ops Op_Write (submit_close c s) c = ops Op_Write s c" for s :: "('w, 's, 'x) uring"
    by (simp add: submit_close_def ops_def split: option.split)
  ultimately show ?thesis using shut_close[OF o] shut_close[OF p] f by auto
qed

text \<open>A completion of another operation, for a connection \<open>c\<close> that was there before.\<close>

lemma step_same:
  assumes "loop_inv ok st" "cid_ok c" "c < next_conn_id st" "unat (next_conn_id st) < 2 ^ 60 - 1" "user_data q \<in> set (outstanding st)"
    "handle_cqe E q (finished (user_data q) st) = Some (st', None)" "\<not> own_op c q"
    "case buf st c of None \<Rightarrow> True | Some b \<Rightarrow> closing b \<and> inflight b > 0"
  shows "same_conn c st st'"
proof (cases "dns_is_completion (user_data q)")
  case True
  then show ?thesis using assms(6,7) by (auto simp: handle_cqe_def Let_def same_conn_def own_op_def)
next
  case False
  let ?ud = "user_data q" let ?c = "decode_conn_id (user_data q)"
  note h = assms(6)[unfolded handle_cqe_def Let_def, simplified False if_False]
  have f: "same_conn c st (finished ?ud st)" using assms(7) by (auto simp: same_conn_def own_op_def)
  have e: "encode_userdata k ?c = ?ud" if "decode_op ?ud = Some k" for k using userdata_of[OF that] by simp
  show ?thesis
  proof (cases "decode_op ?ud")
    case None
    then show ?thesis using h f by simp
  next
    case (Some k)
    have ne: "c \<noteq> ?c" if "k = Op_Read \<or> k = Op_Write" using that assms(7) Some e[OF Some] by (auto simp: own_op_def)
    show ?thesis
    proof (cases k)
      case Op_Accept
      then show ?thesis using h Some same_accept[of "finished ?ud st" c] assms(2-4) same_trans[OF f] by simp
    next
      case Op_Read
      then show ?thesis using h Some e[OF Some] on_read_mid[OF decoded_ok assms(1), of ?ud] assms(5) same_touches[OF _ assms(2) ne, of st st'] by simp
    next
      case Op_Write
      then show ?thesis using h Some e[OF Some] on_write_mid[OF decoded_ok assms(1), of ?ud] assms(5) same_touches[OF _ assms(2) ne, of st st'] by simp
    next
      case Op_Close
      have "same_conn c (finished ?ud st) (submit_close ?c (finished ?ud st))"
      proof (cases "c = ?c")
        case True
        then show ?thesis using assms(8) by (auto simp: same_conn_def submit_close_def split: option.splits)
      next
        case False
        then show ?thesis using same_touches[OF touches_close assms(2)] by blast
      qed
      then show ?thesis using h Some Op_Close same_trans[OF f] by simp
    next
      case Op_Timer
      have "same_conn c (finished ?ud st) st'" using h Some Op_Timer same_submit[of Op_Timer c "finished ?ud st\<lparr>shared := _\<rparr>" E ?c]
        by (auto simp: on_timer_def Let_def same_conn_def split: option.splits if_splits) (metis fst_conv)+
      then show ?thesis by (rule same_trans[OF f])
    qed
  qed
qed

lemma step_closing:
  assumes i: "loop_inv ok st" and c: "cid_ok c" "c < next_conn_id st" and s: "shut n c st" "n \<le> 1"
    and q: "unat (next_conn_id st) < 2 ^ 60 - 1" "user_data q \<in> set (outstanding st)" "own_op c q \<Longrightarrow> not_cancelled q"
      "handle_cqe E q (finished (user_data q) st) = Some (st', None)"
  shows "c < next_conn_id st' \<and> (\<exists>n\<le>1. shut n c st') \<and> close_left c st' + (if own_op c q then 1 else 0) \<le> close_left c st"
proof (cases "own_op c q")
  case False
  have "same_conn c st st'" by (rule step_same[OF i c q(1,2,4) False]) (use s in \<open>auto simp: shut_def split: option.splits\<close>)
  then have "c < next_conn_id st'" "shut n c st'" "close_left c st' = close_left c st"
    using c s by (auto simp: same_conn_def shut_def own_def close_left_def split: option.splits)
  then show ?thesis using False s(2) by auto
next
  case True
  have no: "\<not> is_open c st" using s by (auto simp: shut_def is_open_def split: option.splits)
  have d: "decode_conn_id (user_data q) = c" "\<not> dns_is_completion (user_data q)" using True c(1) by (auto simp: own_op_def userdata_decode cid_ok_def)
  have z: "ops Op_Read st c \<le> 1" using s by (auto simp: shut_def own_def split: option.splits)
  show ?thesis
  proof (cases "user_data q = encode_userdata Op_Read c")
    case read: True
    have h: "on_read E c (cqe_res q) (cqe_data q) (finished (encode_userdata Op_Read c) st) = Some (st', None)"
      using q(4) d read by (simp add: handle_cqe_def userdata_decode)
    have u: "encode_userdata Op_Read c \<in> set (outstanding st)" using q(2) read by simp
    then have "0 < ops Op_Read st c" by (simp add: ops_outstanding)
    moreover have "shut 0 c st'" by (rule on_read_shut[OF c(1) i u no _ _ h]) (use q(3) True read in \<open>simp_all add: not_cancelled_def userdata_decode\<close>)
    moreover have "touches c st st'" using on_read_mid[OF c(1) i u h] by blast
    ultimately show ?thesis using True c(2) by (auto simp: close_left_def shut_def own_def touches_def split: option.splits)
  next
    case False
    then have w: "user_data q = encode_userdata Op_Write c" using True by (simp add: own_op_def)
    have h: "on_write E c (cqe_res q) (finished (encode_userdata Op_Write c) st) = (st', None)"
      using q(4) d w by (simp add: handle_cqe_def userdata_decode)
    have u: "encode_userdata Op_Write c \<in> set (outstanding st)" using q(2) w by simp
    then have "0 < ops Op_Write st c" by (simp add: ops_outstanding)
    moreover have "shut (ops Op_Read st c) c st'" "ops Op_Write st' c = 0" using on_write_shut[OF c(1) i u no h] by auto
    moreover have "touches c st st'" using on_write_mid[OF c(1) i u h] by blast
    ultimately show ?thesis using True c(2) z by (auto simp: close_left_def shut_def own_def touches_def split: option.splits)
  qed
qed

lemma run_closing:
  assumes "run_cqes E st qs = Some (st', None)" "loop_inv ok st" "cid_ok c" "c < next_conn_id st" "shut n c st" "n \<le> 1"
    "list_all not_cancelled qs"
  shows "(\<exists>n\<le>1. shut n c st') \<and> close_left c st' + length (filter (own_op c) qs) \<le> close_left c st"
  using assms
proof (induction qs arbitrary: st n)
  case (Cons q qs)
  obtain st1 where h: "handle_cqe E q (finished (user_data q) st) = Some (st1, None)" and r: "run_cqes E st1 qs = Some (st', None)"
    and q: "unat (next_conn_id st) < 2 ^ 60 - 1" "user_data q \<in> set (outstanding st)"
    using Cons.prems(1) by (auto simp: finished_def split: if_splits option.splits prod.splits)
  have i: "loop_inv ok st1" by (rule step_inv[OF loop_step.complete[OF q(2,1)] Cons.prems(2)]) (use h in \<open>simp add: finished_def\<close>)
  have "c < next_conn_id st1 \<and> (\<exists>n\<le>1. shut n c st1) \<and> close_left c st1 + (if own_op c q then 1 else 0) \<le> close_left c st"
    by (rule step_closing[OF Cons.prems(2-6) q _ h]) (use Cons.prems(7) in simp)
  then show ?case using Cons.IH[OF r i Cons.prems(3)] Cons.prems(7) by fastforce
qed auto

lemma session_stays:
  assumes "linked ok c st" "ready c st" "session_data E c st d = (st', Some Undefined_behaviour)"
  shows "\<exists>s w s' ks. map_of (sessions st) c = Some s \<and>
    s_on_data (sess E) (is_tls_active st c) (shared st) s d = (w, s', ks, Some Undefined_behaviour)"
proof -
  obtain s where s: "map_of (sessions st) c = Some s" using assms(3) by (auto simp: session_data_def split: option.splits)
  obtain w s1 ks ex where d: "s_on_data (sess E) (is_tls_active st c) (shared st) s d = (w, s1, ks, ex)" by (metis prod_cases4)
  have k: "ok s1" "write_first ks" using assms(1) s data_law[OF _ d] by (auto simp: linked_def)
  let ?s = "st\<lparr>shared := w, sessions := AList.update c s1 (sessions st)\<rparr>"
  obtain st1 e where p: "perform_all E c ?s ks = (st1, e)" by fastforce
  have n: "e = None" using perform_all_defined[of E c ?s ks] p assms(3) s d by (cases e) (auto simp: session_data_def)
  have l: "linked ok c ?s" using assms(1) s k(1) by (auto simp: linked_def update_conv')
  have "ready c ?s" using assms(2) by (simp add: ready_def plain_def)
  then have "buf st1 c \<noteq> None" using perform_stays[OF ctx_law _ k(2)] p n by blast
  then have "map_of (sessions st1) c \<noteq> None" using linked_perform_all[OF l, of E ks] p by (auto simp: linked_def)
  then have "ex = Some Undefined_behaviour" using assms(3) s d p n by (auto simp: session_data_def split: if_splits)
  then show ?thesis using s d by blast
qed

lemma on_read_defined:
  assumes "cid_ok c" "loop_inv ok st" "encode_userdata Op_Read c \<in> set (outstanding st)" "is_open c st" "map_of (tls_conns st) c = None"
    "on_read E c res d (finished (encode_userdata Op_Read c) st) = Some (st', Some Undefined_behaviour)"
  shows "\<exists>s w s' ks. map_of (sessions st) c = Some s \<and> s_on_data (sess E) False (shared st) s d = (w, s', ks, Some Undefined_behaviour)"
proof (rule read_done[OF assms(1-3)])
  fix b
  let ?s = "add_inflight c (- 1) (finished (encode_userdata Op_Read c) st)"
  assume b: "buf st c = Some b" and s: "map_of (sessions st) c \<noteq> None" and o: "own False 0 c ?s" and l: "linked ok c ?s"
  have r: "ready c ?s" using o b assms(4,5) by (auto simp: ready_def plain_def own_def is_open_def)
  have a: "snd (after_read E c st1) \<noteq> Some Undefined_behaviour" for st1 :: "('w, 's, 'x) uring" by (rule after_read_defined)
  have "session_data E c ?s d = (fst (session_data E c ?s d), Some Undefined_behaviour)"
    using assms(5,6) b s a by (cases "session_data E c ?s d"; cases "snd (session_data E c ?s d)")
      (auto simp: on_read_def Let_def split: if_splits dest: arg_cong[where f = snd])
  from session_stays[OF l r this] show ?thesis using assms(5) by (simp add: is_tls_active_def add_inflight_def put_buf_def finished_def split: option.splits)
qed

end

section \<open>The first client\<close>

text \<open>The loop after it accepted its first connection: the greeting and a read are outstanding.\<close>

definition cq :: "64 word \<Rightarrow> int \<Rightarrow> string \<Rightarrow> cqe" where
  "cq ud res d = \<lparr>user_data = ud, cqe_res = res, cqe_data = d, cqe_peer = ''10.0.0.1'', cqe_shutdown = False\<rparr>"

definition one_client :: "'s \<Rightarrow> string \<Rightarrow> 'w \<Rightarrow> ('w, 's, 'x) uring" where
  "one_client s g w = \<lparr>buffers = [(1, \<lparr>write_queue = [g], write_pending = True, closing = False, inflight = 2, fd = 7\<rparr>)],
     sessions = [(1, s)], tls_conns = [], next_conn_id = 2, timers = [], timer_next_id = 1,
     submitted = [(encode_userdata Op_Accept 0, K_Accept), (encode_userdata Op_Accept 0, K_Accept),
       (encode_userdata Op_Write 1, K_Send 7 g), (encode_userdata Op_Read 1, K_Recv 7)],
     outstanding = [encode_userdata Op_Accept 0, encode_userdata Op_Write 1, encode_userdata Op_Read 1],
     closed_fds = [], shared = w\<rparr>"

lemma one_is_ok: "cid_ok 1" "1 AND mask 60 = (1 :: 64 word)"
  by (simp_all add: cid_ok_def mask_eq_exp_minus_1)

lemma cq_fields [simp]: "user_data (cq ud res d) = ud" "cqe_res (cq ud res d) = res" "cqe_data (cq ud res d) = d"
  "cqe_peer (cq ud res d) = ''10.0.0.1''"
  by (simp_all add: cq_def)

lemma handle_first:
  "handle_cqe E (cq (encode_userdata Op_Accept 0) res d) st = Some (on_accept E res ''10.0.0.1'' st)"
  "handle_cqe E (cq (encode_userdata Op_Read 1) res d) st = on_read E 1 res d st"
  "handle_cqe E (cq (encode_userdata Op_Write 1) res d) st = Some (on_write E 1 res st)"
  by (simp_all add: handle_cqe_def userdata_decode one_is_ok)

lemma run_step:
  "user_data q \<in> set (outstanding st) \<Longrightarrow> unat (next_conn_id st) < 2 ^ 60 - 1 \<Longrightarrow>
   handle_cqe E q (st\<lparr>outstanding := remove1 (user_data q) (outstanding st)\<rparr>) = Some (st1, None) \<Longrightarrow>
   run_cqes E st (q # qs) = run_cqes E st1 qs"
  by simp

lemma run_raise:
  "user_data q \<in> set (outstanding st) \<Longrightarrow> unat (next_conn_id st) < 2 ^ 60 - 1 \<Longrightarrow>
   handle_cqe E q (st\<lparr>outstanding := remove1 (user_data q) (outstanding st)\<rparr>) = Some (st1, Some e) \<Longrightarrow>
   run_cqes E st (q # qs) = Some (st1, Some e)"
  by simp

lemma first_accept:
  assumes "sq_space E = (\<lambda>n. True)" "s_create (sess E) 1 ''10.0.0.1'' w = (s, [Write g])"
  shows "run_cqes E (fst (arm_accept E (loop_new w))) (cq (encode_userdata Op_Accept 0) 7 [] # qs) = run_cqes E (one_client s g w) qs"
proof -
  have "on_accept E 7 ''10.0.0.1'' (fst (arm_accept E (loop_new w))\<lparr>outstanding := []\<rparr>) = (one_client s g w, None)"
    using assms by (simp add: on_accept_def arm_accept_def submit_sqe_def loop_new_def Let_def submit_write_def enqueue_write_def
        flush_write_def arm_read_def add_inflight_def put_buf_def buf_def one_client_def)
  moreover have "outstanding (fst (arm_accept E (loop_new w))) = [encode_userdata Op_Accept 0]" "next_conn_id (fst (arm_accept E (loop_new w))) = 1"
    using assms(1) by (simp_all add: arm_accept_def submit_sqe_def loop_new_def)
  ultimately show ?thesis by (simp add: handle_first)
qed

lemma first_reached:
  assumes "sq_space E = (\<lambda>n. True)" "s_create (sess E) 1 ''10.0.0.1'' w = (s, [Write g])"
  shows "loop_reaches E w (one_client s g w)"
proof -
  let ?s = "fst (arm_accept E (loop_new w))"
  have r: "loop_reaches E w ?s" by (rule loop_reaches.run[OF loop_reaches.new[of E w]]) (use assms(1) in \<open>simp add: arm_accept_def submit_sqe_def\<close>)
  have o: "outstanding ?s = [encode_userdata Op_Accept 0]" "next_conn_id ?s = 1"
    using assms(1) by (simp_all add: arm_accept_def submit_sqe_def loop_new_def)
  have "handle_cqe E (cq (encode_userdata Op_Accept 0) 7 []) (?s\<lparr>outstanding := remove1 (encode_userdata Op_Accept 0) (outstanding ?s)\<rparr>) =
      Some (one_client s g w, None)"
    using first_accept[OF assms, of "[]"] o by (auto split: option.splits prod.splits)
  then show ?thesis by (intro loop_reaches.step[OF r] loop_step.complete[of "cq (encode_userdata Op_Accept 0) 7 []"]) (use o in simp_all)
qed

end
