(* ===== verification/Port_Inv.thy ===== *)
theory Port_Inv
  imports Uring_Inv
begin

text \<open>
  What all clients of a port can do together. The sessions of a port take turns on what they share; a property
  \<open>G\<close> of the shared state and a property \<open>J\<close> of each session that a session keeps while it handles data, whatever it
  is sent, hold in every state the event loop reaches. The contract is the locale \<open>port_invariant\<close>; the
  three ports of the server are instances of it.
\<close>

definition good :: "('w \<Rightarrow> bool) \<Rightarrow> ('s \<Rightarrow> bool) \<Rightarrow> ('w, 's, 'x) uring \<Rightarrow> bool" where
  "good G J st \<longleftrightarrow> G (shared st) \<and> (\<forall>c s. map_of (sessions st) c = Some s \<longrightarrow> J s)"

named_theorems good_intros

section \<open>Operations that run no session\<close>

text \<open>Only sessions and timers change what is shared; the other operations of the loop at most drop sessions.\<close>

lemma good_same: "good G J st \<Longrightarrow> shared st' = shared st \<Longrightarrow> sessions st' = sessions st \<Longrightarrow> good G J st'"
  by (simp add: good_def)

lemma good_and_then [good_intros]: "good G J (fst r) \<Longrightarrow> (\<And>s. good G J s \<Longrightarrow> good G J (fst (f s))) \<Longrightarrow> good G J (fst (and_then r f))"
  by (cases r; cases "snd r") auto

lemma good_put [good_intros]:
  "good G J st \<Longrightarrow> good G J (put_buf c b st)" "good G J st \<Longrightarrow> good G J (put_tls c t st)" "good G J st \<Longrightarrow> good G J (add_inflight c n st)"
  "good G J st \<Longrightarrow> good G J (st\<lparr>closed_fds := fs\<rparr>)" "good G J st \<Longrightarrow> good G J (st\<lparr>next_conn_id := i\<rparr>)"
  "good G J st \<Longrightarrow> good G J (st\<lparr>outstanding := us\<rparr>)" "good G J st \<Longrightarrow> good G J (st\<lparr>timer_next_id := i, timers := ts\<rparr>)"
  "good G J st \<Longrightarrow> good G J (st\<lparr>timer_next_id := i\<rparr>)"
  by (erule good_same; simp add: put_buf_def put_tls_def add_inflight_def split: option.split)+

lemma good_submit [good_intros]: "good G J st \<Longrightarrow> good G J (fst (submit_sqe E ud oper st))"
  by (simp add: submit_sqe_def good_def)

lemma good_close [good_intros]: "good G J st \<Longrightarrow> good G J (submit_close c st)"
  by (auto simp: submit_close_def good_def put_buf_def delete_conv' split: option.split if_splits)

lemma good_arm [good_intros]: "good G J st \<Longrightarrow> good G J (fst (arm_accept E st))" "good G J st \<Longrightarrow> good G J (fst (arm_read E c st))"
  by (auto simp: arm_accept_def arm_read_def split: option.split intro!: good_intros)

lemma good_flush [good_intros]: "good G J st \<Longrightarrow> good G J (fst (flush_write E c st))"
  by (auto simp: flush_write_def split: option.split intro!: good_intros)

lemma good_enqueue [good_intros]: "good G J st \<Longrightarrow> good G J (fst (enqueue_write E c d st))"
  by (auto simp: enqueue_write_def Let_def split: option.split intro!: good_intros)

lemma good_write [good_intros]: "good G J st \<Longrightarrow> good G J (fst (submit_write E c d raw st))"
  by (auto simp: submit_write_def split: option.split sum.split prod.split intro!: good_intros)

lemma good_upgrade [good_intros]: "good G J st \<Longrightarrow> good G J (fst (upgrade_tls E c st))"
  by (auto simp: upgrade_tls_def split: option.split intro!: good_intros)

lemma good_perform: "good G J st \<Longrightarrow> good G J (fst (perform E c st k))"
  by (cases k) (simp_all add: good_intros)

lemma good_perform_all [good_intros]: "good G J st \<Longrightarrow> good G J (fst (perform_all E c st ks))"
  by (induction ks arbitrary: st) (auto intro!: good_and_then good_perform)

lemma good_after [good_intros]: "good G J st \<Longrightarrow> good G J (fst (after_read E c st))"
  by (auto simp: after_read_def split: option.split intro!: good_intros)

lemma good_session [good_intros]: "good G J st \<Longrightarrow> J s \<Longrightarrow> good G J (st\<lparr>sessions := AList.update c s (sessions st)\<rparr>)"
  by (auto simp: good_def update_conv')

section \<open>The contract\<close>

locale port_invariant =
  fixes E :: "('w, 's, 'x) loop_env" and G :: "'w \<Rightarrow> bool" and J :: "'s \<Rightarrow> bool"
  assumes data_keeps: "G w \<Longrightarrow> J s \<Longrightarrow> s_on_data (sess E) tls w s d = (w', s', ks, ex) \<Longrightarrow> G w' \<and> J s'"
    and create_keeps: "G w \<Longrightarrow> s_create (sess E) c ip w = (s, ks) \<Longrightarrow> J s"
    and clear_keeps: "J s \<Longrightarrow> J (s_clear_tls (sess E) s)"
    and timer_keeps: "G w \<Longrightarrow> G (timer_action E a w)"
    and dns_keeps: "G w \<Longrightarrow> G (dns_completion E ud res w)"
begin

lemma data_good: "good G J st \<Longrightarrow> good G J (fst (session_data E c st d))"
proof (cases "map_of (sessions st) c")
  case (Some s)
  assume g: "good G J st"
  obtain w s1 ks ex where d: "s_on_data (sess E) (is_tls_active st c) (shared st) s d = (w, s1, ks, ex)" by (metis prod_cases4)
  have "G w \<and> J s1" using g Some data_keeps[OF _ _ d] by (simp add: good_def)
  then have "good G J (st\<lparr>shared := w, sessions := AList.update c s1 (sessions st)\<rparr>)" using g by (auto simp: good_def update_conv')
  then show ?thesis using Some d by (auto simp: session_data_def intro!: good_intros)
qed (simp add: session_data_def)

lemma tls_data_good: "good G J st \<Longrightarrow> good G J (fst (tls_data E c st d))"
  by (auto simp: tls_data_def intro!: good_and_then data_good)

lemma read_tls_good:
  assumes "good G J st" "read_tls E c d st = Some (st', None)"
  shows "good G J st'"
proof -
  let ?get = "\<lambda>st. map_of (tls_conns st) c"
  obtain y out where f: "feed_encryption (tls_lib E) ?get (put_tls c) (tls_data E c) d st = Some (y, out)"
    and r: "(case and_then y (\<lambda>st1. if out \<noteq> [] then submit_write E c out True st1 else (st1, None)) of
           (st2, None) \<Rightarrow> after_read E c st2
         | (st2, Some e) \<Rightarrow> if e = Undefined_behaviour then (st2, Some e) else (submit_close c st2, None)) = (st', None)"
    using assms(2) by (auto simp: read_tls_def)
  let ?z = "and_then y (\<lambda>st1. if out \<noteq> [] then submit_write E c out True st1 else (st1, None))"
  have o: "outcome P P r = (snd r = Some Undefined_behaviour \<or> P (fst r))" for P and r :: "('w, 's, 'x) uring run"
    by (cases r; cases "snd r") auto
  have "keeps_ctx (good G J) (good G J) ?get (put_tls c) (tls_data E c)" by (auto simp: keeps_ctx_def o intro: good_intros tls_data_good)
  from feed_keeps[OF f this assms(1)] have "outcome (good G J) (good G J) y" by simp
  then have "outcome (good G J) (good G J) ?z" by (rule outcome_and_then) (auto simp: o intro!: good_write)
  then have z: "snd ?z = Some Undefined_behaviour \<or> good G J (fst ?z)" by (simp add: o)
  obtain st2 e where e: "?z = (st2, e)" by fastforce
  have "good G J st2 \<Longrightarrow> good G J (fst (after_read E c st2))" "good G J st2 \<Longrightarrow> good G J (submit_close c st2)" by (simp_all add: good_intros)
  then show ?thesis using z r e by (cases e) (auto split: if_splits)
qed

lemma read_good:
  assumes "good G J st" "on_read E c res d st = Some (st', None)"
  shows "good G J st'"
proof -
  let ?s = "add_inflight c (- 1) st"
  have "good G J ?s" using assms(1) by (rule good_intros)
  then have "good G J (fst (and_then (session_data E c ?s d) (after_read E c)))" "good G J (submit_close c ?s)" "good G J ?s"
    by (auto intro!: good_and_then data_good good_intros)
  then show ?thesis using assms read_tls_good[of ?s c d st'] by (auto simp: on_read_def Let_def split: if_splits)
qed

lemma write_good: "good G J st \<Longrightarrow> good G J (fst (on_write E c res st))"
proof (cases "buf st c")
  case (Some b0)
  assume g: "good G J st"
  have clear: "good G J (s\<lparr>sessions := AList.map_entry c (s_clear_tls (sess E)) S\<rparr>)" if "good G J s" "S = sessions s" for S and s :: "('w, 's, 'x) uring"
    using that clear_keeps by (auto simp: good_def map_of_map_entry split: if_splits option.splits)
  show ?thesis using g Some by (auto simp: on_write_def Let_def split: option.split intro!: good_intros clear)
qed (simp add: on_write_def)

lemma accept_good: "good G J st \<Longrightarrow> good G J (fst (on_accept E res ip st))"
proof -
  assume g: "good G J st"
  show ?thesis unfolding on_accept_def
  proof (rule good_and_then)
    fix s :: "('w, 's, 'x) uring"
    assume s: "good G J s"
    let ?cid = "next_conn_id s"
    let ?s1 = "put_buf ?cid \<lparr>write_queue = [], write_pending = False, closing = False, inflight = 0, fd = res\<rparr> (s\<lparr>next_conn_id := ?cid + 1\<rparr>)"
    obtain x ks where c: "s_create (sess E) ?cid ip (shared ?s1) = (x, ks)" by fastforce
    have s1: "good G J ?s1" using s by (auto intro: good_intros)
    have "J x" using create_keeps[OF _ c] s1 by (simp add: good_def)
    then show "good G J (fst (if length (buffers s) \<ge> 100 then (s\<lparr>closed_fds := closed_fds s @ [res]\<rparr>, None)
       else if res \<le> 0 then (s, None)
       else
         let cid = next_conn_id s;
             st1 = put_buf cid \<lparr>write_queue = [], write_pending = False, closing = False, inflight = 0, fd = res\<rparr>
                     (s\<lparr>next_conn_id := cid + 1\<rparr>)
         in (case s_create (sess E) cid ip (shared st1) of (s, ks) \<Rightarrow>
               and_then (perform_all E cid st1 ks) (\<lambda>st2.
                 arm_read E cid (st2\<lparr>sessions := AList.update cid s (sessions st2)\<rparr>)))))"
      using s s1 c by (auto simp: Let_def intro!: good_intros)
  qed (use g in \<open>auto intro: good_intros\<close>)
qed

lemma timer_good: "good G J st \<Longrightarrow> good G J (fst (on_timer E tid res shutdown st))"
  by (auto simp: on_timer_def Let_def good_def timer_keeps submit_sqe_def split: option.split prod.split)

lemma cqe_good:
  assumes "good G J st" "handle_cqe E q st = Some (st', None)"
  shows "good G J st'"
proof -
  have "good G J (fst (on_accept E r ip st))" "good G J (fst (on_write E c r st))" "good G J (submit_close c st)"
    "good G J (fst (on_timer E c r b st))" "good G J (st\<lparr>shared := dns_completion E ud r (shared st)\<rparr>)" for r ip c b ud
    using assms(1) dns_keeps by (auto simp: good_def[of G J "st\<lparr>shared := _\<rparr>"] intro: accept_good write_good timer_good good_intros)
      (simp_all add: good_def)
  then show ?thesis using assms read_good[OF assms(1)]
    by (auto simp: handle_cqe_def Let_def split: if_splits option.splits op_type.splits dest: arg_cong[where f = fst]) (metis fst_conv)+
qed

lemma step_good: "loop_step E st st' \<Longrightarrow> good G J st \<Longrightarrow> good G J st'"
  by (induction rule: loop_step.induct) (auto intro: cqe_good good_put(6))

lemma started_good:
  assumes "G w" "arm_accept E (loop_new w) = (st, None)"
  shows "good G J st"
proof -
  have "good G J (loop_new w)" using assms(1) by (simp add: good_def loop_new_def)
  then show ?thesis using good_arm(1)[of G J "loop_new w" E] assms(2) by simp
qed

lemma timer_started_good:
  assumes "G w" "arm_periodic_timer E n a (loop_new w) = (st, None)" "arm_accept E st = (st', None)"
  shows "good G J st'"
proof -
  have "good G J (loop_new w)" using assms(1) by (simp add: good_def loop_new_def)
  then have "good G J (fst (arm_periodic_timer E n a (loop_new w)))"
    by (auto simp: arm_periodic_timer_def Let_def intro!: good_intros)
  then show ?thesis using good_arm(1)[of G J st E] assms(2,3) by simp
qed

text \<open>Another thread may change what is shared, as long as it keeps \<open>G\<close>.\<close>

lemma step_after_others:
  assumes "good G J st" "G w" "loop_step E (st\<lparr>shared := w\<rparr>) st'"
  shows "good G J st'" "G (shared st')"
proof -
  show "good G J st'" by (rule step_good[OF assms(3)]) (use assms(1,2) in \<open>simp add: good_def\<close>)
  then show "G (shared st')" by (simp add: good_def)
qed

lemma reaches_good: "loop_reaches E w st \<Longrightarrow> G w \<Longrightarrow> good G J st"
proof (induction rule: loop_reaches.induct)
  case new
  then show ?case by (simp add: good_def loop_new_def)
next
  case (timer st n a st')
  have "good G J (fst (arm_periodic_timer E n a st))" using timer.IH[OF timer.prems]
    by (auto simp: arm_periodic_timer_def Let_def intro!: good_intros)
  then show ?case using timer.hyps(2) by simp
next
  case (run st st')
  then show ?case using good_arm(1)[of G J st E] by simp
next
  case (step st st')
  from step_good[OF step.hyps(2) step.IH[OF step.prems]] show ?case .
qed

end

end
