(* ===== verification/Smtp_Server.thy ===== *)
theory Smtp_Server
  imports Uring_Inv Submission
begin

text \<open>
  The SMTP and the submission session in their event loops, as \<^verbatim>\<open>src/main.cpp\<close> puts them together, and
  the timer of the SMTP loop that purges stored messages. Both sessions keep the contract of the loop
  (\<open>session_contract\<close>), so its results hold for the server's loops. The resolver of a loop is not used by the sessions.
\<close>

section \<open>The loops\<close>

definition smtp_adapter :: "server_env \<Rightarrow> (world, smtp) isession" where
  "smtp_adapter E =
     \<lparr>s_on_data = (\<lambda>tls w s d. let s' = smtp_on_data E tls (s\<lparr>calls := [], wrld := w\<rparr>) d in (wrld s', s', calls s', None)),
      s_wants_close = pending_close, s_wants_tls = (\<lambda>s. False), s_clear_tls = (\<lambda>s. s),
      s_create = (\<lambda>conn_id ip w. let s = smtp_new E w in (s, calls s))\<rparr>"

text \<open>The session remembers the address of its client.\<close>

definition sub_adapter :: "sub_env \<Rightarrow> (world, string \<times> subm) isession" where
  "sub_adapter S =
     \<lparr>s_on_data = (\<lambda>tls w (ip, s) d.
        let s0 = s\<lparr>sb_calls := [], sb_world := w\<rparr>; f = sub_on_data (S\<lparr>se_ip := ip\<rparr>) tls s0
        in (case f d of
              Inl e \<Rightarrow> let s' = before_exn f s0 d in (sb_world s', (ip, s'), sb_calls s', Some e)
            | Inr s' \<Rightarrow> (sb_world s', (ip, s'), sb_calls s', None))),
      s_wants_close = (\<lambda>(ip, s). sb_pending_close s), s_wants_tls = (\<lambda>(ip, s). sb_tls_upgrade_pending s),
      s_clear_tls = (\<lambda>(ip, s). (ip, s\<lparr>sb_tls_upgrade_pending := False\<rparr>)),
      s_create = (\<lambda>conn_id ip w. let s = sub_new (se_server S) w in ((ip, s), sb_calls s))\<rparr>"

text \<open>
  The timer: aliases past their limits are switched off, and each message that is due is removed, its entry
  only if that worked.
\<close>

definition purge_one :: "server_env \<Rightarrow> world \<Rightarrow> int \<times> string \<Rightarrow> world" where
  "purge_one E w entry =
     (case entry of (queue_id, path) \<Rightarrow>
        let w1 = w\<lparr>w_tick := w_tick w + 1\<rparr>
        in if remove_ok (os_at E (w_tick w)) (canon E path)
           then w1\<lparr>w_fs := (w_fs w)\<lparr>files := (files (w_fs w))(canon E path := None)\<rparr>, w_db := mark_purged (w_db w) queue_id\<rparr>
           else w1)"

definition purge_timer :: "server_env \<Rightarrow> world \<Rightarrow> world" where
  "purge_timer E w =
     (let w1 = w\<lparr>w_db := reap_expired (now_at E (w_tick w)) (w_db w), w_tick := w_tick w + 1\<rparr>
      in foldl (purge_one E) (w1\<lparr>w_tick := w_tick w1 + 1\<rparr>) (due_purges (now_at E (w_tick w1)) (w_db w1)))"

text \<open>The TLS library, the result of \<^verbatim>\<open>SSL_new\<close> and the room in the submission queue are parameters.\<close>

definition smtp_loop :: "'x ssl_lib \<Rightarrow> 'x option \<Rightarrow> (nat \<Rightarrow> bool) \<Rightarrow> server_env \<Rightarrow> (world, smtp, 'x) loop_env" where
  "smtp_loop L x sq E = \<lparr>sess = smtp_adapter E, tls_lib = L, tls_ctx = True, new_server_ssl = x, sq_space = sq,
     timer_action = (\<lambda>a. purge_timer E), dns_completion = (\<lambda>ud res w. w)\<rparr>"

definition submission_loop :: "'x ssl_lib \<Rightarrow> 'x option \<Rightarrow> (nat \<Rightarrow> bool) \<Rightarrow> sub_env \<Rightarrow> (world, string \<times> subm, 'x) loop_env" where
  "submission_loop L x sq S = \<lparr>sess = sub_adapter S, tls_lib = L, tls_ctx = True, new_server_ssl = x, sq_space = sq,
     timer_action = (\<lambda>a w. w), dns_completion = (\<lambda>ud res w. w)\<rparr>"

section \<open>The sessions keep the contract\<close>

lemma smtp_line_first:
  assumes "write_first (calls s)" "\<not> tls_upgrade_pending s"
  shows "write_first (calls (end_of_line E tls s))"
proof (cases "strip_cr (line_buf s) = []")
  case True
  then show ?thesis using assms by (simp add: end_of_line_def process_line_def)
next
  case False
  have "one_reply (calls s) (calls (end_of_line E tls s)) (tls_upgrade_pending (end_of_line E tls s))"
    using process_line_one_reply[OF False, of "s\<lparr>line_buf := strip_cr (line_buf s)\<rparr>" E tls] assms(2) by (simp add: end_of_line_def)
  then show ?thesis using assms(1) by (auto simp: one_reply_def intro!: write_first_append)
qed

lemma smtp_byte_first:
  "write_first (calls s) \<Longrightarrow> write_first (calls (data_byte E b s))" "write_first (calls s) \<Longrightarrow> write_first (calls (command_byte b s))"
  by (auto simp: data_byte_def command_byte_def finish_data_def Let_def intro!: write_first_append split: prod.splits bool.splits)

lemma smtp_data_first:
  "write_first (calls s) \<Longrightarrow> \<not> tls_upgrade_pending s \<Longrightarrow>
   write_first (calls (smtp_on_data E tls s bs)) \<and> \<not> tls_upgrade_pending (smtp_on_data E tls s bs)"
proof (induction E tls s bs rule: smtp_on_data.induct)
  case (2 E tls s b bs)
  note l = smtp_line_first[OF "2.prems", of E tls]
  show ?case using 2 l smtp_byte_first[OF "2.prems"(1)] byte_grew(3)[of E b s] byte_grew(4)[of b s]
    by (cases "state s = smtp_state.Data"; cases "b = LF"; cases "tls_upgrade_pending (end_of_line E tls s)") (simp_all add: smtp_on_data.simps Let_def)
qed (simp add: smtp_on_data.simps)

lemma sub_commands_first:
  assumes "write_first (sb_calls s)"
  shows "write_first (sb_calls (sub_ehlo E tls arg s))" "write_first (sb_calls (sub_helo E arg s))"
    "write_first (sb_calls (sub_rcpt E arg s))" "write_first (sb_calls (sub_data s))" "write_first (sb_calls (sub_rset s))"
    "write_first (sb_calls (sub_noop s))" "write_first (sb_calls (sub_quit E s))" "write_first (sb_calls (sub_starttls tls s))"
    "write_first (sb_calls (sub_auth_result r s))" "write_first (sb_calls (sub_auth cd cr ip tls arg s))"
    "case sub_mail arg s of Inl e \<Rightarrow> True | Inr s' \<Rightarrow> write_first (sb_calls s')"
  using assms
  by (auto simp: sub_ehlo_def sub_helo_def sub_rcpt_def sub_data_def sub_rset_def sub_noop_def sub_quit_def sub_starttls_def
      sub_auth_result_def sub_auth_def sub_mail_def sub_reply_multiline_def Let_def write_first_append split: prod.split option.split sum.split bool.split)

lemma sub_line_first:
  assumes "write_first (sb_calls s)"
  shows "case sub_process_line E cd cr ip tls line s of Inl e \<Rightarrow> True | Inr s' \<Rightarrow> write_first (sb_calls s')"
  using assms sub_commands_first[OF assms]
  by (intro sub_line_cases[where P = "\<lambda>r. case r of Inl e \<Rightarrow> True | Inr s' \<Rightarrow> write_first (sb_calls s')", OF _ _ _ _ _ _ _ _ _ _ _ _ _ _ refl])
    (simp_all add: write_first_append)

lemma sub_data_byte_first:
  assumes "write_first (sb_calls s)" "sub_data_byte S b s = Inr s'"
  shows "write_first (sb_calls s') \<and> sb_tls_upgrade_pending s' = sb_tls_upgrade_pending s"
  using assms by (auto simp: sub_data_byte_def sub_finish_data_def Let_def write_first_append split: if_splits sum.splits prod.splits)

lemma sub_data_first:
  "sub_on_data S tls s bs = Inr s' \<Longrightarrow> write_first (sb_calls s) \<Longrightarrow> \<not> sb_tls_upgrade_pending s \<Longrightarrow>
   write_first (sb_calls s') \<and> \<not> sb_tls_upgrade_pending s'"
proof (induction S tls s bs rule: sub_on_data.induct)
  case (2 S tls s b bs)
  consider (data) s1 where "sb_state s = sub_state.Data" "sub_data_byte S b s = Inr s1" "sub_on_data S tls s1 bs = Inr s'"
    | (line) s1 where "sb_state s \<noteq> sub_state.Data" "b = LF" "sub_end_of_line S tls s = Inr s1"
        "(if sb_tls_upgrade_pending s1 then Inr (s1\<lparr>sb_tls_upgrade_pending := False\<rparr>) else sub_on_data S tls s1 bs) = Inr s'"
    | (other) "sb_state s \<noteq> sub_state.Data" "b \<noteq> LF" "sub_on_data S tls (sub_command_byte b s) bs = Inr s'"
    using "2.prems"(1) by (auto split: if_splits sum.splits)
  then show ?case
  proof cases
    case data
    then show ?thesis using "2.IH"(1) sub_data_byte_first[OF "2.prems"(2)] "2.prems"(3) by blast
  next
    case line
    have "write_first (sb_calls s1)"
      using line(3) sub_line_first[of "s\<lparr>sb_line_buf := strip_cr (sb_line_buf s)\<rparr>" "se_server S" "se_codec S" "se_crypto S" "se_ip S" tls "strip_cr (sb_line_buf s)"]
        "2.prems"(2) by (auto simp: sub_end_of_line_def split: sum.splits)
    then show ?thesis using line "2.IH"(2) by (auto split: if_splits)
  next
    case other
    have "write_first (sb_calls (sub_command_byte b s))" "\<not> sb_tls_upgrade_pending (sub_command_byte b s)"
      using "2.prems"(2,3) by (auto simp: sub_command_byte_def Let_def write_first_append)
    then show ?thesis using other "2.IH"(3) by blast
  qed
qed simp

interpretation smtp_port: session_contract "smtp_loop L x sq E" "\<lambda>s. \<not> tls_upgrade_pending s" for L x sq E
  by unfold_locales (auto simp: smtp_loop_def smtp_adapter_def smtp_new_def Let_def smtp_data_first)

interpretation submission_port: session_contract "submission_loop L x sq S" "\<lambda>(ip, s). \<not> sb_tls_upgrade_pending s" for L x sq S
proof unfold_locales
  fix s tls w d w' s' ks ex
  assume "case s of (ip, s) \<Rightarrow> \<not> sb_tls_upgrade_pending s" "s_on_data (sess (submission_loop L x sq S)) tls w s d = (w', s', ks, ex)"
  then obtain ip t where s: "s = (ip, t)" "\<not> sb_tls_upgrade_pending t" by (cases s) auto
  let ?t = "t\<lparr>sb_calls := [], sb_world := w\<rparr>" and ?S = "S\<lparr>se_ip := ip\<rparr>"
  have "write_first (sb_calls (before_exn (sub_on_data ?S tls ?t) ?t d)) \<and> \<not> sb_tls_upgrade_pending (before_exn (sub_on_data ?S tls ?t) ?t d)"
    by (rule before_exn_keeps) (use s sub_data_first[of ?S tls ?t] in auto)
  then show "(case s' of (ip, s) \<Rightarrow> \<not> sb_tls_upgrade_pending s) \<and> write_first ks"
    using \<open>s_on_data _ _ _ _ _ = _\<close> s sub_data_first[of ?S tls ?t d]
    by (auto simp: submission_loop_def sub_adapter_def Let_def split: sum.splits)
qed (auto simp: submission_loop_def sub_adapter_def sub_new_def Let_def)

section \<open>The loops of the server\<close>


text \<open>
  The submission loop never serves more than a hundred connections, and every connection has its session.
\<close>

theorem submission_loop_bounded:
  assumes "loop_reaches (submission_loop L x sq S) w st"
  shows "length (buffers st) \<le> 100 \<and> (\<forall>c. cid_ok c \<longrightarrow> (buf st c = None \<longleftrightarrow> map_of (sessions st) c = None))"
  using submission_port.reaches_inv[OF assms] by (simp add: loop_inv_def conn_inv_def linked_def table_ok_def)


section \<open>A session that frees itself\<close>

lemma sub_quit_run:
  assumes "sb_line_buf s = []" "sb_state s \<noteq> sub_state.Data" "\<not> in_progress (sb_sasl s)" "\<not> sb_tls_upgrade_pending s"
  shows "\<exists>s' r. sub_on_data S tls s (''QUIT'' @ crlf) = Inr s' \<and> sb_calls s' = sb_calls s @ [Write r, Close]"
proof -
  let ?s = "s\<lparr>sb_line_buf := ''QUIT'' @ [CR]\<rparr>"
  have l: "sub_on_data S tls s (''QUIT'' @ crlf) = sub_on_data S tls ?s [LF]"
    using assms by (simp add: sub_command_byte_def)
  have "sub_end_of_line S tls ?s = Inr ((sub_quit (se_server S) (?s\<lparr>sb_line_buf := ''QUIT''\<rparr>))\<lparr>sb_line_buf := []\<rparr>)"
    using assms(3) by (simp add: sub_end_of_line_def sub_process_line_def strip_cr_def toupper_def)
  then show ?thesis using assms l by (simp add: sub_quit_def Let_def)
qed

definition sub_run :: "sub_env \<Rightarrow> world \<Rightarrow> cqe list \<Rightarrow> (world, string \<times> subm, nat) uring run option" where
  "sub_run S w qs = run_cqes (submission_loop sample_ssl None (\<lambda>n. True) S)
     (fst (arm_accept (submission_loop sample_ssl None (\<lambda>n. True) S) (loop_new w))) qs"

text \<open>
  C38. The session frees itself: the greeting cannot be written any more (the client reset the connection), the loop marks the
  connection as closing, and the \<^verbatim>\<open>QUIT\<close> that was already received is still handed to the session. Its
  call to close the connection then finds no operation outstanding and destroys the session while \<^verbatim>\<open>on_data\<close> is running.
\<close>

theorem quit_frees_session:
  "\<exists>st'. sub_run S w [cq (encode_userdata Op_Accept 0) 7 [], cq (encode_userdata Op_Write 1) (- 104) [],
            cq (encode_userdata Op_Read 1) 6 (''QUIT'' @ crlf)] = Some (st', Some Undefined_behaviour)"
proof -
  let ?E = "submission_loop sample_ssl None (\<lambda>n. True) S" and ?s = "sub_new (se_server S) w"
  let ?g = "(dec 220 @ '' '' @ get_hostname (se_server S) @ '' ESMTP submission'') @ crlf"
  have cr: "s_create (sess ?E) 1 ''10.0.0.1'' w = ((''10.0.0.1'', ?s), [Write ?g])" "sq_space ?E = (\<lambda>n. True)"
    by (simp_all add: submission_loop_def sub_adapter_def sub_new_def Let_def)
  let ?b = "\<lparr>write_queue = [?g], write_pending = True, closing = True, inflight = 1, fd = 7\<rparr>"
  let ?c = "one_client (''10.0.0.1'', ?s) ?g w :: (world, string \<times> subm, nat) uring"
  let ?st = "?c\<lparr>outstanding := [encode_userdata Op_Accept 0, encode_userdata Op_Read 1], buffers := [(1, ?b)]\<rparr>"
  have w: "on_write ?E 1 (- 104) (?c\<lparr>outstanding := [encode_userdata Op_Accept 0, encode_userdata Op_Read 1]\<rparr>) = (?st, None)"
    by (simp add: on_write_def one_client_def buf_def add_inflight_def put_buf_def submit_close_def Let_def)
  have p: "sb_line_buf ?s = []" "sb_state ?s \<noteq> sub_state.Data" "\<not> in_progress (sb_sasl ?s)" "\<not> sb_tls_upgrade_pending ?s"
    by (simp_all add: sub_new_def sasl_init_def in_progress_def)
  obtain s' r where q: "sub_on_data (S\<lparr>se_ip := ''10.0.0.1''\<rparr>) False (?s\<lparr>sb_calls := [], sb_world := w\<rparr>) (''QUIT'' @ crlf) = Inr s'"
      "sb_calls s' = [Write r, Close]"
    using sub_quit_run[of "?s\<lparr>sb_calls := [], sb_world := w\<rparr>" "S\<lparr>se_ip := ''10.0.0.1''\<rparr>" False] p by force
  have d: "s_on_data (sess ?E) False w (''10.0.0.1'', ?s) (''QUIT'' @ crlf) = (sb_world s', (''10.0.0.1'', s'), [Write r, Close], None)"
    using q by (simp add: submission_loop_def sub_adapter_def Let_def)
  have "\<exists>st'. on_read ?E 1 6 (''QUIT'' @ crlf) (?st\<lparr>outstanding := [encode_userdata Op_Accept 0]\<rparr>) = Some (st', Some Undefined_behaviour)"
    using d by (simp add: on_read_def one_client_def buf_def add_inflight_def put_buf_def session_data_def is_tls_active_def submit_write_def
        enqueue_write_def submit_close_def Let_def)
  then obtain st' where r: "on_read ?E 1 6 (''QUIT'' @ crlf) (?st\<lparr>outstanding := [encode_userdata Op_Accept 0]\<rparr>) = Some (st', Some Undefined_behaviour)" ..
  have o: "outstanding ?c = [encode_userdata Op_Accept 0, encode_userdata Op_Write 1, encode_userdata Op_Read 1]" "next_conn_id ?c = 2"
    by (simp_all add: one_client_def)
  have ne: "encode_userdata Op_Accept 0 \<noteq> encode_userdata k 1" if "k \<noteq> Op_Accept" for k using that encode_kind by metis
  have "run_cqes ?E ?c [cq (encode_userdata Op_Write 1) (- 104) [], cq (encode_userdata Op_Read 1) 6 (''QUIT'' @ crlf)] =
      run_cqes ?E ?st [cq (encode_userdata Op_Read 1) 6 (''QUIT'' @ crlf)]"
    by (rule run_step) (use o ne w in \<open>simp_all add: handle_first\<close>)
  also have "\<dots> = Some (st', Some Undefined_behaviour)"
    by (rule run_raise) (use o ne r in \<open>simp_all add: handle_first\<close>)
  finally show ?thesis unfolding sub_run_def first_accept[OF cr(2,1)] by blast
qed

section \<open>The purge timer\<close>

lemma purge_fold:
  assumes "\<And>n p. remove_ok (os_at E n) p"
  shows "prep_ok (w_db w) \<Longrightarrow> step_ok (w_db w) \<Longrightarrow>
    purge_queue (w_db (foldl (purge_one E) w es)) = filter (\<lambda>r. pq_id r \<notin> fst ` set es) (purge_queue (w_db w)) \<and>
    files (w_fs (foldl (purge_one E) w es)) = (\<lambda>p. if p \<in> canon E ` snd ` set es then None else files (w_fs w) p)"
proof (induction es arbitrary: w)
  case (Cons e es)
  let ?w = "purge_one E w e"
  have "prep_ok (w_db ?w)" "step_ok (w_db ?w)" "purge_queue (w_db ?w) = filter (\<lambda>r. pq_id r \<noteq> fst e) (purge_queue (w_db w))"
    "files (w_fs ?w) = (files (w_fs w))(canon E (snd e) := None)"
    using Cons.prems assms by (simp_all add: purge_one_def mark_purged_def Let_def split_beta)
  with Cons.IH[of ?w] show ?case by (auto simp: conj_commute fun_eq_iff)
qed (simp add: fun_eq_iff)

text \<open>
  When the timer fires and the files can be removed, exactly the messages whose time has come disappear: from the queue and
  from the file system.
\<close>

theorem purge_timer_spec:
  assumes "\<And>n p. remove_ok (os_at E n) p" "prep_ok (w_db w)" "step_ok (w_db w)" "distinct (map pq_id (purge_queue (w_db w)))"
  shows "purge_queue (w_db (purge_timer E w)) = filter (\<lambda>r. now_at E (w_tick w + 1) < pq_purge_at r) (purge_queue (w_db w)) \<and>
    files (w_fs (purge_timer E w)) =
      (\<lambda>p. if p \<in> canon E ` pq_path ` {r \<in> set (purge_queue (w_db w)). pq_purge_at r \<le> now_at E (w_tick w + 1)} then None else files (w_fs w) p)"
proof -
  let ?q = "purge_queue (w_db w)" and ?now = "now_at E (w_tick w + 1)"
  let ?d = "reap_expired (now_at E (w_tick w)) (w_db w)"
  let ?es = "map (\<lambda>r. (pq_id r, pq_path r)) (filter (\<lambda>r. pq_purge_at r \<le> ?now) ?q)"
  have d: "prep_ok ?d" "step_ok ?d" "purge_queue ?d = ?q" using assms(2,3) by (simp_all add: reap_expired_def update_aliases_def)
  then have es: "due_purges ?now ?d = ?es" by (simp add: due_purges_def)
  have i: "r = r'" if "r \<in> set ?q" "r' \<in> set ?q" "pq_id r = pq_id r'" for r r'
    using assms(4) that by (auto simp: distinct_map inj_on_def)
  have "pq_id r \<notin> fst ` set ?es \<longleftrightarrow> ?now < pq_purge_at r" if r: "r \<in> set ?q" for r
  proof (cases "pq_purge_at r \<le> ?now")
    case True
    then have "(pq_id r, pq_path r) \<in> set ?es" using r by auto
    then show ?thesis using True by force
  next
    case False
    have "pq_id r \<noteq> pq_id r'" if "r' \<in> set ?q" "pq_purge_at r' \<le> ?now" for r' using i[OF r that(1)] False that(2) by auto
    then show ?thesis using False by fastforce
  qed
  then have "filter (\<lambda>r. pq_id r \<notin> fst ` set ?es) ?q = filter (\<lambda>r. ?now < pq_purge_at r) ?q" by (intro filter_cong[OF refl]) blast
  moreover have "snd ` set ?es = pq_path ` {r \<in> set ?q. pq_purge_at r \<le> ?now}" by (auto simp: image_iff)
  ultimately show ?thesis
    using purge_fold[OF assms(1), of "w\<lparr>w_db := ?d, w_tick := w_tick w + 1 + 1\<rparr>" ?es] d es by (simp add: purge_timer_def Let_def cong: if_cong)
qed

section \<open>Concrete runs\<close>

definition sample_smtp_loop :: "(world, smtp, nat) loop_env" where
  "sample_smtp_loop = smtp_loop sample_ssl None (\<lambda>n. True) sample_server"

definition sample_client :: "(world, smtp, nat) uring" where
  "sample_client = one_client (smtp_new sample_server sample_world) (''220 h ESMTP mailserver/0.1'' @ crlf) sample_world"

lemma sample_client_reached: "loop_reaches sample_smtp_loop sample_world sample_client"
  unfolding sample_client_def
proof (rule first_reached)
  have "dec 220 = ''220''" by code_simp
  then show "s_create (sess sample_smtp_loop) 1 ''10.0.0.1'' sample_world =
      (smtp_new sample_server sample_world, [Write (''220 h ESMTP mailserver/0.1'' @ crlf)])"
    by (simp add: sample_smtp_loop_def smtp_loop_def smtp_adapter_def smtp_new_def Let_def)
qed (simp add: sample_smtp_loop_def smtp_loop_def)


definition sample_sub_loop :: "(world, string \<times> subm, nat) loop_env" where
  "sample_sub_loop = submission_loop sample_ssl None (\<lambda>n. True) sample_sub"

definition sample_sub_client :: "(world, string \<times> subm, nat) uring" where
  "sample_sub_client = one_client (''10.0.0.1'', sub_new sample_server sample_world) (''220 h ESMTP submission'' @ crlf) sample_world"

lemma sample_sub_client_reached: "loop_reaches sample_sub_loop sample_world sample_sub_client"
  unfolding sample_sub_client_def
proof (rule first_reached)
  have "dec 220 = ''220''" by code_simp
  then show "s_create (sess sample_sub_loop) 1 ''10.0.0.1'' sample_world =
      ((''10.0.0.1'', sub_new sample_server sample_world), [Write (''220 h ESMTP submission'' @ crlf)])"
    by (simp add: sample_sub_loop_def submission_loop_def sub_adapter_def sub_new_def Let_def)
qed (simp add: sample_sub_loop_def submission_loop_def)

theorem submission_loop_bounded_witness: "length (buffers sample_sub_client) \<le> 100 \<and> map_of (sessions sample_sub_client) 1 \<noteq> None"
proof
  note b = submission_loop_bounded[OF sample_sub_client_reached[unfolded sample_sub_loop_def]]
  then show "length (buffers sample_sub_client) \<le> 100" ..
  have "buf sample_sub_client 1 \<noteq> None" by (simp add: sample_sub_client_def one_client_def buf_def)
  then show "map_of (sessions sample_sub_client) 1 \<noteq> None" using b one_is_ok(1) by (simp del: not_None_eq)
qed

text \<open>The client resets the connection: the write fails, and then the read, and the connection is gone.\<close>

definition sample_sub_closing :: "(world, string \<times> subm, nat) uring" where
  "sample_sub_closing = fst (the (run_cqes sample_sub_loop sample_sub_client [cq (encode_userdata Op_Write 1) (- 104) []]))"

lemma sample_closing_eq: "sample_sub_closing = sample_sub_client\<lparr>outstanding := [encode_userdata Op_Accept 0, encode_userdata Op_Read 1],
    buffers := [(1, \<lparr>write_queue = [''220 h ESMTP submission'' @ crlf], write_pending = True, closing = True, inflight = 1, fd = 7\<rparr>)]\<rparr>
  \<and> loop_reaches sample_sub_loop sample_world sample_sub_closing"
proof -
  let ?st = "sample_sub_client\<lparr>outstanding := [encode_userdata Op_Accept 0, encode_userdata Op_Read 1],
    buffers := [(1, \<lparr>write_queue = [''220 h ESMTP submission'' @ crlf], write_pending = True, closing = True, inflight = 1, fd = 7\<rparr>)]\<rparr>"
  let ?q = "cq (encode_userdata Op_Write 1) (- 104) []"
  have ne: "encode_userdata Op_Accept 0 \<noteq> encode_userdata Op_Write 1" using encode_kind by blast
  have o: "outstanding sample_sub_client = [encode_userdata Op_Accept 0, encode_userdata Op_Write 1, encode_userdata Op_Read 1]"
    "next_conn_id sample_sub_client = 2" by (simp_all add: sample_sub_client_def one_client_def)
  have h: "handle_cqe sample_sub_loop ?q (sample_sub_client\<lparr>outstanding := remove1 (user_data ?q) (outstanding sample_sub_client)\<rparr>) = Some (?st, None)"
    using o ne by (simp add: handle_first) (simp add: on_write_def sample_sub_client_def one_client_def buf_def add_inflight_def put_buf_def submit_close_def Let_def)
  have "sample_sub_closing = ?st" unfolding sample_sub_closing_def using run_step[OF _ _ h, of "[]"] o by simp
  moreover have "loop_reaches sample_sub_loop sample_world ?st"
    by (rule loop_reaches.step[OF sample_sub_client_reached loop_step.complete[OF _ _ h]]) (use o in simp_all)
  ultimately show ?thesis by simp
qed

lemma sample_closing_buf: "buf sample_sub_closing 1 =
    Some \<lparr>write_queue = [''220 h ESMTP submission'' @ crlf], write_pending = True, closing = True, inflight = 1, fd = 7\<rparr>"
  by (simp add: sample_closing_eq sample_sub_client_def one_client_def buf_def)


theorem short_write_ignored_witness: "on_write sample_smtp_loop 1 0 sample_client = on_write sample_smtp_loop 1 30 sample_client"
  by (rule short_write_ignored) simp_all

theorem closing_drops_queue_witness: "submitted (fst (on_write sample_sub_loop 1 5 sample_sub_closing)) = submitted sample_sub_closing"
  by (rule closing_drops_queue[OF sample_closing_buf]) (simp_all add: sample_closing_eq sample_sub_client_def one_client_def buf_def sample_sub_loop_def
      submission_loop_def sub_adapter_def sub_new_def)

definition sample_purge :: world where
  "sample_purge = sample_world\<lparr>w_db := sample_db\<lparr>purge_queue := [\<lparr>pq_id = 1, pq_alias = ''shop@h'', pq_username = ''bob'',
     pq_path = ''/m/bob/new/1'', pq_purge_at = 0\<rparr>]\<rparr>\<rparr>"

theorem purge_timer_spec_witness: "purge_queue (w_db (purge_timer sample_server sample_purge)) = []"
proof -
  have n: "0 \<le> now_at sample_server (w_tick sample_purge + 1)" by (simp add: sample_server_def)
  have r: "\<And>n p. remove_ok (os_at sample_server n) p" by (simp add: sample_os_def)
  show ?thesis
    using purge_timer_spec[OF r, of sample_purge] n sample_db_facts by (simp add: sample_purge_def)
qed

end
