(* ===== verification/Port_Safety.thy ===== *)
theory Port_Safety
  imports Port_Inv Smtp_Server
begin

text \<open>
  What all clients of the SMTP port and of the submission port can do to the files and accounts of the
  server, together with the timer that purges the messages of aliases. Both ports are instances of
  \<open>port_invariant\<close>.
\<close>

section \<open>The world of an SMTP session\<close>

text \<open>A session changes the world only by checking an alias and by storing a message.\<close>

lemma deliver_world:
  assumes "\<And>f r t u b w. P w \<Longrightarrow> P (snd (store_local E f r t u b w))" "P w"
  shows "P (snd (smtp_deliver E ev w))"
proof -
  have "P w \<Longrightarrow> P (snd (foldl (\<lambda>(all_ok, w) rcpt. case deliver_one E f b rcpt w of
      (ok, w') \<Rightarrow> (all_ok \<and> ok, w')) (ok, w) rs))" for f b ok rs w
  proof (induction rs arbitrary: ok w)
    case (Cons r rs)
    have "P (snd (deliver_one E f b r w))" using assms(1) Cons.prems by (simp add: deliver_one_def Let_def)
    with Cons.IH show ?case by (auto split: prod.splits)
  qed simp
  then show ?thesis using assms(2) by (simp add: smtp_deliver_def Let_def)
qed

lemma line_world:
  assumes "\<And>f a w. P w \<Longrightarrow> P (snd (rcpt_alias_check E f a w))" "P (wrld s)"
  shows "P (wrld (process_line E tls line s))"
proof (rule process_line_cases[where P = "\<lambda>s'. P (wrld s')", OF _ _ _ _ _ _ _ _ _ _ _ refl])
  show "P (wrld (cmd_rcpt E arg s))" for arg
    using assms(1)[OF assms(2), of "mail_from (env s)" "extract_address (drop 3 arg)"] assms(2)
    by (auto simp: cmd_rcpt_def Let_def split: prod.splits bool.splits)
qed (use assms(2) in \<open>simp_all add: smtp_cmd_defs Let_def\<close>)

lemma smtp_world_rule:
  assumes "\<And>f a w. P w \<Longrightarrow> P (snd (rcpt_alias_check E f a w))" "\<And>f r t u b w. P w \<Longrightarrow> P (snd (store_local E f r t u b w))"
  shows "P (wrld s) \<Longrightarrow> P (wrld (smtp_on_data E tls s bs))"
proof (induction bs arbitrary: s)
  case (Cons b bs)
  have d: "P (wrld (data_byte E b s))"
    using deliver_world[of P E _ "(env s)\<lparr>env_body := take (length (line_buf s) - 4) (line_buf s)\<rparr>", OF assms(2) Cons.prems] Cons.prems
    by (auto simp: data_byte_def Let_def finish_data_def split: prod.splits bool.splits)
  have l: "P (wrld (end_of_line E tls s))" unfolding end_of_line_def
    using line_world[of P E "s\<lparr>line_buf := strip_cr (line_buf s)\<rparr>" tls, OF assms(1)] Cons.prems by simp
  have c: "P (wrld (command_byte b s))" using Cons.prems by (simp add: command_byte_def Let_def)
  show ?case using Cons.IH[OF d] Cons.IH[OF l] Cons.IH[OF c] l by (auto simp: smtp_on_data.simps Let_def)
qed (simp add: smtp_on_data.simps)

section \<open>The purge queue\<close>

text \<open>
  What the queue of the purge timer may hold: paths below the mail root, and the empty path, which a
  failed delivery to an alias leaves there.
\<close>

definition queue_ok :: "server_env \<Rightarrow> db \<Rightarrow> bool" where
  "queue_ok E d \<longleftrightarrow> list_all (\<lambda>r. pq_path r = [] \<or> prefix (canon E (get_mailroot E)) (canon E (pq_path r))) (purge_queue d)"

text \<open>
  What is needed of the system: canonicalisation does not lead out of the mail root for a path that is below
  it and canonical already, and \<^verbatim>\<open>std::remove\<close> fails for the empty path.
\<close>

definition paths_ok :: "server_env \<Rightarrow> bool" where
  "paths_ok E \<longleftrightarrow> (\<forall>p. prefix (canon E (get_mailroot E)) p \<longrightarrow> prefix (canon E (get_mailroot E)) (canon E (c_str (path_str p))))
     \<and> (\<forall>n. \<not> remove_ok (os_at E n) (canon E []))"

lemma alias_check_queue: "purge_queue (w_db (snd (rcpt_alias_check E f a w))) = purge_queue (w_db w)"
  by (auto simp: rcpt_alias_check_def Let_def accept_and_consume_def set_inactive_def count_use_def
      split: prod.splits bool.splits option.splits if_splits)

lemma deliver_path:
  assumes "maildir_deliver os host base f r b fs = (Some p, fs')"
  shows "p = [] \<or> (\<exists>q. prefix base q \<and> p = path_str q)"
proof -
  let ?q = "base @ [''new'', unique_filename os (length (trace_message os host f r b))]"
  have "p = [] \<or> p = path_str ?q" using assms unfolding maildir_deliver_def Let_def
    by (auto split: prod.splits bool.splits if_splits)
  moreover have "prefix base ?q" by simp
  ultimately show ?thesis by blast
qed

lemma store_queue:
  assumes "paths_ok E" "queue_ok E (w_db w)"
  shows "queue_ok E (w_db (snd (store_local E f r t u b w)))"
proof -
  let ?root = "canon E (get_mailroot E)" and ?t = "canon E (path_join (get_mailroot E) u)"
  let ?d = "maildir_deliver (os_at E (w_tick w)) (get_hostname E) ?t f r b (w_fs w)"
  have s: "queue_ok E (schedule_purge now (w_db w) a v p)"
    if t: "prefix ?root ?t" "?d = (Some p, fs)" for now a v p fs
  proof -
    have "c_str p = [] \<or> prefix ?root (canon E (c_str p))"
    proof (cases "p = []")
      case False
      then obtain q where "prefix ?t q" "p = path_str q" using deliver_path[OF t(2)] by blast
      then show ?thesis using t(1) assms(1) prefix_order.trans unfolding paths_ok_def by blast
    qed (simp add: c_str_def)
    then show ?thesis using assms(2) by (auto simp: schedule_purge_def queue_ok_def split: option.splits)
  qed
  then show ?thesis using assms(2) by (auto simp: store_local_def Let_def split: prod.splits option.splits)
qed

text \<open>Only files below the root have changed since \<open>w0\<close>.\<close>

definition below_root :: "server_env \<Rightarrow> world \<Rightarrow> world \<Rightarrow> bool" where
  "below_root E w0 w \<longleftrightarrow> (\<forall>p. files (w_fs w) p \<noteq> files (w_fs w0) p \<longrightarrow> prefix (canon E (get_mailroot E)) p)"

lemma below_step:
  assumes "below_root E w0 w" "\<And>p. files (w_fs w') p \<noteq> files (w_fs w) p \<Longrightarrow> prefix (canon E (get_mailroot E)) p"
  shows "below_root E w0 w'"
  unfolding below_root_def
proof (intro allI impI)
  fix p assume "files (w_fs w') p \<noteq> files (w_fs w0) p"
  then show "prefix (canon E (get_mailroot E)) p" using assms by (cases "files (w_fs w') p = files (w_fs w) p") (auto simp: below_root_def)
qed

definition smtp_shared :: "server_env \<Rightarrow> world \<Rightarrow> world \<Rightarrow> bool" where
  "smtp_shared E w0 w \<longleftrightarrow> paths_ok E \<and> db_wf (w_db w) \<and> queue_ok E (w_db w) \<and> below_root E w0 w"

lemma purge_one_keeps:
  assumes "smtp_shared E w0 w" "path = [] \<or> prefix (canon E (get_mailroot E)) (canon E path)"
  shows "smtp_shared E w0 (purge_one E w (i, path))"
proof (cases "remove_ok (os_at E (w_tick w)) (canon E path)")
  case True
  have "path \<noteq> []" using True assms(1) by (auto simp: smtp_shared_def paths_ok_def)
  then have p: "prefix (canon E (get_mailroot E)) (canon E path)" using assms(2) by blast
  have "queue_ok E (mark_purged (w_db w) i)" using assms(1) by (auto simp: smtp_shared_def queue_ok_def mark_purged_def list_all_iff)
  moreover have "below_root E w0 (purge_one E w (i, path))"
    by (rule below_step[of E w0 w]) (use assms(1) p True in \<open>auto simp: smtp_shared_def purge_one_def Let_def split: if_splits\<close>)
  ultimately show ?thesis using assms(1) True alias_ops_wf by (auto simp: smtp_shared_def purge_one_def Let_def)
next
  case False
  then show ?thesis using assms(1) by (simp add: smtp_shared_def below_root_def purge_one_def Let_def)
qed

lemma purge_timer_keeps:
  assumes "smtp_shared E w0 w"
  shows "smtp_shared E w0 (purge_timer E w)"
proof -
  have f: "smtp_shared E w0 (foldl (purge_one E) w es)"
    if "smtp_shared E w0 w" "\<forall>e\<in>set es. snd e = [] \<or> prefix (canon E (get_mailroot E)) (canon E (snd e))" for w es
    using that
  proof (induction es arbitrary: w)
    case (Cons e es)
    have "smtp_shared E w0 (purge_one E w e)" using purge_one_keeps[OF Cons.prems(1), of "snd e" "fst e"] Cons.prems(2) by simp
    then show ?case using Cons by simp
  qed simp
  let ?d = "reap_expired (now_at E (w_tick w)) (w_db w)"
  have d: "db_wf ?d" "purge_queue ?d = purge_queue (w_db w)"
    using assms alias_ops_wf by (auto simp: smtp_shared_def reap_expired_def update_aliases_def)
  then have "smtp_shared E w0 (w\<lparr>w_db := ?d, w_tick := n\<rparr>)" for n
    using assms by (simp add: smtp_shared_def queue_ok_def below_root_def)
  moreover have "\<forall>e\<in>set (due_purges now ?d). snd e = [] \<or> prefix (canon E (get_mailroot E)) (canon E (snd e))" for now
    using assms d(2) by (auto simp: due_purges_def smtp_shared_def queue_ok_def list_all_iff)
  ultimately show ?thesis by (simp add: purge_timer_def Let_def f)
qed

section \<open>Port 25\<close>

lemma smtp_data_keeps:
  assumes "smtp_shared E w0 (wrld s)"
  shows "smtp_shared E w0 (wrld (smtp_on_data E tls s bs))"
proof (rule smtp_world_rule[of "smtp_shared E w0", OF _ _ assms])
  show "smtp_shared E w0 (snd (rcpt_alias_check E f a w))" if "smtp_shared E w0 w" for f a w
    using that by (simp add: smtp_shared_def rcpt_alias_check_wf queue_ok_def alias_check_queue below_root_def)
  show "smtp_shared E w0 (snd (store_local E f r t u b w))" if "smtp_shared E w0 w" for f r t u b w
    using that below_step[of E w0 w] store_local_files(2)[of E f r t u b w]
    by (auto simp: smtp_shared_def store_local_wf store_queue)
qed

text \<open>A session is legal in every world with a well-formed database.\<close>

definition smtp_member :: "smtp \<Rightarrow> bool" where
  "smtp_member s \<longleftrightarrow> (\<forall>w. db_wf (w_db w) \<longrightarrow> smtp_inv (s\<lparr>wrld := w\<rparr>))"

lemma smtp_member_iff: "smtp_inv s \<Longrightarrow> smtp_member s"
  by (simp add: smtp_member_def smtp_inv_def)

interpretation smtp_clients: port_invariant "smtp_loop L x sq E" "smtp_shared E w0" smtp_member for L x sq E w0
proof unfold_locales
  fix w s tls d w' s' ks ex
  assume g: "smtp_shared E w0 w" and j: "smtp_member s" and r: "s_on_data (sess (smtp_loop L x sq E)) tls w s d = (w', s', ks, ex)"
  have "db_wf (w_db w)" using g by (simp add: smtp_shared_def)
  then have "smtp_inv (s\<lparr>calls := [], wrld := w\<rparr>)" using j by (auto simp: smtp_member_def smtp_inv_def)
  then have "smtp_member (smtp_on_data E tls (s\<lparr>calls := [], wrld := w\<rparr>) d)" by (intro smtp_member_iff smtp_on_data_inv)
  then show "smtp_shared E w0 w' \<and> smtp_member s'"
    using r smtp_data_keeps[of E w0 "s\<lparr>calls := [], wrld := w\<rparr>" tls d] g by (auto simp: smtp_loop_def smtp_adapter_def Let_def)
next
  fix w c ip s ks
  assume "smtp_shared E w0 w" "s_create (sess (smtp_loop L x sq E)) c ip w = (s, ks)"
  then show "smtp_member s" by (auto simp: smtp_loop_def smtp_adapter_def Let_def smtp_shared_def intro!: smtp_member_iff smtp_new_inv)
qed (auto simp: smtp_loop_def smtp_adapter_def purge_timer_keeps)


section \<open>Port 587\<close>

text \<open>What holds of the world the clients share: the accounts are those of \<open>w0\<close>, and files changed only if the store accepts a password.\<close>

definition sub_shared :: "sub_env \<Rightarrow> world \<Rightarrow> world \<Rightarrow> bool" where
  "sub_shared S w0 w \<longleftrightarrow> users (w_db w) = users (w_db w0) \<and> prep_ok (w_db w) = prep_ok (w_db w0) \<and> db_wf (w_db w) \<and>
     below_root (se_server S) w0 w \<and>
     (files (w_fs w) \<noteq> files (w_fs w0) \<longrightarrow> (\<exists>u pw ip. fst (verify (se_crypto S) (w_db w0) u pw ip)))"

definition sub_member :: "sub_env \<Rightarrow> world \<Rightarrow> string \<times> subm \<Rightarrow> bool" where
  "sub_member S w0 m \<longleftrightarrow> (case m of (ip, s) \<Rightarrow> sub_inv (S\<lparr>se_ip := ip\<rparr>) (s\<lparr>sb_world := w0\<rparr>))"

lemma sub_inv_world:
  assumes "sub_inv S s" "users (w_db w) = users (w_db (sb_world s))" "prep_ok (w_db w) = prep_ok (w_db (sb_world s))" "db_wf (w_db w)"
  shows "sub_inv S (s\<lparr>sb_world := w\<rparr>)" "sub_inv S (s\<lparr>sb_calls := ks, sb_world := w\<rparr>)"
  by (rule sub_inv_frame[OF assms(1)]; simp add: assms)+

interpretation submission_clients: port_invariant "submission_loop L x sq S" "\<lambda>w. db_wf (w_db w0) \<and> sub_shared S w0 w" "sub_member S w0" for L x sq S w0
proof unfold_locales
  fix w s tls d w' s' ks ex
  assume g: "db_wf (w_db w0) \<and> sub_shared S w0 w" and m: "sub_member S w0 s" and r: "s_on_data (sess (submission_loop L x sq S)) tls w s d = (w', s', ks, ex)"
  obtain ip t where s: "s = (ip, t)" by (cases s) auto
  let ?t = "t\<lparr>sb_calls := [], sb_world := w\<rparr>" and ?S = "S\<lparr>se_ip := ip\<rparr>"
  let ?Q = "\<lambda>u. sub_inv ?S u \<and> authorised ?S ?t u"
  have t: "sub_inv ?S ?t" using m s g sub_inv_world(2)[of ?S "t\<lparr>sb_world := w0\<rparr>" w] by (simp add: sub_member_def sub_shared_def)
  have k: "?Q u" if "sub_on_data ?S tls ?t e = Inr u" for u e
    using sub_on_data_pres[OF t that] sub_on_data_authorised[OF t that] by blast
  define u where "u = (case sub_on_data ?S tls ?t d of Inl e \<Rightarrow> before_exn (sub_on_data ?S tls ?t) ?t d | Inr v \<Rightarrow> v)"
  have "?Q (before_exn (sub_on_data ?S tls ?t) ?t d)" by (rule before_exn_keeps) (use t k in \<open>auto simp: authorised_def\<close>)
  then have u: "sub_inv ?S u" "authorised ?S ?t u" using k[of d] by (auto simp: u_def split: sum.split)
  have r': "w' = sb_world u" "s' = (ip, u)"
    using r s by (auto simp: u_def submission_loop_def sub_adapter_def Let_def split: sum.splits)
  have acc: "users (w_db (sb_world u)) = users (w_db w0)" "prep_ok (w_db (sb_world u)) = prep_ok (w_db w0)" "db_wf (w_db (sb_world u))"
    using u g by (auto simp: authorised_def sub_shared_def sub_inv_def)
  have v: "\<exists>us pw ip. fst (verify (se_crypto S) (w_db w0) us pw ip)" if "ss_authenticated (sb_sasl u)"
  proof -
    have "sasl_inv (store_check (se_crypto S) ip (sb_world u)) (sb_sasl u)" using u(1) by (simp add: sub_inv_def)
    then show ?thesis using that verify_cong[OF acc(1,2), of "se_crypto S"] unfolding sasl_inv_def store_check_def by auto
  qed
  have "below_root (se_server S) w0 (sb_world u)" by (rule below_step[of _ w0 w]) (use g u(2) in \<open>auto simp: sub_shared_def authorised_def\<close>)
  moreover have "\<exists>us pw ip. fst (verify (se_crypto S) (w_db w0) us pw ip)" if "files (w_fs (sb_world u)) \<noteq> files (w_fs w0)"
  proof (cases "files (w_fs (sb_world u)) = files (w_fs w)")
    case True
    then show ?thesis using that g by (simp add: sub_shared_def)
  next
    case False
    then obtain p where "files (w_fs (sb_world u)) p \<noteq> files (w_fs w) p" by fastforce
    then show ?thesis using u(2) v by (auto simp: authorised_def)
  qed
  ultimately have "sub_shared S w0 w'" using acc r' by (simp add: sub_shared_def)
  moreover have "sub_member S w0 s'" using sub_inv_world(1)[OF u(1), of w0] acc g r' by (simp add: sub_member_def)
  ultimately show "(db_wf (w_db w0) \<and> sub_shared S w0 w') \<and> sub_member S w0 s'" using g by blast
next
  fix w c ip s ks
  assume g: "db_wf (w_db w0) \<and> sub_shared S w0 w" and "s_create (sess (submission_loop L x sq S)) c ip w = (s, ks)"
  then have "s = (ip, sub_new (se_server S) w)" by (auto simp: submission_loop_def sub_adapter_def Let_def)
  moreover have "sub_inv (S\<lparr>se_ip := ip\<rparr>) (sub_new (se_server S) w)" using sub_new_inv[of w "S\<lparr>se_ip := ip\<rparr>"] g by (simp add: sub_shared_def)
  ultimately show "sub_member S w0 s" using g sub_inv_world(1)[of "S\<lparr>se_ip := ip\<rparr>" "sub_new (se_server S) w" w0]
    by (simp add: sub_member_def sub_shared_def sub_new_def)
next
  fix s assume "sub_member S w0 s"
  then show "sub_member S w0 (s_clear_tls (sess (submission_loop L x sq S)) s)"
    using sub_inv_frame[of _ "snd s\<lparr>sb_world := w0\<rparr>" "snd s\<lparr>sb_tls_upgrade_pending := False, sb_world := w0\<rparr>"]
    by (cases s) (simp add: sub_member_def submission_loop_def sub_adapter_def)
qed (simp_all add: submission_loop_def)

text \<open>
  C3. All clients of the submission port together: the accounts stay as they are; a file changes only below the mail root, and only if
  there is a user for whom the store accepts a password; and in every session mail was relayed at most to the server's own
  domain, and a transaction was begun only by a user whose password is accepted from the address of the connection.
\<close>

theorem submission_port_confined:
  assumes "loop_reaches (submission_loop L x sq S) w0 st" "db_wf (w_db w0)"
  shows "users (w_db (shared st)) = users (w_db w0) \<and>
    (\<forall>p. files (w_fs (shared st)) p \<noteq> files (w_fs w0) p \<longrightarrow> prefix (canon (se_server S) (get_mailroot (se_server S))) p \<and>
       (\<exists>u pw ip. fst (verify (se_crypto S) (w_db w0) u pw ip))) \<and>
    (\<forall>c ip s. map_of (sessions st) c = Some (ip, s) \<longrightarrow> (\<forall>(d, x) \<in> set (sb_relayed s). lower d = get_hostname (se_server S)) \<and>
       (sb_state s \<in> {Mail, Rcpt, Data} \<longrightarrow> (\<exists>pw. fst (verify (se_crypto S) (w_db w0) (ss_username (sb_sasl s)) pw ip))))"
proof -
  have "db_wf (w_db w0) \<and> sub_shared S w0 w0" using assms by (simp add: sub_shared_def below_root_def)
  note g = submission_clients.reaches_good[OF assms(1) this]
  have "(\<forall>(d, x) \<in> set (sb_relayed s). lower d = get_hostname (se_server S)) \<and>
       (sb_state s \<in> {Mail, Rcpt, Data} \<longrightarrow> (\<exists>pw. fst (verify (se_crypto S) (w_db w0) (ss_username (sb_sasl s)) pw ip)))"
    if "map_of (sessions st) c = Some (ip, s)" for c ip s
  proof -
    have "sub_inv (S\<lparr>se_ip := ip\<rparr>) (s\<lparr>sb_world := w0\<rparr>)" using g that by (auto simp: good_def sub_member_def)
    then have i: "\<forall>(d, x) \<in> set (sb_relayed s). lower d = get_hostname (se_server S)"
        "sb_state s \<in> {Authenticated, Mail, Rcpt, Data} \<longrightarrow> ss_authenticated (sb_sasl s)"
        "sasl_inv (store_check (se_crypto S) ip w0) (sb_sasl s)" unfolding sub_inv_def by simp_all
    then show ?thesis unfolding sasl_inv_def store_check_def by (simp split: if_splits)
  qed
  moreover have "files (w_fs (shared st)) p \<noteq> files (w_fs w0) p \<Longrightarrow> files (w_fs (shared st)) \<noteq> files (w_fs w0)" for p by auto
  ultimately show ?thesis using g by (auto simp: good_def sub_shared_def below_root_def)
qed

section \<open>Concrete runs\<close>

text \<open>The sample server, on a system that cannot remove the empty path.\<close>

definition strict_server :: server_env where
  "strict_server = sample_server\<lparr>os_at := (\<lambda>_. sample_os\<lparr>remove_ok := (\<lambda>p. p \<noteq> [])\<rparr>)\<rparr>"

lemma sample_below: "prefix [''m''] (split_path (CHR ''/'' # CHR ''m'' # takeWhile (\<lambda>c. c \<noteq> NUL) (path_str p)))"
proof (cases p)
  case (Cons e es)
  have "split_path (CHR ''/'' # CHR ''m'' # CHR ''/'' # t) = ''m'' # split_path t" for t by (simp add: split_path_def)
  then show ?thesis using Cons by (simp add: path_str_def)
qed (simp add: path_str_def split_path_def)

lemma strict_paths: "paths_ok strict_server"
proof -
  have r: "get_mailroot strict_server = ''/m''" "canon strict_server = split_path" "split_path ''/m'' = [''m'']"
    by (simp_all add: strict_server_def sample_server_def get_mailroot_def config_value_def split_path_def)
  have "c_str (path_str (''m'' # p)) = CHR ''/'' # CHR ''m'' # takeWhile (\<lambda>c. c \<noteq> NUL) (path_str p)" for p
    by (simp add: path_str_def c_str_def)
  then have "prefix [''m''] (split_path (c_str (path_str (''m'' # p))))" for p using sample_below by simp
  then show ?thesis unfolding paths_ok_def r by (auto simp: prefix_def split_path_def strict_server_def)
qed


theorem submission_port_confined_witness: "users (w_db (shared sample_sub_client)) = users (w_db sample_world)"
  using submission_port_confined[OF sample_sub_client_reached[unfolded sample_sub_loop_def]] by (simp add: sample_world_def sample_db_facts)

end
