(* ===== verification/Imap_Server.thy ===== *)
theory Imap_Server
  imports Port_Inv Imap_Session
begin

text \<open>
  The IMAP session in its event loop, for both IMAP ports of \<^verbatim>\<open>src/main.cpp\<close>. The sessions of the process share the
  world and the static counter of \<^verbatim>\<open>APPEND\<close>. The session keeps the contract of the loop (\<open>session_contract\<close>).
\<close>

definition imap_adapter :: "imap_env \<Rightarrow> (world \<times> 32 word, string \<times> imap) isession" where
  "imap_adapter E =
     \<lparr>s_on_data = (\<lambda>tls (w, n) (ip, s) d.
        let s0 = s\<lparr>calls := [], wrld := w, append_seq := n\<rparr>; f = imap_on_data (E\<lparr>remote_ip := ip\<rparr>) s0
        in (case f d of
              Inl e \<Rightarrow> let s' = before_exn f s0 d in ((wrld s', append_seq s'), (ip, s'), calls s', Some e)
            | Inr s' \<Rightarrow> ((wrld s', append_seq s'), (ip, s'), calls s', None))),
      s_wants_close = (\<lambda>(ip, s). state s = Logout), s_wants_tls = (\<lambda>(ip, s). tls_upgrade_pending s),
      s_clear_tls = (\<lambda>(ip, s). (ip, s\<lparr>tls_upgrade_pending := False\<rparr>)),
      s_create = (\<lambda>conn_id ip (w, n). let s = imap_new n w in ((ip, s), calls s))\<rparr>"

definition imap_loop :: "'x ssl_lib \<Rightarrow> 'x option \<Rightarrow> (nat \<Rightarrow> bool) \<Rightarrow> imap_env \<Rightarrow> (world \<times> 32 word, string \<times> imap, 'x) loop_env" where
  "imap_loop L x sq E = \<lparr>sess = imap_adapter E, tls_lib = L, tls_ctx = True, new_server_ssl = x, sq_space = sq,
     timer_action = (\<lambda>a w. w), dns_completion = (\<lambda>ud res w. w)\<rparr>"

section \<open>The contract\<close>

interpretation imap_port: session_contract "imap_loop L x sq E" "\<lambda>(ip, s). \<not> tls_upgrade_pending s" for L x sq E
proof unfold_locales
  fix s tls wn d w' s' ks ex
  assume "case s of (ip, s) \<Rightarrow> \<not> tls_upgrade_pending s" "s_on_data (sess (imap_loop L x sq E)) tls wn s d = (w', s', ks, ex)"
  then obtain ip t w n where s: "s = (ip, t)" "\<not> tls_upgrade_pending t" "wn = (w, n)" by (cases s; cases wn) auto
  let ?t = "t\<lparr>calls := [], wrld := w, append_seq := n\<rparr>" and ?E = "E\<lparr>remote_ip := ip\<rparr>"
  have f: "write_first (calls u) \<and> \<not> tls_upgrade_pending u" if "imap_on_data ?E ?t e = Inr u" for u e
    using on_data_first[OF _ _ that] s(2) by simp
  have "write_first (calls (before_exn (imap_on_data ?E ?t) ?t d)) \<and> \<not> tls_upgrade_pending (before_exn (imap_on_data ?E ?t) ?t d)"
    by (rule before_exn_keeps) (use s(2) f in auto)
  then show "(case s' of (ip, s) \<Rightarrow> \<not> tls_upgrade_pending s) \<and> write_first ks"
    using \<open>s_on_data _ _ _ _ _ = _\<close> s f[of d] by (auto simp: imap_loop_def imap_adapter_def Let_def split: sum.splits)
qed (auto simp: imap_loop_def imap_adapter_def imap_new_def answers send_def Let_def split: prod.splits)

section \<open>Properties of the IMAP loop\<close>

text \<open>
  C15. On an open connection without TLS the session outlives its own calls: whatever the client sends, also \<^verbatim>\<open>LOGOUT\<close> followed by
  more commands, the loop does not destroy the session while its \<^verbatim>\<open>on_data\<close> runs.
\<close>

theorem imap_session_survives:
  assumes "loop_reaches (imap_loop L x sq E) w st" "is_open c st" "map_of (tls_conns st) c = None"
    "encode_userdata Op_Read c \<in> set (outstanding st)"
    "on_read (imap_loop L x sq E) c res d (finished (encode_userdata Op_Read c) st) = Some (st', ex)"
  shows "ex \<noteq> Some Undefined_behaviour"
proof
  assume ex: "ex = Some Undefined_behaviour"
  note i = imap_port.reaches_inv[OF assms(1)]
  have c: "cid_ok c" using i assms(2) by (auto simp: loop_inv_def table_ok_def is_open_def split: option.splits)
  obtain s w s' ks where s: "map_of (sessions st) c = Some s"
      "s_on_data (sess (imap_loop L x sq E)) False (shared st) s d = (w, s', ks, Some Undefined_behaviour)"
    using imap_port.on_read_defined[OF c i assms(4,2,3)] assms(5) ex by blast
  obtain ip t v n where t: "s = (ip, t)" "shared st = (v, n)" by (cases s; cases "shared st") auto
  have "\<not> tls_upgrade_pending t" using i c s(1) t by (auto simp: loop_inv_def conn_inv_def linked_def)
  then show False using s(2) t on_data_exn[of "t\<lparr>calls := [], wrld := v, append_seq := n\<rparr>" "E\<lparr>remote_ip := ip\<rparr>" d Undefined_behaviour]
    by (auto simp: imap_loop_def imap_adapter_def Let_def split: sum.splits)
qed

section \<open>All clients of the port\<close>

lemma imap_inv_rebase:
  assumes "w_db w = w_db w0"
  shows "imap_inv E w s \<Longrightarrow> imap_inv E w0 (s\<lparr>wrld := w0\<rparr>)" "imap_inv E w0 (s\<lparr>wrld := w0\<rparr>) \<Longrightarrow> imap_inv E w (s\<lparr>calls := ks, wrld := w, append_seq := n\<rparr>)"
  using assms by (auto simp: imap_inv_def verified_user_def)

lemma imap_data_inv:
  "imap_on_data E s d = Inr s' \<Longrightarrow> imap_inv E w s \<Longrightarrow> \<not> tls_upgrade_pending s \<Longrightarrow> imap_inv E w s' \<and> \<not> tls_upgrade_pending s'"
  using run_bytes_inv[of E w s d] run_bytes_tls[of s E d] by (simp add: on_data_run keeps_inv_def)

text \<open>
  What holds of the shared world and of every session, for the world \<open>w0\<close> the loop started in: the file system has
  only changed if a password is accepted for some user, and a session is logged in only as such a user.
\<close>

definition imap_shared :: "imap_env \<Rightarrow> world \<Rightarrow> world \<times> 32 word \<Rightarrow> bool" where
  "imap_shared E w0 wn \<longleftrightarrow> w_db (fst wn) = w_db w0 \<and>
     (w_fs (fst wn) \<noteq> w_fs w0 \<longrightarrow> (\<exists>ip u. verified_user (E\<lparr>remote_ip := ip\<rparr>) w0 u))"

definition imap_member :: "imap_env \<Rightarrow> world \<Rightarrow> string \<times> imap \<Rightarrow> bool" where
  "imap_member E w0 m \<longleftrightarrow> (case m of (ip, s) \<Rightarrow> imap_inv (E\<lparr>remote_ip := ip\<rparr>) w0 (s\<lparr>wrld := w0\<rparr>) \<and> \<not> tls_upgrade_pending s)"

interpretation imap_clients: port_invariant "imap_loop L x sq E" "imap_shared E w0" "imap_member E w0" for L x sq E w0
proof unfold_locales
  fix wn s tls d w' s' ks ex
  assume g: "imap_shared E w0 wn" and m: "imap_member E w0 s" and r: "s_on_data (sess (imap_loop L x sq E)) tls wn s d = (w', s', ks, ex)"
  obtain ip t w n where s: "s = (ip, t)" "wn = (w, n)" by (cases s; cases wn) auto
  let ?t = "t\<lparr>calls := [], wrld := w, append_seq := n\<rparr>" and ?E = "E\<lparr>remote_ip := ip\<rparr>"
  have db: "w_db w = w_db w0" using g s by (simp add: imap_shared_def)
  have t: "imap_inv ?E w ?t" "\<not> tls_upgrade_pending ?t" using m s imap_inv_rebase(2)[OF db] by (auto simp: imap_member_def)
  define u where "u = (case imap_on_data ?E ?t d of Inl e \<Rightarrow> before_exn (imap_on_data ?E ?t) ?t d | Inr v \<Rightarrow> v)"
  have "imap_inv ?E w (before_exn (imap_on_data ?E ?t) ?t d) \<and> \<not> tls_upgrade_pending (before_exn (imap_on_data ?E ?t) ?t d)"
    by (rule before_exn_keeps) (use t imap_data_inv[of ?E ?t _ _ w] in auto)
  then have u: "imap_inv ?E w u" "\<not> tls_upgrade_pending u" using t imap_data_inv[of ?E ?t d _ w] by (auto simp: u_def split: sum.split)
  have r': "w' = (wrld u, append_seq u)" "s' = (ip, u)"
    using r s by (auto simp: u_def imap_loop_def imap_adapter_def Let_def split: sum.splits)
  have "w_fs (wrld u) \<noteq> w_fs w \<longrightarrow> verified_user ?E w0 (username u)" "w_db (wrld u) = w_db w0"
    using u(1) db by (auto simp: imap_inv_def verified_user_def)
  then have "imap_shared E w0 w'" using g s r' by (auto simp: imap_shared_def)
  moreover have "imap_member E w0 s'" using u imap_inv_rebase(1)[OF db u(1)] r' by (simp add: imap_member_def)
  ultimately show "imap_shared E w0 w' \<and> imap_member E w0 s'" by blast
next
  fix wn c ip s ks
  assume "imap_shared E w0 wn" "s_create (sess (imap_loop L x sq E)) c ip wn = (s, ks)"
  then obtain w n where "wn = (w, n)" "s = (ip, imap_new n w)" "w_db w = w_db w0"
    by (cases wn) (auto simp: imap_loop_def imap_adapter_def Let_def imap_shared_def)
  then show "imap_member E w0 s" using imap_new_inv[of "E\<lparr>remote_ip := ip\<rparr>" w n] imap_inv_rebase(1)
    by (auto simp: imap_member_def between_reads_def)
qed (auto simp: imap_loop_def imap_adapter_def imap_member_def imap_inv_def)

text \<open>
  All clients of an IMAP port together, in every state its loop reaches: the database is as it was at the start; a
  connection that is logged in is so as a user for whom the store accepts a password from the address of that
  connection; and if any file changed, there is such a user.
\<close>

theorem imap_port_needs_password:
  assumes "loop_reaches (imap_loop L x sq E) (w0, n) st"
  shows "w_db (fst (shared st)) = w_db w0 \<and>
    (\<forall>c ip s. map_of (sessions st) c = Some (ip, s) \<and> (state s = Authenticated \<or> state s = Selected) \<longrightarrow>
      (\<exists>p. p \<noteq> [] \<and> fst (verify (crypt E) (w_db w0) (username s) p ip))) \<and>
    (w_fs (fst (shared st)) \<noteq> w_fs w0 \<longrightarrow> (\<exists>ip u p. p \<noteq> [] \<and> fst (verify (crypt E) (w_db w0) u p ip)))"
proof -
  have "imap_shared E w0 (w0, n)" by (simp add: imap_shared_def)
  note g = imap_clients.reaches_good[OF assms this]
  have v: "\<exists>p. p \<noteq> [] \<and> fst (verify (crypt E) (w_db w0) u p ip)" if "verified_user (E\<lparr>remote_ip := ip\<rparr>) w0 u" for u ip
    using that verified.vf_passwd by (fastforce simp: verified_user_def)
  have "\<exists>p. p \<noteq> [] \<and> fst (verify (crypt E) (w_db w0) (username s) p ip)"
    if "map_of (sessions st) c = Some (ip, s)" "state s = Authenticated \<or> state s = Selected" for c ip s
    using g that v[of ip "username s"] by (auto simp: good_def imap_member_def imap_inv_def)
  moreover have "\<exists>ip u p. p \<noteq> [] \<and> fst (verify (crypt E) (w_db w0) u p ip)" if fs: "w_fs (fst (shared st)) \<noteq> w_fs w0"
  proof -
    obtain ip u where "verified_user (E\<lparr>remote_ip := ip\<rparr>) w0 u" using g fs by (auto simp: good_def imap_shared_def)
    from v[OF this] show ?thesis by blast
  qed
  ultimately show ?thesis using g by (auto simp: good_def imap_shared_def)
qed

section \<open>The end of LOGOUT\<close>

abbreviation bye :: string where "bye \<equiv> ''* BYE JAMS IMAP server logging out'' @ crlf"
abbreviation greeting :: string where
  "greeting \<equiv> ''* OK [CAPABILITY IMAP4rev1 STARTTLS AUTH=PLAIN IDLE] JAMS IMAP server ready'' @ crlf"

text \<open>A line in one read, by a session that waits for one.\<close>

lemma crlf_line:
  assumes "line_buf s = []" "\<not> literal_pending s" "LF \<notin> set l" "length l \<le> 8000"
    "imap_process_line E l (s\<lparr>line_buf := l\<rparr>) = Inr s1" "\<not> literal_pending s1"
  shows "imap_on_data E s (l @ crlf) = Inr (s1\<lparr>line_buf := [], tls_upgrade_pending := False\<rparr>)"
proof -
  have "imap_on_data E s ((l @ [CR]) @ [LF]) = imap_bytes E s ((l @ [CR]) @ [LF])" using assms(2) by (simp add: imap_on_data_def drain_def)
  also have "\<dots> = imap_bytes E (s\<lparr>line_buf := l @ [CR]\<rparr>) [LF]" using imap_line[of "l @ [CR]" s E] assms(1,3,4) by simp
  also have "end_line E (s\<lparr>line_buf := l @ [CR]\<rparr>) = Inr (s1\<lparr>line_buf := []\<rparr>)" using assms(5) by (simp add: end_line_def strip_cr_def)
  then have "imap_bytes E (s\<lparr>line_buf := l @ [CR]\<rparr>) [LF] = Inr (s1\<lparr>line_buf := [], tls_upgrade_pending := False\<rparr>)"
    using assms(6) by (cases "tls_upgrade_pending s1") (simp_all add: drain_def)
  finally show ?thesis by simp
qed

lemma logout_run:
  assumes "line_buf s = []" "\<not> auth_pending s" "\<not> literal_pending s"
  shows "\<exists>s'. imap_on_data E s (''a LOGOUT'' @ crlf) = Inr s' \<and> calls s' = calls s @ [Write bye, Write (''a OK LOGOUT completed'' @ crlf), Close]
    \<and> state s' = Logout \<and> wrld s' = wrld s \<and> append_seq s' = append_seq s"
proof -
  let ?s = "s\<lparr>line_buf := ''a LOGOUT''\<rparr>"
  have "imap_process_line E ''a LOGOUT'' ?s = Inr (cmd_logout ''a'' ?s)"
    using assms(2) by (simp add: imap_process_line_def next_token_def isspace_def rest_line_def strip_blank_def toupper_def dispatch_def)
  from crlf_line[OF assms(1,3) _ _ this] show ?thesis using assms(3) by (simp add: cmd_logout_def answers send_def Let_def)
qed

lemma starttls_run:
  assumes "line_buf s = []" "\<not> auth_pending s" "\<not> literal_pending s" "state s = NotAuthenticated" "\<not> tls_upgrade_pending s"
  shows "\<exists>s'. imap_on_data E s (''a STARTTLS'' @ crlf) = Inr s' \<and> calls s' = calls s @ [Write (''a OK Begin TLS negotiation'' @ crlf), Upgrade_TLS]"
proof -
  let ?s = "s\<lparr>line_buf := ''a STARTTLS''\<rparr>"
  have "imap_process_line E ''a STARTTLS'' ?s = Inr (imap_starttls ''a'' ?s)"
    using assms(2,4) by (simp add: imap_process_line_def next_token_def isspace_def rest_line_def strip_blank_def toupper_def dispatch_def
        not_authenticated_def)
  from crlf_line[OF assms(1,3) _ _ this] show ?thesis using assms(3,5) by (simp add: imap_starttls_def answers send_def Let_def)
qed

definition imap_run :: "imap_env \<Rightarrow> world \<times> 32 word \<Rightarrow> cqe list \<Rightarrow> (world \<times> 32 word, string \<times> imap, nat) uring run option" where
  "imap_run E w qs = run_cqes (imap_loop sample_ssl None (\<lambda>n. True) E) (fst (arm_accept (imap_loop sample_ssl None (\<lambda>n. True) E) (loop_new w))) qs"

text \<open>
  The tagged answer to \<^verbatim>\<open>LOGOUT\<close> is lost: the session queues \<^verbatim>\<open>BYE\<close>, the \<^verbatim>\<open>OK\<close> and the request to close. When \<^verbatim>\<open>BYE\<close> has
  been written the connection is closed; the kernel never sees the \<^verbatim>\<open>OK\<close>.
\<close>

theorem logout_ok_lost:
  "\<exists>st'. imap_run E w [cq (encode_userdata Op_Accept 0) 7 [], cq (encode_userdata Op_Write 1) 79 [],
      cq (encode_userdata Op_Read 1) 10 (''a LOGOUT'' @ crlf), cq (encode_userdata Op_Write 1) 38 []] = Some (st', None) \<and>
    map snd (submitted st') = [K_Accept, K_Accept, K_Send 7 greeting, K_Recv 7, K_Send 7 bye] \<and> closed_fds st' = [7]"
proof -
  obtain v n where w: "w = (v, n)" by fastforce
  let ?E = "imap_loop sample_ssl None (\<lambda>n. True) E" and ?s = "imap_new n v"
  let ?A = "encode_userdata Op_Accept 0" and ?R = "encode_userdata Op_Read 1" and ?W = "encode_userdata Op_Write 1"
  let ?c = "one_client (''10.0.0.1'', ?s) greeting w :: (world \<times> 32 word, string \<times> imap, nat) uring"
  have cr: "s_create (sess ?E) 1 ''10.0.0.1'' w = ((''10.0.0.1'', ?s), [Write greeting])" "sq_space ?E = (\<lambda>n. True)"
    by (simp_all add: w imap_loop_def imap_adapter_def imap_new_def answers send_def Let_def)
  have ne: "?A \<noteq> encode_userdata k 1" "encode_userdata k 1 \<noteq> ?A" if "k \<noteq> Op_Accept" for k using that encode_kind by metis+
  let ?b1 = "\<lparr>write_queue = [], write_pending = False, closing = False, inflight = 1, fd = 7\<rparr>"
  let ?c1 = "?c\<lparr>outstanding := [?A, ?R], buffers := [(1, ?b1)]\<rparr>"
  have 1: "on_write ?E 1 79 (?c\<lparr>outstanding := [?A, ?R]\<rparr>) = (?c1, None)"
    by (simp add: on_write_def one_client_def buf_def add_inflight_def put_buf_def Let_def imap_loop_def imap_adapter_def imap_new_def answers)
  have p: "line_buf ?s = []" "\<not> auth_pending ?s" "\<not> literal_pending ?s" "\<not> tls_upgrade_pending ?s" by (simp_all add: imap_new_def answers)
  obtain s' where q: "imap_on_data (E\<lparr>remote_ip := ''10.0.0.1''\<rparr>) (?s\<lparr>calls := [], wrld := v, append_seq := n\<rparr>) (''a LOGOUT'' @ crlf) = Inr s'"
      "calls s' = [Write bye, Write (''a OK LOGOUT completed'' @ crlf), Close]" "state s' = Logout" "wrld s' = v" "append_seq s' = n"
    using logout_run[of "?s\<lparr>calls := [], wrld := v, append_seq := n\<rparr>" "E\<lparr>remote_ip := ''10.0.0.1''\<rparr>"] p by force
  have t: "\<not> tls_upgrade_pending s'" using on_data_first[OF _ _ q(1)] p by simp
  let ?b2 = "\<lparr>write_queue = [bye, ''a OK LOGOUT completed'' @ crlf], write_pending = True, closing = True, inflight = 1, fd = 7\<rparr>"
  let ?c2 = "?c1\<lparr>outstanding := [?A, ?W], buffers := [(1, ?b2)], sessions := [(1, (''10.0.0.1'', s'))],
      submitted := submitted ?c1 @ [(?W, K_Send 7 bye)]\<rparr>"
  have 2: "on_read ?E 1 10 (''a LOGOUT'' @ crlf) (?c1\<lparr>outstanding := [?A]\<rparr>) = Some (?c2, None)"
    using q by (simp add: w on_read_def one_client_def buf_def add_inflight_def put_buf_def session_data_def is_tls_active_def submit_write_def
        enqueue_write_def flush_write_def submit_sqe_def submit_close_def after_read_def Let_def imap_loop_def imap_adapter_def)
  obtain st' where 3: "on_write ?E 1 38 (?c2\<lparr>outstanding := [?A]\<rparr>) = (st', None)" "submitted st' = submitted ?c2" "closed_fds st' = [7]"
    using t by (simp add: on_write_def one_client_def buf_def add_inflight_def put_buf_def submit_close_def Let_def imap_loop_def imap_adapter_def)
  have o: "outstanding ?c = [?A, ?W, ?R]" "next_conn_id ?c = 2" by (simp_all add: one_client_def)
  have "run_cqes ?E ?c [cq ?W 79 [], cq ?R 10 (''a LOGOUT'' @ crlf), cq ?W 38 []] = run_cqes ?E ?c1 [cq ?R 10 (''a LOGOUT'' @ crlf), cq ?W 38 []]"
    by (rule run_step) (use o ne 1 in \<open>simp_all add: handle_first\<close>)
  also have "\<dots> = run_cqes ?E ?c2 [cq ?W 38 []]" by (rule run_step) (use o ne 2 in \<open>simp_all add: handle_first\<close>)
  also have "\<dots> = run_cqes ?E st' []" by (rule run_step) (use o ne 3 in \<open>simp_all add: handle_first\<close>)
  finally show ?thesis using 3 unfolding imap_run_def first_accept[OF cr(2,1)] by (simp add: one_client_def)
qed

section \<open>STARTTLS inside TLS\<close>

text \<open>
  C37. \<^verbatim>\<open>STARTTLS\<close> is not refused when TLS is already active: the upgrade replaces the TLS connection that is just delivering the
  command, which is destroyed while its \<^verbatim>\<open>feed_encryption\<close> runs. Any client can do this before it logs in.
\<close>

theorem starttls_frees_connection:
  assumes st: "buf st c = Some b" "\<not> write_pending b" "map_of (sessions st) c = Some (ip, s)" "shared st = (w, n)"
      "map_of (tls_conns st) c = Some t" "handshake_done t"
    and s: "line_buf s = []" "\<not> auth_pending s" "\<not> literal_pending s" "state s = NotAuthenticated" "\<not> tls_upgrade_pending s"
    and lib: "bio_write_in L (ssl t) d = Some x1" "ssl_do_read L x1 = (Plain_text (''a STARTTLS'' @ crlf), x2, out2)"
      "ssl_do_write L x2 (''a OK Begin TLS negotiation'' @ crlf) = (True, x3, out3)" "0 < res" "d \<noteq> []"
  shows "\<exists>st'. on_read (imap_loop L (Some x0) (\<lambda>n. True) E) c res d st = Some (st', Some Undefined_behaviour)"
proof -
  let ?E = "imap_loop L (Some x0) (\<lambda>n. True) E" and ?st = "add_inflight c (- 1) st"
  let ?get = "\<lambda>st. map_of (tls_conns st) c"
  let ?s1 = "put_tls c (t\<lparr>ssl := x2, wbio := wbio t @ out2\<rparr>) (put_tls c (t\<lparr>ssl := x1\<rparr>) ?st)"
  obtain s' where q: "imap_on_data (E\<lparr>remote_ip := ip\<rparr>) (s\<lparr>calls := [], wrld := w, append_seq := n\<rparr>) (''a STARTTLS'' @ crlf) = Inr s'"
      "calls s' = [Write (''a OK Begin TLS negotiation'' @ crlf), Upgrade_TLS]"
    using starttls_run[of "s\<lparr>calls := [], wrld := w, append_seq := n\<rparr>" "E\<lparr>remote_ip := ip\<rparr>"] s by force
  have d: "s_on_data (sess ?E) tls (w, n) (ip, s) (''a STARTTLS'' @ crlf) =
      ((wrld s', append_seq s'), (ip, s'), [Write (''a OK Begin TLS negotiation'' @ crlf), Upgrade_TLS], None)" for tls
    using q by (simp add: imap_loop_def imap_adapter_def Let_def)
  have sq: "sq_space ?E = (\<lambda>n. True)" "tls_ctx ?E" "new_server_ssl ?E = Some x0" "tls_lib ?E = L" by (simp_all add: imap_loop_def)
  have sh: "shared ?s1 = (w, n)" using st(4) by (simp add: put_tls_def add_inflight_def put_buf_def split: option.split)
  let ?s2 = "?s1\<lparr>shared := (wrld s', append_seq s'), sessions := AList.update c (ip, s') (sessions ?s1)\<rparr>"
  let ?w = "''a OK Begin TLS negotiation'' @ crlf"
  have w: "submit_write ?E c ?w False ?s2 = enqueue_write ?E c ((wbio t @ out2) @ out3)
      (put_tls c (t\<lparr>ssl := x3, wbio := []\<rparr>) ?s2)"
    using st lib(3) sq(4) by (simp add: submit_write_def encrypt_def drain_wbio_all Let_def)
  obtain s3 where w3: "submit_write ?E c ?w False ?s2 = (s3, None)" "sessions s3 = sessions ?s2"
    unfolding w using enqueue_no_exn[OF sq(1)] enqueue_fields(1)[of ?E c] by (metis prod.collapse put_tls_fields(1))
  have "upgrade_tls ?E c s3 = (put_tls c (tls_new x0) s3, None)" using sq w3(2) by (simp add: upgrade_tls_def update_conv')
  then have "perform_all ?E c ?s2 [Write ?w, Upgrade_TLS] = (put_tls c (tls_new x0) s3, None)" using w3(1) by simp
  then have "tls_data ?E c ?s1 (''a STARTTLS'' @ crlf) = (put_tls c (tls_new x0) s3, Some Undefined_behaviour)"
    using d[of "is_tls_active ?s1 c"] st w3(2) sh by (simp add: tls_data_def session_data_def is_tls_active_def tls_new_def update_conv')
  moreover have "?get (put_tls c (t\<lparr>ssl := x1\<rparr>) ?st) = Some (t\<lparr>ssl := x1\<rparr>)" by simp
  ultimately have "read_loop L ?get (put_tls c) (tls_data ?E c) (put_tls c (t\<lparr>ssl := x1\<rparr>) ?st) =
      Some ((put_tls c (tls_new x0) s3, Some Undefined_behaviour), [])"
    using lib(2) by (simp add: read_loop.simps[of L _ _ _ "put_tls c (t\<lparr>ssl := x1\<rparr>) ?st"])
  then have "read_tls ?E c d ?st = Some (put_tls c (tls_new x0) s3, Some Undefined_behaviour)"
    using st lib(1,5) sq(4) by (simp add: read_tls_def feed_encryption_def finish_feed_def Let_def)
  then show ?thesis using st lib(4) by (simp add: on_read_def Let_def)
qed

section \<open>A concrete client\<close>

definition sample_imap_client :: "(world \<times> 32 word, string \<times> imap, nat) uring" where
  "sample_imap_client = one_client (''10.0.0.1'', imap_new 0 imap_world) greeting (imap_world, 0)"

theorem imap_session_survives_witness:
  "\<exists>st' ex. on_read (imap_loop sample_ssl None (\<lambda>n. True) sample_imap) 1 10 (''a LOGOUT'' @ crlf)
     (finished (encode_userdata Op_Read 1) sample_imap_client) = Some (st', ex) \<and> ex \<noteq> Some Undefined_behaviour"
proof -
  let ?E = "imap_loop sample_ssl None (\<lambda>n. True) sample_imap"
  have r: "loop_reaches ?E (imap_world, 0) sample_imap_client" unfolding sample_imap_client_def
    by (rule first_reached) (simp_all add: imap_loop_def imap_adapter_def imap_new_def answers send_def Let_def)
  have s: "is_open 1 sample_imap_client" "map_of (tls_conns sample_imap_client) 1 = None"
    "encode_userdata Op_Read 1 \<in> set (outstanding sample_imap_client)" "buf sample_imap_client 1 \<noteq> None" "map_of (sessions sample_imap_client) 1 \<noteq> None"
    by (simp_all add: sample_imap_client_def one_client_def is_open_def buf_def)
  have "\<exists>r. on_read ?E 1 10 (''a LOGOUT'' @ crlf) (finished (encode_userdata Op_Read 1) sample_imap_client) = Some r"
    using s by (simp add: on_read_def Let_def del: not_None_eq)
  then obtain st' ex where o: "on_read ?E 1 10 (''a LOGOUT'' @ crlf) (finished (encode_userdata Op_Read 1) sample_imap_client) = Some (st', ex)"
    by fastforce
  from imap_session_survives[OF r s(1-3) o] o show ?thesis by blast
qed

theorem imap_port_needs_password_witness:
  "w_db (fst (shared sample_imap_client)) = w_db imap_world"
proof -
  have "loop_reaches (imap_loop sample_ssl None (\<lambda>n. True) sample_imap) (imap_world, 0) sample_imap_client" unfolding sample_imap_client_def
    by (rule first_reached) (simp_all add: imap_loop_def imap_adapter_def imap_new_def answers send_def Let_def)
  from imap_port_needs_password[OF this] show ?thesis by blast
qed

text \<open>An engine that delivers \<^verbatim>\<open>STARTTLS\<close> in the first record it is given.\<close>

definition starttls_ssl :: "bool ssl_lib" where
  "starttls_ssl = \<lparr>bio_write_in = (\<lambda>x d. Some True), ssl_do_read = (\<lambda>x. if x then (Plain_text (''a STARTTLS'' @ crlf), False, []) else (Want_read, x, [])),
     ssl_do_write = (\<lambda>x d. (True, x, d)), ssl_do_handshake = (\<lambda>x. (True, x, []))\<rparr>"

definition sample_tls_client :: "(world \<times> 32 word, string \<times> imap, bool) uring" where
  "sample_tls_client = (one_client (''10.0.0.1'', imap_new 0 imap_world) greeting (imap_world, 0))
     \<lparr>buffers := [(1, \<lparr>write_queue = [], write_pending = False, closing = False, inflight = 1, fd = 7\<rparr>)],
      tls_conns := [(1, \<lparr>ssl = False, wbio = [], handshake_done = True\<rparr>)]\<rparr>"

theorem starttls_frees_connection_witness:
  "\<exists>st'. on_read (imap_loop starttls_ssl (Some False) (\<lambda>n. True) sample_imap) 1 90 ''record'' sample_tls_client = Some (st', Some Undefined_behaviour)"
  by (rule starttls_frees_connection[where b = "\<lparr>write_queue = [], write_pending = False, closing = False, inflight = 1, fd = 7\<rparr>"
        and ip = "''10.0.0.1''" and s = "imap_new 0 imap_world" and w = imap_world and n = 0 and ?x1.0 = True and ?x2.0 = False and ?x3.0 = False and ?out3.0 = "''a OK Begin TLS negotiation'' @ crlf"
        and t = "\<lparr>ssl = False, wbio = [], handshake_done = True\<rparr>"])
    (simp_all add: sample_tls_client_def one_client_def buf_def imap_new_def answers starttls_ssl_def)

end
