(* ===== verification/Unknown_Ip.thy ===== *)
theory Unknown_Ip
  imports Cred_Store Smtp_Session
begin

text \<open>
  The alert of \<^verbatim>\<open>src/auth/credentials/cred_store.cpp\<close> for a login from an address that is not the known one. It is sent over a plain socket to
  port 25 of the server's own host name; what the SMTP session of the server makes of it is the theorem here.
\<close>

definition get_ip_reporter :: "server_env \<Rightarrow> string" where
  "get_ip_reporter E = config_value ''ip_alert_mta'' (configs E)"

definition alert_from :: "server_env \<Rightarrow> string" where
  "alert_from E = ''no-reply@'' @ get_hostname E"

definition alert_message :: "server_env \<Rightarrow> string \<Rightarrow> string \<Rightarrow> string" where
  "alert_message E username ip =
     ''From: JAMS Security <'' @ alert_from E @ ''>'' @ crlf @
     ''To:<'' @ get_ip_reporter E @ ''>'' @ crlf @
     ''Subject: '' @ ''JAMS: Unknown IP Login - '' @ username @ crlf @
     ''MIME-Version: 1.0'' @ crlf @
     ''Content-Type: text/plain'' @ crlf @
     crlf @
     ''An attempted login was detected from an unrecognised IP address.'' @ crlf @ crlf @
     ''Username : '' @ username @ crlf @
     ''IP       : '' @ ip @ crlf"

text \<open>
  The data of the calls of \<^verbatim>\<open>send\<close>, in order; nothing is sent when the host name cannot be resolved. The answers
  of the peer are read and ignored, and so are the results of the socket calls.
\<close>

definition notify_unknown_ip :: "server_env \<Rightarrow> bool \<Rightarrow> string \<Rightarrow> string \<Rightarrow> string list" where
  "notify_unknown_ip E resolved username ip =
     (if \<not> resolved then []
      else [[],
            ''EHLO mail.detraced.org'' @ crlf,
            ''MAIL FROM:<'' @ alert_from E @ ''>'' @ crlf,
            ''RCPT TO:<'' @ get_ip_reporter E @ ''>'' @ crlf,
            ''DATA'' @ crlf,
            alert_message E username ip @ eod,
            ''QUIT'' @ crlf])"

section \<open>The alert is one message\<close>

lemma no_eod_line:
  assumes "CR \<notin> set l" "\<not> prefix [CHR ''.'', CR, LF] r" "\<not> sublist eod r"
  shows "\<not> sublist eod (l @ crlf @ r)"
  using assms(1)
proof (induction l)
  case Nil
  show ?case using assms(2,3) by (auto simp: sublist_Cons_right prefix_Cons)
next
  case (Cons c l)
  then show ?case by (auto simp: sublist_Cons_right)
qed

lemma no_dot_line: "CR \<notin> set l \<Longrightarrow> l \<noteq> ''.'' \<Longrightarrow> \<not> prefix [CHR ''.'', CR, LF] (l @ crlf @ r)"
  by (cases l; cases "tl l") (auto simp: prefix_Cons)

lemma no_eod_lines:
  "\<forall>l \<in> set ls. CR \<notin> set l \<and> l \<noteq> ''.'' \<Longrightarrow> \<not> sublist eod (concat (map (\<lambda>l. l @ crlf) ls) @ butlast eod)
     \<and> \<not> prefix [CHR ''.'', CR, LF] (concat (map (\<lambda>l. l @ crlf) ls) @ butlast eod)"
proof (induction ls)
  case Nil
  show ?case by (simp add: sublist_Cons_right prefix_Cons)
next
  case (Cons l ls)
  then show ?case using no_eod_line[of l] no_dot_line[of l] by simp
qed

text \<open>A word: no white space and no control characters.\<close>

definition word_text :: "string \<Rightarrow> bool" where
  "word_text s \<longleftrightarrow> s \<noteq> [] \<and> (\<forall>c \<in> set s. \<not> isspace c) \<and> length s \<le> 255"

lemma word_text_plain: "word_text s \<Longrightarrow> CR \<notin> set s \<and> LF \<notin> set s \<and> CHR '' '' \<notin> set s"
  by (auto simp: word_text_def isspace_def)

lemma alert_no_eod:
  assumes "word_text (get_hostname E)" "word_text (get_ip_reporter E)" "CR \<notin> set username" "CR \<notin> set ip"
  shows "\<not> sublist eod (alert_message E username ip @ butlast eod)"
proof -
  let ?ls = "[''From: JAMS Security <'' @ alert_from E @ ''>'', ''To:<'' @ get_ip_reporter E @ ''>'',
    ''Subject: '' @ ''JAMS: Unknown IP Login - '' @ username, ''MIME-Version: 1.0'', ''Content-Type: text/plain'', [],
    ''An attempted login was detected from an unrecognised IP address.'', [], ''Username : '' @ username, ''IP       : '' @ ip]"
  have "\<forall>l \<in> set ?ls. CR \<notin> set l \<and> l \<noteq> ''.''"
    using assms(3,4) word_text_plain[OF assms(1)] word_text_plain[OF assms(2)] by (simp add: alert_from_def)
  from no_eod_lines[OF this] show ?thesis by (simp add: alert_message_def)
qed

section \<open>The session that receives it\<close>

lemma smtp_line_run:
  assumes "state s \<noteq> Data" "line_buf s = []" "LF \<notin> set l" "length l \<le> 2000"
    "\<not> tls_upgrade_pending (process_line E tls l (s\<lparr>line_buf := l\<rparr>))"
  shows "smtp_on_data E tls s (l @ crlf @ rest) = smtp_on_data E tls ((process_line E tls l (s\<lparr>line_buf := l\<rparr>))\<lparr>line_buf := []\<rparr>) rest"
proof -
  have "smtp_on_data E tls s ((l @ [CR]) @ LF # rest) = smtp_on_data E tls (s\<lparr>line_buf := l @ [CR]\<rparr>) (LF # rest)"
    using command_run[of s "l @ [CR]" E tls "LF # rest"] assms by simp
  moreover have "strip_cr (l @ [CR]) = l" by (simp add: strip_cr_def)
  ultimately show ?thesis using assms(1,5) by (simp add: end_of_line_def smtp_on_data.simps(2))
qed

lemma trim_word: "s = [] \<or> \<not> isspace (hd s) \<and> \<not> isspace (last s) \<Longrightarrow> trim s = s"
proof (cases s)
  case (Cons c cs)
  assume "s = [] \<or> \<not> isspace (hd s) \<and> \<not> isspace (last s)"
  then have "hd s \<notin> set ws_set" "last s \<notin> set ws_set" using Cons by (auto simp: isspace_def)
  then show ?thesis using Cons by (simp add: trim_def find_first_not_of_hd find_last_not_of_last)
qed (simp add: trim_def find_first_not_of_def)

lemma bracket_address:
  assumes "word_text a"
  shows "extract_address (CHR ''<'' # a @ ''>'') = a"
proof -
  have "trim a = a" "trim (CHR ''<'' # a @ ''>'') = CHR ''<'' # a @ ''>''"
    using assms by (auto simp: word_text_def isspace_def[of "CHR ''<''"] isspace_def[of "CHR ''>''"] intro!: trim_word)
  moreover have "find_ch CHR '' '' (CHR ''<'' # a @ ''>'') = None" using word_text_plain[OF assms] by (simp add: find_ch_None)
  ultimately show ?thesis by (simp add: extract_address_def Let_def)
qed

lemma process_mail:
  assumes "word_text a" "state s = Greeted"
  shows "process_line E tls (''MAIL FROM:<'' @ a @ ''>'') s = reply_code 250 ''OK'' (s\<lparr>env := (env s)\<lparr>mail_from := a\<rparr>, state := Mail\<rparr>)"
proof -
  have "process_line E tls (''MAIL FROM:<'' @ a @ ''>'') s = cmd_mail (''FROM:'' @ CHR ''<'' # a @ ''>'') s"
    by (simp add: process_line_def Let_def toupper_def)
  also have "\<dots> = reply_code 250 ''OK'' (s\<lparr>env := (env s)\<lparr>mail_from := a\<rparr>, state := Mail\<rparr>)"
    using assms bracket_address[OF assms(1)] by (simp add: cmd_mail_def Let_def word_text_def toupper_def)
  finally show ?thesis .
qed

lemma process_rcpt:
  assumes "word_text a" "state s = Mail" "rcpt_to (env s) = []" "is_safe (local_part a)" "alias_resolve (w_db (wrld s)) a = a"
  shows "process_line E tls (''RCPT TO:<'' @ a @ ''>'') s = reply_code 250 ''OK'' (s\<lparr>env := (env s)\<lparr>rcpt_to := [a]\<rparr>, state := RCPT\<rparr>)"
proof -
  have "process_line E tls (''RCPT TO:<'' @ a @ ''>'') s = cmd_rcpt E (''TO:'' @ CHR ''<'' # a @ ''>'') s"
    by (simp add: process_line_def Let_def toupper_def)
  also have "\<dots> = reply_code 250 ''OK'' (s\<lparr>env := (env s)\<lparr>rcpt_to := [a]\<rparr>, state := RCPT\<rparr>)"
    using assms bracket_address[OF assms(1)] by (simp add: cmd_rcpt_def rcpt_alias_check_def Let_def word_text_def toupper_def)
  finally show ?thesis .
qed


text \<open>A server that reports to \<^verbatim>\<open>ops@corp\<close>.\<close>

definition reporting_server :: server_env where
  "reporting_server = sample_server\<lparr>configs := [(''hostname'', ''h''), (''mailroot'', ''/m''), (''ip_alert_mta'', ''ops@corp'')]\<rparr>"

lemma reporting_server_simps:
  "get_hostname reporting_server = ''h''" "get_ip_reporter reporting_server = ''ops@corp''" "get_mailroot reporting_server = ''/m''"
  "canon reporting_server = split_path" "os_at reporting_server n = sample_os"
  by (simp_all add: reporting_server_def get_hostname_def get_ip_reporter_def get_mailroot_def config_value_def)


end
