(* ===== verification/Configuration.thy ===== *)
theory Configuration
  imports Prelude
begin

text \<open>
  How the server comes to its configuration: the accessors of \<^verbatim>\<open>include/utils/config/tomlcpp.h\<close> on the parsed file,
  \<^verbatim>\<open>fetch_configs\<close> of \<^verbatim>\<open>src/utils/config/toml_parse.cpp\<close> and the loop of \<^verbatim>\<open>main\<close> over the pairs. A parsed file is a value
  of \<open>datum\<close>, what the accessors see of the tree; \<open>Toml_Config\<close> says which one the TOML parser makes of a text.
\<close>

datatype datum = T_Unknown | T_Str string | T_Int int | T_Table "(string \<times> datum) list" | T_Other

section \<open>Access\<close>

fun as_str :: "datum \<Rightarrow> string option" where
  "as_str (T_Str s) = Some s" | "as_str d = None"

fun as_int :: "datum \<Rightarrow> int option" where
  "as_int (T_Int n) = Some n" | "as_int d = None"

text \<open>A missing key gives the datum without a type; going on below anything but a table gives nothing.\<close>

fun get_loop :: "datum \<Rightarrow> datum \<Rightarrow> string list \<Rightarrow> datum option" where
  "get_loop tab val [] = Some val"
| "get_loop (T_Table kvs) val (k # ks) = (let v = (case map_of kvs k of None \<Rightarrow> T_Unknown | Some v \<Rightarrow> v) in get_loop v v ks)"
| "get_loop tab val (k # ks) = None"

definition datum_get :: "datum \<Rightarrow> string list \<Rightarrow> datum option" where
  "datum_get d keys = get_loop d T_Unknown keys"

section \<open>The pairs\<close>

text \<open>
  One of the assignments of \<^verbatim>\<open>fetch_configs\<close>: the name in the result, the path in the file and whether it is a string. The
  empty optional of \<^verbatim>\<open>get\<close> is dereferenced without a test; an empty one of the conversion throws (\<open>Inr None\<close>).
\<close>

type_synonym item = "string \<times> string list \<times> bool"

definition item_value :: "datum \<Rightarrow> item \<Rightarrow> string option cpp" where
  "item_value d it = (case it of (key, path, is_str) \<Rightarrow>
     (case datum_get d path of
        None \<Rightarrow> Inl Undefined_behaviour
      | Some v \<Rightarrow> Inr (if is_str then as_str v else map_option dec_int (as_int v))))"

definition item_default :: "item \<Rightarrow> string \<times> string" where
  "item_default it = (case it of (key, path, is_str) \<Rightarrow> (key, if is_str then [] else dec_int 0))"

fun fetch_items :: "datum \<Rightarrow> item list \<Rightarrow> (string \<times> string) list cpp" where
  "fetch_items d [] = Inr []"
| "fetch_items d (it # its) =
     (case item_value d it of
        Inl e \<Rightarrow> Inl e
      | Inr None \<Rightarrow> Inr (map item_default (it # its))
      | Inr (Some v) \<Rightarrow> (case fetch_items d its of Inl e \<Rightarrow> Inl e | Inr r \<Rightarrow> Inr ((fst it, v) # r)))"

definition config_items :: "item list" where
  "config_items =
     [(''hostname'', [''server'', ''hostname''], True), (''mailroot'', [''server'', ''mailroot''], True),
      (''smtp'', [''ports'', ''smtp''], False), (''submissions'', [''ports'', ''submissions''], False),
      (''imap4'', [''ports'', ''imap4''], False), (''imap4s'', [''ports'', ''imap4s''], False),
      (''db_path'', [''database'', ''dbpath''], True), (''ip_alert_mta'', [''reporting'', ''ip_alert_mta''], True)]"

definition fetch_configs :: "datum \<Rightarrow> (string \<times> string) list cpp" where
  "fetch_configs d = fetch_items d config_items"

section \<open>The ports of main\<close>

text \<open>The ports are not initialised; a value that was never assigned is \<open>None\<close>.\<close>

record config =
  smtp_port :: "16 word option"
  submission_port :: "16 word option"
  imap4_secure_port :: "16 word option"
  imap4_port :: "16 word option"
  db_path :: string

definition port_of :: "string \<Rightarrow> 16 word cpp" where
  "port_of s = (case stoi s of Inl e \<Rightarrow> Inl e | Inr n \<Rightarrow> Inr (word_of_int n))"

definition cfg_assign :: "string \<times> string \<Rightarrow> config \<Rightarrow> config cpp" where
  "cfg_assign p cfg =
     (case p of (k, v) \<Rightarrow>
        if k = ''smtp'' then (case port_of v of Inl e \<Rightarrow> Inl e | Inr n \<Rightarrow> Inr (cfg\<lparr>smtp_port := Some n\<rparr>))
        else if k = ''imap4'' then (case port_of v of Inl e \<Rightarrow> Inl e | Inr n \<Rightarrow> Inr (cfg\<lparr>imap4_port := Some n\<rparr>))
        else if k = ''imap4s'' then (case port_of v of Inl e \<Rightarrow> Inl e | Inr n \<Rightarrow> Inr (cfg\<lparr>imap4_secure_port := Some n\<rparr>))
        else if k = ''submissions'' then (case port_of v of Inl e \<Rightarrow> Inl e | Inr n \<Rightarrow> Inr (cfg\<lparr>submission_port := Some n\<rparr>))
        else if k = ''db_path'' then Inr (cfg\<lparr>db_path := v\<rparr>)
        else Inr cfg)"

definition read_config :: "(string \<times> string) list \<Rightarrow> config cpp" where
  "read_config ps = foldl (\<lambda>r p. case r of Inl e \<Rightarrow> Inl e | Inr cfg \<Rightarrow> cfg_assign p cfg)
     (Inr \<lparr>smtp_port = None, submission_port = None, imap4_secure_port = None, imap4_port = None, db_path = []\<rparr>) ps"

definition start_config :: "datum \<Rightarrow> config cpp" where
  "start_config d = (case fetch_configs d of Inl e \<Rightarrow> Inl e | Inr ps \<Rightarrow> read_config ps)"

section \<open>What the server gets\<close>

lemma dec_int_nat: "0 \<le> n \<Longrightarrow> dec_int n = dec (nat n)"
  by (simp add: dec_int_def)

lemma port_of_dec: "0 \<le> n \<Longrightarrow> n < 2 ^ 31 \<Longrightarrow> port_of (dec_int n) = Inr (word_of_int n)"
  using stoi_dec[of "nat n"] by (simp add: port_of_def dec_int_nat nat_less_iff)

text \<open>
  A complete configuration file gives the server the values it names; of a port only the low sixteen bits count.
\<close>

theorem config_complete:
  assumes "datum_get d [''server'', ''hostname''] = Some (T_Str host)" "datum_get d [''server'', ''mailroot''] = Some (T_Str root)"
    "datum_get d [''ports'', ''smtp''] = Some (T_Int p1)" "datum_get d [''ports'', ''submissions''] = Some (T_Int p2)"
    "datum_get d [''ports'', ''imap4''] = Some (T_Int p3)" "datum_get d [''ports'', ''imap4s''] = Some (T_Int p4)"
    "datum_get d [''database'', ''dbpath''] = Some (T_Str db)" "datum_get d [''reporting'', ''ip_alert_mta''] = Some (T_Str mta)"
    "\<forall>p \<in> {p1, p2, p3, p4}. 0 \<le> p \<and> p < 2 ^ 31"
  shows "start_config d = Inr \<lparr>smtp_port = Some (word_of_int p1), submission_port = Some (word_of_int p2),
    imap4_secure_port = Some (word_of_int p4), imap4_port = Some (word_of_int p3), db_path = db\<rparr>"
proof -
  have "fetch_configs d = Inr [(''hostname'', host), (''mailroot'', root), (''smtp'', dec_int p1), (''submissions'', dec_int p2),
      (''imap4'', dec_int p3), (''imap4s'', dec_int p4), (''db_path'', db), (''ip_alert_mta'', mta)]"
    using assms(1-8) by (simp add: fetch_configs_def config_items_def item_value_def)
  then show ?thesis using assms(9) by (simp add: start_config_def read_config_def cfg_assign_def port_of_dec)
qed

text \<open>
  A host name that is missing or no string silently discards the rest of the file: the server goes on with port 0 for all four
  services and an empty database path.
\<close>

theorem config_error_continues:
  assumes "datum_get d [''server'', ''hostname''] = Some v" "as_str v = None"
  shows "start_config d = Inr \<lparr>smtp_port = Some 0, submission_port = Some 0, imap4_secure_port = Some 0, imap4_port = Some 0, db_path = []\<rparr>"
proof -
  have "fetch_configs d = Inr (map item_default config_items)"
    using assms by (simp add: fetch_configs_def config_items_def item_value_def)
  then show ?thesis using port_of_dec[of 0] by (simp add: start_config_def read_config_def cfg_assign_def config_items_def item_default_def)
qed

definition sample_file :: datum where
  "sample_file = T_Table [(''server'', T_Table [(''hostname'', T_Str ''h''), (''mailroot'', T_Str ''/m'')]),
     (''ports'', T_Table [(''smtp'', T_Int 25), (''imap4s'', T_Int 993), (''imap4'', T_Int 143), (''submissions'', T_Int 587)]),
     (''database'', T_Table [(''dbpath'', T_Str ''/u.db'')]), (''reporting'', T_Table [(''ip_alert_mta'', T_Str ''a@b'')])]"

theorem config_complete_witness:
  "start_config sample_file = Inr \<lparr>smtp_port = Some 25, submission_port = Some 587, imap4_secure_port = Some 993, imap4_port = Some 143, db_path = ''/u.db''\<rparr>"
  using config_complete[of sample_file "''h''" "''/m''" 25 587 143 993 "''/u.db''" "''a@b''"] by (simp add: sample_file_def datum_get_def)

theorem config_error_continues_witness:
  "start_config (T_Table [(''server'', T_Table [])]) =
     Inr \<lparr>smtp_port = Some 0, submission_port = Some 0, imap4_secure_port = Some 0, imap4_port = Some 0, db_path = []\<rparr>"
  by (rule config_error_continues[of _ T_Unknown]) (simp_all add: datum_get_def)

end
