(* ===== verification/Process.thy ===== *)
theory Process
  imports Configuration Database
begin

text \<open>
  The process around the four loops: the global objects of \<^verbatim>\<open>include/globals.hpp\<close> that are built before \<^verbatim>\<open>main\<close>, the constructor
  of \<^verbatim>\<open>src/utils/config/toml_parse.cpp\<close>, and \<^verbatim>\<open>main\<close> from its arguments to its exit code. How each loop ends is a
  parameter, as are the environment, the file tests and SQLite. What the parser makes of a file is the field \<open>parse_file\<close>, which
  \<open>Toml_Config\<close> fills with the model of the TOML library.
\<close>

datatype port = Smtp | Submission | Imap4 | Imap4_Secure

record process_env =
  getenv :: "string \<Rightarrow> string option"
  canonical :: "string \<Rightarrow> string"
  is_regular :: "string \<Rightarrow> bool"
  parse_file :: "string \<Rightarrow> string + datum"
  sqlite_open :: "string \<Rightarrow> db + string"
  loop_failure :: "config \<Rightarrow> port \<Rightarrow> cpp_exn option"

definition env_path :: "process_env \<Rightarrow> string \<Rightarrow> string \<Rightarrow> string" where
  "env_path P name fallback = (case getenv P name of Some v \<Rightarrow> v | None \<Rightarrow> fallback)"

text \<open>\<^verbatim>\<open>load_configs\<close> with the message it prints when it fails.\<close>

definition load_configs :: "process_env \<Rightarrow> string \<Rightarrow> string + datum" where
  "load_configs P path =
     (let absolute_path = canonical P path
      in if \<not> is_regular P absolute_path
         then Inl (''Unable to verify config file path provided!'' @ [LF] @ ''File given: '' @ absolute_path)
         else parse_file P absolute_path)"

datatype process_end = Exit int | Terminated cpp_exn

definition toml_parser_new :: "process_env \<Rightarrow> process_end + datum" where
  "toml_parser_new P =
     (case load_configs P (env_path P ''JAMS_CONFIG'' ''../config/server.toml'') of
        Inl msg \<Rightarrow> Inl (Exit 1)
      | Inr d \<Rightarrow> Inr d)"

text \<open>
  The constructor of the credential store; a database that cannot be opened is an exception, so the test for a null handle in
  \<^verbatim>\<open>main\<close> never succeeds. The tables are created if they do not exist.
\<close>

definition cred_store_new :: "process_env \<Rightarrow> string \<Rightarrow> db cpp" where
  "cred_store_new P path =
     (case sqlite_open P path of
        Inr err \<Rightarrow> Inl (Runtime_error (''[CredStore] Failed to open DB: '' @ err))
      | Inl d \<Rightarrow> Inr d)"

text \<open>The handler sets the flag the loops poll and names the signal.\<close>

definition handle_signal :: "int \<Rightarrow> int \<times> string" where
  "handle_signal sig = (1, if sig = 2 then [LF] @ ''[JAMS] SIGINT received... Shutting down'' @ [LF]
     else [LF] @ ''[JAMS] SIGTERM received... Shutting down'' @ [LF])"

text \<open>
  The four threads: a loop that ends with an exception marks the server as failed and stops the other loops, the last one
  through \<^verbatim>\<open>raise(SIGTERM)\<close>. The pair is \<^verbatim>\<open>server_failed\<close> and \<^verbatim>\<open>g_shutdown\<close>.
\<close>

definition thread_end :: "process_env \<Rightarrow> config \<Rightarrow> bool \<times> int \<Rightarrow> port \<Rightarrow> bool \<times> int" where
  "thread_end P cfg fs p =
     (case loop_failure P cfg p of
        None \<Rightarrow> fs
      | Some e \<Rightarrow> (True, if p = Imap4_Secure then fst (handle_signal 15) else 1))"

definition threads :: "process_env \<Rightarrow> config \<Rightarrow> bool \<times> int" where
  "threads P cfg = foldl (thread_end P cfg) (False, 0) [Smtp, Submission, Imap4, Imap4_Secure]"

definition main :: "process_env \<Rightarrow> (string \<times> string) list \<Rightarrow> string list \<Rightarrow> process_end" where
  "main P configs argv =
     (if length argv > 1 \<and> argv ! 1 = ''--help'' then Exit 0
      else (case read_config configs of Inl e \<Rightarrow> Terminated e
        | Inr cfg \<Rightarrow>
            (case cred_store_new P (db_path cfg) of Inl e \<Rightarrow> Terminated e
             | Inr d \<Rightarrow> if fst (threads P cfg) then Exit 1 else Exit 0)))"

text \<open>The whole process: the configuration is read while the globals are initialised.\<close>

definition process_run :: "process_env \<Rightarrow> string list \<Rightarrow> process_end" where
  "process_run P argv =
     (case toml_parser_new P of Inl out \<Rightarrow> out
      | Inr d \<Rightarrow> (case fetch_configs d of Inl e \<Rightarrow> Terminated e | Inr configs \<Rightarrow> main P configs argv))"

section \<open>Exit codes\<close>

lemma threads_failed: "fst (threads P cfg) \<longleftrightarrow> (\<exists>p. loop_failure P cfg p \<noteq> None)"
proof -
  have t: "fst (thread_end P cfg fs p) \<longleftrightarrow> fst fs \<or> loop_failure P cfg p \<noteq> None" for fs p
    by (cases "loop_failure P cfg p") (simp_all add: thread_end_def)
  have "fst (threads P cfg) \<longleftrightarrow> (\<exists>p \<in> set [Smtp, Submission, Imap4, Imap4_Secure]. loop_failure P cfg p \<noteq> None)"
    unfolding threads_def by (simp add: t del: not_None_eq) blast
  also have "set [Smtp, Submission, Imap4, Imap4_Secure] = UNIV" using port.exhaust by auto
  finally show ?thesis by simp
qed

text \<open>
  A server with a usable configuration and database reports failure exactly when one of its loops ended with an exception.
\<close>

theorem exit_code:
  assumes "toml_parser_new P = Inr d" "start_config d = Inr cfg" "cred_store_new P (db_path cfg) = Inr db"
    "\<not> (length argv > 1 \<and> argv ! 1 = ''--help'')"
  shows "process_run P argv = Exit (if \<exists>p. loop_failure P cfg p \<noteq> None then 1 else 0)"
  using assms threads_failed[of P cfg] by (auto simp: process_run_def main_def start_config_def split: sum.splits)

text \<open>
  The help text names an option \<^verbatim>\<open>--add-user\<close> that creates accounts; there is none: the arguments are ignored and the server
  starts.
\<close>

theorem add_user_ignored: "process_run P [prog, ''--add-user'', name, passwd] = process_run P [prog]"
  by (simp add: process_run_def main_def split: sum.split)

text \<open>
  Without a readable configuration file not even \<^verbatim>\<open>--help\<close> works: the process ends with code 1 before \<^verbatim>\<open>main\<close>.
\<close>

theorem help_needs_config:
  assumes "\<not> is_regular P (canonical P (env_path P ''JAMS_CONFIG'' ''../config/server.toml''))"
  shows "process_run P argv = Exit 1"
  using assms by (simp add: process_run_def toml_parser_new_def load_configs_def Let_def)

section \<open>Concrete runs\<close>

definition sample_process :: process_env where
  "sample_process = \<lparr>getenv = (\<lambda>n. if n = ''JAMS_CONFIG'' then Some ''/etc/jams.toml'' else None), canonical = (\<lambda>p. p),
     is_regular = (\<lambda>p. p = ''/etc/jams.toml''), parse_file = (\<lambda>p. Inr sample_file), sqlite_open = (\<lambda>p. Inl ensure_schema),
     loop_failure = (\<lambda>cfg p. if p = Imap4 then Some (Runtime_error ''bind(): '') else None)\<rparr>"

theorem exit_code_witness: "process_run sample_process [''mailserver''] = Exit 1"
proof -
  let ?cfg = "\<lparr>smtp_port = Some 25, submission_port = Some 587, imap4_secure_port = Some 993, imap4_port = Some 143, db_path = ''/u.db''\<rparr>"
  have d: "toml_parser_new sample_process = Inr sample_file"
    by (simp add: toml_parser_new_def load_configs_def Let_def env_path_def sample_process_def)
  have c: "start_config sample_file = Inr ?cfg" by code_simp
  have s: "cred_store_new sample_process (db_path ?cfg) = Inr ensure_schema" by (simp add: cred_store_new_def sample_process_def)
  have "\<exists>p. loop_failure sample_process ?cfg p \<noteq> None" by (rule exI[of _ Imap4]) (simp add: sample_process_def)
  then show ?thesis using exit_code[OF d c s, of "[''mailserver'']"] by simp
qed

theorem help_needs_config_witness: "process_run (sample_process\<lparr>getenv := (\<lambda>n. None)\<rparr>) [''mailserver'', ''--help''] = Exit 1"
  by (rule help_needs_config) (simp add: sample_process_def env_path_def)

end
