(* ===== verification/Server.thy ===== *)
theory Server
  imports Port_Safety Imap_Server Process
begin

text \<open>
  The whole server of \<^verbatim>\<open>src/main.cpp\<close>: four event loops on one database and one file system. A step of the server is a step of one of its loops,
  in any order, on what the others have left; so the handlers of different ports are interleaved as a whole. What a loop keeps of the
  shared world (its guarantee) is what the others need (their rely): the predicate \<open>lawful\<close>.
\<close>

record 'x server =
  sv_world :: world
  sv_append_seq :: "32 word"
  sv_smtp :: "(world, smtp, 'x) uring"
  sv_submission :: "(world, string \<times> subm, 'x) uring"
  sv_imap4 :: "(world \<times> 32 word, string \<times> imap, 'x) uring"
  sv_imap4_secure :: "(world \<times> 32 word, string \<times> imap, 'x) uring"

text \<open>The loops of the four threads.\<close>

record 'x server_loops =
  sl_smtp :: "(world, smtp, 'x) loop_env"
  sl_submission :: "(world, string \<times> subm, 'x) loop_env"
  sl_imap4 :: "(world \<times> 32 word, string \<times> imap, 'x) loop_env"
  sl_imap4_secure :: "(world \<times> 32 word, string \<times> imap, 'x) loop_env"

definition main_loops :: "'x ssl_lib \<Rightarrow> 'x option \<Rightarrow> (port \<Rightarrow> nat \<Rightarrow> bool) \<Rightarrow> sub_env \<Rightarrow> imap_env \<Rightarrow> 'x server_loops" where
  "main_loops L x sq S M = \<lparr>sl_smtp = smtp_loop L x (sq Smtp) (se_server S), sl_submission = submission_loop L x (sq Submission) S,
     sl_imap4 = imap_loop L x (sq Imap4) M, sl_imap4_secure = imap_loop L x (sq Imap4_Secure) M\<rparr>"

inductive server_step :: "'x server_loops \<Rightarrow> 'x server \<Rightarrow> 'x server \<Rightarrow> bool" for A where
  smtp_thread: "loop_step (sl_smtp A) (sv_smtp v\<lparr>shared := sv_world v\<rparr>) st \<Longrightarrow> server_step A v (v\<lparr>sv_smtp := st, sv_world := shared st\<rparr>)"
| submission_thread: "loop_step (sl_submission A) (sv_submission v\<lparr>shared := sv_world v\<rparr>) st \<Longrightarrow>
    server_step A v (v\<lparr>sv_submission := st, sv_world := shared st\<rparr>)"
| imap4_thread: "loop_step (sl_imap4 A) (sv_imap4 v\<lparr>shared := (sv_world v, sv_append_seq v)\<rparr>) st \<Longrightarrow>
    server_step A v (v\<lparr>sv_imap4 := st, sv_world := fst (shared st), sv_append_seq := snd (shared st)\<rparr>)"
| imap4_secure_thread: "loop_step (sl_imap4_secure A) (sv_imap4_secure v\<lparr>shared := (sv_world v, sv_append_seq v)\<rparr>) st \<Longrightarrow>
    server_step A v (v\<lparr>sv_imap4_secure := st, sv_world := fst (shared st), sv_append_seq := snd (shared st)\<rparr>)"

text \<open>The server once every thread has created its loop and armed it.\<close>

definition server_started :: "'x server_loops \<Rightarrow> world \<Rightarrow> 'x server \<Rightarrow> bool" where
  "server_started A w v \<longleftrightarrow>
     (\<exists>st. arm_periodic_timer (sl_smtp A) 60 0 (loop_new w) = (st, None) \<and> arm_accept (sl_smtp A) st = (sv_smtp v, None)) \<and>
     arm_accept (sl_submission A) (loop_new w) = (sv_submission v, None) \<and>
     arm_accept (sl_imap4 A) (loop_new (w, 0)) = (sv_imap4 v, None) \<and>
     arm_accept (sl_imap4_secure A) (loop_new (w, 0)) = (sv_imap4_secure v, None) \<and> sv_world v = w \<and> sv_append_seq v = 0"

inductive server_reaches :: "'x server_loops \<Rightarrow> world \<Rightarrow> 'x server \<Rightarrow> bool" for A w where
  start: "server_started A w v \<Longrightarrow> server_reaches A w v"
| work: "server_reaches A w v \<Longrightarrow> server_step A v v' \<Longrightarrow> server_reaches A w v'"

inductive_cases server_stepE: "server_step A v v'"

section \<open>What every loop keeps\<close>

text \<open>
  The accounts of \<open>w0\<close>, a well-formed database, a purge queue that stays below the mail root; and no file outside the mail root has changed,
  unless \<open>V\<close> (there is a user whose password the IMAP server accepts).
\<close>

definition lawful :: "server_env \<Rightarrow> bool \<Rightarrow> world \<Rightarrow> world \<Rightarrow> bool" where
  "lawful E V w0 w \<longleftrightarrow> paths_ok E \<and> users (w_db w) = users (w_db w0) \<and> prep_ok (w_db w) = prep_ok (w_db w0) \<and> db_wf (w_db w) \<and>
     queue_ok E (w_db w) \<and> (V \<or> below_root E w0 w)"

lemma lawful_alias: "lawful E V w0 w \<Longrightarrow> lawful E V w0 (snd (rcpt_alias_check E f a w))"
  by (simp add: lawful_def rcpt_alias_check_wf queue_ok_def alias_check_queue below_root_def)

lemma lawful_store:
  assumes "lawful E V w0 w"
  shows "lawful E V w0 (snd (store_local E f r t u b w))"
proof -
  have "V \<or> below_root E w0 (snd (store_local E f r t u b w))"
    using below_step[of E w0 w] store_local_files(2)[of E f r t u b w] assms unfolding lawful_def by blast
  moreover have "paths_ok E" "db_wf (w_db w)" "queue_ok E (w_db w)" using assms unfolding lawful_def by blast+
  then have "db_wf (w_db (snd (store_local E f r t u b w)))" "queue_ok E (w_db (snd (store_local E f r t u b w)))"
    by (simp_all add: store_local_wf store_queue)
  moreover have "users (w_db (snd (store_local E f r t u b w))) = users (w_db w)" "prep_ok (w_db (snd (store_local E f r t u b w))) = prep_ok (w_db w)"
    by simp_all
  ultimately show ?thesis using assms unfolding lawful_def by presburger
qed

lemma lawful_tick: "lawful E V w0 w \<Longrightarrow> lawful E V w0 (w\<lparr>w_tick := n\<rparr>)"
  by (simp add: lawful_def below_root_def)

lemma purge_timer_accounts: "users (w_db (purge_timer E w)) = users (w_db w)" "prep_ok (w_db (purge_timer E w)) = prep_ok (w_db w)"
proof -
  have 1: "users (w_db (purge_one E w e)) = users (w_db w) \<and> prep_ok (w_db (purge_one E w e)) = prep_ok (w_db w)" for w e
    by (simp add: purge_one_def mark_purged_def Let_def split: prod.split)
  have "users (w_db (foldl (purge_one E) w es)) = users (w_db w) \<and> prep_ok (w_db (foldl (purge_one E) w es)) = prep_ok (w_db w)" for w es
    by (induction es arbitrary: w) (simp_all add: 1)
  then show "users (w_db (purge_timer E w)) = users (w_db w)" "prep_ok (w_db (purge_timer E w)) = prep_ok (w_db w)"
    by (simp_all add: purge_timer_def Let_def reap_expired_def update_aliases_def)
qed

lemma lawful_purge:
  assumes "lawful E V w0 w"
  shows "lawful E V w0 (purge_timer E w)"
proof -
  have "smtp_shared E w w" using assms by (simp add: smtp_shared_def lawful_def below_root_def)
  then have "smtp_shared E w (purge_timer E w)" by (rule purge_timer_keeps)
  then show ?thesis using assms below_step[of E w0 w "purge_timer E w"]
    by (auto simp: lawful_def smtp_shared_def purge_timer_accounts below_root_def[of E w])
qed

interpretation smtp_thread: port_invariant "smtp_loop L x sq E" "lawful E V w0" smtp_member for L x sq E V w0
proof unfold_locales
  fix w s tls d w' s' ks ex
  assume g: "lawful E V w0 w" and j: "smtp_member s" and r: "s_on_data (sess (smtp_loop L x sq E)) tls w s d = (w', s', ks, ex)"
  have "db_wf (w_db w)" using g by (simp add: lawful_def)
  then have "smtp_inv (s\<lparr>smtp.calls := [], smtp.wrld := w\<rparr>)" using j by (auto simp: smtp_member_def smtp_inv_def)
  then have "smtp_member (smtp_on_data E tls (s\<lparr>smtp.calls := [], smtp.wrld := w\<rparr>) d)" by (intro smtp_member_iff smtp_on_data_inv)
  moreover have "lawful E V w0 (smtp.wrld (smtp_on_data E tls (s\<lparr>smtp.calls := [], smtp.wrld := w\<rparr>) d))"
    by (rule smtp_world_rule) (use g in \<open>simp_all add: lawful_alias lawful_store\<close>)
  ultimately show "lawful E V w0 w' \<and> smtp_member s'" using r by (auto simp: smtp_loop_def smtp_adapter_def Let_def)
next
  fix w c ip s ks
  assume "lawful E V w0 w" "s_create (sess (smtp_loop L x sq E)) c ip w = (s, ks)"
  then show "smtp_member s" by (auto simp: smtp_loop_def smtp_adapter_def Let_def lawful_def intro!: smtp_member_iff smtp_new_inv)
qed (auto simp: smtp_loop_def smtp_adapter_def lawful_purge)

section \<open>The submission thread\<close>

text \<open>A submission session changes the world by checking aliases, by storing messages and by relaying, which only takes time.\<close>

lemma sub_deliver_world:
  assumes "\<And>f r t u b w. P w \<Longrightarrow> P (snd (store_local (se_server S) f r t u b w))" "\<And>w n. P w \<Longrightarrow> P (w\<lparr>w_tick := n\<rparr>)"
    "P (sb_world s)" "sub_deliver S s = Inr (acc, w, lg)"
  shows "P w"
proof -
  have one: "P (fst wl')" if "sub_deliver_one S from body r wl = Inr (o', wl')" "P (fst wl)" for "from" body r wl o' wl'
  proof -
    obtain v l where wl: "wl = (v, l)" by fastforce
    have "P (snd (sub_store (se_server S) from body r v))" using that(2) wl assms(1) by (simp add: sub_store_def Let_def)
    then show ?thesis using that wl assms(2) by (auto simp: sub_deliver_one_def Let_def split: prod.splits sum.splits if_splits)
  qed
  have "sub_deliver_all S from body rs (o1, wl) = Inr (o2, wl') \<Longrightarrow> P (fst wl) \<Longrightarrow> P (fst wl')" for "from" body rs o1 wl o2 wl'
  proof (induction rs arbitrary: o1 wl)
    case (Cons r rs)
    from Cons.prems(1) obtain o3 w1 where o: "sub_deliver_one S from body r wl = Inr (o3, w1)"
      and rest: "sub_deliver_all S from body rs (o1 \<and> o3, w1) = Inr (o2, wl')"
      by (cases "sub_deliver_one S from body r wl") auto
    from Cons.IH[OF rest one[OF o Cons.prems(2)]] show ?case .
  qed simp
  then show ?thesis using assms(3,4) by (fastforce simp: sub_deliver_def split: sum.splits)
qed

lemma sub_line_rule:
  assumes "\<And>f a w. P w \<Longrightarrow> P (snd (rcpt_alias_check (se_server S) f a w))" "P (sb_world s)" "sub_line S tls line s = Inr s'"
  shows "P (sb_world s')"
proof -
  let ?P = "\<lambda>r. \<forall>s'. r = Inr s' \<longrightarrow> P (sb_world s')"
  have "?P (sub_line S tls line s)"
  proof (rule sub_line_cases[where P = ?P, OF _ _ _ _ _ _ _ _ _ _ _ _ _ _ refl])
    show "?P (Inr (sub_auth_result (sasl_respond cd vf line (sb_sasl s)) s))" for cd vf
      using assms(2) by (auto simp: sub_auth_result_def Let_def split: prod.splits if_splits)
    show "?P (Inr (sub_auth cd cr ip tls arg s))" for cd cr ip arg
      using assms(2) by (auto simp: sub_auth_def sub_auth_result_def Let_def split: prod.splits if_splits)
    show "?P (Inr (sub_rcpt (se_server S) arg s))" for arg
      using assms(1)[OF assms(2), of "mail_from (sb_env s)" "sub_extract_address (drop 3 arg)"] assms(2)
      by (auto simp: sub_rcpt_def Let_def split: prod.splits bool.splits)
  qed (use assms(2) in \<open>auto simp: sub_ehlo_def sub_helo_def sub_mail_def sub_data_def sub_rset_def sub_noop_def
        sub_quit_def sub_starttls_def Let_def split: if_splits\<close>)
  with assms(3) show ?thesis by blast
qed

lemma sub_world_rule:
  assumes "\<And>f a w. P w \<Longrightarrow> P (snd (rcpt_alias_check (se_server S) f a w))" "\<And>f r t u b w. P w \<Longrightarrow> P (snd (store_local (se_server S) f r t u b w))"
    "\<And>w n. P w \<Longrightarrow> P (w\<lparr>w_tick := n\<rparr>)"
  shows "sub_on_data S tls s bs = Inr s' \<Longrightarrow> P (sb_world s) \<Longrightarrow> P (sb_world s')"
proof (induction bs arbitrary: s)
  case (Cons b bs)
  have f: "P (sb_world t)" if fin: "sub_finish_data S t0 = Inr t" "P (sb_world t0)" for t0 t
  proof -
    obtain acc w lg where d: "sub_deliver S t0 = Inr (acc, w, lg)" using fin(1)
      by (cases "sub_deliver S t0") (auto simp: sub_finish_data_def)
    have "P w" by (rule sub_deliver_world[of P S, OF assms(2,3) fin(2) d])
    then show ?thesis using fin(1) d by (auto simp: sub_finish_data_def Let_def split: if_splits)
  qed
  have d: "P (sb_world t)" if "sub_data_byte S b s = Inr t" for t
    using that f[of _ t] Cons.prems(2) by (auto simp: sub_data_byte_def Let_def split: if_splits)
  have l: "P (sb_world t)" if "sub_end_of_line S tls s = Inr t" for t
    using that sub_line_rule[of P S "s\<lparr>sb_line_buf := strip_cr (sb_line_buf s)\<rparr>" tls, OF assms(1)] Cons.prems(2)
    by (auto simp: sub_end_of_line_def split: sum.splits)
  have c: "P (sb_world (sub_command_byte b s))" using Cons.prems(2) by (simp add: sub_command_byte_def Let_def)
  show ?case using Cons.prems(1) Cons.IH d l c by (auto split: sum.splits if_splits)
qed simp

interpretation submission_thread: port_invariant "submission_loop L x sq S" "\<lambda>w. db_wf (w_db w0) \<and> lawful (se_server S) V w0 w" "sub_member S w0" for L x sq S V w0
proof unfold_locales
  fix w s tls d w' s' ks ex
  assume g: "db_wf (w_db w0) \<and> lawful (se_server S) V w0 w" and m: "sub_member S w0 s" and r: "s_on_data (sess (submission_loop L x sq S)) tls w s d = (w', s', ks, ex)"
  obtain ip t where s: "s = (ip, t)" by (cases s) auto
  let ?t = "t\<lparr>sb_calls := [], sb_world := w\<rparr>" and ?S = "S\<lparr>se_ip := ip\<rparr>"
  let ?Q = "\<lambda>u. sub_inv ?S u \<and> lawful (se_server S) V w0 (sb_world u)"
  have t: "sub_inv ?S ?t" using m s g sub_inv_world(2)[of ?S "t\<lparr>sb_world := w0\<rparr>" w] by (simp add: sub_member_def lawful_def)
  have k: "?Q u" if "sub_on_data ?S tls ?t e = Inr u" for u e
    using sub_on_data_pres[OF t that] sub_world_rule[of "lawful (se_server S) V w0" ?S, OF _ _ _ that] g
    by (simp add: lawful_alias lawful_store lawful_tick)
  define u where "u = (case sub_on_data ?S tls ?t d of Inl e \<Rightarrow> before_exn (sub_on_data ?S tls ?t) ?t d | Inr v \<Rightarrow> v)"
  have "?Q (before_exn (sub_on_data ?S tls ?t) ?t d)" by (rule before_exn_keeps) (use t k g in auto)
  then have u: "sub_inv ?S u" "lawful (se_server S) V w0 (sb_world u)" using k[of d] by (auto simp: u_def split: sum.split)
  have r': "w' = sb_world u" "s' = (ip, u)"
    using r s by (auto simp: u_def submission_loop_def sub_adapter_def Let_def split: sum.splits)
  have "sub_member S w0 s'" using sub_inv_world(1)[OF u(1), of w0] u(2) g r' by (simp add: sub_member_def lawful_def)
  then show "(db_wf (w_db w0) \<and> lawful (se_server S) V w0 w') \<and> sub_member S w0 s'" using g u(2) r' by blast
next
  fix w c ip s ks
  assume g: "db_wf (w_db w0) \<and> lawful (se_server S) V w0 w" and "s_create (sess (submission_loop L x sq S)) c ip w = (s, ks)"
  then have "s = (ip, sub_new (se_server S) w)" by (auto simp: submission_loop_def sub_adapter_def Let_def)
  moreover have "sub_inv (S\<lparr>se_ip := ip\<rparr>) (sub_new (se_server S) w)" using sub_new_inv[of w "S\<lparr>se_ip := ip\<rparr>"] g by (simp add: lawful_def)
  ultimately show "sub_member S w0 s" using g sub_inv_world(1)[of "S\<lparr>se_ip := ip\<rparr>" "sub_new (se_server S) w" w0]
    by (simp add: sub_member_def lawful_def sub_new_def)
next
  fix s assume "sub_member S w0 s"
  then show "sub_member S w0 (s_clear_tls (sess (submission_loop L x sq S)) s)" by (rule submission_clients.clear_keeps)
qed (simp_all add: submission_loop_def)

section \<open>The IMAP threads\<close>

definition imap_user_known :: "imap_env \<Rightarrow> world \<Rightarrow> bool" where
  "imap_user_known M w0 \<longleftrightarrow> (\<exists>ip u. verified_user (M\<lparr>remote_ip := ip\<rparr>) w0 u)"

lemma same_accounts_verified:
  "users (w_db w) = users (w_db w0) \<Longrightarrow> prep_ok (w_db w) = prep_ok (w_db w0) \<Longrightarrow> verified_user M w = verified_user M w0"
  using verify_cong[of "w_db w" "w_db w0" "crypt M"] by (auto simp: verified_user_def fun_eq_iff)

lemma imap_inv_accounts:
  assumes "users (w_db w) = users (w_db w0)" "prep_ok (w_db w) = prep_ok (w_db w0)"
  shows "imap_inv M w s \<Longrightarrow> imap_inv M w0 (s\<lparr>imap.wrld := w0\<rparr>)"
    "imap_inv M w0 (s\<lparr>imap.wrld := w0\<rparr>) \<Longrightarrow> imap_inv M w (s\<lparr>imap.calls := ks, imap.wrld := w, append_seq := n\<rparr>)"
  using same_accounts_verified[OF assms] by (auto simp: imap_inv_def)

interpretation imap_thread: port_invariant "imap_loop L x sq M" "\<lambda>wn. lawful E (imap_user_known M w0) w0 (fst wn)" "imap_member M w0" for L x sq M E w0
proof unfold_locales
  fix wn s tls d w' s' ks ex
  assume g: "lawful E (imap_user_known M w0) w0 (fst wn)" and m: "imap_member M w0 s"
    and r: "s_on_data (sess (imap_loop L x sq M)) tls wn s d = (w', s', ks, ex)"
  obtain ip t w n where s: "s = (ip, t)" "wn = (w, n)" by (cases s; cases wn) auto
  let ?t = "t\<lparr>imap.calls := [], imap.wrld := w, append_seq := n\<rparr>" and ?E = "M\<lparr>remote_ip := ip\<rparr>"
  have acc: "users (w_db w) = users (w_db w0)" "prep_ok (w_db w) = prep_ok (w_db w0)" using g s by (simp_all add: lawful_def)
  have t: "imap_inv ?E w ?t" "\<not> imap.tls_upgrade_pending ?t" using m s imap_inv_accounts(2)[OF acc] by (auto simp: imap_member_def)
  define u where "u = (case imap_on_data ?E ?t d of Inl e \<Rightarrow> before_exn (imap_on_data ?E ?t) ?t d | Inr v \<Rightarrow> v)"
  have "imap_inv ?E w (before_exn (imap_on_data ?E ?t) ?t d) \<and> \<not> imap.tls_upgrade_pending (before_exn (imap_on_data ?E ?t) ?t d)"
    by (rule before_exn_keeps) (use t imap_data_inv[of ?E ?t _ _ w] in auto)
  then have u: "imap_inv ?E w u" "\<not> imap.tls_upgrade_pending u" using t imap_data_inv[of ?E ?t d _ w] by (auto simp: u_def split: sum.split)
  have r': "w' = (imap.wrld u, append_seq u)" "s' = (ip, u)"
    using r s by (auto simp: u_def imap_loop_def imap_adapter_def Let_def split: sum.splits)
  have db: "w_db (imap.wrld u) = w_db w" and fs: "w_fs (imap.wrld u) \<noteq> w_fs w \<longrightarrow> verified_user ?E w0 (imap.username u)"
    using u(1) same_accounts_verified[OF acc, of ?E] by (auto simp: imap_inv_def)
  have "imap_user_known M w0 \<or> below_root E w0 (imap.wrld u)"
  proof (cases "w_fs (imap.wrld u) = w_fs w")
    case True
    then show ?thesis using g s by (simp add: lawful_def below_root_def)
  next
    case False
    then show ?thesis using fs by (auto simp: imap_user_known_def)
  qed
  then have "lawful E (imap_user_known M w0) w0 (fst w')" using g s r' db by (simp add: lawful_def)
  moreover have "imap_member M w0 s'" using u imap_inv_accounts(1)[OF acc u(1)] r' by (simp add: imap_member_def)
  ultimately show "lawful E (imap_user_known M w0) w0 (fst w') \<and> imap_member M w0 s'" by blast
next
  fix wn c ip s ks
  assume g: "lawful E (imap_user_known M w0) w0 (fst wn)" and c: "s_create (sess (imap_loop L x sq M)) c ip wn = (s, ks)"
  obtain w n where w: "wn = (w, n)" "s = (ip, imap_new n w)" using c by (cases wn) (auto simp: imap_loop_def imap_adapter_def Let_def)
  then have acc: "users (w_db w) = users (w_db w0)" "prep_ok (w_db w) = prep_ok (w_db w0)" using g by (simp_all add: lawful_def)
  show "imap_member M w0 s" using w imap_new_inv[of "M\<lparr>remote_ip := ip\<rparr>" w n] imap_inv_accounts(1)[OF acc]
    by (auto simp: imap_member_def between_reads_def keeps_inv_def)
next
  fix s assume "imap_member M w0 s"
  then show "imap_member M w0 (s_clear_tls (sess (imap_loop L x sq M)) s)" by (rule imap_clients.clear_keeps)
qed (simp_all add: imap_loop_def)

section \<open>The whole server\<close>

definition server_ok :: "sub_env \<Rightarrow> imap_env \<Rightarrow> world \<Rightarrow> 'x server \<Rightarrow> bool" where
  "server_ok S M w0 v \<longleftrightarrow> lawful (se_server S) (imap_user_known M w0) w0 (sv_world v) \<and>
     (\<forall>c s. map_of (sessions (sv_smtp v)) c = Some s \<longrightarrow> smtp_member s) \<and>
     (\<forall>c s. map_of (sessions (sv_submission v)) c = Some s \<longrightarrow> sub_member S w0 s) \<and>
     (\<forall>c s. map_of (sessions (sv_imap4 v)) c = Some s \<longrightarrow> imap_member M w0 s) \<and>
     (\<forall>c s. map_of (sessions (sv_imap4_secure v)) c = Some s \<longrightarrow> imap_member M w0 s)"

lemma server_step_ok:
  assumes "server_step (main_loops L x sq S M) v v'" "server_ok S M w0 v" "db_wf (w_db w0)"
  shows "server_ok S M w0 v'"
  using assms(1)
proof (cases rule: server_step.cases)
  case (smtp_thread st)
  have "good (lawful (se_server S) (imap_user_known M w0) w0) smtp_member (sv_smtp v\<lparr>shared := sv_world v\<rparr>)"
    using assms(2) by (simp add: server_ok_def good_def)
  from smtp_thread.step_good[OF smtp_thread(2)[unfolded main_loops_def, simplified] this] show ?thesis
    using assms(2) smtp_thread(1) by (simp add: server_ok_def good_def)
next
  case (submission_thread st)
  have "good (\<lambda>w. db_wf (w_db w0) \<and> lawful (se_server S) (imap_user_known M w0) w0 w) (sub_member S w0) (sv_submission v\<lparr>shared := sv_world v\<rparr>)"
    using assms(2,3) by (simp add: server_ok_def good_def)
  from submission_thread.step_good[OF submission_thread(2)[unfolded main_loops_def, simplified] this] show ?thesis
    using assms(2) submission_thread(1) by (simp add: server_ok_def good_def)
next
  case (imap4_thread st)
  have "good (\<lambda>wn. lawful (se_server S) (imap_user_known M w0) w0 (fst wn)) (imap_member M w0) (sv_imap4 v\<lparr>shared := (sv_world v, sv_append_seq v)\<rparr>)"
    using assms(2) by (simp add: server_ok_def good_def)
  from imap_thread.step_good[OF imap4_thread(2)[unfolded main_loops_def, simplified] this] show ?thesis
    using assms(2) imap4_thread(1) by (simp add: server_ok_def good_def)
next
  case (imap4_secure_thread st)
  have "good (\<lambda>wn. lawful (se_server S) (imap_user_known M w0) w0 (fst wn)) (imap_member M w0)
      (sv_imap4_secure v\<lparr>shared := (sv_world v, sv_append_seq v)\<rparr>)"
    using assms(2) by (simp add: server_ok_def good_def)
  from imap_thread.step_good[OF imap4_secure_thread(2)[unfolded main_loops_def, simplified] this] show ?thesis
    using assms(2) imap4_secure_thread(1) by (simp add: server_ok_def good_def)
qed

lemma server_started_ok:
  assumes "server_started (main_loops L x sq S M) w0 v" "db_wf (w_db w0)" "paths_ok (se_server S)" "queue_ok (se_server S) (w_db w0)"
  shows "server_ok S M w0 v"
proof -
  let ?V = "imap_user_known M w0"
  have l: "lawful (se_server S) ?V w0 w0" using assms(2-4) by (simp add: lawful_def below_root_def)
  have "good (lawful (se_server S) ?V w0) smtp_member (sv_smtp v)"
    using assms(1) smtp_thread.timer_started_good[OF l] by (auto simp: server_started_def main_loops_def)
  moreover have "good (\<lambda>w. db_wf (w_db w0) \<and> lawful (se_server S) ?V w0 w) (sub_member S w0) (sv_submission v)"
    using assms(1) submission_thread.started_good[of w0 S ?V w0] l assms(2) by (auto simp: server_started_def main_loops_def)
  moreover have "good (\<lambda>wn. lawful (se_server S) ?V w0 (fst wn)) (imap_member M w0) (sv_imap4 v)"
    "good (\<lambda>wn. lawful (se_server S) ?V w0 (fst wn)) (imap_member M w0) (sv_imap4_secure v)"
    using assms(1) imap_thread.started_good[of "se_server S" M w0 "(w0, 0)"] l by (auto simp: server_started_def main_loops_def)
  ultimately show ?thesis using assms(1) l by (simp add: server_ok_def good_def server_started_def)
qed

lemma server_reaches_ok:
  assumes "server_reaches (main_loops L x sq S M) w0 v" "db_wf (w_db w0)" "paths_ok (se_server S)" "queue_ok (se_server S) (w_db w0)"
  shows "server_ok S M w0 v"
  using assms(1) by (induction rule: server_reaches.induct) (auto intro: server_started_ok server_step_ok simp: assms(2-4))

lemma sub_member_user:
  assumes "sub_member S w0 (ip, s)" "sb_state s \<in> {sub_state.Authenticated, sub_state.Mail, Rcpt, sub_state.Data}"
  shows "\<exists>pw. fst (verify (se_crypto S) (w_db w0) (ss_username (sb_sasl s)) pw ip)"
proof -
  have "sub_inv (S\<lparr>se_ip := ip\<rparr>) (s\<lparr>sb_world := w0\<rparr>)" using assms(1) by (simp add: sub_member_def)
  then have "ss_authenticated (sb_sasl s)" "sasl_inv (store_check (se_crypto S) ip w0) (sb_sasl s)" using assms(2) unfolding sub_inv_def by auto
  then show ?thesis unfolding sasl_inv_def store_check_def by auto
qed

lemma imap_member_user:
  assumes "imap_member M w0 (ip, s)" "imap.state s = imap_state.Authenticated \<or> imap.state s = Selected"
  shows "\<exists>pw. fst (verify (crypt M) (w_db w0) (imap.username s) pw ip)"
  using assms by (auto simp: imap_member_def imap_inv_def verified_user_def)


section \<open>A concrete server\<close>

definition sample_mail_server :: "nat server" where
  "sample_mail_server = (let A = main_loops sample_ssl None (\<lambda>p n. True) (sample_sub\<lparr>se_server := strict_server\<rparr>) sample_imap in
     \<lparr>sv_world = sample_world, sv_append_seq = 0,
      sv_smtp = fst (arm_accept (sl_smtp A) (fst (arm_periodic_timer (sl_smtp A) 60 0 (loop_new sample_world)))),
      sv_submission = fst (arm_accept (sl_submission A) (loop_new sample_world)),
      sv_imap4 = fst (arm_accept (sl_imap4 A) (loop_new (sample_world, 0))),
      sv_imap4_secure = fst (arm_accept (sl_imap4_secure A) (loop_new (sample_world, 0)))\<rparr>)"


end
