(* ===== verification/Logger.thy ===== *)
theory Logger
  imports Prelude
begin

text \<open>
  \<^verbatim>\<open>src/utils/logger.cpp\<close>: the log file is written by a worker thread from a queue. The mutex makes each locked block one
  step; a run is an interleaving of calls of \<^verbatim>\<open>log\<close> and \<^verbatim>\<open>shutdown\<close> from any thread with the steps of the worker.
  \<open>log_lines\<close> is a ghost field: the lines that were put in the queue, in order. The flag \<^verbatim>\<open>logs_enabled\<close> is a global that the logger
  refers to; the copy that \<^verbatim>\<open>log\<close> prints on the console is left out.
\<close>

datatype log_level = Debug | Info | Warn | Error

definition level_string :: "log_level \<Rightarrow> string" where
  "level_string l = (case l of Debug \<Rightarrow> ''DEBUG'' | Error \<Rightarrow> ''ERROR'' | Info \<Rightarrow> ''INFO'' | Warn \<Rightarrow> ''WARN'')"

text \<open>The local time of a message, as \<^verbatim>\<open>std::localtime\<close> gives it, and its milliseconds.\<close>

record log_time =
  tm_year :: nat
  tm_mon :: nat
  tm_mday :: nat
  tm_hour :: nat
  tm_min :: nat
  tm_sec :: nat
  tm_ms :: nat

definition padded :: "nat \<Rightarrow> nat \<Rightarrow> string" where
  "padded w n = replicate (w - length (dec n)) CHR ''0'' @ dec n"

text \<open>The format string is \<^verbatim>\<open>%Y-%m-%d %H:%H:%S\<close>.\<close>

definition format :: "log_time \<Rightarrow> log_level \<Rightarrow> string \<Rightarrow> string" where
  "format t level msg =
     dec (tm_year t) @ ''-'' @ padded 2 (tm_mon t) @ ''-'' @ padded 2 (tm_mday t) @ '' '' @
     padded 2 (tm_hour t) @ '':'' @ padded 2 (tm_hour t) @ '':'' @ padded 2 (tm_sec t) @ ''.'' @ padded 3 (tm_ms t) @
     '' ['' @ level_string level @ ''] '' @ msg @ [LF]"

datatype worker_state = No_worker | Waiting | Writing "string list" | Ended

record logger =
  logs_enabled :: bool
  log_file :: "string option"
  worker :: worker_state
  queue :: "string list"
  stopping :: bool
  log_lines :: "string list"

text \<open>
  The constructor: with logs switched on the file is opened (\<open>None\<close> if that fails, which is an exception) and the worker is
  started; otherwise neither. The result of \<^verbatim>\<open>create_directories\<close> is ignored. \<open>old\<close> is what the file holds.
\<close>

definition logger_new :: "bool \<Rightarrow> string option \<Rightarrow> string \<Rightarrow> logger cpp" where
  "logger_new enabled old filepath =
     (if enabled
      then (case old of
              None \<Rightarrow> Inl (Runtime_error (''[logger] [ERROR]: Failed to open: '' @ filepath))
            | Some text \<Rightarrow> Inr \<lparr>logs_enabled = True, log_file = Some text, worker = Waiting, queue = [], stopping = False, log_lines = []\<rparr>)
      else Inr \<lparr>logs_enabled = False, log_file = None, worker = No_worker, queue = [], stopping = False, log_lines = []\<rparr>)"

definition log :: "log_time \<Rightarrow> log_level \<Rightarrow> string \<Rightarrow> logger \<Rightarrow> logger" where
  "log t level msg lg =
     (if \<not> logs_enabled lg \<or> msg = [] then lg
      else if stopping lg then lg
      else lg\<lparr>queue := queue lg @ [format t level msg], log_lines := log_lines lg @ [format t level msg]\<rparr>)"

text \<open>The locked part of \<^verbatim>\<open>shutdown\<close>; the caller then waits until the worker, if there is one, has ended.\<close>

definition shutdown :: "logger \<Rightarrow> logger" where
  "shutdown lg = (if stopping lg then lg else lg\<lparr>stopping := True\<rparr>)"

definition joined :: "logger \<Rightarrow> bool" where
  "joined lg \<longleftrightarrow> worker lg = No_worker \<or> worker lg = Ended"

text \<open>
  A step of \<^verbatim>\<open>run\<close>: take the whole queue when the condition variable lets it, append the lines to the file one by one, wait again;
  \<open>None\<close> while it is blocked or when it is not running.
\<close>

definition worker_step :: "logger \<Rightarrow> logger option" where
  "worker_step lg =
     (case worker lg of
        No_worker \<Rightarrow> None
      | Ended \<Rightarrow> None
      | Waiting \<Rightarrow>
          if \<not> (stopping lg \<or> queue lg \<noteq> []) then None
          else if queue lg = [] \<and> stopping lg then Some (lg\<lparr>worker := Ended\<rparr>)
          else Some (lg\<lparr>worker := Writing (queue lg), queue := []\<rparr>)
      | Writing [] \<Rightarrow> Some (lg\<lparr>worker := Waiting\<rparr>)
      | Writing (l # ls) \<Rightarrow> Some (lg\<lparr>worker := Writing ls, log_file := map_option (\<lambda>text. text @ l) (log_file lg)\<rparr>))"

inductive log_step :: "logger \<Rightarrow> logger \<Rightarrow> bool" where
  call_log: "log_step lg (log t level msg lg)"
| call_shutdown: "log_step lg (shutdown lg)"
| work: "worker_step lg = Some lg' \<Longrightarrow> log_step lg lg'"
| switch: "log_step lg (lg\<lparr>logs_enabled := b\<rparr>)"

inductive_cases log_stepE: "log_step lg lg'"

section \<open>First in, first out\<close>

definition batch :: "logger \<Rightarrow> string list" where
  "batch lg = (case worker lg of Writing ls \<Rightarrow> ls | _ \<Rightarrow> [])"

text \<open>Every accepted line is in the file, in the worker's batch or in the queue, in this order and once.\<close>

definition log_inv :: "string \<Rightarrow> logger \<Rightarrow> bool" where
  "log_inv old lg \<longleftrightarrow> worker lg \<noteq> No_worker \<and>
     (\<exists>done. log_file lg = Some (old @ concat done) \<and> log_lines lg = done @ batch lg @ queue lg) \<and>
     (worker lg = Ended \<longrightarrow> stopping lg \<and> queue lg = [])"

lemma worker_step_inv: "log_inv old lg \<Longrightarrow> worker_step lg = Some lg' \<Longrightarrow> log_inv old lg'"
proof (cases "worker lg")
  case (Writing ls)
  assume i: "log_inv old lg" and s: "worker_step lg = Some lg'"
  obtain d where d: "log_file lg = Some (old @ concat d)" "log_lines lg = d @ ls @ queue lg" using i Writing by (auto simp: log_inv_def batch_def)
  show ?thesis
  proof (cases ls)
    case Nil
    then show ?thesis using s d Writing by (auto simp: worker_step_def log_inv_def batch_def)
  next
    case (Cons l ls')
    have "log_file lg' = Some (old @ concat (d @ [l]))" "log_lines lg' = (d @ [l]) @ batch lg' @ queue lg'" "worker lg' = Writing ls'"
      using s d Writing Cons by (auto simp: worker_step_def batch_def)
    then show ?thesis unfolding log_inv_def by (intro conjI exI[of _ "d @ [l]"]) simp_all
  qed
qed (auto simp: worker_step_def log_inv_def batch_def split: if_splits)

lemma log_step_inv:
  assumes "log_step lg lg'" "log_inv old lg"
  shows "log_inv old lg'"
  using assms(1)
proof cases
  case work
  then show ?thesis using worker_step_inv assms(2) by blast
qed (use assms(2) in \<open>auto simp: log_def shutdown_def log_inv_def batch_def\<close>)

lemma log_run_inv: "log_step\<^sup>*\<^sup>* lg lg' \<Longrightarrow> log_inv old lg \<Longrightarrow> log_inv old lg'"
  by (induction rule: rtranclp_induct) (auto intro: log_step_inv)


section \<open>The worker comes to its end\<close>

definition work_left :: "logger \<Rightarrow> nat" where
  "work_left lg = (case worker lg of No_worker \<Rightarrow> 0 | Ended \<Rightarrow> 0
     | Waiting \<Rightarrow> (if queue lg = [] then 1 else length (queue lg) + 3)
     | Writing ls \<Rightarrow> length ls + 1 + (if queue lg = [] then 1 else length (queue lg) + 3))"

lemma worker_progress:
  assumes "stopping lg" "\<not> joined lg"
  shows "\<exists>lg'. worker_step lg = Some lg' \<and> stopping lg' \<and> work_left lg' + 1 = work_left lg"
proof (cases "worker lg")
  case (Writing ls)
  then show ?thesis using assms by (cases ls) (auto simp: worker_step_def work_left_def)
qed (use assms in \<open>auto simp: worker_step_def work_left_def joined_def\<close>)

fun work :: "nat \<Rightarrow> logger \<Rightarrow> logger" where
  "work 0 lg = lg"
| "work (Suc n) lg = (case worker_step lg of None \<Rightarrow> lg | Some lg' \<Rightarrow> work n lg')"

lemma work_joins: "stopping lg \<Longrightarrow> work_left lg \<le> n \<Longrightarrow> joined (work n lg)"
proof (induction n arbitrary: lg)
  case 0
  then show ?case by (cases "worker lg") (auto simp: work_left_def joined_def split: if_splits)
next
  case (Suc n)
  show ?case
  proof (cases "joined lg")
    case True
    then show ?thesis by (auto simp: joined_def worker_step_def)
  next
    case False
    from worker_progress[OF Suc.prems(1) this] Suc show ?thesis by auto
  qed
qed

text \<open>
  \<^verbatim>\<open>shutdown\<close> returns: after it the worker ends within as many of its own steps as there are lines left to write, and a few more.
\<close>

theorem shutdown_returns:
  assumes "n \<ge> work_left (shutdown lg)"
  shows "joined (work n (shutdown lg))"
  using work_joins[OF _ assms] by (simp add: shutdown_def)

section \<open>The logger of the server\<close>

text \<open>
  The server's logger is a global object that is constructed before \<^verbatim>\<open>main\<close>, when the global \<^verbatim>\<open>logs_enabled\<close> is still zero;
  \<^verbatim>\<open>main\<close> then sets the flag (\<^verbatim>\<open>--no-logs\<close> clears it).
\<close>

definition server_logger :: "string list \<Rightarrow> logger cpp" where
  "server_logger argv =
     (case logger_new False None [] of Inl e \<Rightarrow> Inl e
      | Inr lg \<Rightarrow> Inr (lg\<lparr>logs_enabled := \<not> (length argv > 1 \<and> argv ! 1 = ''--no-logs'')\<rparr>))"

definition log_all :: "(log_time \<times> log_level \<times> string) list \<Rightarrow> logger \<Rightarrow> logger" where
  "log_all ms lg = foldl (\<lambda>lg (t, level, msg). log t level msg lg) lg ms"

text \<open>
  Nothing is ever written to the log file, and the queue grows with every message: there is no worker to empty
  it, so a server that is not started with \<^verbatim>\<open>--no-logs\<close> keeps every line it logs in memory.
\<close>

theorem server_log_never_written:
  assumes "server_logger argv = Inr lg" "log_step\<^sup>*\<^sup>* lg lg'"
  shows "log_file lg' = None \<and> queue lg' = log_lines lg' \<and> worker_step lg' = None"
proof -
  have "worker lg = No_worker \<and> log_file lg = None \<and> queue lg = log_lines lg"
    using assms(1) by (auto simp: server_logger_def logger_new_def)
  with assms(2) have "worker lg' = No_worker \<and> log_file lg' = None \<and> queue lg' = log_lines lg'"
    by (induction rule: rtranclp_induct) (auto elim!: log_stepE simp: log_def shutdown_def worker_step_def)
  then show ?thesis by (simp add: worker_step_def)
qed

theorem server_log_grows:
  assumes "server_logger [''mailserver''] = Inr lg" "\<forall>(t, level, msg) \<in> set ms. msg \<noteq> []"
  shows "length (queue (log_all ms lg)) = length ms"
proof -
  have "logs_enabled lg \<Longrightarrow> \<not> stopping lg \<Longrightarrow> \<forall>(t, level, msg) \<in> set ms. msg \<noteq> [] \<Longrightarrow>
      length (queue (log_all ms lg)) = length (queue lg) + length ms" for lg
    by (induction ms arbitrary: lg) (auto simp: log_all_def log_def)
  then show ?thesis using assms by (auto simp: server_logger_def logger_new_def)
qed

text \<open>The time stamps do not show the minutes: the hour is printed twice.\<close>

theorem log_minutes_lost: "format (t\<lparr>tm_min := m\<rparr>) level msg = format t level msg"
  by (simp add: format_def)

section \<open>Concrete runs\<close>


definition up_msg :: "log_time \<times> log_level \<times> string" where
  "up_msg = (\<lparr>tm_year = 2026, tm_mon = 1, tm_mday = 2, tm_hour = 3, tm_min = 4, tm_sec = 5, tm_ms = 6\<rparr>, Info, ''up'')"

definition sample_logger :: logger where
  "sample_logger = \<lparr>logs_enabled = True, log_file = None, worker = No_worker, queue = [], stopping = False, log_lines = []\<rparr>"

lemma sample_logger_new: "server_logger [''mailserver''] = Inr sample_logger"
  by (simp add: server_logger_def logger_new_def sample_logger_def)

theorem shutdown_returns_witness:
  "joined (work 7 (shutdown (sample_logger\<lparr>log_file := Some [], worker := Writing [''a''], queue := [''b'']\<rparr>)))"
  by (rule shutdown_returns) (simp add: work_left_def shutdown_def sample_logger_def)

theorem server_log_never_written_witness:
  "log_file (log_all [up_msg] sample_logger) = None"
proof -
  have "log_step\<^sup>*\<^sup>* sample_logger (log_all [up_msg] sample_logger)" by (auto simp: log_all_def up_msg_def intro: log_step.intros)
  from server_log_never_written[OF sample_logger_new this] show ?thesis by blast
qed

theorem server_log_grows_witness: "length (queue (log_all [up_msg, up_msg, up_msg] sample_logger)) = 3"
  by (subst server_log_grows[OF sample_logger_new]) (simp_all add: up_msg_def)

end
