(* ===== verification/Tls_Context.thy ===== *)
theory Tls_Context
  imports Prelude
begin

text \<open>
  \<^verbatim>\<open>src/tls/tls_context.cpp\<close> and \<^verbatim>\<open>src/tls/tls_client.cpp\<close>: how the OpenSSL contexts of the server and of the outbound client are set
  up. The answers of OpenSSL are parameters; a context is the record of the settings made on it, and \<open>live\<close> lists the
  objects that were created and not freed.
\<close>

record ctx_lib =
  ssl_ctx_new :: bool
  use_cert :: "string \<Rightarrow> int"
  use_key :: "string \<Rightarrow> int"
  check_key :: "string \<Rightarrow> string \<Rightarrow> int"
  verify_paths :: int
  ssl_error_string :: string

abbreviation TLS1_2 :: nat where "TLS1_2 \<equiv> 0x0303"

record tls_context =
  min_proto :: nat
  no_compression :: bool
  server_preference :: bool
  ciphers :: "string list"
  verify_peer :: bool

definition server_ciphers :: "string list" where
  "server_ciphers = [''ECDHE-ECDSA-AES256-GCM-SHA384'', ''ECDHE-RSA-AES256-GCM-SHA384'', ''ECDHE-ECDSA-CHACHA20-POLY1305'',
     ''ECDHE-RSA-CHACHA20-POLY1305'', ''ECDHE-ECDSA-AES128-GCM-SHA256'', ''ECDHE-RSA-AES128-GCM-SHA256'']"

definition server_context :: "ctx_lib \<Rightarrow> string \<Rightarrow> string \<Rightarrow> tls_context cpp" where
  "server_context L cert key =
     (if \<not> ssl_ctx_new L then Inl (Runtime_error (''SSL_CTX_new failed: '' @ ssl_error_string L))
      else
        let ctx = \<lparr>min_proto = TLS1_2, no_compression = True, server_preference = True, ciphers = server_ciphers, verify_peer = False\<rparr>
        in if use_cert L cert \<noteq> 1 then Inl (Runtime_error (''load cert ('' @ cert @ ''): '' @ ssl_error_string L))
           else if use_key L key \<noteq> 1 then Inl (Runtime_error (''load key ('' @ key @ ''): '' @ ssl_error_string L))
           else if check_key L cert key \<noteq> 1 then Inl (Runtime_error (''cert/key mismatch: '' @ ssl_error_string L))
           else Inr ctx)"

text \<open>\<^verbatim>\<open>new_server_ssl\<close>, with the objects that are alive when it returns or throws.\<close>

datatype ssl_object = Ssl | Rbio | Wbio

definition make_server_ssl :: "string \<Rightarrow> bool \<Rightarrow> bool \<Rightarrow> bool \<Rightarrow> unit cpp \<times> ssl_object set" where
  "make_server_ssl err ssl_ok rbio_ok wbio_ok =
     (if \<not> ssl_ok then (Inl (Runtime_error (''SSL_new failed: '' @ err)), {})
      else
        let live = {Ssl} \<union> (if rbio_ok then {Rbio} else {}) \<union> (if wbio_ok then {Wbio} else {})
        in if \<not> rbio_ok \<or> \<not> wbio_ok
           then let live1 = (if rbio_ok then live - {Rbio} else live);
                    live2 = (if wbio_ok then live1 - {Wbio} else live1)
             in (Inl (Runtime_error (''[FATAL] [TLS] BIO_new failed: '' @ err)), live2 - {Ssl})
           else (Inr (), live))"

section \<open>The client\<close>

definition client_context :: "ctx_lib \<Rightarrow> tls_context cpp" where
  "client_context L =
     (if \<not> ssl_ctx_new L then Inl (Runtime_error (''[FATAL] [TLS] SSL_CTX_new (client) failed: '' @ ssl_error_string L))
      else
        let ctx = \<lparr>min_proto = TLS1_2, no_compression = True, server_preference = False, ciphers = [], verify_peer = True\<rparr>
        in if verify_paths L \<noteq> 1 then Inl (Runtime_error ''[FATAL] [TLS] (client) failed to load default CA verify paths'')
           else Inr ctx)"

text \<open>
  The settings of one connection: the name sent to the peer and the name its certificate is checked against, which
  only \<^verbatim>\<open>SSL_set1_host\<close> or the verify parameters set.
\<close>

record client_ssl =
  cs_context :: tls_context
  cs_sni :: string
  cs_fd :: int
  cs_check_host :: "string option"

definition client_handshake :: "(tls_context \<Rightarrow> bool) \<Rightarrow> (client_ssl \<Rightarrow> int) \<Rightarrow> tls_context \<Rightarrow> int \<Rightarrow> string \<Rightarrow> client_ssl option" where
  "client_handshake ssl_new ssl_connect ctx sock sni_hostname =
     (if \<not> ssl_new ctx then None
      else
        let s = \<lparr>cs_context = ctx, cs_sni = sni_hostname, cs_fd = sock, cs_check_host = None\<rparr>
        in if ssl_connect s \<noteq> 1 then None else Some s)"

section \<open>Properties\<close>

text \<open>
  A context the server starts with speaks TLS 1.2 or later, has a key that belongs to its certificate, and only offers
  ephemeral key exchange with authenticated encryption.
\<close>

theorem server_context_strong:
  assumes "server_context L cert key = Inr ctx"
  shows "min_proto ctx = TLS1_2 \<and> no_compression ctx \<and> check_key L cert key = 1 \<and>
    (\<forall>c \<in> set (ciphers ctx). prefix ''ECDHE-'' c)"
  using assms by (auto simp: server_context_def Let_def server_ciphers_def split: if_splits)

text \<open>Making the SSL object of a connection leaks nothing: it owns both its BIOs, or an exception leaves nothing behind.\<close>

theorem server_ssl_no_leak:
  "make_server_ssl err a b c = (r, live) \<Longrightarrow> live = (case r of Inl e \<Rightarrow> {} | Inr u \<Rightarrow> {Ssl, Rbio, Wbio})"
  by (auto simp: make_server_ssl_def Let_def split: if_splits)

text \<open>
  A successful handshake of the relay has a peer whose certificate chain was verified, but the certificate is not compared with the
  name of the host: any certificate of a trusted authority will do.
\<close>

theorem client_name_unchecked:
  assumes "client_context L = Inr ctx" "client_handshake new conn ctx sock host = Some s"
  shows "verify_peer (cs_context s) \<and> cs_sni s = host \<and> cs_check_host s = None \<and> conn s = 1"
  using assms by (auto simp: client_context_def client_handshake_def Let_def split: if_splits)

definition sample_ctx_lib :: ctx_lib where
  "sample_ctx_lib = \<lparr>ssl_ctx_new = True, use_cert = (\<lambda>f. 1), use_key = (\<lambda>f. 1), check_key = (\<lambda>c k. 1), verify_paths = 1,
     ssl_error_string = []\<rparr>"

theorem server_context_strong_witness: "\<exists>ctx. server_context sample_ctx_lib ''c'' ''k'' = Inr ctx \<and> min_proto ctx = TLS1_2"
proof -
  obtain ctx where c: "server_context sample_ctx_lib ''c'' ''k'' = Inr ctx" by (simp add: server_context_def sample_ctx_lib_def Let_def)
  from server_context_strong[OF c] c show ?thesis by blast
qed

theorem server_ssl_no_leak_witness: "snd (make_server_ssl [] True True False) = {}"
proof -
  obtain r live where n: "make_server_ssl [] True True False = (r, live)" by fastforce
  moreover have "isl r" using n by (auto simp: make_server_ssl_def)
  ultimately show ?thesis using server_ssl_no_leak[OF n] by (cases r) auto
qed

theorem client_name_unchecked_witness:
  "\<exists>ctx s. client_context sample_ctx_lib = Inr ctx \<and> client_handshake (\<lambda>c. True) (\<lambda>s. 1) ctx 3 ''mx'' = Some s \<and> cs_check_host s = None"
proof -
  obtain ctx where c: "client_context sample_ctx_lib = Inr ctx" by (simp add: client_context_def sample_ctx_lib_def Let_def)
  obtain s where s: "client_handshake (\<lambda>c. True) (\<lambda>s. 1) ctx 3 ''mx'' = Some s" by (simp add: client_handshake_def Let_def)
  from client_name_unchecked[OF c s] c s show ?thesis by blast
qed

end
