(* ===== verification/Toml_Scan.thy ===== *)
theory Toml_Scan
  imports Prelude
begin

text \<open>
  The scanner of the TOML parser, \<^verbatim>\<open>src/utils/config/tomlc17.c\<close>: UTF-8, the tokens of a document, strings with their escapes, numbers and dates. The
  part of the source from \<^verbatim>\<open>cur\<close> to \<^verbatim>\<open>endp\<close> is the list \<open>sc_cur\<close>; \<open>sc_col\<close> is the distance of \<^verbatim>\<open>cur\<close> from \<^verbatim>\<open>line_start\<close>. An error is the value
  \<open>Syntax_error\<close> with the line and the message, without the arguments the C code formats into it; nothing is scanned after an error, so the
  flag \<^verbatim>\<open>errmsg\<close> is not needed. A floating point number is represented by the text that \<^verbatim>\<open>strtod\<close> is given, and which texts
  it accepts is a parameter.
\<close>

datatype toml_err = Syntax_error nat string | Assert_failed | Out_of_fuel

type_synonym 'a toml = "toml_err + 'a"

definition then_do :: "'a toml \<Rightarrow> ('a \<Rightarrow> 'b toml) \<Rightarrow> 'b toml" where
  "then_do r f = (case r of Inl e \<Rightarrow> Inl e | Inr x \<Rightarrow> f x)"

lemma then_do_simps [simp]: "then_do (Inl e) f = Inl e" "then_do (Inr x) f = f x"
  by (simp_all add: then_do_def)

lemma then_do_Inr: "then_do r f = Inr y \<longleftrightarrow> (\<exists>x. r = Inr x \<and> f x = Inr y)"
  by (cases r) simp_all

lemma then_do_cong [fundef_cong]: "r = r' \<Longrightarrow> (\<And>x. r' = Inr x \<Longrightarrow> f x = g x) \<Longrightarrow> then_do r f = then_do r' g"
  by (cases r') simp_all

text \<open>The reason an operation on a tree gives, as an error at a line.\<close>

definition or_error :: "nat \<Rightarrow> string + 'a \<Rightarrow> 'a toml" where
  "or_error lineno r = (case r of Inl reason \<Rightarrow> Inl (Syntax_error lineno reason) | Inr x \<Rightarrow> Inr x)"

lemma or_error_simps [simp]: "or_error l (Inl reason) = Inl (Syntax_error l reason)" "or_error l (Inr x) = Inr x"
  by (simp_all add: or_error_def)

lemma or_error_Inr: "or_error l r = Inr x \<longleftrightarrow> r = Inr x"
  by (cases r) simp_all

lemma guard_Inr: "(if c then Inl e else r) = Inr y \<longleftrightarrow> \<not> c \<and> r = Inr y" "(if c then r else Inl e) = Inr y \<longleftrightarrow> c \<and> r = Inr y"
  by simp_all

lemmas result_Inr = then_do_Inr or_error_Inr guard_Inr

section \<open>UTF-8\<close>

abbreviation byte_val :: "char \<Rightarrow> nat" where "byte_val \<equiv> of_char"

text \<open>The continuation bytes; \<^verbatim>\<open>(v << 6) | (i & 0x3f)\<close> is \<open>v * 64 + i mod 64\<close>.\<close>

fun ucs_tail :: "nat \<Rightarrow> nat \<Rightarrow> string \<Rightarrow> nat option" where
  "ucs_tail 0 v s = Some v"
| "ucs_tail (Suc j) v [] = None"
| "ucs_tail (Suc j) v (c # s) = (if byte_val c div 64 \<noteq> 2 then None else ucs_tail j (v * 64 + byte_val c mod 64) s)"

definition utf8_to_ucs :: "string \<Rightarrow> (nat \<times> nat) option" where
  "utf8_to_ucs s = (case s of [] \<Rightarrow> None
     | c # cs \<Rightarrow>
        let i = byte_val c in
        if i div 128 = 0 then Some (i, 1)
        else if i div 32 = 6 then (if length s < 2 then None else map_option (\<lambda>v. (v, 2)) (ucs_tail 1 (i mod 32) cs))
        else if i div 16 = 14 then (if length s < 3 then None else map_option (\<lambda>v. (v, 3)) (ucs_tail 2 (i mod 16) cs))
        else if i div 8 = 30 then (if length s < 4 then None else map_option (\<lambda>v. (v, 4)) (ucs_tail 3 (i mod 8) cs))
        else None)"

definition ucs_to_utf8 :: "nat \<Rightarrow> string option" where
  "ucs_to_utf8 code =
     (if code \<le> 0x7F then Some [char_of code]
      else if code \<le> 0x7FF then Some [char_of (0xC0 + code div 64), char_of (0x80 + code mod 64)]
      else if code \<le> 0xFFFF then Some [char_of (0xE0 + code div 4096), char_of (0x80 + code div 64 mod 64), char_of (0x80 + code mod 64)]
      else if code \<le> 0x1FFFFF
      then Some [char_of (0xF0 + code div 262144), char_of (0x80 + code div 4096 mod 64), char_of (0x80 + code div 64 mod 64),
                 char_of (0x80 + code mod 64)]
      else None)"

section \<open>Tokens and the state of the scanner\<close>

datatype toktyp = TOK_DOT | TOK_EQUAL | TOK_COMMA | TOK_LBRACK | TOK_LLBRACK | TOK_RBRACK | TOK_RRBRACK | TOK_LBRACE | TOK_RBRACE
  | TOK_LIT | TOK_STRING | TOK_MLSTRING | TOK_LITSTRING | TOK_MLLITSTRING | TOK_TIME | TOK_DATE | TOK_DATETIME | TOK_DATETIMETZ
  | TOK_INTEGER | TOK_FLOAT | TOK_BOOL | TOK_ENDL | TOK_FIN

record tsval =
  ts_year :: int
  ts_month :: int
  ts_day :: int
  ts_hour :: int
  ts_minute :: int
  ts_sec :: int
  ts_usec :: int
  ts_tz :: int

text \<open>The union of a token: the offset of the first escape, or the value.\<close>

datatype tok_u = U_escp "nat option" | U_int64 int | U_fp64 string | U_b1 bool | U_tsval tsval

record token =
  toktyp :: toktyp
  tok_lineno :: nat
  tok_colno :: nat
  tok_str :: string
  tok_u :: tok_u

record scanner =
  sc_cur :: string
  sc_lineno :: nat
  sc_col :: nat
  bracket_level :: int
  brace_level :: int

definition scan_init :: "string \<Rightarrow> scanner" where
  "scan_init src = \<lparr>sc_cur = src, sc_lineno = 1, sc_col = 0, bracket_level = 0, brace_level = 0\<rparr>"

abbreviation scan_error :: "scanner \<Rightarrow> string \<Rightarrow> toml_err" where
  "scan_error sp msg \<equiv> Syntax_error (sc_lineno sp) msg"

definition advance :: "nat \<Rightarrow> scanner \<Rightarrow> scanner" where
  "advance n sp = sp\<lparr>sc_cur := drop n (sc_cur sp), sc_col := sc_col sp + n\<rparr>"

text \<open>\<open>None\<close> is \<^verbatim>\<open>TOK_FIN\<close>. A carriage return before a line feed is swallowed.\<close>

definition scan_get :: "scanner \<Rightarrow> char option \<times> scanner" where
  "scan_get sp = (case sc_cur sp of
       [] \<Rightarrow> (None, sp)
     | c # cs \<Rightarrow>
         if c = CR \<and> cs \<noteq> [] \<and> hd cs = LF then (Some LF, sp\<lparr>sc_cur := tl cs, sc_lineno := sc_lineno sp + 1, sc_col := 0\<rparr>)
         else if c = LF then (Some LF, sp\<lparr>sc_cur := cs, sc_lineno := sc_lineno sp + 1, sc_col := 0\<rparr>)
         else (Some c, sp\<lparr>sc_cur := cs, sc_col := sc_col sp + 1\<rparr>))"

definition scan_match :: "scanner \<Rightarrow> char \<Rightarrow> bool" where
  "scan_match sp ch \<longleftrightarrow> take 1 (sc_cur sp) = [ch] \<or> ch = LF \<and> take 2 (sc_cur sp) = crlf"

definition scan_matchany :: "scanner \<Rightarrow> string \<Rightarrow> bool" where
  "scan_matchany sp accept = list_ex (scan_match sp) accept"

definition scan_nmatch :: "scanner \<Rightarrow> char \<Rightarrow> nat \<Rightarrow> bool" where
  "scan_nmatch sp ch n \<longleftrightarrow> take n (sc_cur sp) = replicate n ch"

definition mktoken :: "scanner \<Rightarrow> toktyp \<Rightarrow> token" where
  "mktoken sp typ = \<lparr>toktyp = typ, tok_lineno = sc_lineno sp, tok_colno = sc_col sp + 1, tok_str = [], tok_u = U_escp None\<rparr>"

definition is_valid_char :: "char \<Rightarrow> bool" where
  "is_valid_char ch \<longleftrightarrow> 0x20 \<le> byte_val ch \<and> byte_val ch \<le> 0x7E \<or> byte_val ch \<ge> 0x80"

definition is_hex_char :: "char \<Rightarrow> bool" where
  "is_hex_char ch \<longleftrightarrow> (let c = byte_val (toupper ch) in 0x30 \<le> c \<and> c \<le> 0x39 \<or> 0x41 \<le> c \<and> c \<le> 0x46)"

text \<open>Three times \<^verbatim>\<open>S_GET()\<close>.\<close>

definition skip3 :: "scanner \<Rightarrow> scanner" where
  "skip3 sp = snd (scan_get (snd (scan_get (snd (scan_get sp)))))"

lemma get_shorter: "scan_get sp = (Some c, sp') \<Longrightarrow> length (sc_cur sp') < length (sc_cur sp)"
  by (auto simp: scan_get_def split: list.splits if_splits)

lemma get_le: "scan_get sp = (x, sp') \<Longrightarrow> length (sc_cur sp') \<le> length (sc_cur sp)"
  by (auto simp: scan_get_def split: list.splits if_splits)

lemma get_levels: "bracket_level (snd (scan_get sp)) = bracket_level sp" "brace_level (snd (scan_get sp)) = brace_level sp"
  by (auto simp: scan_get_def split: list.splits)

lemma advance_cur [simp]: "sc_cur (advance n sp) = drop n (sc_cur sp)" "sc_lineno (advance n sp) = sc_lineno sp"
  "bracket_level (advance n sp) = bracket_level sp" "brace_level (advance n sp) = brace_level sp"
  by (simp_all add: advance_def)

section \<open>Strings\<close>

definition scan_escape_chars :: "scanner \<Rightarrow> nat toml" where
  "scan_escape_chars sp = (case sc_cur sp of
       [] \<Rightarrow> Inr 0
     | ch # p \<Rightarrow>
         if ch \<in> set (''btnfre'' @ [DQ, BS]) then Inr 1
         else let hex = (if ch = CHR ''x'' then 2 else if ch = CHR ''u'' then 4 else if ch = CHR ''U'' then 8 else 0) in
           if hex \<noteq> 0
           then (if length (takeWhile is_hex_char (take hex p)) \<noteq> hex then Inl (scan_error sp (''expect %d hex digits after '' @ [BS] @ ''%c''))
                 else Inr (hex + 1))
           else Inr 0)"

text \<open>The first escape of the token that began when \<open>n0\<close> bytes were left.\<close>

definition mark_escape :: "nat \<Rightarrow> nat option \<Rightarrow> scanner \<Rightarrow> nat option" where
  "mark_escape n0 escp sp = (case escp of None \<Rightarrow> Some (n0 - length (sc_cur sp) - 1) | Some e \<Rightarrow> Some e)"

function string_loop :: "nat \<Rightarrow> nat option \<Rightarrow> scanner \<Rightarrow> (nat option \<times> scanner) toml" where
  "string_loop n0 escp sp =
     (if scan_match sp DQ then Inr (escp, sp)
      else case scan_get sp of
        (None, sp1) \<Rightarrow> Inl (scan_error sp1 ''unterminated string'')
      | (Some ch, sp1) \<Rightarrow>
          if ch \<noteq> BS
          then (if \<not> (is_valid_char ch \<or> ch = CHR '' '' \<or> ch = TAB) then Inl (scan_error sp1 ''invalid char in string'')
                else string_loop n0 escp sp1)
          else then_do (scan_escape_chars sp1) (\<lambda>cnt.
            if cnt > 0 then string_loop n0 (mark_escape n0 escp sp1) (advance cnt sp1)
            else Inl (scan_error sp1 ''bad escape char in string'')))"
  by pat_completeness auto
termination
  by (relation "measure (\<lambda>(n0, escp, sp). length (sc_cur sp))") (auto dest!: get_shorter[OF sym])

text \<open>A line-ending backslash: blanks up to the line feed, then all white space.\<close>

function skip_blanks :: "char option \<times> scanner \<Rightarrow> char option \<times> scanner" where
  "skip_blanks (ch, sp) = (if ch = Some CHR '' '' \<or> ch = Some TAB then skip_blanks (scan_get sp) else (ch, sp))"
  by pat_completeness auto
termination
proof (relation "measure (\<lambda>(ch, sp). length (sc_cur sp) + (if ch = None then 0 else 1))")
  fix ch sp
  assume "ch = Some CHR '' '' \<or> ch = Some TAB"
  then show "(scan_get sp, ch, sp) \<in> measure (\<lambda>(ch, sp). length (sc_cur sp) + (if ch = None then 0 else 1))"
    by (cases "scan_get sp"; cases "fst (scan_get sp)") (auto dest: get_shorter get_le)
qed simp

function skip_white :: "scanner \<Rightarrow> scanner" where
  "skip_white sp = (if scan_matchany sp ('' '' @ [TAB, LF]) then skip_white (snd (scan_get sp)) else sp)"
  by pat_completeness auto
termination
proof (relation "measure (\<lambda>sp. length (sc_cur sp))")
  fix sp
  assume "scan_matchany sp ('' '' @ [TAB, LF])"
  then have "sc_cur sp \<noteq> []" by (auto simp: scan_matchany_def scan_match_def)
  then show "(snd (scan_get sp), sp) \<in> measure (\<lambda>sp. length (sc_cur sp))" by (cases "sc_cur sp") (auto simp: scan_get_def)
qed simp

declare string_loop.simps [simp del] skip_blanks.simps [simp del] skip_white.simps [simp del]

lemma skip_blanks_le: "length (sc_cur (snd (skip_blanks x))) \<le> length (sc_cur (snd x))"
proof (induction x rule: skip_blanks.induct)
  case (1 ch sp)
  have "length (sc_cur (snd (scan_get sp))) \<le> length (sc_cur sp)" by (cases "scan_get sp") (auto dest: get_le)
  then show ?case using 1 by (subst skip_blanks.simps) (auto intro: order_trans)
qed

lemma skip_white_le: "length (sc_cur (skip_white sp)) \<le> length (sc_cur sp)"
proof (induction sp rule: skip_white.induct)
  case (1 sp)
  have "length (sc_cur (snd (scan_get sp))) \<le> length (sc_cur sp)" by (cases "scan_get sp") (auto dest: get_le)
  then show ?case using 1 by (subst skip_white.simps) (auto intro: order_trans)
qed

definition line_ending :: "scanner \<Rightarrow> scanner toml" where
  "line_ending sp =
     (let r = scan_get sp; blank = (fst r = Some CHR '' '' \<or> fst r = Some TAB); r1 = (if blank then skip_blanks r else r) in
      if fst r1 = Some LF then Inr (skip_white (snd r1)) else Inl (scan_error (snd r1) ''bad escape char in string''))"

lemma line_ending_le:
  assumes "line_ending sp = Inr sp'"
  shows "length (sc_cur sp') \<le> length (sc_cur sp)"
proof -
  let ?r = "scan_get sp"
  have "sp' = skip_white (snd ?r) \<or> sp' = skip_white (snd (skip_blanks ?r))"
    using assms by (auto simp: line_ending_def Let_def split: if_splits)
  moreover have "length (sc_cur (snd ?r)) \<le> length (sc_cur sp)" by (cases ?r) (auto dest: get_le)
  ultimately show ?thesis using skip_blanks_le[of ?r] skip_white_le[of "snd ?r"] skip_white_le[of "snd (skip_blanks ?r)"] by auto
qed

text \<open>Whether a string of three quotes \<open>q\<close> ends here: not if a fourth one follows, and six are an error.\<close>

function mlstring_loop :: "nat \<Rightarrow> nat option \<Rightarrow> scanner \<Rightarrow> (nat option \<times> scanner) toml" where
  "mlstring_loop n0 escp sp =
     (if scan_nmatch sp DQ 3 \<and> \<not> scan_nmatch sp DQ 4 then Inr (escp, sp)
      else if scan_nmatch sp DQ 6 then Inl (scan_error sp ''detected sequences of 3 or more double quotes'')
      else case scan_get sp of
        (None, sp1) \<Rightarrow> Inl (scan_error sp1 (''unterminated '' @ [DQ, DQ, DQ]))
      | (Some ch, sp1) \<Rightarrow>
          if ch \<noteq> BS
          then (if \<not> (is_valid_char ch \<or> ch \<in> {CHR '' '', TAB, LF}) then Inl (scan_error sp1 ''invalid char in string'')
                else mlstring_loop n0 escp sp1)
          else then_do (scan_escape_chars sp1) (\<lambda>cnt.
            if cnt > 0 then mlstring_loop n0 (mark_escape n0 escp sp1) (advance cnt sp1)
            else then_do (line_ending sp1) (mlstring_loop n0 (mark_escape n0 escp sp1))))"
  by pat_completeness auto
termination
proof (relation "measure (\<lambda>(n0, escp, sp). length (sc_cur sp))")
  fix n0 :: nat and escp :: "nat option" and sp :: scanner and x y x2 cnt sp'
  assume g: "(x, y) = scan_get sp" "x = Some x2"
  then have "length (sc_cur y) < length (sc_cur sp)" by (auto dest: get_shorter[OF sym])
  then show "line_ending y = Inr sp' \<Longrightarrow> ((n0, mark_escape n0 escp y, sp'), n0, escp, sp) \<in> measure (\<lambda>(n0, escp, sp). length (sc_cur sp))"
    using line_ending_le[of y sp'] by simp
qed (auto dest!: get_shorter[OF sym])

function litstring_loop :: "scanner \<Rightarrow> scanner toml" where
  "litstring_loop sp =
     (if scan_match sp (CHR 0x27) then Inr sp
      else case scan_get sp of
        (None, sp1) \<Rightarrow> Inl (scan_error sp1 ''unterminated string'')
      | (Some ch, sp1) \<Rightarrow>
          if \<not> (is_valid_char ch \<or> ch = TAB) then Inl (scan_error sp1 ''invalid char in string'') else litstring_loop sp1)"
  by pat_completeness auto
termination
  by (relation "measure (\<lambda>sp. length (sc_cur sp))") (auto dest!: get_shorter[OF sym])

function mllitstring_loop :: "scanner \<Rightarrow> scanner toml" where
  "mllitstring_loop sp =
     (if scan_nmatch sp (CHR 0x27) 3 \<and> \<not> scan_nmatch sp (CHR 0x27) 4 then Inr sp
      else if scan_nmatch sp (CHR 0x27) 6 then Inl (scan_error sp ''sequences of 3 or more single quotes'')
      else case scan_get sp of
        (None, sp1) \<Rightarrow> Inl (scan_error sp1 ''unterminated multiline lit string'')
      | (Some ch, sp1) \<Rightarrow>
          if \<not> (is_valid_char ch \<or> ch \<in> {CHR '' '', TAB, LF}) then Inl (scan_error sp1 ''invalid char in string'') else mllitstring_loop sp1)"
  by pat_completeness auto
termination
  by (relation "measure (\<lambda>sp. length (sc_cur sp))") (auto dest!: get_shorter[OF sym])

declare mlstring_loop.simps [simp del] litstring_loop.simps [simp del] mllitstring_loop.simps [simp del]

text \<open>The bytes of the token that began at \<open>sp\<close>, when the scanner has come to \<open>sp'\<close>.\<close>

definition scanned :: "scanner \<Rightarrow> scanner \<Rightarrow> string" where
  "scanned sp sp' = take (length (sc_cur sp) - length (sc_cur sp')) (sc_cur sp)"

definition after_newline :: "scanner \<Rightarrow> scanner" where
  "after_newline sp = (if scan_match sp LF then snd (scan_get sp) else sp)"

definition scan_multiline_string :: "scanner \<Rightarrow> (token \<times> scanner) toml" where
  "scan_multiline_string sp =
     (let sp1 = after_newline (skip3 sp) in
      then_do (mlstring_loop (length (sc_cur sp1)) None sp1) (\<lambda>(escp, sp2).
        Inr ((mktoken sp1 TOK_MLSTRING)\<lparr>tok_str := scanned sp1 sp2, tok_u := U_escp escp\<rparr>, skip3 sp2)))"

definition scan_string :: "scanner \<Rightarrow> (token \<times> scanner) toml" where
  "scan_string sp =
     (if scan_nmatch sp DQ 3 then scan_multiline_string sp
      else let sp1 = snd (scan_get sp) in
        then_do (string_loop (length (sc_cur sp1)) None sp1) (\<lambda>(escp, sp2).
          Inr ((mktoken sp1 TOK_STRING)\<lparr>tok_str := scanned sp1 sp2, tok_u := U_escp escp\<rparr>, snd (scan_get sp2))))"

definition scan_multiline_litstring :: "scanner \<Rightarrow> (token \<times> scanner) toml" where
  "scan_multiline_litstring sp =
     (let sp1 = after_newline (skip3 sp) in
      then_do (mllitstring_loop sp1) (\<lambda>sp2. Inr ((mktoken sp1 TOK_MLLITSTRING)\<lparr>tok_str := scanned sp1 sp2\<rparr>, skip3 sp2)))"

definition scan_litstring :: "scanner \<Rightarrow> (token \<times> scanner) toml" where
  "scan_litstring sp =
     (if scan_nmatch sp (CHR 0x27) 3 then scan_multiline_litstring sp
      else let sp1 = snd (scan_get sp) in
        then_do (litstring_loop sp1) (\<lambda>sp2. Inr ((mktoken sp1 TOK_LITSTRING)\<lparr>tok_str := scanned sp1 sp2\<rparr>, snd (scan_get sp2))))"

section \<open>Dates and times\<close>

definition is_valid_date :: "int \<Rightarrow> int \<Rightarrow> int \<Rightarrow> bool" where
  "is_valid_date year month day =
     (if \<not> 1 \<le> year then False
      else if \<not> (1 \<le> month \<and> month \<le> 12) then False
      else let is_leap_year = (year mod 4 = 0 \<and> year mod 100 \<noteq> 0 \<or> year mod 400 = 0);
               days_in_month = [31, 28 + (if is_leap_year then 1 else 0), 31, 30, 31, 30, 31, 31, 30, 31, 30, 31]
        in 1 \<le> day \<and> day \<le> days_in_month ! nat (month - 1))"

definition is_valid_time :: "int \<Rightarrow> int \<Rightarrow> int \<Rightarrow> int \<Rightarrow> bool" where
  "is_valid_time hour minute sec usec \<longleftrightarrow> 0 \<le> hour \<and> hour \<le> 23 \<and> 0 \<le> minute \<and> minute \<le> 59 \<and> 0 \<le> sec \<and> sec \<le> 59 \<and> 0 \<le> usec"

definition is_valid_timezone :: "int \<Rightarrow> bool" where
  "is_valid_timezone minute = (let m = \<bar>minute\<bar>; hour = m div 60 in 0 \<le> hour \<and> hour \<le> 23 \<and> 0 \<le> m mod 60 \<and> m mod 60 < 60)"

text \<open>
  \<^verbatim>\<open>scan_copystr\<close>: what the functions that read the copy see of it, up to its NUL. \<open>ch_at\<close> reads the NUL at the end.
\<close>

definition scan_copystr :: "scanner \<Rightarrow> nat \<Rightarrow> string" where
  "scan_copystr sp dstsz = c_str (take (dstsz - 1) (sc_cur sp))"

definition ch_at :: "string \<Rightarrow> nat \<Rightarrow> char" where
  "ch_at s i = (if i < length s then s ! i else NUL)"

definition read_int :: "string \<Rightarrow> nat \<times> int" where
  "read_int p = (let ds = takeWhile isdigit p in if digits_val ds > 2 ^ 31 - 1 then (0, 0) else (length ds, int (digits_val ds)))"

text \<open>The results of the readers are \<open>None\<close> where the C functions return 0.\<close>

definition read_date :: "string \<Rightarrow> (int \<times> int \<times> int) option" where
  "read_date p =
     (case read_int p of (n, year) \<Rightarrow>
        if n \<noteq> 4 \<or> ch_at p 4 \<noteq> CHR ''-'' then None
        else (case read_int (drop 5 p) of (n, month) \<Rightarrow>
          if n \<noteq> 2 \<or> ch_at p 7 \<noteq> CHR ''-'' then None
          else (case read_int (drop 8 p) of (n, day) \<Rightarrow> if n \<noteq> 2 then None else Some (year, month, day))))"

fun usec_loop :: "int \<Rightarrow> int \<Rightarrow> string \<Rightarrow> int" where
  "usec_loop usec micro_factor [] = usec"
| "usec_loop usec micro_factor (c # p) =
     (if isdigit c \<and> micro_factor \<noteq> 0 then usec_loop (usec + int (digit_val c) * micro_factor) (micro_factor div 10) p else usec)"

definition read_time :: "string \<Rightarrow> (nat \<times> int \<times> int \<times> int \<times> int) option" where
  "read_time p =
     (case read_int p of (n, hour) \<Rightarrow>
        if n \<noteq> 2 \<or> ch_at p 2 \<noteq> CHR '':'' then None
        else (case read_int (drop 3 p) of (n, minute) \<Rightarrow>
          if n \<noteq> 2 then None
          else if ch_at p 5 \<noteq> CHR '':'' then Some (5, hour, minute, 0, 0)
          else (case read_int (drop 6 p) of (n, second) \<Rightarrow>
            if n \<noteq> 2 then None
            else if ch_at p 8 \<noteq> CHR ''.'' then Some (8, hour, minute, second, 0)
            else if \<not> isdigit (ch_at p 9) then None
            else Some (9 + length (takeWhile isdigit (drop 9 p)), hour, minute, second, usec_loop 0 100000 (drop 9 p)))))"

text \<open>The offset in minutes is computed by the caller; \<open>None\<close> stands for no time zone.\<close>

definition read_tzone :: "string \<Rightarrow> (nat \<times> bool \<times> int \<times> int) option" where
  "read_tzone p =
     (if ch_at p 0 = CHR ''Z'' \<or> ch_at p 0 = CHR ''z'' then Some (1, False, 0, 0)
      else if ch_at p 0 \<noteq> CHR ''+'' \<and> ch_at p 0 \<noteq> CHR ''-'' then None
      else (case read_int (drop 1 p) of (n, tzhour) \<Rightarrow>
        if n \<noteq> 2 \<or> ch_at p 3 \<noteq> CHR '':'' then None
        else (case read_int (drop 4 p) of (n, tzminute) \<Rightarrow>
          if n \<noteq> 2 then None else Some (6, ch_at p 0 = CHR ''-'', tzhour, tzminute))))"

abbreviation no_ts :: tsval where
  "no_ts \<equiv> \<lparr>ts_year = - 1, ts_month = - 1, ts_day = - 1, ts_hour = - 1, ts_minute = - 1, ts_sec = - 1, ts_usec = - 1, ts_tz = - 1\<rparr>"

definition scan_time :: "scanner \<Rightarrow> (token \<times> scanner) toml" where
  "scan_time sp = (case read_time (scan_copystr sp 20) of
       None \<Rightarrow> Inl (scan_error sp ''invalid time'')
     | Some (len, hour, minute, sec, usec) \<Rightarrow>
         if \<not> is_valid_time hour minute sec usec then Inl (scan_error sp ''invalid time'')
         else Inr ((mktoken sp TOK_TIME)\<lparr>tok_str := take len (sc_cur sp),
             tok_u := U_tsval (no_ts\<lparr>ts_hour := hour, ts_minute := minute, ts_sec := sec, ts_usec := usec\<rparr>)\<rparr>, advance len sp))"

text \<open>What a timestamp is: its type, its values and its length, before the checks.\<close>

definition timestamp_parts :: "string \<Rightarrow> string + toktyp \<times> tsval \<times> nat" where
  "timestamp_parts p =
     (if isdigit (ch_at p 0) \<and> isdigit (ch_at p 1) \<and> ch_at p 2 = CHR '':''
      then (case read_time p of None \<Rightarrow> Inl ''invalid time''
        | Some (n, h, m, s, us) \<Rightarrow> Inr (TOK_TIME, no_ts\<lparr>ts_hour := h, ts_minute := m, ts_sec := s, ts_usec := us\<rparr>, n))
      else (case read_date p of None \<Rightarrow> Inl ''invalid date''
        | Some (y, mo, d) \<Rightarrow>
            let ts = no_ts\<lparr>ts_year := y, ts_month := mo, ts_day := d\<rparr>; q = drop 10 p in
            if \<not> ((ch_at q 0 = CHR ''T'' \<or> ch_at q 0 = CHR '' '' \<or> ch_at q 0 = CHR ''t'') \<and> isdigit (ch_at q 1) \<and> isdigit (ch_at q 2) \<and>
                   ch_at q 3 = CHR '':'')
            then Inr (TOK_DATE, ts, 10)
            else (case read_time (drop 1 q) of None \<Rightarrow> Inl ''invalid timestamp''
              | Some (n, h, m, s, us) \<Rightarrow>
                  let ts1 = ts\<lparr>ts_hour := h, ts_minute := m, ts_sec := s, ts_usec := us\<rparr> in
                  (case read_tzone (drop (1 + n) q) of
                     None \<Rightarrow> Inr (TOK_DATETIME, ts1, 11 + n)
                   | Some (k, neg, tzhour, tzminute) \<Rightarrow>
                       if \<not> (0 \<le> tzminute \<and> tzminute < 60) then Inl ''invalid timezone''
                       else Inr (TOK_DATETIMETZ, ts1\<lparr>ts_tz := (tzhour * 60 + tzminute) * (if neg then - 1 else 1)\<rparr>, 11 + n + k)))))"

definition scan_timestamp :: "scanner \<Rightarrow> (token \<times> scanner) toml" where
  "scan_timestamp sp = (case timestamp_parts (scan_copystr sp 80) of
       Inl msg \<Rightarrow> Inl (scan_error sp msg)
     | Inr (typ, ts, n) \<Rightarrow>
         let date = is_valid_date (ts_year ts) (ts_month ts) (ts_day ts);
             time = is_valid_time (ts_hour ts) (ts_minute ts) (ts_sec ts) (ts_usec ts);
             r = ((mktoken sp typ)\<lparr>tok_str := take n (sc_cur sp), tok_u := U_tsval ts\<rparr>, advance n sp)
         in if typ = TOK_TIME then (if \<not> time then Inl (scan_error sp ''invalid time'') else Inr r)
            else if \<not> date then Inl (scan_error sp ''invalid date'')
            else if typ = TOK_DATE then Inr r
            else if \<not> time then Inl (scan_error sp ''invalid time'')
            else if typ = TOK_DATETIMETZ \<and> \<not> is_valid_timezone (ts_tz ts) then Inl (scan_error sp ''invalid timezone'')
            else Inr r)"

section \<open>Numbers\<close>

definition digit_or_hex :: "nat \<Rightarrow> char \<Rightarrow> bool" where
  "digit_or_hex base c \<longleftrightarrow> isdigit c \<or> base = 16 \<and> is_hex_char c"

text \<open>The buffer is squeezed in place, but an underscore is always compared with its neighbours as they were.\<close>

definition underscores_ok :: "nat \<Rightarrow> string \<Rightarrow> bool" where
  "underscores_ok base b = list_all (\<lambda>i. b ! i = CHR ''_'' \<longrightarrow> i \<noteq> 0 \<and> digit_or_hex base (b ! (i - 1)) \<and> digit_or_hex base (ch_at b (i + 1))) [0..<length b]"

definition points_ok :: "string \<Rightarrow> bool" where
  "points_ok b = list_all (\<lambda>i. b ! i = CHR ''.'' \<longrightarrow> i \<noteq> 0 \<and> isdigit (b ! (i - 1)) \<and> isdigit (ch_at b (i + 1))) [0..<length b]"

definition process_numstr :: "string \<Rightarrow> nat \<Rightarrow> string + string" where
  "process_numstr buffer base =
     (if \<not> underscores_ok base buffer then Inl ''underscore only allowed between digits''
      else let b = filter (\<lambda>c. c \<noteq> CHR ''_'') buffer in
        if \<not> points_ok b then Inl ''decimal point must be surrounded by digits''
        else let q = (if ch_at b 0 = CHR ''+'' \<or> ch_at b 0 = CHR ''-'' then drop 1 b else b) in
          if base = 10 \<and> ch_at q 0 = CHR ''0'' \<and> isdigit (ch_at q 1) then Inl ''leading 0 in numbers''
          else Inr (map tolower b))"

definition hex_val :: "char \<Rightarrow> nat" where
  "hex_val c = (if isdigit c then digit_val c else byte_val (tolower c) - 87)"

definition digit_in :: "nat \<Rightarrow> char \<Rightarrow> bool" where
  "digit_in base c \<longleftrightarrow> is_hex_char c \<and> hex_val c < base"

text \<open>
  \<^verbatim>\<open>strtoll\<close> on texts without white space or prefix: the value, the rest, whether anything was read and whether it was out of range.
\<close>

definition strtoll :: "string \<Rightarrow> nat \<Rightarrow> int \<times> string \<times> bool \<times> bool" where
  "strtoll s base =
     (let sign = (ch_at s 0 = CHR ''+'' \<or> ch_at s 0 = CHR ''-''); t = (if sign then drop 1 s else s);
          ds = takeWhile (digit_in base) t;
          v = int (foldl (\<lambda>a c. base * a + hex_val c) 0 ds) * (if ch_at s 0 = CHR ''-'' then - 1 else 1)
      in if ds = [] then (0, s, False, False)
         else if v < - (2 ^ 63) then (- (2 ^ 63), drop (length ds) t, True, True)
         else if v \<ge> 2 ^ 63 then (2 ^ 63 - 1, drop (length ds) t, True, True)
         else (v, drop (length ds) t, True, False))"

definition strspn :: "string \<Rightarrow> string \<Rightarrow> nat" where
  "strspn p accept = length (takeWhile (\<lambda>c. c \<in> set accept) p)"

text \<open>\<open>sd b\<close> says whether \<^verbatim>\<open>strtod\<close> reads all of \<open>b\<close> without an error.\<close>

definition scan_float :: "(string \<Rightarrow> bool) \<Rightarrow> scanner \<Rightarrow> (token \<times> scanner) toml" where
  "scan_float sd sp =
     (let buffer = scan_copystr sp 50;
          k = (if ch_at buffer 0 = CHR ''+'' \<or> ch_at buffer 0 = CHR ''-'' then 1 else 0);
          p = drop k buffer;
          len = k + (if take 3 p = ''nan'' \<or> take 3 p = ''inf'' then 3 else strspn p ''_0123456789eE.+-'')
      in case process_numstr (take len buffer) 10 of
           Inl reason \<Rightarrow> Inl (scan_error sp reason)
         | Inr b \<Rightarrow>
             if b = [] \<or> \<not> sd b then Inl (scan_error sp ''error parsing float'')
             else Inr ((mktoken sp TOK_FLOAT)\<lparr>tok_u := U_fp64 b, tok_str := take len (sc_cur sp)\<rparr>, advance len sp))"

definition scan_based :: "nat \<Rightarrow> string \<Rightarrow> scanner \<Rightarrow> (token \<times> scanner) toml" where
  "scan_based base accept sp =
     (let buffer = scan_copystr sp 50; len = 2 + strspn (drop 2 buffer) accept in
      case process_numstr (drop 2 (take len buffer)) base of
        Inl reason \<Rightarrow> Inl (scan_error sp reason)
      | Inr b \<Rightarrow>
          (case strtoll b base of (v, q, consumed, errno) \<Rightarrow>
             if errno \<or> q \<noteq> [] \<or> \<not> consumed then Inl (scan_error sp ''error parsing integer'')
             else Inr ((mktoken sp TOK_INTEGER)\<lparr>tok_u := U_int64 v, tok_str := take len (sc_cur sp)\<rparr>, advance len sp)))"

definition scan_decimal :: "(string \<Rightarrow> bool) \<Rightarrow> scanner \<Rightarrow> (token \<times> scanner) toml" where
  "scan_decimal sd sp =
     (let buffer = scan_copystr sp 50; len = strspn buffer ''0123456789_+-.eE'' in
      case process_numstr (take len buffer) 10 of
        Inl reason \<Rightarrow> Inl (scan_error sp reason)
      | Inr b \<Rightarrow>
          (case strtoll b 10 of (v, q, consumed, errno) \<Rightarrow>
             if errno \<or> q \<noteq> [] \<or> \<not> consumed
             then (if q \<noteq> [] \<and> hd q \<in> {CHR ''.'', CHR ''e'', CHR ''E''} then scan_float sd sp else Inl (scan_error sp ''error parsing integer''))
             else Inr ((mktoken sp TOK_INTEGER)\<lparr>tok_u := U_int64 v, tok_str := take len (sc_cur sp)\<rparr>, advance len sp)))"

definition scan_number :: "(string \<Rightarrow> bool) \<Rightarrow> scanner \<Rightarrow> (token \<times> scanner) toml" where
  "scan_number sd sp =
     (let p = scan_copystr sp 50 in
      if ch_at p 0 = CHR ''0'' \<and> ch_at p 1 = CHR ''x'' then scan_based 16 ''_0123456789abcdefABCDEF'' sp
      else if ch_at p 0 = CHR ''0'' \<and> ch_at p 1 = CHR ''o'' then scan_based 8 ''_01234567'' sp
      else if ch_at p 0 = CHR ''0'' \<and> ch_at p 1 = CHR ''b'' then scan_based 2 ''_01'' sp
      else let q = (if ch_at p 0 = CHR ''+'' \<or> ch_at p 0 = CHR ''-'' then drop 1 p else p) in
        if ch_at q 0 = CHR ''i'' \<or> ch_at q 0 = CHR ''n'' then scan_float sd sp else scan_decimal sd sp)"

definition scan_bool :: "scanner \<Rightarrow> (token \<times> scanner) toml" where
  "scan_bool sp =
     (let p = scan_copystr sp 10;
          r = (if take 4 p = ''true'' then Some (True, 4) else if take 5 p = ''false'' then Some (False, 5) else None)
      in case r of None \<Rightarrow> Inl (scan_error sp ''invalid boolean value'')
         | Some (val, len) \<Rightarrow>
             if drop len p \<noteq> [] \<and> hd (drop len p) \<notin> set (''# '' @ [CR, LF, TAB] @ '',}]'') then Inl (scan_error sp ''invalid boolean value'')
             else Inr ((mktoken sp TOK_BOOL)\<lparr>tok_u := U_b1 val, tok_str := take len (sc_cur sp)\<rparr>, advance len sp))"

definition test_time :: "string \<Rightarrow> bool" where
  "test_time p \<longleftrightarrow> 2 < length p \<and> isdigit (p ! 0) \<and> isdigit (p ! 1) \<and> p ! 2 = CHR '':''"

definition test_date :: "string \<Rightarrow> bool" where
  "test_date p \<longleftrightarrow> 4 < length p \<and> isdigit (p ! 0) \<and> isdigit (p ! 1) \<and> isdigit (p ! 2) \<and> isdigit (p ! 3) \<and> p ! 4 = CHR ''-''"

definition test_bool :: "string \<Rightarrow> bool" where
  "test_bool p \<longleftrightarrow> p \<noteq> [] \<and> (hd p = CHR ''t'' \<or> hd p = CHR ''f'')"

definition test_number :: "string \<Rightarrow> bool" where
  "test_number p \<longleftrightarrow> p \<noteq> [] \<and> hd p \<in> set ''0123456789+-._'' \<or> 2 < length p \<and> (take 3 p = ''nan'' \<or> take 3 p = ''inf'')"

definition scan_nonstring_literal :: "(string \<Rightarrow> bool) \<Rightarrow> scanner \<Rightarrow> (token \<times> scanner) toml" where
  "scan_nonstring_literal sd sp =
     (if test_time (sc_cur sp) then scan_time sp
      else if test_date (sc_cur sp) then scan_timestamp sp
      else if test_bool (sc_cur sp) then scan_bool sp
      else if test_number (sc_cur sp) then scan_number sd sp
      else Inl (scan_error sp ''invalid value''))"

section \<open>Keys and the next token\<close>

definition is_unicode_bare_key_char :: "nat \<Rightarrow> bool" where
  "is_unicode_bare_key_char cp \<longleftrightarrow>
     cp = 0xB2 \<or> cp = 0xB3 \<or> cp = 0xB9 \<or> 0xBC \<le> cp \<and> cp \<le> 0xBE \<or> 0xC0 \<le> cp \<and> cp \<le> 0xD6 \<or> 0xD8 \<le> cp \<and> cp \<le> 0xF6 \<or>
     0xF8 \<le> cp \<and> cp \<le> 0x37D \<or> 0x37F \<le> cp \<and> cp \<le> 0x1FFF \<or> cp = 0x200C \<or> cp = 0x200D \<or> 0x203F \<le> cp \<and> cp \<le> 0x2040 \<or>
     0x2070 \<le> cp \<and> cp \<le> 0x218F \<or> 0x2460 \<le> cp \<and> cp \<le> 0x24FF \<or> 0x2C00 \<le> cp \<and> cp \<le> 0x2FEF \<or> 0x3001 \<le> cp \<and> cp \<le> 0xD7FF \<or>
     0xF900 \<le> cp \<and> cp \<le> 0xFDCF \<or> 0xFDF0 \<le> cp \<and> cp \<le> 0xFFFD \<or> 0x10000 \<le> cp \<and> cp \<le> 0xEFFFF"

lemma utf8_pos: "utf8_to_ucs s = Some (v, n) \<Longrightarrow> 0 < n"
  by (auto simp: utf8_to_ucs_def Let_def split: list.splits if_splits)

text \<open>The length of a bare key; it may be 0.\<close>

function literal_len :: "string \<Rightarrow> nat" where
  "literal_len p = (case p of [] \<Rightarrow> 0
     | c # cs \<Rightarrow>
         if isalnum c \<or> c = CHR ''_'' \<or> c = CHR ''-'' then 1 + literal_len cs
         else if byte_val c \<ge> 0x80
         then (case utf8_to_ucs p of None \<Rightarrow> 0
           | Some (cp, n) \<Rightarrow> if is_unicode_bare_key_char cp then n + literal_len (drop n p) else 0)
         else 0)"
  by pat_completeness auto
termination
  by (relation "measure length") (auto dest: utf8_pos)

declare literal_len.simps [simp del]

definition scan_literal :: "scanner \<Rightarrow> (token \<times> scanner) toml" where
  "scan_literal sp = (let n = literal_len (sc_cur sp) in Inr ((mktoken sp TOK_LIT)\<lparr>tok_str := take n (sc_cur sp)\<rparr>, advance n sp))"

function skip_comment :: "scanner \<Rightarrow> scanner toml" where
  "skip_comment sp =
     (if scan_match sp LF then Inr sp
      else case scan_get sp of
        (None, sp1) \<Rightarrow> Inr sp1
      | (Some ch, sp1) \<Rightarrow>
          if byte_val ch \<le> 8 \<or> 0x0A \<le> byte_val ch \<and> byte_val ch \<le> 0x1F \<or> byte_val ch = 0x7F
          then Inl (scan_error sp1 ''bad control char in comment'')
          else skip_comment sp1)"
  by pat_completeness auto
termination
  by (relation "measure (\<lambda>sp. length (sc_cur sp))") (auto dest!: get_shorter[OF sym])

declare skip_comment.simps [simp del]

lemma skip_comment_le: "skip_comment sp = Inr sp' \<Longrightarrow> length (sc_cur sp') \<le> length (sc_cur sp)"
proof (induction sp rule: skip_comment.induct)
  case (1 sp)
  show ?case
  proof (cases "scan_match sp LF \<or> fst (scan_get sp) = None")
    case True
    then show ?thesis using "1.prems" unfolding skip_comment.simps[of sp] by (auto split: if_splits prod.splits option.splits dest: get_le)
  next
    case False
    then obtain ch sp1 where g: "scan_get sp = (Some ch, sp1)" by (cases "scan_get sp") auto
    then have "skip_comment sp1 = Inr sp'" using "1.prems" False unfolding skip_comment.simps[of sp] by (auto split: if_splits)
    moreover have "\<not> (byte_val ch \<le> 8 \<or> 0x0A \<le> byte_val ch \<and> byte_val ch \<le> 0x1F \<or> byte_val ch = 0x7F)"
      using "1.prems" False g unfolding skip_comment.simps[of sp] by (auto split: if_splits)
    ultimately have "length (sc_cur sp') \<le> length (sc_cur sp1)" using "1.IH"[OF _ g[symmetric]] False by auto
    then show ?thesis using get_shorter[OF g] by simp
  qed
qed

text \<open>The characters that are tokens of their own.\<close>

definition simple_token :: "char \<Rightarrow> toktyp option" where
  "simple_token ch = map_of [(LF, TOK_ENDL), (CHR ''.'', TOK_DOT), (CHR ''='', TOK_EQUAL), (CHR '','', TOK_COMMA),
     (CHR ''{'', TOK_LBRACE), (CHR ''}'', TOK_RBRACE)] ch"

definition bracket_token :: "bool \<Rightarrow> char \<Rightarrow> toktyp \<Rightarrow> toktyp \<Rightarrow> token \<Rightarrow> scanner \<Rightarrow> token \<times> scanner" where
  "bracket_token keymode ch one two tok sp1 =
     (if keymode \<and> scan_match sp1 ch then (tok\<lparr>toktyp := two, tok_str := [ch, ch]\<rparr>, snd (scan_get sp1)) else (tok\<lparr>toktyp := one\<rparr>, sp1))"

function scan_next :: "(string \<Rightarrow> bool) \<Rightarrow> bool \<Rightarrow> scanner \<Rightarrow> (token \<times> scanner) toml" where
  "scan_next sd keymode sp =
     (case scan_get sp of
        (None, sp1) \<Rightarrow> Inr (mktoken sp TOK_FIN, sp1)
      | (Some ch, sp1) \<Rightarrow>
          let tok = (mktoken sp TOK_FIN)\<lparr>tok_str := take 1 (sc_cur sp)\<rparr> in
          case simple_token ch of Some typ \<Rightarrow> Inr (tok\<lparr>toktyp := typ\<rparr>, sp1)
          | None \<Rightarrow>
            if ch = CHR '' '' \<or> ch = TAB then scan_next sd keymode sp1
            else if ch = CHR ''#'' then then_do (skip_comment sp1) (scan_next sd keymode)
            else if ch = CHR ''['' then Inr (bracket_token keymode ch TOK_LBRACK TOK_LLBRACK tok sp1)
            else if ch = CHR '']'' then Inr (bracket_token keymode ch TOK_RBRACK TOK_RRBRACK tok sp1)
            else if ch = DQ then scan_string sp
            else if ch = CHR 0x27 then scan_litstring sp
            else if keymode then scan_literal sp else scan_nonstring_literal sd sp)"
  by pat_completeness auto
termination
proof (relation "measure (\<lambda>(sd, keymode, sp). length (sc_cur sp))")
  fix sd :: "string \<Rightarrow> bool" and keymode sp x y ch sp2 tok
  assume "(x, y) = scan_get sp" "x = Some ch" "skip_comment y = Inr sp2"
  then show "((sd, keymode, sp2), sd, keymode, sp) \<in> measure (\<lambda>(sd, keymode, sp). length (sc_cur sp))"
    using get_shorter[of sp ch y] skip_comment_le[of y sp2] by simp
qed (auto dest!: get_shorter[OF sym])

declare scan_next.simps [simp del]

definition check_overflow :: "token \<times> scanner \<Rightarrow> (token \<times> scanner) toml" where
  "check_overflow r = (case r of (tok, sp) \<Rightarrow>
     if toktyp tok = TOK_LBRACK
     then (let sp1 = sp\<lparr>bracket_level := bracket_level sp + 1\<rparr> in
           if bracket_level sp1 > 30 then Inl (scan_error sp1 ''stack overflow'') else Inr (tok, sp1))
     else if toktyp tok = TOK_RBRACK then Inr (tok, sp\<lparr>bracket_level := bracket_level sp - 1\<rparr>)
     else if toktyp tok = TOK_LBRACE
     then (let sp1 = sp\<lparr>brace_level := brace_level sp + 1\<rparr> in
           if brace_level sp1 > 30 then Inl (scan_error sp1 ''stack overflow'') else Inr (tok, sp1))
     else if toktyp tok = TOK_RBRACE then Inr (tok, sp\<lparr>brace_level := brace_level sp - 1\<rparr>)
     else Inr (tok, sp))"

definition scan_key :: "(string \<Rightarrow> bool) \<Rightarrow> scanner \<Rightarrow> (token \<times> scanner) toml" where
  "scan_key sd sp = then_do (scan_next sd True sp) check_overflow"

definition scan_value :: "(string \<Rightarrow> bool) \<Rightarrow> scanner \<Rightarrow> (token \<times> scanner) toml" where
  "scan_value sd sp = then_do (scan_next sd False sp) check_overflow"

text \<open>\<^verbatim>\<open>scan_mark\<close> and \<^verbatim>\<open>scan_restore\<close> together: the position of \<open>mark\<close>, but the levels that \<open>sp\<close> has now.\<close>

definition scan_restore :: "scanner \<Rightarrow> scanner \<Rightarrow> scanner" where
  "scan_restore mark sp = sp\<lparr>sc_cur := sc_cur mark, sc_lineno := sc_lineno mark, sc_col := sc_col mark\<rparr>"

section \<open>Progress\<close>

text \<open>Every loop of the scanner only moves forward.\<close>

lemma string_loop_le: "string_loop n0 e sp = Inr (e', sp') \<Longrightarrow> length (sc_cur sp') \<le> length (sc_cur sp)"
proof (induction n0 e sp rule: string_loop.induct)
  case (1 n0 e sp)
  note E = "1.prems"[unfolded string_loop.simps[of n0 e sp]]
  show ?case
  proof (cases "scan_match sp DQ")
    case False
    obtain x sp1 where x: "scan_get sp = (x, sp1)" by fastforce
    then obtain ch where g: "scan_get sp = (Some ch, sp1)" using E False by (cases x) simp_all
    note IH = "1.IH"[OF False g[symmetric] refl]
    have "length (sc_cur sp') \<le> length (sc_cur sp1)"
    proof (cases "ch = BS")
      case True
      then obtain k where "scan_escape_chars sp1 = Inr k" "0 < k" "string_loop n0 (mark_escape n0 e sp1) (advance k sp1) = Inr (e', sp')"
        using E False g by (cases "scan_escape_chars sp1") (simp_all split: if_splits)
      then show ?thesis using IH(2)[of k] True by fastforce
    next
      case b: False
      then show ?thesis using E False g IH(1) by (simp split: if_splits)
    qed
    then show ?thesis using get_shorter[OF g] by simp
  qed (use E in simp)
qed

lemma mlstring_loop_le: "mlstring_loop n0 e sp = Inr (e', sp') \<Longrightarrow> length (sc_cur sp') \<le> length (sc_cur sp)"
proof (induction n0 e sp rule: mlstring_loop.induct)
  case (1 n0 e sp)
  note E = "1.prems"[unfolded mlstring_loop.simps[of n0 e sp]]
  show ?case
  proof (cases "scan_nmatch sp DQ 3 \<and> \<not> scan_nmatch sp DQ 4")
    case False
    then have six: "\<not> scan_nmatch sp DQ 6" using E by (auto split: if_splits)
    obtain x sp1 where x: "scan_get sp = (x, sp1)" by fastforce
    then obtain ch where g: "scan_get sp = (Some ch, sp1)" using E False six by (cases x) (simp_all only: if_False prod.case option.case sum.distinct)
    note IH = "1.IH"[OF False six g[symmetric] refl]
    have E': "(if ch \<noteq> BS then if \<not> (is_valid_char ch \<or> ch \<in> {CHR '' '', TAB, LF}) then Inl (scan_error sp1 ''invalid char in string'')
          else mlstring_loop n0 e sp1
        else then_do (scan_escape_chars sp1) (\<lambda>cnt. if cnt > 0 then mlstring_loop n0 (mark_escape n0 e sp1) (advance cnt sp1)
          else then_do (line_ending sp1) (mlstring_loop n0 (mark_escape n0 e sp1)))) = Inr (e', sp')"
      using E False six g by (simp only: if_False prod.case option.case)
    have "length (sc_cur sp') \<le> length (sc_cur sp1)"
    proof (cases "ch = BS")
      case True
      then obtain k where k: "scan_escape_chars sp1 = Inr k" using E' by (cases "scan_escape_chars sp1") simp_all
      show ?thesis
      proof (cases "0 < k")
        case pos: True
        then show ?thesis using E' True k IH(2)[of k] by fastforce
      next
        case zero: False
        then obtain sp2 where "line_ending sp1 = Inr sp2" "mlstring_loop n0 (mark_escape n0 e sp1) sp2 = Inr (e', sp')"
          using E' True k by (cases "line_ending sp1") simp_all
        then show ?thesis using IH(3)[of k sp2] True k zero line_ending_le[of sp1 sp2] by simp
      qed
    next
      case b: False
      then show ?thesis using E' IH(1) by (simp split: if_splits)
    qed
    then show ?thesis using get_shorter[OF g] by simp
  qed (use E in simp)
qed

lemma litstring_loop_le: "litstring_loop sp = Inr sp' \<Longrightarrow> length (sc_cur sp') \<le> length (sc_cur sp)"
proof (induction sp rule: litstring_loop.induct)
  case (1 sp)
  show ?case
  proof (cases "scan_match sp (CHR 0x27)")
    case False
    then obtain ch sp1 where g: "scan_get sp = (Some ch, sp1)" "litstring_loop sp1 = Inr sp'" "is_valid_char ch \<or> ch = TAB"
      using "1.prems" False unfolding litstring_loop.simps[of sp] by (auto split: prod.splits option.splits if_splits)
    then show ?thesis using "1.IH"[OF False g(1)[symmetric] refl _ g(2)] get_shorter[OF g(1)] by auto
  qed (use "1.prems" in \<open>simp add: litstring_loop.simps[of sp]\<close>)
qed

lemma mllitstring_loop_le: "mllitstring_loop sp = Inr sp' \<Longrightarrow> length (sc_cur sp') \<le> length (sc_cur sp)"
proof (induction sp rule: mllitstring_loop.induct)
  case (1 sp)
  show ?case
  proof (cases "scan_nmatch sp (CHR 0x27) 3 \<and> \<not> scan_nmatch sp (CHR 0x27) 4")
    case False
    then obtain ch sp1 where g: "scan_get sp = (Some ch, sp1)" "mllitstring_loop sp1 = Inr sp'" "\<not> scan_nmatch sp (CHR 0x27) 6"
      "is_valid_char ch \<or> ch \<in> {CHR '' '', TAB, LF}"
      using "1.prems" False unfolding mllitstring_loop.simps[of sp] by (auto split: prod.splits option.splits if_splits)
    then show ?thesis using "1.IH"[OF False g(3) g(1)[symmetric] refl _ g(2)] get_shorter[OF g(1)] by auto
  qed (use "1.prems" in \<open>simp add: mllitstring_loop.simps[of sp]\<close>)
qed

lemma snd_get_le: "length (sc_cur (snd (scan_get sp))) \<le> length (sc_cur sp)"
  by (cases "scan_get sp") (auto dest: get_le)

lemma snd_get_less: "sc_cur sp \<noteq> [] \<Longrightarrow> length (sc_cur (snd (scan_get sp))) < length (sc_cur sp)"
  by (cases "sc_cur sp") (auto simp: scan_get_def)

lemma skip3_le: "length (sc_cur (skip3 sp)) \<le> length (sc_cur sp)"
  unfolding skip3_def by (meson order_trans snd_get_le)

lemma skip3_less: "sc_cur sp \<noteq> [] \<Longrightarrow> length (sc_cur (skip3 sp)) < length (sc_cur sp)"
  unfolding skip3_def by (meson le_less_trans snd_get_le snd_get_less)

lemma after_newline_le: "length (sc_cur (after_newline sp)) \<le> length (sc_cur sp)"
  by (simp add: after_newline_def snd_get_le)

lemma scan_string_less:
  assumes "scan_string sp = Inr (tok, sp')" "sc_cur sp \<noteq> []"
  shows "length (sc_cur sp') < length (sc_cur sp)"
proof (cases "scan_nmatch sp DQ 3")
  case True
  let ?s = "after_newline (skip3 sp)"
  obtain e sp2 where l: "mlstring_loop (length (sc_cur ?s)) None ?s = Inr (e, sp2)" "sp' = skip3 sp2"
    using assms(1) True by (auto simp: scan_string_def scan_multiline_string_def Let_def then_do_Inr)
  have "length (sc_cur sp') \<le> length (sc_cur ?s)" using mlstring_loop_le[OF l(1)] skip3_le[of sp2] l(2) by simp
  then show ?thesis using after_newline_le[of "skip3 sp"] skip3_less[OF assms(2)] by simp
next
  case False
  let ?s = "snd (scan_get sp)"
  obtain e sp2 where l: "string_loop (length (sc_cur ?s)) None ?s = Inr (e, sp2)" "sp' = snd (scan_get sp2)"
    using assms(1) False by (auto simp: scan_string_def Let_def then_do_Inr)
  have "length (sc_cur sp') \<le> length (sc_cur ?s)" using string_loop_le[OF l(1)] snd_get_le[of sp2] l(2) by simp
  then show ?thesis using snd_get_less[OF assms(2)] by simp
qed

lemma scan_litstring_less:
  assumes "scan_litstring sp = Inr (tok, sp')" "sc_cur sp \<noteq> []"
  shows "length (sc_cur sp') < length (sc_cur sp)"
proof (cases "scan_nmatch sp (CHR 0x27) 3")
  case True
  let ?s = "after_newline (skip3 sp)"
  obtain sp2 where l: "mllitstring_loop ?s = Inr sp2" "sp' = skip3 sp2"
    using assms(1) True by (auto simp: scan_litstring_def scan_multiline_litstring_def Let_def then_do_Inr)
  have "length (sc_cur sp') \<le> length (sc_cur ?s)" using mllitstring_loop_le[OF l(1)] skip3_le[of sp2] l(2) by simp
  then show ?thesis using after_newline_le[of "skip3 sp"] skip3_less[OF assms(2)] by simp
next
  case False
  let ?s = "snd (scan_get sp)"
  obtain sp2 where l: "litstring_loop ?s = Inr sp2" "sp' = snd (scan_get sp2)"
    using assms(1) False by (auto simp: scan_litstring_def Let_def then_do_Inr)
  have "length (sc_cur sp') \<le> length (sc_cur ?s)" using litstring_loop_le[OF l(1)] snd_get_le[of sp2] l(2) by simp
  then show ?thesis using snd_get_less[OF assms(2)] by simp
qed

text \<open>A literal value is a token of its own type and at least one byte long.\<close>

abbreviation taken :: "scanner \<Rightarrow> token \<times> scanner \<Rightarrow> bool" where
  "taken sp r \<equiv> (\<exists>n>0. snd r = advance n sp) \<and> toktyp (fst r) \<notin> {TOK_FIN, TOK_LIT, TOK_ENDL, TOK_LBRACK, TOK_RBRACK, TOK_LBRACE, TOK_RBRACE}"

lemma read_time_pos: "read_time p = Some (n, x) \<Longrightarrow> 0 < n"
  by (auto simp: read_time_def split: prod.splits if_splits)

lemma timestamp_pos:
  assumes "timestamp_parts p = Inr (t, ts, n)"
  shows "0 < n" "t \<in> {TOK_TIME, TOK_DATE, TOK_DATETIME, TOK_DATETIMETZ}"
  using assms by (auto simp: timestamp_parts_def Let_def split: if_splits option.splits prod.splits dest: read_time_pos)

lemma scan_float_taken: "scan_float sd sp = Inr r \<Longrightarrow> taken sp r"
proof -
  assume a: "scan_float sd sp = Inr r"
  obtain len b where "process_numstr (take len (scan_copystr sp 50)) 10 = Inr b" "b \<noteq> []"
    "r = ((mktoken sp TOK_FLOAT)\<lparr>tok_u := U_fp64 b, tok_str := take len (sc_cur sp)\<rparr>, advance len sp)"
    using a by (auto simp: scan_float_def Let_def split: sum.splits if_splits)
  then show ?thesis by (cases "len = 0") (auto simp: process_numstr_def underscores_ok_def points_ok_def ch_at_def mktoken_def)
qed

lemma strtoll_nonempty: "strtoll b base = (v, q, True, e) \<Longrightarrow> b \<noteq> []"
  by (auto simp: strtoll_def Let_def ch_at_def)

lemma scan_decimal_taken: "scan_decimal sd sp = Inr r \<Longrightarrow> taken sp r"
proof -
  assume a: "scan_decimal sd sp = Inr r"
  define len where "len = strspn (scan_copystr sp 50) ''0123456789_+-.eE''"
  obtain b where b: "process_numstr (take len (scan_copystr sp 50)) 10 = Inr b" using a
    by (auto simp: scan_decimal_def Let_def len_def split: sum.splits)
  obtain v q c e where s: "strtoll b 10 = (v, q, c, e)" by (metis prod_cases4)
  let ?i = "((mktoken sp TOK_INTEGER)\<lparr>tok_u := U_int64 v, tok_str := take len (sc_cur sp)\<rparr>, advance len sp)"
  let ?f = "q \<noteq> [] \<and> hd q \<in> {CHR ''.'', CHR ''e'', CHR ''E''}"
  have "scan_decimal sd sp = (if e \<or> q \<noteq> [] \<or> \<not> c then if ?f then scan_float sd sp else Inl (scan_error sp ''error parsing integer'') else Inr ?i)"
    unfolding scan_decimal_def Let_def len_def[symmetric] b sum.case s prod.case ..
  then consider "scan_float sd sp = Inr r" | "c" "r = ?i" using a by (metis Inl_Inr_False Inr_inject)
  then show ?thesis
  proof cases
    case 2
    then have "b \<noteq> []" using s strtoll_nonempty[of b 10 v q e] by simp
    then have "0 < len" using b by (cases "len = 0") (auto simp: process_numstr_def underscores_ok_def points_ok_def ch_at_def)
    then show ?thesis using 2 by (auto simp: mktoken_def)
  qed (rule scan_float_taken)
qed

lemma scan_based_taken: "scan_based base acc sp = Inr r \<Longrightarrow> taken sp r"
  by (auto simp: scan_based_def Let_def mktoken_def split: sum.splits if_splits prod.splits intro!: exI[of _ "Suc (Suc _)"])

lemma literal_taken:
  assumes "scan_nonstring_literal sd sp = Inr r"
  shows "taken sp r"
proof -
  have t: "taken sp r" if "scan_time sp = Inr r"
    using that by (fastforce simp: scan_time_def mktoken_def split: option.splits if_splits dest!: read_time_pos)
  have ts: "taken sp r" if ok: "scan_timestamp sp = Inr r"
  proof -
    obtain ty v n where p: "timestamp_parts (scan_copystr sp 80) = Inr (ty, v, n)"
      using ok by (cases "timestamp_parts (scan_copystr sp 80)") (auto simp: scan_timestamp_def)
    then have "r = ((mktoken sp ty)\<lparr>tok_str := take n (sc_cur sp), tok_u := U_tsval v\<rparr>, advance n sp)"
      using ok by (auto simp: scan_timestamp_def Let_def split: if_splits)
    then show ?thesis using timestamp_pos[OF p] by (auto simp: mktoken_def)
  qed
  have b: "taken sp r" if ok: "scan_bool sp = Inr r"
  proof -
    let ?p = "scan_copystr sp 10"
    obtain v n where v: "(if take 4 ?p = ''true'' then Some (True, 4) else if take 5 ?p = ''false'' then Some (False, 5) else None) = Some (v, n :: nat)"
      and r: "r = ((mktoken sp TOK_BOOL)\<lparr>tok_u := U_b1 v, tok_str := take n (sc_cur sp)\<rparr>, advance n sp)"
      using ok unfolding scan_bool_def Let_def by (auto simp only: split: option.splits prod.splits if_split_asm)
    have "0 < n" using v by (simp split: if_splits)
    then show ?thesis unfolding r by (auto simp: mktoken_def)
  qed
  have n: "taken sp r" if "scan_number sd sp = Inr r"
    using that scan_based_taken scan_float_taken scan_decimal_taken by (auto simp: scan_number_def Let_def split: if_splits)
  show ?thesis using assms t ts b n by (auto simp: scan_nonstring_literal_def split: if_splits)
qed

text \<open>The next token moves the scanner forward, unless the text is at its end or a bare key is empty.\<close>

definition moved :: "bool \<Rightarrow> scanner \<Rightarrow> token \<Rightarrow> scanner \<Rightarrow> bool" where
  "moved keymode sp tok sp' \<longleftrightarrow> length (sc_cur sp') \<le> length (sc_cur sp) \<and> (toktyp tok = TOK_FIN \<longrightarrow> sc_cur sp' = []) \<and>
     (toktyp tok = TOK_LIT \<longrightarrow> keymode) \<and> (toktyp tok \<notin> {TOK_FIN, TOK_LIT} \<longrightarrow> length (sc_cur sp') < length (sc_cur sp))"

lemma moved_trans: "moved k sp1 tok sp' \<Longrightarrow> length (sc_cur sp1) \<le> length (sc_cur sp) \<Longrightarrow> moved k sp tok sp'"
  by (auto simp: moved_def)

lemma string_type: "scan_string sp = Inr (tok, sp') \<Longrightarrow> toktyp tok \<in> {TOK_STRING, TOK_MLSTRING}"
  by (auto simp: scan_string_def scan_multiline_string_def Let_def then_do_Inr mktoken_def split: if_splits)

lemma litstring_type: "scan_litstring sp = Inr (tok, sp') \<Longrightarrow> toktyp tok \<in> {TOK_LITSTRING, TOK_MLLITSTRING}"
  by (auto simp: scan_litstring_def scan_multiline_litstring_def Let_def then_do_Inr mktoken_def split: if_splits)

lemma simple_token_type: "simple_token ch = Some ty \<Longrightarrow> ty \<notin> {TOK_FIN, TOK_LIT}"
  by (auto simp: simple_token_def split: if_splits)

lemma scan_next_moved: "scan_next sd k sp = Inr (tok, sp') \<Longrightarrow> moved k sp tok sp'"
proof (induction sd k sp rule: scan_next.induct)
  case (1 sd k sp)
  note E = "1.prems"[unfolded scan_next.simps[of sd k sp]]
  obtain x sp1 where x: "scan_get sp = (x, sp1)" by fastforce
  show ?case
  proof (cases x)
    case None
    then show ?thesis using E x by (auto simp: moved_def mktoken_def scan_get_def split: list.splits if_splits)
  next
    case (Some ch)
    then have g: "scan_get sp = (Some ch, sp1)" using x by simp
    let ?tok = "(mktoken sp TOK_FIN)\<lparr>tok_str := take 1 (sc_cur sp)\<rparr>"
    note less = get_shorter[OF g]
    have ne: "sc_cur sp \<noteq> []" using less by auto
    note IH = "1.IH"[OF g[symmetric] refl refl]
    note E' = E[unfolded g prod.case option.case Let_def]
    have br: "moved k sp tok sp'" if "bracket_token k ch a b ?tok sp1 = (tok, sp')" "a \<notin> {TOK_FIN, TOK_LIT}" "b \<notin> {TOK_FIN, TOK_LIT}" for a b
      using that less snd_get_le[of sp1] by (auto simp: bracket_token_def moved_def split: if_splits)
    show ?thesis
    proof (cases "simple_token ch")
      case (Some ty)
      then show ?thesis using E' less simple_token_type[OF Some] by (auto simp: moved_def)
    next
      case None
      consider "ch = CHR '' '' \<or> ch = TAB" | "ch = CHR ''#''" | "ch = CHR ''[''" | "ch = CHR '']''" | "ch = DQ" | "ch = CHR 0x27"
        | "\<not> (ch = CHR '' '' \<or> ch = TAB)" "ch \<noteq> CHR ''#''" "ch \<noteq> CHR ''[''" "ch \<noteq> CHR '']''" "ch \<noteq> DQ" "ch \<noteq> CHR 0x27" by blast
      then show ?thesis
      proof cases
        case 1
        then have "scan_next sd k sp1 = Inr (tok, sp')" using E' None by simp
        from moved_trans[OF IH(1)[OF None 1 this]] less show ?thesis by simp
      next
        case 2
        then obtain sp2 where c: "skip_comment sp1 = Inr sp2" "scan_next sd k sp2 = Inr (tok, sp')"
          using E' None by (cases "skip_comment sp1") simp_all
        have "\<not> (ch = CHR '' '' \<or> ch = TAB)" using 2 by simp
        from moved_trans[OF IH(2)[OF None this 2 c]] less skip_comment_le[OF c(1)] show ?thesis by simp
      next
        case 3
        then show ?thesis using E' None br[of TOK_LBRACK TOK_LLBRACK] by simp
      next
        case 4
        then show ?thesis using E' None br[of TOK_RBRACK TOK_RRBRACK] by simp
      next
        case 5
        then have r: "scan_string sp = Inr (tok, sp')" using E' None by simp
        show ?thesis using scan_string_less[OF r ne] string_type[OF r] by (auto simp: moved_def)
      next
        case 6
        then have r: "scan_litstring sp = Inr (tok, sp')" using E' None by simp
        show ?thesis using scan_litstring_less[OF r ne] litstring_type[OF r] by (auto simp: moved_def)
      next
        case 7
        then have r: "(if k then scan_literal sp else scan_nonstring_literal sd sp) = Inr (tok, sp')" using E' None by simp
        show ?thesis
        proof (cases k)
          case True
          then show ?thesis using r by (auto simp: scan_literal_def Let_def moved_def mktoken_def)
        next
          case False
          then have "taken sp (tok, sp')" using r literal_taken by metis
          then show ?thesis using ne by (auto simp: moved_def)
        qed
      qed
    qed
  qed
qed

lemma check_overflow_keeps: "check_overflow (tok, sp) = Inr (tok', sp') \<Longrightarrow> tok' = tok \<and> sc_cur sp' = sc_cur sp"
  by (auto simp: check_overflow_def Let_def split: if_splits)

lemma scan_key_moved: "scan_key sd sp = Inr (tok, sp') \<Longrightarrow> moved True sp tok sp'"
  by (auto simp: scan_key_def then_do_Inr moved_def dest!: scan_next_moved check_overflow_keeps)

lemma scan_value_moved: "scan_value sd sp = Inr (tok, sp') \<Longrightarrow> moved False sp tok sp'"
  by (auto simp: scan_value_def then_do_Inr moved_def dest!: scan_next_moved check_overflow_keeps)

section \<open>UTF-8 round trip\<close>

lemma div_within: "b < m \<Longrightarrow> (q * m + b) div m = q" "b < m \<Longrightarrow> (q * m + b) mod m = b" for b m q :: nat
  by simp_all

lemma tail_byte:
  fixes b :: nat
  assumes "b < 64"
  shows "(128 + b) div 64 = 2" "(128 + b) mod 64 = b"
  using div_within[OF assms, of 2] by simp_all

lemma ucs_tail_step: "b < 64 \<Longrightarrow> ucs_tail (Suc j) v (char_of (0x80 + b) # s) = ucs_tail j (v * 64 + b) s"
  by (simp add: tail_byte)

lemma utf8_two:
  fixes a b :: nat
  assumes "a < 32" "b < 64"
  shows "utf8_to_ucs (char_of (0xC0 + a) # char_of (0x80 + b) # r) = Some (a * 64 + b, 2)"
proof -
  have "(192 + a) div 128 = 1" using div_within(1)[of "64 + a" 128 1] assms(1) by simp
  moreover have "(192 + a) div 32 = 6" "(192 + a) mod 32 = a" using div_within[OF assms(1), of 6] by simp_all
  ultimately show ?thesis using assms ucs_tail_step[OF assms(2), of 0 a r] by (simp add: utf8_to_ucs_def Let_def del: ucs_tail.simps(3))
qed

lemma utf8_three:
  fixes a b c :: nat
  assumes "a < 16" "b < 64" "c < 64"
  shows "utf8_to_ucs (char_of (0xE0 + a) # char_of (0x80 + b) # char_of (0x80 + c) # r) = Some ((a * 64 + b) * 64 + c, 3)"
proof -
  have "(224 + a) div 128 = 1" using div_within(1)[of "96 + a" 128 1] assms(1) by simp
  moreover have "(224 + a) div 32 = 7" using div_within(1)[of a 32 7] assms(1) by simp
  moreover have "(224 + a) div 16 = 14" "(224 + a) mod 16 = a" using div_within[OF assms(1), of 14] by simp_all
  ultimately show ?thesis using assms by (simp add: utf8_to_ucs_def Let_def numeral_2_eq_2 ucs_tail_step del: ucs_tail.simps(3))
qed

lemma utf8_four:
  fixes a b c d :: nat
  assumes "a < 8" "b < 64" "c < 64" "d < 64"
  shows "utf8_to_ucs (char_of (0xF0 + a) # char_of (0x80 + b) # char_of (0x80 + c) # char_of (0x80 + d) # r) = Some (((a * 64 + b) * 64 + c) * 64 + d, 4)"
proof -
  have "(240 + a) div 128 = 1" using div_within(1)[of "112 + a" 128 1] assms(1) by simp
  moreover have "(240 + a) div 32 = 7" using div_within(1)[of "16 + a" 32 7] assms(1) by simp
  moreover have "(240 + a) div 16 = 15" using div_within(1)[of a 16 15] assms(1) by simp
  moreover have "(240 + a) div 8 = 30" "(240 + a) mod 8 = a" using div_within[OF assms(1), of 30] by simp_all
  ultimately show ?thesis using assms by (simp add: utf8_to_ucs_def Let_def numeral_3_eq_3 ucs_tail_step del: ucs_tail.simps(3))
qed

text \<open>
  A code point that \<^verbatim>\<open>ucs_to_utf8\<close> encodes is read back by \<^verbatim>\<open>utf8_to_ucs\<close>, whatever follows it, and the bytes consumed are those written. Exactly the code points
  up to \<open>0x1FFFFF\<close> are encoded, more than Unicode has.
\<close>

theorem utf8_roundtrip:
  "(case ucs_to_utf8 code of Some bs \<Rightarrow> code \<le> 0x1FFFFF \<and> utf8_to_ucs (bs @ rest) = Some (code, length bs) | None \<Rightarrow> code > 0x1FFFFF)"
proof -
  consider "code \<le> 0x7F" | "0x7F < code" "code \<le> 0x7FF" | "0x7FF < code" "code \<le> 0xFFFF" | "0xFFFF < code" "code \<le> 0x1FFFFF" | "0x1FFFFF < code"
    by linarith
  then show ?thesis
  proof cases
    case 1
    then show ?thesis by (simp add: ucs_to_utf8_def utf8_to_ucs_def)
  next
    case 2
    then have "code div 64 < 32" by simp
    then show ?thesis using 2 utf8_two[of "code div 64" "code mod 64" rest] by (simp add: ucs_to_utf8_def)
  next
    case 3
    then have d: "code div 4096 < 16" by simp
    have "(code div 4096 * 64 + code div 64 mod 64) * 64 + code mod 64 = code" by (simp add: div_mult2_eq[of code 64 64, simplified])
    then show ?thesis using 3 utf8_three[OF d, of "code div 64 mod 64" "code mod 64" rest] by (simp add: ucs_to_utf8_def)
  next
    case 4
    then have d: "code div 262144 < 8" by simp
    have "((code div 262144 * 64 + code div 4096 mod 64) * 64 + code div 64 mod 64) * 64 + code mod 64 = code"
      using div_mult2_eq[of code 4096 64] div_mult2_eq[of code 64 64] by simp
    then show ?thesis using 4 utf8_four[OF d, of "code div 4096 mod 64" "code div 64 mod 64" "code mod 64" rest] by (simp add: ucs_to_utf8_def)
  qed (simp add: ucs_to_utf8_def)
qed

end
