(* ===== verification/Toml_Tree.thy ===== *)
theory Toml_Tree
  imports Toml_Scan "HOL-Library.Finite_Map"
begin

text \<open>
  The values of the TOML library, \<^verbatim>\<open>include/utils/config/tomlc17.h\<close>, and the operations of \<^verbatim>\<open>src/utils/config/tomlc17.c\<close> on them: tables
  and arrays that grow, lookup, copying, merging and comparing. A table is the list of its keys and values in the order of their insertion. Memory
  is not exhausted, so the only errors are the limits on sizes. A source name is its text, where the code shares one copy of it.
\<close>

section \<open>Values\<close>

datatype toml_type = TOML_UNKNOWN | TOML_STRING | TOML_INT64 | TOML_FP64 | TOML_BOOLEAN | TOML_DATE | TOML_TIME | TOML_DATETIME
  | TOML_DATETIMETZ | TOML_ARRAY | TOML_TABLE

text \<open>The bits of the flag, the position and the source of a datum.\<close>

record dmeta =
  flag_inlined :: bool
  flag_stdexpr :: bool
  flag_explicit :: bool
  d_lineno :: nat
  d_colno :: nat
  d_source :: "string option"

text \<open>A float is the text that \<^verbatim>\<open>strtod\<close> was given.\<close>

datatype toml_scalar = S_string string | S_int64 int | S_fp64 string | S_boolean bool | S_date tsval | S_time tsval | S_datetime tsval
  | S_datetimetz tsval

datatype toml_datum = DATUM_ZERO | D_scalar dmeta toml_scalar | D_array dmeta "toml_datum list" | D_table dmeta "(string \<times> toml_datum) list"

fun scalar_type :: "toml_scalar \<Rightarrow> toml_type" where
  "scalar_type (S_string s) = TOML_STRING"
| "scalar_type (S_int64 n) = TOML_INT64"
| "scalar_type (S_fp64 t) = TOML_FP64"
| "scalar_type (S_boolean b) = TOML_BOOLEAN"
| "scalar_type (S_date ts) = TOML_DATE"
| "scalar_type (S_time ts) = TOML_TIME"
| "scalar_type (S_datetime ts) = TOML_DATETIME"
| "scalar_type (S_datetimetz ts) = TOML_DATETIMETZ"

fun datum_type :: "toml_datum \<Rightarrow> toml_type" where
  "datum_type DATUM_ZERO = TOML_UNKNOWN"
| "datum_type (D_scalar m s) = scalar_type s"
| "datum_type (D_array m xs) = TOML_ARRAY"
| "datum_type (D_table m kvs) = TOML_TABLE"

definition meta_at :: "nat \<Rightarrow> nat \<Rightarrow> dmeta" where
  "meta_at lineno colno = \<lparr>flag_inlined = False, flag_stdexpr = False, flag_explicit = False, d_lineno = lineno, d_colno = colno, d_source = None\<rparr>"

fun datum_meta :: "toml_datum \<Rightarrow> dmeta" where
  "datum_meta DATUM_ZERO = meta_at 0 0"
| "datum_meta (D_scalar m s) = m"
| "datum_meta (D_array m xs) = m"
| "datum_meta (D_table m kvs) = m"

section \<open>Tables and arrays\<close>

abbreviation TABLE_MAX :: nat where "TABLE_MAX \<equiv> 16384"
abbreviation ARRAY_MAX :: nat where "ARRAY_MAX \<equiv> 16384"

fun tab_find :: "(string \<times> 'v) list \<Rightarrow> string \<Rightarrow> nat option" where
  "tab_find [] key = None"
| "tab_find ((k, v) # kvs) key = (if k = key then Some 0 else map_option Suc (tab_find kvs key))"

text \<open>The table and the index of the datum for the key; a new one has no type yet.\<close>

definition tab_emplace :: "(string \<times> toml_datum) list \<Rightarrow> string \<Rightarrow> string + (string \<times> toml_datum) list \<times> nat" where
  "tab_emplace kvs key = (case tab_find kvs key of
       Some i \<Rightarrow> Inr (kvs, i)
     | None \<Rightarrow> if length kvs \<ge> TABLE_MAX then Inl ''table too large'' else Inr (kvs @ [(key, DATUM_ZERO)], length kvs))"

definition set_value :: "(string \<times> 'v) list \<Rightarrow> nat \<Rightarrow> 'v \<Rightarrow> (string \<times> 'v) list" where
  "set_value kvs i v = kvs[i := (fst (kvs ! i), v)]"

definition tab_add :: "(string \<times> toml_datum) list \<Rightarrow> string \<Rightarrow> toml_datum \<Rightarrow> string + (string \<times> toml_datum) list" where
  "tab_add kvs newkey newvalue = (case tab_emplace kvs newkey of
       Inl reason \<Rightarrow> Inl reason
     | Inr (kvs1, i) \<Rightarrow> if datum_type (snd (kvs1 ! i)) \<noteq> TOML_UNKNOWN then Inl ''duplicate key'' else Inr (set_value kvs1 i newvalue))"

definition arr_emplace :: "toml_datum list \<Rightarrow> string + toml_datum list" where
  "arr_emplace xs = (if length xs \<ge> ARRAY_MAX then Inl ''array too large'' else Inr (xs @ [DATUM_ZERO]))"

text \<open>A key that is missing gives the datum without a type.\<close>

fun toml_get :: "toml_datum \<Rightarrow> string \<Rightarrow> toml_datum" where
  "toml_get (D_table m kvs) key = (case tab_find kvs key of None \<Rightarrow> DATUM_ZERO | Some i \<Rightarrow> snd (kvs ! i))"
| "toml_get d key = DATUM_ZERO"

text \<open>The parts of a key, separated by dots.\<close>

fun seek_parts :: "toml_datum \<Rightarrow> string list \<Rightarrow> toml_datum" where
  "seek_parts d [] = DATUM_ZERO"
| "seek_parts d (p # ps) = (if datum_type d \<noteq> TOML_TABLE then DATUM_ZERO else if ps = [] then toml_get d p else seek_parts (toml_get d p) ps)"

fun split_dots :: "string \<Rightarrow> string list" where
  "split_dots [] = [[]]"
| "split_dots (c # cs) = (if c = CHR ''.'' then [] # split_dots cs else (case split_dots cs of [] \<Rightarrow> [[c]] | p # ps \<Rightarrow> (c # p) # ps))"

definition toml_seek :: "toml_datum \<Rightarrow> string \<Rightarrow> toml_datum" where
  "toml_seek table multipart_key =
     (if datum_type table \<noteq> TOML_TABLE then DATUM_ZERO
      else if length (c_str multipart_key) + 1 > 256 then DATUM_ZERO
      else seek_parts table (split_dots (c_str multipart_key)))"

section \<open>Copying, merging, comparing\<close>

text \<open>The slot of a key is written whether it is new or not.\<close>

definition write_slot :: "(string \<times> toml_datum) list \<Rightarrow> string \<Rightarrow> toml_datum \<Rightarrow> string + (string \<times> toml_datum) list" where
  "write_slot kvs key v = (case tab_emplace kvs key of Inl reason \<Rightarrow> Inl reason | Inr (kvs1, i) \<Rightarrow> Inr (set_value kvs1 i v))"

fun datum_copy :: "toml_datum \<Rightarrow> string + toml_datum"
  and copy_table :: "(string \<times> toml_datum) list \<Rightarrow> (string \<times> toml_datum) list \<Rightarrow> string + (string \<times> toml_datum) list"
  and copy_array :: "toml_datum list \<Rightarrow> toml_datum list \<Rightarrow> string + toml_datum list" where
  "datum_copy (D_table m kvs) = (case copy_table [] kvs of Inl e \<Rightarrow> Inl e | Inr dst \<Rightarrow> Inr (D_table m dst))"
| "datum_copy (D_array m xs) = (case copy_array [] xs of Inl e \<Rightarrow> Inl e | Inr dst \<Rightarrow> Inr (D_array m dst))"
| "datum_copy (D_scalar m s) = Inr (D_scalar m s)"
| "datum_copy DATUM_ZERO = Inr DATUM_ZERO"
| "copy_table dst [] = Inr dst"
| "copy_table dst ((k, v) # kvs) =
     (case tab_emplace dst k of Inl e \<Rightarrow> Inl e
      | Inr (dst1, i) \<Rightarrow> (case datum_copy v of Inl e \<Rightarrow> Inl e | Inr w \<Rightarrow> copy_table (set_value dst1 i w) kvs))"
| "copy_array dst [] = Inr dst"
| "copy_array dst (x # xs) =
     (case arr_emplace dst of Inl e \<Rightarrow> Inl e
      | Inr dst1 \<Rightarrow> (case datum_copy x of Inl e \<Rightarrow> Inl e | Inr w \<Rightarrow> copy_array (dst1[length dst1 - 1 := w]) xs))"

fun is_array_of_tables :: "toml_datum \<Rightarrow> bool" where
  "is_array_of_tables (D_array m xs) = list_all (\<lambda>x. datum_type x = TOML_TABLE) xs"
| "is_array_of_tables d = False"

function datum_merge :: "toml_datum \<Rightarrow> toml_datum \<Rightarrow> string + toml_datum"
  and merge_table :: "(string \<times> toml_datum) list \<Rightarrow> (string \<times> toml_datum) list \<Rightarrow> string + (string \<times> toml_datum) list" where
  "datum_merge dst src =
     (if datum_type dst \<noteq> datum_type src then datum_copy src
      else case src of
        D_table m kvs \<Rightarrow>
          (case dst of D_table m' dkvs \<Rightarrow> (case merge_table dkvs kvs of Inl e \<Rightarrow> Inl e | Inr r \<Rightarrow> Inr (D_table m' r)) | d \<Rightarrow> datum_copy src)
      | D_array m xs \<Rightarrow>
          (case dst of
             D_array m' ds \<Rightarrow>
               if is_array_of_tables dst \<and> is_array_of_tables src
               then (case copy_array ds xs of Inl e \<Rightarrow> Inl e | Inr r \<Rightarrow> Inr (D_array m' r))
               else datum_copy src
           | d \<Rightarrow> datum_copy src)
      | d \<Rightarrow> datum_copy src)"
| "merge_table dst [] = Inr dst"
| "merge_table dst ((k, v) # kvs) =
     (case tab_emplace dst k of Inl e \<Rightarrow> Inl e
      | Inr (dst1, i) \<Rightarrow>
          (case (if datum_type (snd (dst1 ! i)) \<noteq> TOML_UNKNOWN then datum_merge (snd (dst1 ! i)) v else datum_copy v) of
             Inl e \<Rightarrow> Inl e
           | Inr w \<Rightarrow> merge_table (set_value dst1 i w) kvs))"
  by pat_completeness auto
termination
  by (relation "measure (\<lambda>x. case x of Inl (d, s) \<Rightarrow> size s | Inr (d, s) \<Rightarrow> size_list (size_prod (\<lambda>_. 0) size) s)") auto

declare datum_merge.simps [simp del]

text \<open>
  The comparison; \<open>fp_eq\<close> compares two floats. A key of the first table is compared with the first equal one of the second. Of
  a timestamp only the fields that belong to its type are compared.
\<close>

definition same_date :: "tsval \<Rightarrow> tsval \<Rightarrow> bool" where
  "same_date a b \<longleftrightarrow> ts_year a = ts_year b \<and> ts_month a = ts_month b \<and> ts_day a = ts_day b"

definition same_time :: "tsval \<Rightarrow> tsval \<Rightarrow> bool" where
  "same_time a b \<longleftrightarrow> ts_hour a = ts_hour b \<and> ts_minute a = ts_minute b \<and> ts_sec a = ts_sec b \<and> ts_usec a = ts_usec b"

fun scalar_equiv :: "(string \<Rightarrow> string \<Rightarrow> bool) \<Rightarrow> toml_scalar \<Rightarrow> toml_scalar \<Rightarrow> bool" where
  "scalar_equiv fp_eq (S_string a) (S_string b) = (a = b)"
| "scalar_equiv fp_eq (S_int64 a) (S_int64 b) = (a = b)"
| "scalar_equiv fp_eq (S_fp64 a) (S_fp64 b) = fp_eq a b"
| "scalar_equiv fp_eq (S_boolean a) (S_boolean b) = (a = b)"
| "scalar_equiv fp_eq (S_date a) (S_date b) = same_date a b"
| "scalar_equiv fp_eq (S_time a) (S_time b) = same_time a b"
| "scalar_equiv fp_eq (S_datetime a) (S_datetime b) = (same_date a b \<and> same_time a b)"
| "scalar_equiv fp_eq (S_datetimetz a) (S_datetimetz b) = (same_date a b \<and> same_time a b \<and> ts_tz a = ts_tz b)"
| "scalar_equiv fp_eq a b = False"

fun datum_equiv :: "(string \<Rightarrow> string \<Rightarrow> bool) \<Rightarrow> toml_datum \<Rightarrow> toml_datum \<Rightarrow> bool"
  and equiv_array :: "(string \<Rightarrow> string \<Rightarrow> bool) \<Rightarrow> toml_datum list \<Rightarrow> toml_datum list \<Rightarrow> bool"
  and equiv_table :: "(string \<Rightarrow> string \<Rightarrow> bool) \<Rightarrow> (string \<times> toml_datum) list \<Rightarrow> (string \<times> toml_datum) list \<Rightarrow> bool" where
  "datum_equiv fp_eq (D_scalar m a) (D_scalar m' b) = scalar_equiv fp_eq a b"
| "datum_equiv fp_eq (D_array m xs) (D_array m' ys) = (length xs = length ys \<and> equiv_array fp_eq xs ys)"
| "datum_equiv fp_eq (D_table m xs) (D_table m' ys) = (length xs = length ys \<and> equiv_table fp_eq xs ys)"
| "datum_equiv fp_eq a b = False"
| "equiv_array fp_eq (x # xs) (y # ys) = (datum_equiv fp_eq x y \<and> equiv_array fp_eq xs ys)"
| "equiv_array fp_eq xs ys = True"
| "equiv_table fp_eq [] ys = True"
| "equiv_table fp_eq ((k, x) # xs) ys =
     (case tab_find ys k of None \<Rightarrow> False | Some j \<Rightarrow> datum_equiv fp_eq x (snd (ys ! j)) \<and> equiv_table fp_eq xs ys)"

text \<open>A result that is not \<^verbatim>\<open>ok\<close> is its error.\<close>

definition toml_merge :: "'e + toml_datum \<Rightarrow> 'e + toml_datum \<Rightarrow> string + toml_datum" where
  "toml_merge r1 r2 = (case r1 of Inl e \<Rightarrow> Inl ''param error: r1 not ok''
     | Inr t1 \<Rightarrow> (case r2 of Inl e \<Rightarrow> Inl ''param error: r2 not ok''
         | Inr t2 \<Rightarrow> (case datum_copy t1 of Inl e \<Rightarrow> Inl e | Inr t \<Rightarrow> datum_merge t t2)))"

definition toml_equiv :: "(string \<Rightarrow> string \<Rightarrow> bool) \<Rightarrow> 'e + toml_datum \<Rightarrow> 'e + toml_datum \<Rightarrow> bool" where
  "toml_equiv fp_eq r1 r2 = (case (r1, r2) of (Inr t1, Inr t2) \<Rightarrow> datum_equiv fp_eq t1 t2 | _ \<Rightarrow> False)"

section \<open>Marking whole trees\<close>

fun set_flag_recursive :: "toml_datum \<Rightarrow> toml_datum" where
  "set_flag_recursive DATUM_ZERO = DATUM_ZERO"
| "set_flag_recursive (D_scalar m s) = D_scalar (m\<lparr>flag_inlined := True\<rparr>) s"
| "set_flag_recursive (D_array m xs) = D_array (m\<lparr>flag_inlined := True\<rparr>) (map set_flag_recursive xs)"
| "set_flag_recursive (D_table m kvs) = D_table (m\<lparr>flag_inlined := True\<rparr>) (map (\<lambda>(k, v). (k, set_flag_recursive v)) kvs)"

fun set_source_recursive :: "string option \<Rightarrow> toml_datum \<Rightarrow> toml_datum" where
  "set_source_recursive s DATUM_ZERO = DATUM_ZERO"
| "set_source_recursive s (D_scalar m x) = D_scalar (m\<lparr>d_source := s\<rparr>) x"
| "set_source_recursive s (D_array m xs) = D_array (m\<lparr>d_source := s\<rparr>) (map (set_source_recursive s) xs)"
| "set_source_recursive s (D_table m kvs) = D_table (m\<lparr>d_source := s\<rparr>) (map (\<lambda>(k, v). (k, set_source_recursive s v)) kvs)"

section \<open>Lookup\<close>

lemma tab_find_map_of: "map_of kvs key = map_option (\<lambda>i. snd (kvs ! i)) (tab_find kvs key)"
  by (induction kvs key rule: tab_find.induct) (auto simp: option.map_comp o_def)

lemma tab_find_None: "tab_find kvs key = None \<longleftrightarrow> key \<notin> fst ` set kvs"
  by (induction kvs key rule: tab_find.induct) auto

lemma tab_find_Some: "tab_find kvs key = Some i \<Longrightarrow> i < length kvs \<and> fst (kvs ! i) = key"
  by (induction kvs key arbitrary: i rule: tab_find.induct) (auto split: if_splits)

lemma tab_find_append: "key \<notin> fst ` set xs \<Longrightarrow> tab_find (xs @ ys) key = map_option (\<lambda>i. length xs + i) (tab_find ys key)"
proof (induction xs)
  case (Cons a xs)
  then show ?case by (cases a; cases "tab_find ys key") auto
qed (cases "tab_find ys key", simp_all)

lemma tab_find_nth: "distinct (map fst kvs) \<Longrightarrow> i < length kvs \<Longrightarrow> tab_find kvs (fst (kvs ! i)) = Some i"
proof (induction kvs arbitrary: i)
  case (Cons a kvs)
  show ?case
  proof (cases i)
    case (Suc j)
    then have "fst (kvs ! j) \<in> fst ` set kvs" using Cons.prems(2) by simp
    then have "fst (kvs ! j) \<noteq> fst a" using Cons.prems(1) by (metis distinct.simps(2) list.map(2) list.set_map)
    then show ?thesis using Cons Suc by (cases a) auto
  qed (cases a, simp)
qed simp

lemma set_value_simps [simp]: "length (set_value kvs i v) = length kvs" "map fst (set_value kvs i v) = map fst kvs"
  "i < length kvs \<Longrightarrow> set_value kvs i v ! i = (fst (kvs ! i), v)" "i \<noteq> j \<Longrightarrow> set_value kvs i v ! j = kvs ! j"
  by (simp_all add: set_value_def map_update flip: nth_map)
   (metis list_update_id list_update_beyond map_update not_less nth_map)

lemma set_value_last [simp]: "set_value (kvs @ [(k, w)]) (length kvs) v = kvs @ [(k, v)]"
  by (simp add: set_value_def)

text \<open>Adding a key: what it needs and what it makes.\<close>

lemma tab_add_new: "key \<notin> fst ` set kvs \<Longrightarrow> length kvs < TABLE_MAX \<Longrightarrow> tab_add kvs key v = Inr (kvs @ [(key, v)])"
  by (simp add: tab_add_def tab_emplace_def tab_find_None[THEN iffD2] del: not_None_eq)

section \<open>Well-formed trees\<close>

fun wf_datum :: "toml_datum \<Rightarrow> bool" where
  "wf_datum DATUM_ZERO = False"
| "wf_datum (D_scalar m s) = (\<not> flag_stdexpr m)"
| "wf_datum (D_array m xs) = (\<not> flag_stdexpr m \<and> length xs \<le> ARRAY_MAX \<and> list_all wf_datum xs)"
| "wf_datum (D_table m kvs) = (distinct (map fst kvs) \<and> length kvs \<le> TABLE_MAX \<and> list_all (\<lambda>(k, v). wf_datum v) kvs)"

abbreviation wf_table :: "(string \<times> toml_datum) list \<Rightarrow> bool" where
  "wf_table kvs \<equiv> distinct (map fst kvs) \<and> length kvs \<le> TABLE_MAX \<and> list_all (\<lambda>(k, v). wf_datum v) kvs"

lemma type_container: "datum_type d = TOML_TABLE \<longleftrightarrow> (\<exists>m kvs. d = D_table m kvs)" "datum_type d = TOML_ARRAY \<longleftrightarrow> (\<exists>m xs. d = D_array m xs)"
proof -
  have "scalar_type s \<noteq> TOML_TABLE" "scalar_type s \<noteq> TOML_ARRAY" for s by (cases s; simp)+
  then show "datum_type d = TOML_TABLE \<longleftrightarrow> (\<exists>m kvs. d = D_table m kvs)" "datum_type d = TOML_ARRAY \<longleftrightarrow> (\<exists>m xs. d = D_array m xs)"
    by (cases d; simp)+
qed

lemma wf_known: "wf_datum d \<Longrightarrow> datum_type d \<noteq> TOML_UNKNOWN"
proof (cases d)
  case (D_scalar m s)
  then show ?thesis by (cases s) simp_all
qed simp_all

text \<open>In a well-formed table every key that is found is a duplicate.\<close>

lemma tab_add_wf:
  assumes "wf_table kvs"
  shows "tab_add kvs key v = (if key \<in> fst ` set kvs then Inl ''duplicate key''
    else if length kvs < TABLE_MAX then Inr (kvs @ [(key, v)]) else Inl ''table too large'')"
proof (cases "tab_find kvs key")
  case (Some i)
  then have i: "i < length kvs" "fst (kvs ! i) = key" using tab_find_Some by auto
  then have "wf_datum (snd (kvs ! i))" using assms by (auto simp: list_all_length split: prod.splits) (metis prod.collapse)
  moreover have "key \<in> fst ` set kvs" using i by (metis image_eqI nth_mem)
  ultimately show ?thesis using Some by (simp add: tab_add_def tab_emplace_def wf_known)
next
  case None
  then show ?thesis using tab_find_None[of kvs key] tab_add_new[of key kvs v] by (auto simp: tab_add_def tab_emplace_def)
qed

lemma wf_tableD: "wf_table kvs \<Longrightarrow> (k, v) \<in> set kvs \<Longrightarrow> wf_datum v"
  by (auto simp: list_all_iff)

section \<open>A copy is the same tree\<close>

lemma copy_same:
  "wf_datum d \<Longrightarrow> datum_copy d = Inr d"
  "wf_table (dst @ kvs) \<Longrightarrow> copy_table dst kvs = Inr (dst @ kvs)"
  "length (ds @ xs) \<le> ARRAY_MAX \<Longrightarrow> list_all wf_datum xs \<Longrightarrow> copy_array ds xs = Inr (ds @ xs)"
proof (induction d and dst kvs and ds xs rule: datum_copy_copy_table_copy_array.induct)
  case (6 dst k v kvs)
  then have e: "tab_emplace dst k = Inr (dst @ [(k, DATUM_ZERO)], length dst)"
    by (auto simp: tab_emplace_def tab_find_None[THEN iffD2])
  have c: "datum_copy v = Inr v" using "6.IH"(1)[OF e refl] "6.prems" by simp
  show ?case using "6.IH"(2)[OF e refl c] "6.prems" e c by simp
next
  case (8 ds x xs)
  then have e: "arr_emplace ds = Inr (ds @ [DATUM_ZERO])" by (simp add: arr_emplace_def)
  have c: "datum_copy x = Inr x" using "8.IH"(1)[OF e] "8.prems" by simp
  show ?case using "8.IH"(2)[OF e c] "8.prems" e c by simp
qed simp_all

section \<open>Comparing is comparing meanings\<close>

text \<open>
  What a tree means: its tables are finite maps from keys to meanings, without an order. A float is what \<open>fpv\<close> makes of its text, the same for all
  NaNs.
\<close>

datatype 'f mtree = M_none | M_str string | M_int int | M_real 'f | M_bool bool | M_stamp toml_type "int list" | M_list "'f mtree list"
  | M_map "(string, 'f mtree) fmap"

definition date_fields :: "tsval \<Rightarrow> int list" where
  "date_fields ts = [ts_year ts, ts_month ts, ts_day ts]"

definition time_fields :: "tsval \<Rightarrow> int list" where
  "time_fields ts = [ts_hour ts, ts_minute ts, ts_sec ts, ts_usec ts]"

fun scalar_meaning :: "(string \<Rightarrow> 'f) \<Rightarrow> toml_scalar \<Rightarrow> 'f mtree" where
  "scalar_meaning fpv (S_string s) = M_str s"
| "scalar_meaning fpv (S_int64 n) = M_int n"
| "scalar_meaning fpv (S_fp64 t) = M_real (fpv t)"
| "scalar_meaning fpv (S_boolean b) = M_bool b"
| "scalar_meaning fpv (S_date ts) = M_stamp TOML_DATE (date_fields ts)"
| "scalar_meaning fpv (S_time ts) = M_stamp TOML_TIME (time_fields ts)"
| "scalar_meaning fpv (S_datetime ts) = M_stamp TOML_DATETIME (date_fields ts @ time_fields ts)"
| "scalar_meaning fpv (S_datetimetz ts) = M_stamp TOML_DATETIMETZ (date_fields ts @ time_fields ts @ [ts_tz ts])"

fun meaning :: "(string \<Rightarrow> 'f) \<Rightarrow> toml_datum \<Rightarrow> 'f mtree" where
  "meaning fpv DATUM_ZERO = M_none"
| "meaning fpv (D_scalar m s) = scalar_meaning fpv s"
| "meaning fpv (D_array m xs) = M_list (map (meaning fpv) xs)"
| "meaning fpv (D_table m kvs) = M_map (fmap_of_list (map (\<lambda>(k, v). (k, meaning fpv v)) kvs))"

lemma scalar_equiv_meaning: "scalar_equiv (\<lambda>s t. fpv s = fpv t) a b \<longleftrightarrow> scalar_meaning fpv a = scalar_meaning fpv b"
  by (cases a; cases b) (auto simp: same_date_def same_time_def date_fields_def time_fields_def)

lemma scalar_not_table: "scalar_meaning fpv s \<noteq> M_none" "scalar_meaning fpv s \<noteq> M_list xs" "scalar_meaning fpv s \<noteq> M_map f"
  by (cases s; simp)+

lemma map_of_meaning: "map_of (map (\<lambda>(k, v). (k, f v)) kvs) key = map_option f (map_of kvs key)"
  by (induction kvs) auto

text \<open>Two tables of the same size with distinct keys are the same map if every pair of the first is in the second.\<close>

lemma same_map_iff:
  assumes "distinct (map fst xs)" "distinct (map fst ys)" "length xs = length ys"
  shows "fmap_of_list xs = fmap_of_list ys \<longleftrightarrow> (\<forall>(k, x) \<in> set xs. map_of ys k = Some x)"
proof
  assume "fmap_of_list xs = fmap_of_list ys"
  then have "map_of xs = map_of ys" by (metis fmap_of_list.rep_eq)
  then show "\<forall>(k, x) \<in> set xs. map_of ys k = Some x" using assms(1) by auto (metis map_of_is_SomeI)
next
  assume a: "\<forall>(k, x) \<in> set xs. map_of ys k = Some x"
  then have sub: "fst ` set xs \<subseteq> fst ` set ys" by (auto dest!: map_of_SomeD intro: image_eqI)
  have "card (fst ` set xs) = card (fst ` set ys)" using assms by (metis distinct_card length_map list.set_map)
  then have same: "fst ` set xs = fst ` set ys" using sub by (simp add: card_subset_eq)
  have "map_of xs k = map_of ys k" for k
  proof (cases "map_of xs k")
    case None
    then show ?thesis using same by (metis map_of_eq_None_iff)
  next
    case (Some x)
    then have "(k, x) \<in> set xs" by (rule map_of_SomeD)
    then show ?thesis using a Some by fastforce
  qed
  then show "fmap_of_list xs = fmap_of_list ys" by (intro fmap_ext) (simp add: fmlookup_of_list)
qed

lemma length_meaning [simp]: "map fst (map (\<lambda>(k, v). (k, f v)) kvs) = map fst kvs"
  by (induction kvs) auto

lemma equiv_meaning:
  "fp_eq = (\<lambda>s t. fpv s = fpv t) \<Longrightarrow> wf_datum a \<Longrightarrow> wf_datum b \<Longrightarrow> datum_equiv fp_eq a b \<longleftrightarrow> meaning fpv a = meaning fpv b"
  "fp_eq = (\<lambda>s t. fpv s = fpv t) \<Longrightarrow> list_all wf_datum xs \<Longrightarrow> list_all wf_datum ys \<Longrightarrow> length xs = length ys \<Longrightarrow>
     equiv_array fp_eq xs ys \<longleftrightarrow> map (meaning fpv) xs = map (meaning fpv) ys"
  "fp_eq = (\<lambda>s t. fpv s = fpv t) \<Longrightarrow> list_all (\<lambda>(k, v). wf_datum v) kxs \<Longrightarrow> wf_table kys \<Longrightarrow>
     equiv_table fp_eq kxs kys \<longleftrightarrow> (\<forall>(k, x) \<in> set kxs. map_option (meaning fpv) (map_of kys k) = Some (meaning fpv x))"
proof (induction fp_eq a b and fp_eq xs ys and fp_eq kxs kys rule: datum_equiv_equiv_array_equiv_table.induct)
  case (3 fp_eq m xs m' ys)
  let ?F = "map (\<lambda>(k, v). (k, meaning fpv v))"
  note wf = "3.prems"(2,3)[unfolded wf_datum.simps]
  show ?case
  proof (cases "length xs = length ys")
    case True
    have "fmap_of_list (?F xs) = fmap_of_list (?F ys) \<longleftrightarrow> (\<forall>(k, x) \<in> set (?F xs). map_of (?F ys) k = Some x)"
      using same_map_iff[of "?F xs" "?F ys"] wf True by (simp only: length_meaning length_map)
    also have "\<dots> \<longleftrightarrow> (\<forall>(k, x) \<in> set xs. map_option (meaning fpv) (map_of ys k) = Some (meaning fpv x))"
      by (auto simp: map_of_meaning simp del: map_option_eq_Some)
    also have "\<dots> \<longleftrightarrow> equiv_table fp_eq xs ys" using "3.IH" "3.prems"(1) wf True by metis
    finally show ?thesis using True by (simp only: datum_equiv.simps meaning.simps mtree.inject simp_thms)
  next
    case False
    then have "fst ` set xs \<noteq> fst ` set ys" using wf by (metis distinct_card length_map list.set_map)
    moreover have "dom (map_of (?F kvs)) = fst ` set kvs" for kvs by (metis dom_map_of_conv_image_fst length_meaning list.set_map)
    ultimately have "fmap_of_list (?F xs) \<noteq> fmap_of_list (?F ys)" by (metis fmap_of_list.rep_eq)
    then show ?thesis using False by simp
  qed
next
  case (8 fp_eq k x xs ys)
  show ?case
  proof (cases "tab_find ys k")
    case None
    then show ?thesis using tab_find_map_of[of ys k] by simp
  next
    case (Some j)
    then have j: "map_of ys k = Some (snd (ys ! j))" using tab_find_map_of[of ys k] by simp
    then have "wf_datum (snd (ys ! j))" using wf_tableD[OF "8.prems"(3)] map_of_SomeD by metis
    then have x: "datum_equiv fp_eq x (snd (ys ! j)) \<longleftrightarrow> meaning fpv (snd (ys ! j)) = meaning fpv x" using "8.IH"(1)[OF Some] "8.prems" by auto
    have "equiv_table fp_eq xs ys \<longleftrightarrow> (\<forall>(k, x) \<in> set xs. map_option (meaning fpv) (map_of ys k) = Some (meaning fpv x))"
      using "8.IH"(2)[OF Some] "8.prems" by (simp only: list.pred_inject prod.case simp_thms)
    then show ?thesis by (simp add: Some x j del: map_option_eq_Some map_of_eq_Some_iff)
  qed
next
  case (2 fp_eq m xs m' ys)
  then show ?case by (cases "length xs = length ys") (auto dest: map_eq_imp_length_eq)
qed (auto simp: scalar_equiv_meaning scalar_not_table scalar_not_table[symmetric])

section \<open>Merging\<close>

lemma copy_array_result:
  "list_all wf_datum xs \<Longrightarrow> copy_array ds xs = Inr r \<Longrightarrow> length ds \<le> ARRAY_MAX \<Longrightarrow> r = ds @ xs \<and> length r \<le> ARRAY_MAX"
  by (induction xs arbitrary: ds) (fastforce simp: arr_emplace_def copy_same(1) split: if_splits)+

lemma emplace_cases:
  assumes "tab_emplace kvs k = Inr (kvs1, i)"
  obtains (old) "tab_find kvs k = Some i" "kvs1 = kvs" "i < length kvs" "fst (kvs ! i) = k" "map_of kvs k = Some (snd (kvs ! i))"
    | (fresh) "kvs1 = kvs @ [(k, DATUM_ZERO)]" "i = length kvs" "k \<notin> fst ` set kvs" "length kvs < TABLE_MAX" "map_of kvs k = None"
proof (cases "tab_find kvs k")
  case None
  then have "k \<notin> fst ` set kvs" using tab_find_None[of kvs k] by simp
  then show ?thesis using assms fresh by (auto simp: tab_emplace_def None map_of_eq_None_iff split: if_splits)
next
  case (Some j)
  then have ij: "kvs1 = kvs" "i = j" using assms by (simp_all add: tab_emplace_def)
  have "map_of kvs k = Some (snd (kvs ! i))" using tab_find_map_of[of kvs k] Some ij by simp
  then show ?thesis using old tab_find_Some[OF Some] Some ij by blast
qed

lemma wf_set_value: "wf_table kvs \<Longrightarrow> wf_datum w \<Longrightarrow> wf_table (set_value kvs i w)"
proof -
  assume a: "wf_table kvs" "wf_datum w"
  have "set (set_value kvs i w) \<subseteq> insert (fst (kvs ! i), w) (set kvs)" unfolding set_value_def by (rule set_update_subset_insert)
  then show ?thesis using a by (auto simp: list_all_iff)
qed

lemma map_of_set_value:
  assumes "distinct (map fst kvs)" "i < length kvs"
  shows "map_of (set_value kvs i w) = (map_of kvs)(fst (kvs ! i) \<mapsto> w)"
proof
  fix k
  have d: "distinct (map fst (set_value kvs i w))" using assms(1) by simp
  show "map_of (set_value kvs i w) k = ((map_of kvs)(fst (kvs ! i) \<mapsto> w)) k"
  proof (cases "k = fst (kvs ! i)")
    case True
    have "(k, w) \<in> set (set_value kvs i w)" using assms(2) True by (metis nth_mem set_value_simps(1,3))
    then show ?thesis using d True by (simp add: map_of_is_SomeI)
  next
    case False
    have "tab_find (set_value kvs i w) k = tab_find kvs k"
    proof (cases "tab_find kvs k")
      case None
      then show ?thesis by (metis list.set_map set_value_simps(2) tab_find_None)
    next
      case (Some j)
      then have "j < length kvs" "fst (kvs ! j) = k" "j \<noteq> i" using tab_find_Some False by auto
      then show ?thesis using tab_find_nth[OF d, of j] Some by simp
    qed
    moreover have "tab_find kvs k = Some j \<Longrightarrow> set_value kvs i w ! j = kvs ! j" for j using tab_find_Some False by (metis set_value_simps(4))
    ultimately show ?thesis using False by (cases "tab_find kvs k") (simp_all add: tab_find_map_of)
  qed
qed

lemma merge_wf:
  "datum_merge d s = Inr t \<Longrightarrow> wf_datum d \<Longrightarrow> wf_datum s \<Longrightarrow> wf_datum t"
  "merge_table dst kvs = Inr r \<Longrightarrow> wf_table dst \<Longrightarrow> list_all (\<lambda>(k, v). wf_datum v) kvs \<Longrightarrow> wf_table r"
proof (induction d s and dst kvs arbitrary: t and r rule: datum_merge_merge_table.induct)
  case (1 dst src)
  show ?case
  proof (cases "datum_type dst = datum_type src")
    case True
    show ?thesis
    proof (cases src)
      case (D_table m kvs)
      then obtain m' dkvs where d: "dst = D_table m' dkvs" using True type_container[of dst] by auto
      then obtain r where "merge_table dkvs kvs = Inr r" "t = D_table m' r"
        using "1.prems"(1) D_table unfolding datum_merge.simps[of dst src] by (auto split: sum.splits)
      then show ?thesis using "1.IH"[of m kvs m' dkvs r] "1.prems" True D_table d by simp
    next
      case (D_array m xs)
      then obtain m' ds where d: "dst = D_array m' ds" using True type_container[of dst] by auto
      then consider "t = src" | r where "copy_array ds xs = Inr r" "t = D_array m' r"
        using "1.prems" D_array copy_same(1)[of src] unfolding datum_merge.simps[of dst src] by (auto split: sum.splits if_splits)
      then show ?thesis
      proof cases
        case 2
        then show ?thesis using copy_array_result[of xs ds r] "1.prems" D_array d by (auto simp: list_all_append)
      qed (use "1.prems" in simp)
    qed (use "1.prems" True copy_same(1)[of src] in \<open>auto simp: datum_merge.simps\<close>)
  qed (use "1.prems" copy_same(1)[of src] in \<open>auto simp: datum_merge.simps\<close>)
next
  case (3 dst k v kvs)
  obtain dst1 i where e: "tab_emplace dst k = Inr (dst1, i)" using "3.prems"(1) by (auto split: sum.splits)
  let ?q = "if datum_type (snd (dst1 ! i)) \<noteq> TOML_UNKNOWN then datum_merge (snd (dst1 ! i)) v else datum_copy v"
  obtain w where w: "?q = Inr w" "merge_table (set_value dst1 i w) kvs = Inr r" using "3.prems"(1) e by (auto split: sum.splits)
  note IH = "3.IH"(2)[OF e refl w(1) w(2)]
  show ?case using e
  proof (cases rule: emplace_cases)
    case old
    have x: "wf_datum (snd (dst ! i))" using wf_tableD[OF "3.prems"(2)] old(5) map_of_SomeD by metis
    then have "datum_merge (snd (dst ! i)) v = Inr w" using w(1) old(2) wf_known by simp
    then have "wf_datum w" using "3.IH"(1)[OF e refl] x old(2) wf_known "3.prems"(3) by simp
    then show ?thesis using IH wf_set_value[OF "3.prems"(2)] old(2) "3.prems"(3) by simp
  next
    case fresh
    then have "w = v" using w(1) copy_same(1)[of v] "3.prems"(3) by simp
    then show ?thesis using IH fresh "3.prems"(2,3) by simp
  qed
qed simp

text \<open>What a slot becomes: \<open>x\<close> in the first table, \<open>y\<close> in the second, \<open>z\<close> in the result.\<close>

definition merged_slot :: "toml_datum option \<Rightarrow> toml_datum option \<Rightarrow> toml_datum option \<Rightarrow> bool" where
  "merged_slot x y z = (case y of None \<Rightarrow> z = x
     | Some v \<Rightarrow> (case x of None \<Rightarrow> z = Some v | Some d \<Rightarrow> (case datum_merge d v of Inr w \<Rightarrow> z = Some w | Inl e \<Rightarrow> False)))"

lemma merge_table_lookup:
  "merge_table dst kvs = Inr r \<Longrightarrow> wf_table dst \<Longrightarrow> wf_table kvs \<Longrightarrow> merged_slot (map_of dst key) (map_of kvs key) (map_of r key)"
proof (induction kvs arbitrary: dst)
  case Nil
  then show ?case by (simp add: merged_slot_def)
next
  case (Cons kv kvs)
  obtain k v where kv: "kv = (k, v)" by fastforce
  obtain dst1 i where e: "tab_emplace dst k = Inr (dst1, i)" using Cons.prems(1) kv by (auto split: sum.splits)
  let ?q = "if datum_type (snd (dst1 ! i)) \<noteq> TOML_UNKNOWN then datum_merge (snd (dst1 ! i)) v else datum_copy v"
  obtain w where w: "?q = Inr w" "merge_table (set_value dst1 i w) kvs = Inr r" using Cons.prems(1) e kv by (auto split: sum.splits)
  have k: "map_of kvs k = None" using Cons.prems(3) kv by (simp add: map_of_eq_None_iff)
  have "wf_datum v" "wf_table kvs" using Cons.prems(3) kv by simp_all
  note IH = Cons.IH[OF w(2) _ this(2)]
  show ?case using e
  proof (cases rule: emplace_cases)
    case old
    have x: "wf_datum (snd (dst ! i))" using wf_tableD[OF Cons.prems(2)] old(5) map_of_SomeD by metis
    then have m: "datum_merge (snd (dst ! i)) v = Inr w" using w(1) old(2) wf_known by simp
    have "wf_table (set_value dst i w)" using wf_set_value[OF Cons.prems(2)] merge_wf(1)[OF m x \<open>wf_datum v\<close>] by simp
    then have "merged_slot (((map_of dst)(k \<mapsto> w)) key) (map_of kvs key) (map_of r key)"
      using IH old map_of_set_value[of dst i w] Cons.prems(2) by simp
    then show ?thesis using k m old(5) kv by (cases "key = k") (simp_all add: merged_slot_def)
  next
    case fresh
    then have "w = v" using w(1) copy_same(1)[of v] \<open>wf_datum v\<close> by simp
    then have "merged_slot (map_of (dst @ [(k, v)]) key) (map_of kvs key) (map_of r key)" using IH fresh Cons.prems(2) \<open>wf_datum v\<close> by simp
    moreover have "map_of (dst @ [(k, v)]) key = ((map_of dst)(k \<mapsto> v)) key" using fresh(5) by (auto simp: map_add_def split: option.split)
    ultimately have "merged_slot (((map_of dst)(k \<mapsto> v)) key) (map_of kvs key) (map_of r key)" by (simp only:)
    then show ?thesis using k fresh(5) kv by (cases "key = k") (simp_all add: merged_slot_def)
  qed
qed

text \<open>The documented rule for one key, in terms of the values the two tables have for it.\<close>

definition merge_rule :: "toml_datum \<Rightarrow> toml_datum \<Rightarrow> toml_datum \<Rightarrow> bool" where
  "merge_rule x y z \<longleftrightarrow>
     (if y = DATUM_ZERO then z = x
      else case (x, y) of
        (D_table m xs, D_table m' ys) \<Rightarrow> datum_merge x y = Inr z
      | (D_array m xs, D_array m' ys) \<Rightarrow> z = (if is_array_of_tables x \<and> is_array_of_tables y then D_array m (xs @ ys) else y)
      | _ \<Rightarrow> z = y)"

lemma merge_entry:
  assumes "datum_merge x y = Inr z" "wf_datum x" "wf_datum y"
  shows "merge_rule x y z"
proof -
  have c: "datum_copy y = Inr y" using copy_same(1) assms(3) by simp
  show ?thesis
  proof (cases y)
    case (D_array m' ys)
    then show ?thesis
      using assms c copy_array_result[of ys] by (cases x) (auto simp: merge_rule_def datum_merge.simps split: sum.splits if_splits)
  next
    case (D_table m' ys)
    then show ?thesis using assms c by (cases x) (auto simp: merge_rule_def datum_merge.simps split: if_splits)
  qed (use assms c in \<open>auto simp: merge_rule_def datum_merge.simps split: toml_datum.splits if_splits\<close>)
qed

lemma toml_get_map_of: "toml_get (D_table m kvs) key = (case map_of kvs key of None \<Rightarrow> DATUM_ZERO | Some v \<Rightarrow> v)"
  by (simp add: tab_find_map_of split: option.split)

text \<open>
  Merging two tables follows the documented rule at every key: a key that the second one lacks keeps its value, a table is merged with a table, an array of
  tables is extended by an array of tables, and everything else is replaced. The result is well-formed again, so the rule holds at every level.
\<close>

theorem merge_by_key:
  assumes "wf_datum (D_table m xs)" "wf_datum (D_table m' ys)" "datum_merge (D_table m xs) (D_table m' ys) = Inr t"
  shows "wf_datum t \<and> merge_rule (toml_get (D_table m xs) key) (toml_get (D_table m' ys) key) (toml_get t key)"
proof -
  obtain r where r: "merge_table xs ys = Inr r" "t = D_table m r" using assms(3) by (auto simp: datum_merge.simps split: sum.splits)
  have wfs: "wf_table xs" "wf_table ys" using assms(1,2) by simp_all
  have "merged_slot (map_of xs key) (map_of ys key) (map_of r key)" using merge_table_lookup[OF r(1) wfs] .
  moreover have "map_of kvs key = Some v \<Longrightarrow> wf_table kvs \<Longrightarrow> wf_datum v" for kvs v using wf_tableD map_of_SomeD by metis
  ultimately have "merge_rule (toml_get (D_table m xs) key) (toml_get (D_table m' ys) key) (toml_get t key)"
    using wfs merge_entry unfolding r(2) toml_get_map_of
    by (cases "map_of xs key"; cases "map_of ys key") (auto simp: merged_slot_def merge_rule_def[of DATUM_ZERO] merge_rule_def[of _ DATUM_ZERO] split: sum.splits)
  then show ?thesis using merge_wf(1)[OF assms(3,1,2)] by simp
qed

end
