(* ===== verification/Toml_Parse.thy ===== *)
theory Toml_Parse
  imports Toml_Tree Process
begin

text \<open>
  The parser of \<^verbatim>\<open>src/utils/config/tomlc17.c\<close>: strings with their escapes, keys, values, inline arrays and tables, headers and the loop over the document. A
  pointer into the tree is the path of indices that leads to the place it points to. The asserts of the code are the value
  \<open>Assert_failed\<close>. The recursion of the values is on fuel; that the fuel chosen is enough, and that no assert fails, is shown in \<open>Toml_Safety\<close>.
\<close>

section \<open>Places in a tree\<close>

fun node :: "toml_datum \<Rightarrow> nat list \<Rightarrow> toml_datum" where
  "node d [] = d"
| "node (D_table m kvs) (i # p) = (if i < length kvs then node (snd (kvs ! i)) p else DATUM_ZERO)"
| "node (D_array m xs) (i # p) = (if i < length xs then node (xs ! i) p else DATUM_ZERO)"
| "node d (i # p) = DATUM_ZERO"

fun node_upd :: "nat list \<Rightarrow> (toml_datum \<Rightarrow> toml_datum) \<Rightarrow> toml_datum \<Rightarrow> toml_datum" where
  "node_upd [] f d = f d"
| "node_upd (i # p) f (D_table m kvs) = (if i < length kvs then D_table m (set_value kvs i (node_upd p f (snd (kvs ! i)))) else D_table m kvs)"
| "node_upd (i # p) f (D_array m xs) = (if i < length xs then D_array m (xs[i := node_upd p f (xs ! i)]) else D_array m xs)"
| "node_upd (i # p) f d = d"

definition put_table :: "nat list \<Rightarrow> dmeta \<Rightarrow> (string \<times> toml_datum) list \<Rightarrow> toml_datum \<Rightarrow> toml_datum" where
  "put_table path m kvs root = node_upd path (\<lambda>d. D_table m kvs) root"

text \<open>The table at a place; the operations on it assert that it is one.\<close>

definition in_table :: "toml_datum \<Rightarrow> nat list \<Rightarrow> (dmeta \<Rightarrow> (string \<times> toml_datum) list \<Rightarrow> 'a toml) \<Rightarrow> 'a toml" where
  "in_table root path f = (case node root path of D_table m kvs \<Rightarrow> f m kvs | d \<Rightarrow> Inl Assert_failed)"

lemma in_table_at [simp]: "node root path = D_table m kvs \<Longrightarrow> in_table root path f = f m kvs"
  by (simp add: in_table_def)

lemma in_table_Inr: "in_table root path f = Inr y \<longleftrightarrow> (\<exists>m kvs. node root path = D_table m kvs \<and> f m kvs = Inr y)"
  by (auto simp: in_table_def split: toml_datum.splits)

lemma in_table_cong [fundef_cong]:
  "root = root' \<Longrightarrow> path = path' \<Longrightarrow> (\<And>m kvs. node root' path' = D_table m kvs \<Longrightarrow> f m kvs = g m kvs) \<Longrightarrow> in_table root path f = in_table root' path' g"
  by (auto simp: in_table_def split: toml_datum.split)

section \<open>Strings\<close>

definition white_set :: "char set" where
  "white_set = {CHR '' '', TAB, CR, LF}"

definition simple_escape :: "char \<Rightarrow> char option" where
  "simple_escape e = map_of [(DQ, DQ), (BS, BS), (CHR ''b'', CHR 0x08), (CHR ''t'', TAB), (CHR ''n'', LF), (CHR ''f'', CHR 0x0C), (CHR ''r'', CR),
     (CHR ''e'', CHR 0x1B)] e"

text \<open>The hexadecimal digits as an \<^verbatim>\<open>int32_t\<close>.\<close>

definition hex_ucs :: "string \<Rightarrow> int" where
  "hex_ucs buf = (let v = fst (strtoll buf 16) mod 2 ^ 32 in if v \<ge> 2 ^ 31 then v - 2 ^ 32 else v)"

definition ucs_bytes :: "int \<Rightarrow> string option" where
  "ucs_bytes ucs = ucs_to_utf8 (nat (ucs mod 2 ^ 32))"

text \<open>The loop of \<^verbatim>\<open>parse_norm\<close> from the first backslash on. The text is written over the text that is read, but never past it.\<close>

function unescape :: "nat \<Rightarrow> string \<Rightarrow> string toml" where
  "unescape lineno p = (case p of [] \<Rightarrow> Inr []
     | c # cs \<Rightarrow>
         if c = NUL then Inr []
         else if c \<noteq> BS then then_do (unescape lineno cs) (\<lambda>r. Inr (c # r))
         else let e = ch_at cs 0 in
           case simple_escape e of Some ch \<Rightarrow> then_do (unescape lineno (drop 1 cs)) (\<lambda>r. Inr (ch # r))
           | None \<Rightarrow>
             if e = CHR ''x''
             then (case ucs_bytes (hex_ucs (take 2 (drop 1 cs))) of None \<Rightarrow> Inl (Syntax_error lineno ''error converting UCS %s to UTF8'')
               | Some bs \<Rightarrow> then_do (unescape lineno (drop 3 cs)) (\<lambda>r. Inr (bs @ r)))
             else if e = CHR ''u'' \<or> e = CHR ''U''
             then (let sz = (if e = CHR ''u'' then 4 else 8); ucs = hex_ucs (take sz (drop 1 cs)) in
               if 0xD800 \<le> ucs \<and> ucs \<le> 0xDFFF then Inl (Syntax_error lineno (''invalid UTF8 char '' @ [BS] @ ''u%04x''))
               else (case ucs_bytes ucs of None \<Rightarrow> Inl (Syntax_error lineno ''error converting UCS %s to UTF8'')
                 | Some bs \<Rightarrow> then_do (unescape lineno (drop (1 + sz) cs)) (\<lambda>r. Inr (bs @ r))))
             else if e = CHR '' '' \<or> e = TAB \<or> e = CR
             then (let q = dropWhile (\<lambda>x. x \<in> {CHR '' '', TAB, CR}) cs in
               if ch_at q 0 \<noteq> LF then Inl (Syntax_error lineno ''unexpected char after line-ending backslash'')
               else unescape lineno (dropWhile (\<lambda>x. x \<in> white_set) (drop 1 q)))
             else if e = LF then unescape lineno (dropWhile (\<lambda>x. x \<in> white_set) cs)
             else Inl (Syntax_error lineno (''internal: unknown escape char '' @ [BS] @ ''%c'')))"
  by pat_completeness auto
termination
proof (relation "measure (\<lambda>(lineno, p). length p)")
  fix lineno p c cs e x
  assume "p = (c :: char) # cs"
  moreover have "length (dropWhile P (drop 1 (dropWhile Q cs))) \<le> length cs" for P Q
    using length_dropWhile_le[of P "drop 1 (dropWhile Q cs)"] length_dropWhile_le[of Q cs] by simp
  ultimately show "((lineno, dropWhile (\<lambda>x. x \<in> white_set) (drop 1 x)), lineno, p) \<in> measure (\<lambda>(lineno, p). length p)"
    if "x = dropWhile (\<lambda>x. x \<in> {CHR '' '', TAB, CR}) cs"
    unfolding that by (simp add: le_imp_less_Suc del: drop_Suc)
qed (auto simp: le_imp_less_Suc length_dropWhile_le)

declare unescape.simps [simp del]

definition parse_norm :: "token \<Rightarrow> string toml" where
  "parse_norm tok =
     (if toktyp tok \<in> {TOK_LIT, TOK_LITSTRING, TOK_MLLITSTRING} then Inr (tok_str tok)
      else if toktyp tok \<in> {TOK_STRING, TOK_MLSTRING}
      then (case tok_u tok of
          U_escp None \<Rightarrow> Inr (tok_str tok)
        | U_escp (Some e) \<Rightarrow>
            if ch_at (tok_str tok) e \<noteq> BS then Inl Assert_failed
            else then_do (unescape (tok_lineno tok) (drop e (tok_str tok))) (\<lambda>r. Inr (take e (tok_str tok) @ r))
        | u \<Rightarrow> Inl Assert_failed)
      else Inl (Syntax_error 0 ''internal: arg must be a string''))"

section \<open>Keys\<close>

abbreviation KEYPARTMAX :: nat where "KEYPARTMAX \<equiv> 10"

definition key_token :: "token \<Rightarrow> bool" where
  "key_token tok \<longleftrightarrow> toktyp tok \<in> {TOK_STRING, TOK_LITSTRING, TOK_LIT}"

text \<open>The further parts of a key; \<open>n\<close> more are allowed.\<close>

fun key_loop :: "(string \<Rightarrow> bool) \<Rightarrow> nat \<Rightarrow> string list \<Rightarrow> scanner \<Rightarrow> (string list \<times> scanner) toml" where
  "key_loop sd n parts sp =
     then_do (scan_key sd sp) (\<lambda>(tok, sp1).
       if toktyp tok \<noteq> TOK_DOT then Inr (parts, scan_restore sp sp1)
       else then_do (scan_key sd sp1) (\<lambda>(tok, sp2).
         if \<not> key_token tok then Inl (Syntax_error (tok_lineno tok) ''expects a string in dotted-key'')
         else (case n of 0 \<Rightarrow> Inl (Syntax_error (tok_lineno tok) ''too many key parts'')
           | Suc m \<Rightarrow> then_do (parse_norm tok) (\<lambda>s. key_loop sd m (parts @ [s]) sp2))))"

declare key_loop.simps [simp del]

definition parse_key :: "(string \<Rightarrow> bool) \<Rightarrow> token \<Rightarrow> scanner \<Rightarrow> (string list \<times> scanner) toml" where
  "parse_key sd tok sp =
     (if \<not> key_token tok then Inl (Syntax_error (tok_lineno tok) ''missing key'')
      else case parse_norm tok of
        Inl (Syntax_error l m) \<Rightarrow> Inl (Syntax_error (tok_lineno tok) ''unable to normalize string; probably a unicode issue'')
      | Inl e \<Rightarrow> Inl e
      | Inr s \<Rightarrow> key_loop sd (KEYPARTMAX - 1) [s] sp)"

text \<open>
  Following the parts of a key from the place \<open>path\<close>, making tables where there are none; the new tree and the place of the last table.
\<close>

fun descend_keypart :: "nat \<Rightarrow> nat \<Rightarrow> bool \<Rightarrow> toml_datum \<Rightarrow> nat list \<Rightarrow> string list \<Rightarrow> (toml_datum \<times> nat list) toml" where
  "descend_keypart lineno colno stdtabexpr root path [] = Inr (root, path)"
| "descend_keypart lineno colno stdtabexpr root path (k # ks) =
     in_table root path (\<lambda>m kvs.
       case tab_find kvs k of
         None \<Rightarrow>
           then_do (or_error lineno (tab_add kvs k (D_table ((meta_at lineno colno)\<lparr>flag_stdexpr := stdtabexpr\<rparr>) []))) (\<lambda>kvs1.
             descend_keypart lineno colno stdtabexpr (put_table path m kvs1 root) (path @ [length kvs1 - 1]) ks)
       | Some j \<Rightarrow>
           (case snd (kvs ! j) of
              D_table m' kvs' \<Rightarrow> descend_keypart lineno colno stdtabexpr root (path @ [j]) ks
            | D_array m' xs \<Rightarrow>
                if xs = [] then Inl (Syntax_error lineno ''array %s has no elements'')
                else if datum_type (last xs) \<noteq> TOML_TABLE then Inl (Syntax_error lineno ''array %s must be array of tables'')
                else descend_keypart lineno colno stdtabexpr root (path @ [j, length xs - 1]) ks
            | d \<Rightarrow> Inl (Syntax_error lineno ''cannot locate table at key %s'')))"

section \<open>Values\<close>

definition tok_meta :: "token \<Rightarrow> dmeta" where
  "tok_meta tok = meta_at (tok_lineno tok) (tok_colno tok)"

definition token_to_string :: "token \<Rightarrow> toml_datum toml" where
  "token_to_string tok = then_do (parse_norm tok) (\<lambda>s. Inr (D_scalar (tok_meta tok) (S_string s)))"

definition token_to_timestamp :: "token \<Rightarrow> toml_datum toml" where
  "token_to_timestamp tok = (case tok_u tok of
       U_tsval ts \<Rightarrow>
         (case map_of [(TOK_TIME, S_time ts), (TOK_DATE, S_date ts), (TOK_DATETIME, S_datetime ts), (TOK_DATETIMETZ, S_datetimetz ts)] (toktyp tok) of
            None \<Rightarrow> Inl Assert_failed
          | Some s \<Rightarrow> Inr (D_scalar (tok_meta tok) s))
     | u \<Rightarrow> Inl Assert_failed)"

definition token_to_int64 :: "token \<Rightarrow> toml_datum toml" where
  "token_to_int64 tok = (case tok_u tok of U_int64 v \<Rightarrow> Inr (D_scalar (tok_meta tok) (S_int64 v)) | u \<Rightarrow> Inl Assert_failed)"

definition token_to_fp64 :: "token \<Rightarrow> toml_datum toml" where
  "token_to_fp64 tok = (case tok_u tok of U_fp64 v \<Rightarrow> Inr (D_scalar (tok_meta tok) (S_fp64 v)) | u \<Rightarrow> Inl Assert_failed)"

definition token_to_boolean :: "token \<Rightarrow> toml_datum toml" where
  "token_to_boolean tok = (case tok_u tok of U_b1 v \<Rightarrow> Inr (D_scalar (tok_meta tok) (S_boolean v)) | u \<Rightarrow> Inl Assert_failed)"

text \<open>The values that are one token; \<open>None\<close> for the others.\<close>

definition token_value :: "token \<Rightarrow> toml_datum toml option" where
  "token_value tok =
     (if toktyp tok \<in> {TOK_STRING, TOK_MLSTRING, TOK_LITSTRING, TOK_MLLITSTRING} then Some (token_to_string tok)
      else if toktyp tok \<in> {TOK_TIME, TOK_DATE, TOK_DATETIME, TOK_DATETIMETZ} then Some (token_to_timestamp tok)
      else if toktyp tok = TOK_INTEGER then Some (token_to_int64 tok)
      else if toktyp tok = TOK_FLOAT then Some (token_to_fp64 tok)
      else if toktyp tok = TOK_BOOL then Some (token_to_boolean tok)
      else None)"

text \<open>After a key of an inline table: the equals sign and the value, given how values are parsed.\<close>

definition entry_value :: "(string \<Rightarrow> bool) \<Rightarrow> (token \<Rightarrow> scanner \<Rightarrow> (toml_datum \<times> scanner) toml) \<Rightarrow> scanner \<Rightarrow> (token \<times> toml_datum \<times> scanner) toml" where
  "entry_value sd parse sp =
     then_do (scan_value sd sp) (\<lambda>(eq, sp1).
       if toktyp eq \<noteq> TOK_EQUAL
       then Inl (Syntax_error (tok_lineno eq) (if toktyp eq = TOK_ENDL then ''unexpected newline'' else ''missing '' @ [CHR 0x27] @ ''='' @ [CHR 0x27]))
       else then_do (scan_value sd sp1) (\<lambda>(vt, sp2). then_do (parse vt sp2) (\<lambda>(v, sp3). Inr (vt, v, sp3))))"

text \<open>One pair of an inline table: the table with the pair added.\<close>

definition table_entry :: "(string \<Rightarrow> bool) \<Rightarrow> (token \<Rightarrow> scanner \<Rightarrow> (toml_datum \<times> scanner) toml) \<Rightarrow> token \<Rightarrow> toml_datum \<Rightarrow> scanner \<Rightarrow>
    (toml_datum \<times> scanner) toml" where
  "table_entry sd parse tok tab sp =
     then_do (parse_key sd tok sp) (\<lambda>(keys, sp1).
       then_do (descend_keypart (tok_lineno tok) (tok_colno tok) False tab [] (butlast keys)) (\<lambda>(tab1, path).
         in_table tab1 path (\<lambda>m kvs.
           if flag_inlined m then Inl (Syntax_error (tok_lineno tok) ''inline table cannot be extended'')
           else then_do (entry_value sd parse sp1) (\<lambda>(vt, v, sp2).
             then_do (or_error (tok_lineno vt) (tab_add kvs (last keys) v)) (\<lambda>kvs1.
               Inr (put_table path (m\<lparr>flag_explicit := True\<rparr>) kvs1 tab1, sp2))))))"

definition array_error :: "string + 'a \<Rightarrow> string + 'a" where
  "array_error r = (case r of Inl reason \<Rightarrow> Inl (''while parsing array: '' @ reason) | Inr x \<Rightarrow> Inr x)"

lemma array_error_Inr [simp]: "array_error r = Inr x \<longleftrightarrow> r = Inr x"
  by (cases r) (simp_all add: array_error_def)

text \<open>
  \<^verbatim>\<open>parse_val\<close>, \<^verbatim>\<open>parse_inline_array\<close> and \<^verbatim>\<open>parse_inline_table\<close>. A line feed in an array is one more turn of its loop with nothing changed.
\<close>

fun parse_val :: "(string \<Rightarrow> bool) \<Rightarrow> nat \<Rightarrow> token \<Rightarrow> scanner \<Rightarrow> (toml_datum \<times> scanner) toml"
  and array_loop :: "(string \<Rightarrow> bool) \<Rightarrow> nat \<Rightarrow> dmeta \<Rightarrow> toml_datum list \<Rightarrow> bool \<Rightarrow> scanner \<Rightarrow> (toml_datum \<times> scanner) toml"
  and table_loop :: "(string \<Rightarrow> bool) \<Rightarrow> nat \<Rightarrow> toml_datum \<Rightarrow> bool \<Rightarrow> scanner \<Rightarrow> (toml_datum \<times> scanner) toml" where
  "parse_val sd 0 tok sp = Inl Out_of_fuel"
| "parse_val sd (Suc n) tok sp =
     (case token_value tok of
        Some r \<Rightarrow> then_do r (\<lambda>d. Inr (d, sp))
      | None \<Rightarrow>
          if toktyp tok = TOK_LBRACK then array_loop sd n (tok_meta tok) [] False sp
          else if toktyp tok = TOK_LBRACE then table_loop sd n (D_table (tok_meta tok) []) False sp
          else Inl (Syntax_error (tok_lineno tok) ''missing value''))"
| "array_loop sd 0 m xs need_comma sp = Inl Out_of_fuel"
| "array_loop sd (Suc n) m xs need_comma sp =
     then_do (scan_value sd sp) (\<lambda>(tok, sp1).
       if toktyp tok = TOK_ENDL then array_loop sd n m xs need_comma sp1
       else if toktyp tok = TOK_RBRACK then Inr (set_flag_recursive (D_array m xs), sp1)
       else if toktyp tok = TOK_COMMA
       then (if need_comma then array_loop sd n m xs False sp1
             else Inl (Syntax_error (tok_lineno tok) ''syntax error while parsing array: unexpected comma''))
       else if need_comma then Inl (Syntax_error (tok_lineno tok) ''syntax error while parsing array: missing comma'')
       else then_do (parse_val sd n tok sp1) (\<lambda>(v, sp2).
         then_do (or_error (tok_lineno tok) (array_error (arr_emplace xs))) (\<lambda>ys. array_loop sd n m (ys[length ys - 1 := v]) True sp2)))"
| "table_loop sd 0 tab need_comma sp = Inl Out_of_fuel"
| "table_loop sd (Suc n) tab need_comma sp =
     then_do (scan_key sd sp) (\<lambda>(tok, sp1).
       if toktyp tok = TOK_RBRACE then Inr (set_flag_recursive tab, sp1)
       else if toktyp tok = TOK_COMMA
       then (if need_comma then table_loop sd n tab False sp1 else Inl (Syntax_error (tok_lineno tok) ''unexpected comma''))
       else if toktyp tok = TOK_ENDL then table_loop sd n tab need_comma sp1
       else if need_comma then Inl (Syntax_error (tok_lineno tok) ''missing comma'')
       else then_do (table_entry sd (parse_val sd n) tok tab sp1) (\<lambda>(tab1, sp2). table_loop sd n tab1 True sp2))"

declare parse_val.simps [simp del] array_loop.simps [simp del] table_loop.simps [simp del]

section \<open>Expressions\<close>

record parser =
  p_scanner :: scanner
  p_toptab :: toml_datum
  p_curtab :: "nat list"

text \<open>The table of a header becomes explicit, at the position of the header.\<close>

fun map_meta :: "(dmeta \<Rightarrow> dmeta) \<Rightarrow> toml_datum \<Rightarrow> toml_datum" where
  "map_meta f DATUM_ZERO = DATUM_ZERO"
| "map_meta f (D_scalar m s) = D_scalar (f m) s"
| "map_meta f (D_array m xs) = D_array (f m) xs"
| "map_meta f (D_table m kvs) = D_table (f m) kvs"

definition mark_explicit :: "nat \<Rightarrow> nat \<Rightarrow> toml_datum \<Rightarrow> toml_datum" where
  "mark_explicit lineno colno = map_meta (\<lambda>m. m\<lparr>flag_explicit := True, d_lineno := lineno, d_colno := colno\<rparr>)"

definition std_table_place :: "nat \<Rightarrow> nat \<Rightarrow> string \<Rightarrow> toml_datum \<Rightarrow> nat list \<Rightarrow> (toml_datum \<times> nat list) toml" where
  "std_table_place lineno colno key root path =
     in_table root path (\<lambda>m kvs.
       case tab_find kvs key of
         None \<Rightarrow>
           if flag_inlined m then Inl (Syntax_error lineno ''inline table cannot be extended'')
           else then_do (or_error lineno (tab_add kvs key (D_table ((meta_at lineno colno)\<lparr>flag_stdexpr := True\<rparr>) []))) (\<lambda>kvs1.
             Inr (put_table path m kvs1 root, path @ [length kvs1 - 1]))
       | Some j \<Rightarrow>
           if flag_explicit (datum_meta (snd (kvs ! j))) then Inl (Syntax_error lineno ''table defined more than once'')
           else if \<not> flag_stdexpr (datum_meta (snd (kvs ! j))) then Inl (Syntax_error lineno ''table defined before'')
           else Inr (root, path @ [j]))"

definition parse_std_table_expr :: "(string \<Rightarrow> bool) \<Rightarrow> token \<Rightarrow> parser \<Rightarrow> parser toml" where
  "parse_std_table_expr sd lbrack p =
     (if toktyp lbrack \<noteq> TOK_LBRACK then Inl Assert_failed
      else then_do (scan_key sd (p_scanner p)) (\<lambda>(tok, sp1).
        then_do (parse_key sd tok sp1) (\<lambda>(keys, sp2).
          then_do (scan_key sd sp2) (\<lambda>(rb, sp3).
            if toktyp rb \<noteq> TOK_RBRACK then Inl (Syntax_error (tok_lineno rb) ''missing right-bracket'')
            else then_do (descend_keypart (tok_lineno tok) (tok_colno tok) True (p_toptab p) [] (butlast keys)) (\<lambda>(root, path).
              then_do (std_table_place (tok_lineno tok) (tok_colno tok) (last keys) root path) (\<lambda>(root1, path1).
                Inr (p\<lparr>p_scanner := sp3, p_toptab := node_upd path1 (mark_explicit (tok_lineno tok) (tok_colno tok)) root1, p_curtab := path1\<rparr>)))))))"

text \<open>The entry of an array of tables, made if there is none, and then one more table in it.\<close>

definition array_slot :: "nat \<Rightarrow> nat \<Rightarrow> string \<Rightarrow> dmeta \<Rightarrow> (string \<times> toml_datum) list \<Rightarrow> ((string \<times> toml_datum) list \<times> nat) toml" where
  "array_slot lineno colno key m kvs = (case tab_find kvs key of
       Some idx \<Rightarrow> Inr (kvs, idx)
     | None \<Rightarrow>
         if flag_inlined m then Inl (Syntax_error lineno ''inline table cannot be extended'')
         else then_do (or_error lineno (tab_add kvs key (D_array (meta_at lineno colno) []))) (\<lambda>kvs1.
           case tab_find kvs1 key of None \<Rightarrow> Inl Assert_failed | Some idx \<Rightarrow> Inr (kvs1, idx)))"

definition append_table :: "nat \<Rightarrow> nat \<Rightarrow> toml_datum \<Rightarrow> (toml_datum \<times> nat) toml" where
  "append_table lineno colno d = (case d of
       D_array am xs \<Rightarrow>
         if flag_inlined am then Inl (Syntax_error lineno ''cannot extend a static array'')
         else then_do (or_error lineno (arr_emplace xs)) (\<lambda>ys. Inr (D_array am (ys[length ys - 1 := D_table (meta_at lineno colno) []]), length ys - 1))
     | d \<Rightarrow> Inl (Syntax_error lineno ''entry must be an array''))"

definition array_table_place :: "nat \<Rightarrow> nat \<Rightarrow> string \<Rightarrow> toml_datum \<Rightarrow> nat list \<Rightarrow> (toml_datum \<times> nat list) toml" where
  "array_table_place lineno colno key root path =
     in_table root path (\<lambda>m kvs.
       then_do (array_slot lineno colno key m kvs) (\<lambda>(kvs1, idx).
         then_do (append_table lineno colno (snd (kvs1 ! idx))) (\<lambda>(arr, i).
           Inr (put_table path m (set_value kvs1 idx arr) root, path @ [idx, i]))))"

definition parse_array_table_expr :: "(string \<Rightarrow> bool) \<Rightarrow> token \<Rightarrow> parser \<Rightarrow> parser toml" where
  "parse_array_table_expr sd llbrack p =
     (if toktyp llbrack \<noteq> TOK_LLBRACK then Inl Assert_failed
      else then_do (scan_key sd (p_scanner p)) (\<lambda>(tok, sp1).
        then_do (parse_key sd tok sp1) (\<lambda>(keys, sp2).
          then_do (scan_key sd sp2) (\<lambda>(rrb, sp3).
            if toktyp rrb \<noteq> TOK_RRBRACK then Inl (Syntax_error (tok_lineno rrb) (''missing '' @ [CHR 0x27] @ '']]'' @ [CHR 0x27]))
            else then_do (descend_keypart (tok_lineno tok) (tok_colno tok) True (p_toptab p) [] (butlast keys)) (\<lambda>(root, path).
              then_do (array_table_place (tok_lineno tok) (tok_colno tok) (last keys) root path) (\<lambda>(root1, path1).
                Inr (p\<lparr>p_scanner := sp3, p_toptab := root1, p_curtab := path1\<rparr>)))))))"

text \<open>The tables that the first parts of a dotted key name, from the current one on; \<open>first\<close> for the first part.\<close>

fun locate_table :: "nat \<Rightarrow> nat \<Rightarrow> bool \<Rightarrow> toml_datum \<Rightarrow> nat list \<Rightarrow> string list \<Rightarrow> (toml_datum \<times> nat list) toml" where
  "locate_table lineno colno first root path [] = Inr (root, path)"
| "locate_table lineno colno first root path (k # ks) =
     in_table root path (\<lambda>m kvs.
       case tab_find kvs k of
         None \<Rightarrow>
           if \<not> first \<and> flag_explicit m
           then Inl (Syntax_error lineno ''cannot extend a previously defined table using dotted expression'')
           else then_do (or_error lineno (tab_add kvs k (D_table (meta_at lineno colno) []))) (\<lambda>kvs1.
             locate_table lineno colno False (put_table path m kvs1 root) (path @ [length kvs1 - 1]) ks)
       | Some j \<Rightarrow>
           (case snd (kvs ! j) of
              D_table m' kvs' \<Rightarrow> locate_table lineno colno False root (path @ [j]) ks
            | D_array m' xs \<Rightarrow> Inl (Syntax_error lineno (''encountered previously declared array '' @ [CHR 0x27] @ ''%s'' @ [CHR 0x27]))
            | d \<Rightarrow> Inl (Syntax_error lineno (''cannot locate table at '' @ [CHR 0x27] @ ''%s'' @ [CHR 0x27]))))"

text \<open>Enough fuel for the value that begins at a scanner.\<close>

definition val_fuel :: "scanner \<Rightarrow> nat" where
  "val_fuel sp = 2 * length (sc_cur sp) + 3"

definition parse_keyvalue_expr :: "(string \<Rightarrow> bool) \<Rightarrow> token \<Rightarrow> parser \<Rightarrow> parser toml" where
  "parse_keyvalue_expr sd tok p =
     then_do (parse_key sd tok (p_scanner p)) (\<lambda>(keys, sp1).
       then_do (scan_key sd sp1) (\<lambda>(eq, sp2).
         if toktyp eq \<noteq> TOK_EQUAL then Inl (Syntax_error (tok_lineno eq) (''expect '' @ [CHR 0x27] @ ''='' @ [CHR 0x27]))
         else then_do (locate_table (tok_lineno tok) (tok_colno tok) True (p_toptab p) (p_curtab p) (butlast keys)) (\<lambda>(root, path).
           in_table root path (\<lambda>m kvs.
             if flag_inlined m then Inl (Syntax_error (tok_lineno tok) ''inline table cannot be extended'')
             else if length keys > 1 \<and> flag_explicit m
             then Inl (Syntax_error (tok_lineno tok) ''cannot extend a previously defined table using dotted expression'')
             else then_do (scan_value sd sp2) (\<lambda>(vt, sp3).
               then_do (parse_val sd (val_fuel sp3) vt sp3) (\<lambda>(v, sp4).
                 then_do (or_error (tok_lineno tok) (tab_add kvs (last keys) v)) (\<lambda>kvs1.
                   Inr (p\<lparr>p_scanner := sp4, p_toptab := put_table path m kvs1 root\<rparr>))))))))"

text \<open>One expression, by its first token.\<close>

definition parse_expr :: "(string \<Rightarrow> bool) \<Rightarrow> token \<Rightarrow> parser \<Rightarrow> parser toml" where
  "parse_expr sd tok p =
     (if toktyp tok = TOK_LBRACK then parse_std_table_expr sd tok p
      else if toktyp tok = TOK_LLBRACK then parse_array_table_expr sd tok p
      else parse_keyvalue_expr sd tok p)"

section \<open>Every expression moves on\<close>

abbreviation left :: "scanner \<Rightarrow> nat" where "left sp \<equiv> length (sc_cur sp)"

lemma restore_left [simp]: "left (scan_restore mark sp) = left mark"
  by (simp add: scan_restore_def)

lemma scan_key_le: "scan_key sd sp = Inr (tok, sp') \<Longrightarrow> left sp' \<le> left sp"
  using scan_key_moved by (fastforce simp: moved_def)

lemma scan_value_le: "scan_value sd sp = Inr (tok, sp') \<Longrightarrow> left sp' \<le> left sp"
  using scan_value_moved by (fastforce simp: moved_def)

lemma scan_key_less: "scan_key sd sp = Inr (tok, sp') \<Longrightarrow> toktyp tok \<noteq> TOK_FIN \<Longrightarrow> toktyp tok \<noteq> TOK_LIT \<Longrightarrow> left sp' < left sp"
  using scan_key_moved by (fastforce simp: moved_def)

lemma scan_value_less: "scan_value sd sp = Inr (tok, sp') \<Longrightarrow> toktyp tok \<noteq> TOK_FIN \<Longrightarrow> left sp' < left sp"
  using scan_value_moved by (fastforce simp: moved_def)

lemma key_loop_le: "key_loop sd n parts sp = Inr (keys, sp') \<Longrightarrow> parts \<noteq> [] \<Longrightarrow> left sp' \<le> left sp \<and> keys \<noteq> []"
proof (induction n arbitrary: parts sp)
  case 0
  then show ?case by (subst (asm) key_loop.simps) (auto simp: then_do_Inr split: if_splits)
next
  case (Suc n)
  obtain tok sp1 where k: "scan_key sd sp = Inr (tok, sp1)" using Suc.prems(1) by (subst (asm) key_loop.simps) (auto simp: then_do_Inr)
  show ?case
  proof (cases "toktyp tok = TOK_DOT")
    case False
    then show ?thesis using Suc.prems k by (subst (asm) key_loop.simps) auto
  next
    case True
    then obtain tok2 sp2 s where "scan_key sd sp1 = Inr (tok2, sp2)" "key_loop sd n (parts @ [s]) sp2 = Inr (keys, sp')"
      using Suc.prems(1) k unfolding key_loop.simps[of sd "Suc n"] by (auto simp: then_do_Inr split: if_splits)
    then show ?thesis using Suc.IH[of "parts @ [s]" sp2] scan_key_le[OF k] scan_key_le[of sd sp1 tok2 sp2] by simp
  qed
qed

lemma parse_key_le: "parse_key sd tok sp = Inr (keys, sp') \<Longrightarrow> left sp' \<le> left sp \<and> keys \<noteq> []"
  by (auto simp: parse_key_def split: if_splits sum.splits toml_err.splits dest: key_loop_le)

lemma table_entry_less:
  assumes "table_entry sd parse tok tab sp = Inr (tab1, sp')" "\<And>vt sp v sp'. parse vt sp = Inr (v, sp') \<Longrightarrow> left sp' \<le> left sp"
  shows "left sp' < left sp"
proof -
  obtain keys sp1 eq sp2 vt sp3 v where a: "parse_key sd tok sp = Inr (keys, sp1)" "scan_value sd sp1 = Inr (eq, sp2)" "toktyp eq = TOK_EQUAL"
      "scan_value sd sp2 = Inr (vt, sp3)" "parse vt sp3 = Inr (v, sp')"
    using assms(1) by (auto simp: table_entry_def entry_value_def result_Inr in_table_Inr)
  have "left sp2 < left sp1" using scan_value_less[OF a(2)] a(3) by simp
  then show ?thesis using parse_key_le[OF a(1)] scan_value_le[OF a(4)] assms(2)[OF a(5)] by simp
qed

lemma parse_val_le:
  "parse_val sd n tok sp = Inr (v, sp') \<Longrightarrow> left sp' \<le> left sp"
  "array_loop sd n m xs need sp = Inr (v, sp') \<Longrightarrow> left sp' \<le> left sp"
  "table_loop sd n tab need sp = Inr (v, sp') \<Longrightarrow> left sp' \<le> left sp"
proof (induction n arbitrary: tok m xs tab need sp v sp')
  case (Suc n)
  {
    case 1
    then show ?case using Suc.IH(2,3) by (auto simp: parse_val.simps then_do_Inr split: option.splits if_splits)
  next
    case 2
    then obtain tok sp1 where s: "scan_value sd sp = Inr (tok, sp1)" by (auto simp: array_loop.simps then_do_Inr)
    then consider "array_loop sd n m xs need sp1 = Inr (v, sp')" | "array_loop sd n m xs False sp1 = Inr (v, sp')" | "sp' = sp1"
      | w sp2 ys where "parse_val sd n tok sp1 = Inr (w, sp2)" "array_loop sd n m ys True sp2 = Inr (v, sp')"
      using 2 by (auto simp: array_loop.simps result_Inr split: if_splits)
    then have "left sp' \<le> left sp1" using Suc.IH(1,2) by cases (auto, meson order_trans)
    then show ?case using scan_value_le[OF s] by simp
  next
    case 3
    then obtain tok sp1 where s: "scan_key sd sp = Inr (tok, sp1)" by (auto simp: table_loop.simps then_do_Inr)
    then consider "table_loop sd n tab need sp1 = Inr (v, sp')" | "table_loop sd n tab False sp1 = Inr (v, sp')" | "sp' = sp1"
      | tab1 sp2 where "table_entry sd (parse_val sd n) tok tab sp1 = Inr (tab1, sp2)" "table_loop sd n tab1 True sp2 = Inr (v, sp')"
      using 3 by (auto simp: table_loop.simps result_Inr split: if_splits)
    then have "left sp' \<le> left sp1"
    proof cases
      case 4
      then show ?thesis using table_entry_less[OF 4(1)] Suc.IH(1,3) by (meson less_imp_le order_trans)
    qed (use Suc.IH(3) in auto)
    then show ?case using scan_key_le[OF s] by simp
  }
qed (simp_all add: parse_val.simps array_loop.simps table_loop.simps)

lemma parse_std_less:
  assumes "parse_std_table_expr sd tok p = Inr p'"
  shows "left (p_scanner p') \<le> left (p_scanner p)"
proof -
  obtain t sp1 keys sp2 rb where "scan_key sd (p_scanner p) = Inr (t, sp1)" "parse_key sd t sp1 = Inr (keys, sp2)" "scan_key sd sp2 = Inr (rb, p_scanner p')"
    using assms by (auto simp: parse_std_table_expr_def then_do_Inr split: if_splits)
  then show ?thesis using scan_key_le parse_key_le by (meson order_trans)
qed

lemma parse_array_less:
  assumes "parse_array_table_expr sd tok p = Inr p'"
  shows "left (p_scanner p') \<le> left (p_scanner p)"
proof -
  obtain t sp1 keys sp2 rb where "scan_key sd (p_scanner p) = Inr (t, sp1)" "parse_key sd t sp1 = Inr (keys, sp2)" "scan_key sd sp2 = Inr (rb, p_scanner p')"
    using assms by (auto simp: parse_array_table_expr_def then_do_Inr split: if_splits)
  then show ?thesis using scan_key_le parse_key_le by (meson order_trans)
qed

lemma parse_keyvalue_less:
  assumes "parse_keyvalue_expr sd tok p = Inr p'"
  shows "left (p_scanner p') < left (p_scanner p)"
proof -
  obtain keys sp1 eq sp2 vt sp3 n v where a: "parse_key sd tok (p_scanner p) = Inr (keys, sp1)" "scan_key sd sp1 = Inr (eq, sp2)" "toktyp eq = TOK_EQUAL"
      "scan_value sd sp2 = Inr (vt, sp3)" "parse_val sd n vt sp3 = Inr (v, p_scanner p')"
    using assms by (auto simp: parse_keyvalue_expr_def result_Inr in_table_Inr)
  have "left sp2 < left sp1" using scan_key_less[OF a(2)] a(3) by simp
  moreover have "left sp1 \<le> left (p_scanner p)" using parse_key_le[OF a(1)] by simp
  moreover have "left (p_scanner p') \<le> left sp2" using parse_val_le(1)[OF a(5)] scan_value_le[OF a(4)] by simp
  ultimately show ?thesis by simp
qed

lemma expr_moves:
  assumes "scan_key sd (p_scanner p) = Inr (tok, sp)" "toktyp tok \<noteq> TOK_FIN" "parse_expr sd tok (p\<lparr>p_scanner := sp\<rparr>) = Inr p'"
  shows "left (p_scanner p') < left (p_scanner p)"
proof (cases "toktyp tok = TOK_LBRACK \<or> toktyp tok = TOK_LLBRACK")
  case True
  then have "left sp < left (p_scanner p)" using scan_key_less[OF assms(1)] by auto
  moreover have "left (p_scanner p') \<le> left sp" using assms(3) True parse_std_less parse_array_less by (fastforce simp: parse_expr_def split: if_splits)
  ultimately show ?thesis by simp
next
  case False
  then have "left (p_scanner p') < left sp" using assms(3) parse_keyvalue_less[of sd tok "p\<lparr>p_scanner := sp\<rparr>" p'] by (simp add: parse_expr_def)
  then show ?thesis using scan_key_le[OF assms(1)] by simp
qed

section \<open>The document\<close>

text \<open>The loop of \<^verbatim>\<open>toml_parse_named\<close>, to the end of the text or the first error. An expression is followed by the end of its line.\<close>

function toml_loop :: "(string \<Rightarrow> bool) \<Rightarrow> parser \<Rightarrow> toml_datum toml" where
  "toml_loop sd p =
     then_do (scan_key sd (p_scanner p)) (\<lambda>(tok, sp).
       if toktyp tok = TOK_FIN then Inr (p_toptab p)
       else if toktyp tok = TOK_ENDL then toml_loop sd (p\<lparr>p_scanner := sp\<rparr>)
       else then_do (parse_expr sd tok (p\<lparr>p_scanner := sp\<rparr>)) (\<lambda>p1.
         then_do (scan_key sd (p_scanner p1)) (\<lambda>(tok, sp1).
           if toktyp tok = TOK_FIN \<or> toktyp tok = TOK_ENDL then toml_loop sd (p1\<lparr>p_scanner := sp1\<rparr>)
           else Inl (Syntax_error (tok_lineno tok) ''ENDL expected''))))"
  by pat_completeness auto
termination
proof (relation "measure (\<lambda>(sd, p). left (p_scanner p))")
  fix sd and p :: parser and x tok sp p1 y tok2 sp2
  assume a: "scan_key sd (p_scanner p) = Inr x" "(tok, sp) = x" "toktyp tok \<noteq> TOK_FIN"
  show "toktyp tok = TOK_ENDL \<Longrightarrow> ((sd, p\<lparr>p_scanner := sp\<rparr>), sd, p) \<in> measure (\<lambda>(sd, p). left (p_scanner p))"
    using scan_key_less[of sd "p_scanner p" tok sp] a by simp
  assume b: "parse_expr sd tok (p\<lparr>p_scanner := sp\<rparr>) = Inr p1" "scan_key sd (p_scanner p1) = Inr y" "(tok2, sp2) = y"
  then have "left sp2 < left (p_scanner p)" using expr_moves[of sd p tok sp p1] scan_key_le[of sd "p_scanner p1" tok2 sp2] a by simp
  then show "((sd, p1\<lparr>p_scanner := sp2\<rparr>), sd, p) \<in> measure (\<lambda>(sd, p). left (p_scanner p))" by simp
qed simp

declare toml_loop.simps [simp del]

text \<open>The optional check that the text is UTF-8.\<close>

function check_utf8 :: "nat \<Rightarrow> string \<Rightarrow> unit toml" where
  "check_utf8 line s = (if s = [] then Inr ()
     else case utf8_to_ucs s of
       None \<Rightarrow> Inl (Syntax_error line ''invalid UTF8 char'')
     | Some (ch, n) \<Rightarrow>
         if 0xD800 \<le> ch \<and> ch \<le> 0xDFFF then Inl (Syntax_error line ''invalid UTF8 char'')
         else check_utf8 (if ch = 10 then line + 1 else line) (drop n s))"
  by pat_completeness auto
termination
  by (relation "measure (\<lambda>(line, s). length s)") (auto dest: utf8_pos)

declare check_utf8.simps [simp del]

text \<open>The text is a buffer that ends with a NUL after it, as all callers make it.\<close>

definition toml_parse_named :: "(string \<Rightarrow> bool) \<Rightarrow> bool \<Rightarrow> string \<Rightarrow> string option \<Rightarrow> toml_datum toml" where
  "toml_parse_named sd utf8_option src name =
     then_do (if utf8_option then check_utf8 1 src else Inr ()) (\<lambda>u.
       then_do (toml_loop sd \<lparr>p_scanner = scan_init src, p_toptab = D_table (meta_at 1 1) [], p_curtab = []\<rparr>) (\<lambda>toptab.
         Inr (set_source_recursive name toptab)))"

definition toml_parse :: "(string \<Rightarrow> bool) \<Rightarrow> bool \<Rightarrow> string \<Rightarrow> toml_datum toml" where
  "toml_parse sd utf8_option src = toml_parse_named sd utf8_option src None"

text \<open>A file is read in chunks of 8192 bytes; \<open>got\<close> bytes have been read and \<open>rest\<close> is left.\<close>

function read_chunks :: "nat \<Rightarrow> string \<Rightarrow> string + nat" where
  "read_chunks got rest =
     (if got > 2147483647 - 8192 - 1 then Inl ''file is too big''
      else if length rest < 8192 then Inr (got + length rest) else read_chunks (got + 8192) (drop 8192 rest))"
  by pat_completeness auto
termination
  by (relation "measure (\<lambda>(got, rest). length rest)") auto

declare read_chunks.simps [simp del]

text \<open>What opening and reading a file gives: the bytes or the message of the error.\<close>

definition toml_parse_file_named :: "(string \<Rightarrow> bool) \<Rightarrow> bool \<Rightarrow> string + string \<Rightarrow> string option \<Rightarrow> toml_datum toml" where
  "toml_parse_file_named sd utf8_option contents name = (case contents of
       Inl msg \<Rightarrow> Inl (Syntax_error 0 msg)
     | Inr bytes \<Rightarrow> (case read_chunks 0 bytes of Inl msg \<Rightarrow> Inl (Syntax_error 0 msg) | Inr got \<Rightarrow> toml_parse_named sd utf8_option (take got bytes) name))"

definition toml_parse_file_ex :: "(string \<Rightarrow> bool) \<Rightarrow> bool \<Rightarrow> (string \<Rightarrow> string + string) \<Rightarrow> string \<Rightarrow> toml_datum toml" where
  "toml_parse_file_ex sd utf8_option fs fname = (case fs fname of
       Inl msg \<Rightarrow> Inl (Syntax_error 0 (''fopen '' @ fname @ '': '' @ msg))
     | Inr bytes \<Rightarrow> toml_parse_file_named sd utf8_option (Inr bytes) (Some fname))"

end
