(* ===== verification/Toml_Safety.thy ===== *)
theory Toml_Safety
  imports Toml_Parse "HOL-Library.Sublist"
begin

text \<open>
  What holds of the TOML parser for every text: it ends with a syntax error or a well-formed table; no assert of the code fails, and the fuel is
  enough.
\<close>

section \<open>Results that are values or syntax errors\<close>

definition fine :: "'a toml \<Rightarrow> bool" where
  "fine r \<longleftrightarrow> (case r of Inl e \<Rightarrow> e \<noteq> Assert_failed \<and> e \<noteq> Out_of_fuel | Inr x \<Rightarrow> True)"

lemma fine_simps [simp]: "fine (Inr x)" "fine (Inl (Syntax_error l m))" "\<not> fine (Inl Assert_failed)" "\<not> fine (Inl Out_of_fuel)"
  by (simp_all add: fine_def)

lemma fine_then_do [intro]: "fine r \<Longrightarrow> (\<And>x. r = Inr x \<Longrightarrow> fine (f x)) \<Longrightarrow> fine (then_do r f)"
  by (cases r) (simp_all add: fine_def)

lemma fine_or_error [simp]: "fine (or_error l r)"
  by (cases r) simp_all

lemma fine_if [simp]: "fine (if c then a else b) \<longleftrightarrow> (c \<longrightarrow> fine a) \<and> (\<not> c \<longrightarrow> fine b)"
  by simp

section \<open>The scanner\<close>

lemma escape_fine [simp]: "fine (scan_escape_chars sp)"
  by (auto simp: scan_escape_chars_def Let_def split: list.split)

lemma line_ending_fine [simp]: "fine (line_ending sp)"
  by (simp add: line_ending_def Let_def)

lemma string_loop_fine [simp]: "fine (string_loop n0 e sp)"
proof (induction n0 e sp rule: string_loop.induct)
  case (1 n0 e sp)
  show ?case
    by (subst string_loop.simps) (auto split: prod.split option.split intro!: 1 fine_then_do)
qed

lemma mlstring_loop_fine [simp]: "fine (mlstring_loop n0 e sp)"
proof (induction n0 e sp rule: mlstring_loop.induct)
  case (1 n0 e sp)
  show ?case
    by (subst mlstring_loop.simps) (auto split: prod.split option.split intro!: 1 fine_then_do)
qed

lemma litstring_loop_fine [simp]: "fine (litstring_loop sp)"
proof (induction sp rule: litstring_loop.induct)
  case (1 sp)
  show ?case by (subst litstring_loop.simps) (auto split: prod.split option.split intro!: 1)
qed

lemma mllitstring_loop_fine [simp]: "fine (mllitstring_loop sp)"
proof (induction sp rule: mllitstring_loop.induct)
  case (1 sp)
  show ?case by (subst mllitstring_loop.simps) (auto split: prod.split option.split intro!: 1)
qed

lemma skip_comment_fine [simp]: "fine (skip_comment sp)"
proof (induction sp rule: skip_comment.induct)
  case (1 sp)
  show ?case by (subst skip_comment.simps) (auto split: prod.split option.split intro!: 1)
qed

lemma scan_string_fine [simp]: "fine (scan_string sp)"
  by (auto simp: scan_string_def scan_multiline_string_def Let_def)

lemma scan_litstring_fine [simp]: "fine (scan_litstring sp)"
  by (auto simp: scan_litstring_def scan_multiline_litstring_def Let_def)

lemma scan_float_fine [simp]: "fine (scan_float sd sp)"
  by (simp add: scan_float_def Let_def split: sum.split)

lemma scan_number_fine [simp]: "fine (scan_number sd sp)"
  by (simp add: scan_number_def scan_based_def scan_decimal_def Let_def split: sum.split prod.split)

lemma scan_nonstring_fine [simp]: "fine (scan_nonstring_literal sd sp)"
  by (simp add: scan_nonstring_literal_def scan_time_def scan_timestamp_def scan_bool_def Let_def split: sum.split prod.split option.split)

lemma scan_next_fine [simp]: "fine (scan_next sd k sp)"
proof (induction sd k sp rule: scan_next.induct)
  case (1 sd k sp)
  obtain x sp1 where g: "scan_get sp = (x, sp1)" by fastforce
  show ?case
  proof (cases x)
    case None
    then show ?thesis using g by (simp add: scan_next.simps)
  next
    case (Some ch)
    show ?thesis
    proof (cases "simple_token ch")
      case none: None
      note IH = "1.IH"[OF g[symmetric] Some refl none]
      have "fine (then_do (skip_comment sp1) (scan_next sd k))" if "ch = CHR ''#''" using IH(2) that by auto
      then show ?thesis using g Some none IH(1) by (subst scan_next.simps) (simp add: Let_def scan_literal_def)
    qed (use g Some in \<open>simp add: scan_next.simps Let_def\<close>)
  qed
qed

lemma check_overflow_fine [simp]: "fine (check_overflow r)"
  by (simp add: check_overflow_def Let_def split: prod.split)

lemma scan_key_fine [simp]: "fine (scan_key sd sp)"
  by (auto simp: scan_key_def)

lemma scan_value_fine [simp]: "fine (scan_value sd sp)"
  by (auto simp: scan_value_def)

section \<open>Tokens\<close>

text \<open>Where the scanner of a string is, and that the mark is on a backslash it has passed.\<close>

definition esc_at :: "string \<Rightarrow> nat option \<Rightarrow> scanner \<Rightarrow> bool" where
  "esc_at src e sp \<longleftrightarrow> suffix (sc_cur sp) src \<and> (\<forall>k. e = Some k \<longrightarrow> k < length src - left sp \<and> src ! k = BS)"

lemma esc_at_later: "esc_at src e sp \<Longrightarrow> suffix (sc_cur sp') (sc_cur sp) \<Longrightarrow> esc_at src e sp'"
  using suffix_length_le[of "sc_cur sp'" "sc_cur sp"] by (auto simp: esc_at_def intro: suffix_order.trans)

lemma get_suffix: "scan_get sp = (x, sp') \<Longrightarrow> suffix (sc_cur sp') (sc_cur sp)"
  by (auto simp: scan_get_def suffix_ConsI suffix_tl split: list.splits if_splits)

lemma get_suffix': "suffix (sc_cur (snd (scan_get sp))) (sc_cur sp)"
  by (cases "scan_get sp") (simp add: get_suffix)

lemma advance_suffix [simp]: "suffix (sc_cur (advance n sp)) (sc_cur sp)"
  by (simp add: suffix_drop)

lemma skip_blanks_suffix: "suffix (sc_cur (snd (skip_blanks x))) (sc_cur (snd x))"
proof (induction x rule: skip_blanks.induct)
  case (1 ch sp)
  then show ?case using get_suffix'[of sp] by (subst skip_blanks.simps) (auto intro: suffix_order.trans)
qed

lemma skip_white_suffix: "suffix (sc_cur (skip_white sp)) (sc_cur sp)"
proof (induction sp rule: skip_white.induct)
  case (1 sp)
  then show ?case using get_suffix'[of sp] by (subst skip_white.simps) (auto intro: suffix_order.trans)
qed

lemma line_ending_suffix: "line_ending sp = Inr sp' \<Longrightarrow> suffix (sc_cur sp') (sc_cur sp)"
  using get_suffix'[of sp] skip_blanks_suffix[of "scan_get sp"] skip_white_suffix
  by (auto simp: line_ending_def Let_def intro: suffix_order.trans split: if_splits)

lemma esc_mark:
  assumes "esc_at src e sp" "scan_get sp = (Some BS, sp1)"
  shows "esc_at src (mark_escape (length src) e sp1) sp1"
proof -
  have c: "sc_cur sp = BS # sc_cur sp1" using assms(2) by (auto simp: scan_get_def split: list.splits if_splits)
  have later: "esc_at src e sp1" using esc_at_later[OF assms(1) get_suffix[OF assms(2)]] .
  obtain pre where "src = pre @ BS # sc_cur sp1" using assms(1) c by (auto simp: esc_at_def suffix_def)
  then show ?thesis using later by (auto simp: esc_at_def mark_escape_def split: option.splits)
qed

lemma string_loop_esc: "string_loop n0 e sp = Inr (e', sp') \<Longrightarrow> n0 = length src \<Longrightarrow> esc_at src e sp \<Longrightarrow> esc_at src e' sp'"
proof (induction n0 e sp rule: string_loop.induct)
  case (1 n0 e sp)
  note E = "1.prems"(1)[unfolded string_loop.simps[of n0 e sp]]
  show ?case
  proof (cases "scan_match sp DQ")
    case False
    obtain x sp1 where x: "scan_get sp = (x, sp1)" by fastforce
    then obtain ch where g: "scan_get sp = (Some ch, sp1)" using E False by (cases x) simp_all
    note IH = "1.IH"[OF False g[symmetric] refl]
    show ?thesis
    proof (cases "ch = BS")
      case True
      then obtain k where k: "scan_escape_chars sp1 = Inr k" "0 < k" "string_loop n0 (mark_escape n0 e sp1) (advance k sp1) = Inr (e', sp')"
        using E False g by (cases "scan_escape_chars sp1") (simp_all split: if_splits)
      have "esc_at src (mark_escape n0 e sp1) (advance k sp1)"
        using esc_at_later[OF esc_mark[of src e sp sp1] advance_suffix] "1.prems"(2,3) g True by simp
      then show ?thesis using IH(2)[OF _ k] True "1.prems"(2) by simp
    next
      case b: False
      then have v: "is_valid_char ch \<or> ch = CHR '' '' \<or> ch = TAB" "string_loop n0 e sp1 = Inr (e', sp')" using E False g by (simp_all split: if_splits)
      show ?thesis using IH(1)[OF b _ v(2) "1.prems"(2) esc_at_later[OF "1.prems"(3) get_suffix[OF g]]] v(1) by simp
    qed
  qed (use E "1.prems"(3) in simp)
qed

lemma mlstring_loop_esc: "mlstring_loop n0 e sp = Inr (e', sp') \<Longrightarrow> n0 = length src \<Longrightarrow> esc_at src e sp \<Longrightarrow> esc_at src e' sp'"
proof (induction n0 e sp rule: mlstring_loop.induct)
  case (1 n0 e sp)
  note E = "1.prems"(1)[unfolded mlstring_loop.simps[of n0 e sp]]
  show ?case
  proof (cases "scan_nmatch sp DQ 3 \<and> \<not> scan_nmatch sp DQ 4")
    case False
    then have six: "\<not> scan_nmatch sp DQ 6" using E by (auto split: if_splits)
    obtain x sp1 where x: "scan_get sp = (x, sp1)" by fastforce
    then obtain ch where g: "scan_get sp = (Some ch, sp1)" using E False six by (cases x) (simp_all only: if_False prod.case option.case sum.distinct)
    note IH = "1.IH"[OF False six g[symmetric] refl]
    have E': "(if ch \<noteq> BS then if \<not> (is_valid_char ch \<or> ch \<in> {CHR '' '', TAB, LF}) then Inl (scan_error sp1 ''invalid char in string'')
          else mlstring_loop n0 e sp1
        else then_do (scan_escape_chars sp1) (\<lambda>cnt. if cnt > 0 then mlstring_loop n0 (mark_escape n0 e sp1) (advance cnt sp1)
          else then_do (line_ending sp1) (mlstring_loop n0 (mark_escape n0 e sp1)))) = Inr (e', sp')"
      using E False six g by (simp only: if_False prod.case option.case)
    show ?thesis
    proof (cases "ch = BS")
      case True
      then have m: "esc_at src (mark_escape n0 e sp1) sp1" using esc_mark[of src e sp sp1] "1.prems"(2,3) g by simp
      obtain k where k: "scan_escape_chars sp1 = Inr k" using E' True by (cases "scan_escape_chars sp1") simp_all
      show ?thesis
      proof (cases "0 < k")
        case pos: True
        then show ?thesis using E' True k IH(2)[OF _ k pos _ "1.prems"(2) esc_at_later[OF m advance_suffix]] by simp
      next
        case zero: False
        then obtain sp2 where l: "line_ending sp1 = Inr sp2" "mlstring_loop n0 (mark_escape n0 e sp1) sp2 = Inr (e', sp')"
          using E' True k by (cases "line_ending sp1") simp_all
        show ?thesis using IH(3)[OF _ k zero l "1.prems"(2) esc_at_later[OF m line_ending_suffix[OF l(1)]]] True by simp
      qed
    next
      case b: False
      then have v: "is_valid_char ch \<or> ch \<in> {CHR '' '', TAB, LF}" "mlstring_loop n0 e sp1 = Inr (e', sp')" using E' by (simp_all split: if_splits)
      show ?thesis using IH(1)[OF b _ v(2) "1.prems"(2) esc_at_later[OF "1.prems"(3) get_suffix[OF g]]] v(1) by blast
    qed
  qed (use E "1.prems"(3) in simp)
qed

text \<open>The union of a token holds what its type says.\<close>

definition escp_ok :: "string \<Rightarrow> tok_u \<Rightarrow> bool" where
  "escp_ok str u = (case u of U_escp None \<Rightarrow> True | U_escp (Some e) \<Rightarrow> ch_at str e = BS | v \<Rightarrow> False)"

definition tok_ok :: "token \<Rightarrow> bool" where
  "tok_ok tok \<longleftrightarrow>
     (toktyp tok \<in> {TOK_STRING, TOK_MLSTRING} \<longrightarrow> escp_ok (tok_str tok) (tok_u tok)) \<and>
     (toktyp tok \<in> {TOK_TIME, TOK_DATE, TOK_DATETIME, TOK_DATETIMETZ} \<longrightarrow> (\<exists>ts. tok_u tok = U_tsval ts)) \<and>
     (toktyp tok = TOK_INTEGER \<longrightarrow> (\<exists>v. tok_u tok = U_int64 v)) \<and> (toktyp tok = TOK_FLOAT \<longrightarrow> (\<exists>v. tok_u tok = U_fp64 v)) \<and>
     (toktyp tok = TOK_BOOL \<longrightarrow> (\<exists>v. tok_u tok = U_b1 v))"

lemma escp_scanned:
  assumes "esc_at (sc_cur sp) e sp'"
  shows "escp_ok (scanned sp sp') (U_escp e)"
  using assms by (auto simp: escp_ok_def esc_at_def scanned_def ch_at_def split: option.splits)

lemma esc_start: "esc_at (sc_cur sp) None sp"
  by (simp add: esc_at_def)

lemma scan_string_ok: "scan_string sp = Inr (tok, sp') \<Longrightarrow> tok_ok tok"
  by (auto simp: scan_string_def scan_multiline_string_def Let_def then_do_Inr tok_ok_def mktoken_def split: if_splits
      intro!: escp_scanned dest!: string_loop_esc[OF _ refl esc_start] mlstring_loop_esc[OF _ refl esc_start])

lemma scan_litstring_ok: "scan_litstring sp = Inr (tok, sp') \<Longrightarrow> tok_ok tok"
  by (auto simp: scan_litstring_def scan_multiline_litstring_def Let_def then_do_Inr tok_ok_def mktoken_def split: if_splits)

lemma timestamp_type: "timestamp_parts p = Inr (ty, ts, n) \<Longrightarrow> ty \<in> {TOK_TIME, TOK_DATE, TOK_DATETIME, TOK_DATETIMETZ}"
  by (auto simp: timestamp_parts_def Let_def split: if_splits option.splits prod.splits)

lemma scan_float_ok: "scan_float sd sp = Inr (tok, sp') \<Longrightarrow> tok_ok tok"
  by (auto simp: scan_float_def Let_def tok_ok_def mktoken_def split: sum.splits if_splits)

lemma tok_ok_int: "tok_ok ((mktoken sp TOK_INTEGER)\<lparr>tok_u := U_int64 v, tok_str := s\<rparr>)"
  by (simp add: tok_ok_def mktoken_def)

lemma scan_based_ok: "scan_based base acc sp = Inr (tok, sp') \<Longrightarrow> tok_ok tok"
  by (auto simp: scan_based_def Let_def tok_ok_int split: sum.splits prod.splits if_splits)

lemma scan_decimal_ok:
  assumes "scan_decimal sd sp = Inr (tok, sp')"
  shows "tok_ok tok"
proof (cases "scan_float sd sp = Inr (tok, sp')")
  case False
  then show ?thesis using assms by (auto simp: scan_decimal_def Let_def tok_ok_int split: sum.splits prod.splits if_splits)
qed (rule scan_float_ok)

lemma scan_nonstring_ok:
  assumes "scan_nonstring_literal sd sp = Inr (tok, sp')"
  shows "tok_ok tok"
proof -
  have t: "tok_ok tok" if "scan_time sp = Inr (tok, sp')"
    using that by (auto simp: scan_time_def tok_ok_def mktoken_def split: option.splits prod.splits if_splits)
  have d: "tok_ok tok" if ok: "scan_timestamp sp = Inr (tok, sp')"
  proof -
    obtain ty ts n where "timestamp_parts (scan_copystr sp 80) = Inr (ty, ts, n)" "toktyp tok = ty" "tok_u tok = U_tsval ts"
      using ok by (auto simp: scan_timestamp_def Let_def mktoken_def split: sum.splits prod.splits if_splits)
    then show ?thesis using timestamp_type[of "scan_copystr sp 80" ty ts n] by (auto simp: tok_ok_def)
  qed
  have b: "tok_ok tok" if "scan_bool sp = Inr (tok, sp')"
    using that by (auto simp: scan_bool_def Let_def tok_ok_def mktoken_def split: option.splits prod.splits if_splits)
  have "tok_ok tok" if "scan_number sd sp = Inr (tok, sp')"
    using that scan_based_ok scan_decimal_ok scan_float_ok by (auto simp: scan_number_def Let_def split: if_splits)
  then show ?thesis using assms t d b by (auto simp: scan_nonstring_literal_def split: if_splits)
qed

definition makes_ok :: "(token \<times> scanner) toml \<Rightarrow> bool" where
  "makes_ok r \<longleftrightarrow> (\<forall>tok sp. r = Inr (tok, sp) \<longrightarrow> tok_ok tok)"

lemma makes_ok_then_do: "(\<And>x. r = Inr x \<Longrightarrow> makes_ok (f x)) \<Longrightarrow> makes_ok (then_do r f)"
  by (cases r) (simp_all add: makes_ok_def)

lemma simple_ok: "ty \<in> {TOK_ENDL, TOK_DOT, TOK_EQUAL, TOK_COMMA, TOK_LBRACE, TOK_RBRACE, TOK_LBRACK, TOK_LLBRACK, TOK_RBRACK, TOK_RRBRACK, TOK_FIN, TOK_LIT} \<Longrightarrow>
    toktyp tok = ty \<Longrightarrow> tok_ok tok"
  by (auto simp: tok_ok_def)

lemma simple_token_ok: "simple_token ch = Some ty \<Longrightarrow> makes_ok (Inr (tok\<lparr>toktyp := ty\<rparr>, sp))"
  by (auto simp: simple_token_def makes_ok_def tok_ok_def split: if_splits)

lemma makes_ok_cases: "makes_ok (scan_string sp)" "makes_ok (scan_litstring sp)" "makes_ok (scan_literal sp)" "makes_ok (scan_nonstring_literal sd sp)"
    "makes_ok (Inr (mktoken sp TOK_FIN, sp'))" "makes_ok (Inr (bracket_token k ch TOK_LBRACK TOK_LLBRACK tok sp'))"
    "makes_ok (Inr (bracket_token k ch TOK_RBRACK TOK_RRBRACK tok sp'))"
  using scan_string_ok scan_litstring_ok scan_nonstring_ok
  by (auto simp: makes_ok_def scan_literal_def Let_def bracket_token_def mktoken_def tok_ok_def split: if_splits)

lemma scan_next_ok: "makes_ok (scan_next sd k sp)"
proof (induction sd k sp rule: scan_next.induct)
  case (1 sd k sp)
  obtain x sp1 where g: "scan_get sp = (x, sp1)" by fastforce
  show ?case
  proof (cases x)
    case None
    then show ?thesis using g by (simp add: scan_next.simps makes_ok_cases)
  next
    case (Some ch)
    show ?thesis
    proof (cases "simple_token ch")
      case none: None
      note IH = "1.IH"[OF g[symmetric] Some refl none]
      have "makes_ok (then_do (skip_comment sp1) (scan_next sd k))" if "ch = CHR ''#''" using IH(2) that by (auto intro!: makes_ok_then_do)
      then show ?thesis using g Some none IH(1) by (subst scan_next.simps) (simp add: Let_def makes_ok_cases)
    next
      case (Some ty)
      then show ?thesis using g \<open>x = Some ch\<close> by (simp add: scan_next.simps Let_def simple_token_ok)
    qed
  qed
qed

lemma scan_key_ok: "scan_key sd sp = Inr (tok, sp') \<Longrightarrow> tok_ok tok"
  using scan_next_ok[of sd True sp] by (auto simp: scan_key_def then_do_Inr makes_ok_def dest: check_overflow_keeps)

lemma scan_value_ok: "scan_value sd sp = Inr (tok, sp') \<Longrightarrow> tok_ok tok"
  using scan_next_ok[of sd False sp] by (auto simp: scan_value_def then_do_Inr makes_ok_def dest: check_overflow_keeps)

section \<open>Strings, keys and single values\<close>

lemma fine_map [simp]: "fine (then_do r (\<lambda>x. Inr (g x))) \<longleftrightarrow> fine r"
  by (cases r) (simp_all add: fine_def)

lemma unescape_fine [simp]: "fine (unescape l p)"
proof (induction p rule: length_induct)
  case (1 p)
  show ?case
  proof (cases p)
    case (Cons c cs)
    then have IH: "length q \<le> length cs \<Longrightarrow> fine (unescape l q)" for q using 1 by simp
    have "length (dropWhile P (drop 1 (dropWhile Q cs))) \<le> length cs" "length (dropWhile P cs) \<le> length cs" for P Q
      using length_dropWhile_le[of P "drop 1 (dropWhile Q cs)"] length_dropWhile_le[of Q cs] length_dropWhile_le[of P cs] by simp_all
    then show ?thesis using Cons unfolding unescape.simps[of l p] by (simp add: IH Let_def split: option.split)
  qed (simp add: unescape.simps)
qed

lemma parse_norm_fine: "tok_ok tok \<Longrightarrow> fine (parse_norm tok)"
  by (auto simp: parse_norm_def tok_ok_def escp_ok_def split: tok_u.splits option.splits)

lemma key_loop_fine: "fine (key_loop sd n parts sp)"
proof (induction n arbitrary: parts sp)
  case 0
  show ?case by (subst key_loop.simps) (auto split: prod.split intro!: fine_then_do)
next
  case (Suc n)
  show ?case by (subst key_loop.simps) (auto simp: Suc split: prod.split intro!: fine_then_do parse_norm_fine scan_key_ok)
qed

lemma parse_key_fine: "tok_ok tok \<Longrightarrow> fine (parse_key sd tok sp)"
  using parse_norm_fine[of tok] by (auto simp: parse_key_def key_loop_fine split: sum.split toml_err.split)

lemma token_value_fine:
  assumes "tok_ok tok" "token_value tok = Some r"
  shows "fine r \<and> (\<forall>d. r = Inr d \<longrightarrow> wf_datum d)"
proof -
  have m: "\<not> flag_stdexpr (tok_meta tok)" by (simp add: tok_meta_def meta_at_def)
  then have "fine (token_to_string tok) \<and> (\<forall>d. token_to_string tok = Inr d \<longrightarrow> wf_datum d)"
    using parse_norm_fine[OF assms(1)] by (auto simp: token_to_string_def then_do_Inr)
  then show ?thesis using assms m
    by (cases "toktyp tok")
      (auto simp: token_value_def token_to_timestamp_def token_to_int64_def token_to_fp64_def token_to_boolean_def tok_ok_def)
qed

section \<open>Places in well-formed trees\<close>

lemma node_zero [simp]: "node DATUM_ZERO p = DATUM_ZERO"
  by (cases p) simp_all

lemma node_append: "node d (p @ q) = node (node d p) q"
  by (induction d p rule: node.induct) simp_all

lemma node_put: "node d p \<noteq> DATUM_ZERO \<Longrightarrow> node (node_upd p f d) p = f (node d p)"
  by (induction p f d rule: node_upd.induct) (auto split: if_splits)

lemma wf_node: "wf_datum d \<Longrightarrow> node d p \<noteq> DATUM_ZERO \<Longrightarrow> wf_datum (node d p)"
proof (induction d p rule: node.induct)
  case (2 m kvs i p)
  then have "wf_datum (snd (kvs ! i))" by (auto simp: list_all_length split: prod.splits if_splits) (metis prod.collapse)
  then show ?case using 2 by (simp split: if_splits)
next
  case (3 m xs i p)
  then show ?case by (auto simp: list_all_length split: if_splits)
qed simp_all

lemma wf_put: "wf_datum d \<Longrightarrow> node d p \<noteq> DATUM_ZERO \<Longrightarrow> wf_datum (f (node d p)) \<Longrightarrow> wf_datum (node_upd p f d)"
proof (induction p f d rule: node_upd.induct)
  case (2 i p f m kvs)
  then have i: "i < length kvs" by (auto split: if_splits)
  have "wf_datum (snd (kvs ! i))" using wf_node[OF "2.prems"(1), of "[i]"] i wf_tableD[of kvs] "2.prems"(1) by (metis nth_mem prod.collapse wf_datum.simps(4))
  then have "wf_datum (node_upd p f (snd (kvs ! i)))" using 2 i by simp
  then show ?case using wf_set_value[of kvs] "2.prems"(1) i by simp
next
  case (3 i p f m xs)
  then have i: "i < length xs" by (auto split: if_splits)
  then have "wf_datum (node_upd p f (xs ! i))" using 3 by (auto simp: list_all_length)
  then show ?case using "3.prems"(1) i by (auto simp: list_all_length nth_list_update)
qed simp_all

abbreviation table_at :: "toml_datum \<Rightarrow> nat list \<Rightarrow> bool" where
  "table_at root path \<equiv> \<exists>m kvs. node root path = D_table m kvs"

text \<open>A well-formed tree and a place that is a table: what every operation of the parser works on.\<close>

definition good_place :: "toml_datum \<times> nat list \<Rightarrow> bool" where
  "good_place r \<longleftrightarrow> wf_datum (fst r) \<and> datum_type (fst r) = TOML_TABLE \<and> table_at (fst r) (snd r)"

lemma good_placeD:
  assumes "good_place (root, path)"
  obtains m kvs where "node root path = D_table m kvs" "wf_table kvs" "wf_datum root"
proof -
  obtain m kvs where n: "node root path = D_table m kvs" "wf_datum root" using assms by (auto simp: good_place_def)
  then show ?thesis using that wf_node[of root path] by simp
qed

lemma put_type: "path \<noteq> [] \<Longrightarrow> datum_type (node_upd path f root) = datum_type root"
  by (cases path; cases root) simp_all

lemma put_table_good:
  assumes "good_place (root, path)" "wf_table kvs"
  shows "good_place (put_table path m kvs root, path)" "node (put_table path m kvs root) path = D_table m kvs"
proof -
  have n: "node root path \<noteq> DATUM_ZERO" "wf_datum root" "datum_type root = TOML_TABLE" using assms(1) by (auto simp: good_place_def)
  then show p: "node (put_table path m kvs root) path = D_table m kvs" by (simp add: put_table_def node_put)
  have "datum_type (put_table path m kvs root) = TOML_TABLE" using n(3) put_type by (cases "path = []") (simp_all add: put_table_def)
  then show "good_place (put_table path m kvs root, path)" using p wf_put[OF n(2,1)] assms(2) by (simp add: good_place_def put_table_def)
qed

lemma good_root: "good_place (root, path) \<Longrightarrow> good_place (root, [])"
  by (auto simp: good_place_def type_container)

text \<open>A new table appended to the table at a place is a good place.\<close>

lemma new_table_good:
  assumes "good_place (root, path)" "node root path = D_table m kvs" "tab_add kvs k (D_table m' []) = Inr kvs1"
  shows "good_place (put_table path m kvs1 root, path @ [length kvs1 - 1])"
proof -
  have w: "wf_table kvs" "wf_datum root" using good_placeD[OF assms(1)] assms(2) by (metis toml_datum.inject(3))+
  then have k: "kvs1 = kvs @ [(k, D_table m' [])]" "wf_table kvs1" using assms(3) by (auto simp: tab_add_wf[OF w(1)] split: if_splits)
  then show ?thesis using put_table_good[OF assms(1), of kvs1 m] by (simp add: good_place_def node_append)
qed

lemma found_table_good:
  "good_place (root, path) \<Longrightarrow> node root path = D_table m kvs \<Longrightarrow> tab_find kvs k = Some j \<Longrightarrow> datum_type (snd (kvs ! j)) = TOML_TABLE \<Longrightarrow> good_place (root, path @ [j])"
  using tab_find_Some[of kvs k j] by (auto simp: good_place_def node_append type_container)

lemma node_upd_append: "node (node_upd (p @ q) f d) p = node_upd q f (node d p)" if "node d p \<noteq> DATUM_ZERO"
  using that by (induction d p rule: node.induct) (auto split: if_splits)

text \<open>Above the place of a change the types stay.\<close>

lemma put_keeps:
  assumes "good_place (root, path)" "prefix p path" "table_at root p"
  shows "table_at (put_table path m kvs root) p"
proof -
  obtain q where q: "path = p @ q" using assms(2) by (auto simp: prefix_def)
  obtain m' kvs' where n: "node root p = D_table m' kvs'" using assms(3) by auto
  then have "node (put_table path m kvs root) p = node_upd q (\<lambda>d. D_table m kvs) (D_table m' kvs')" using node_upd_append[of root p q] q by (simp add: put_table_def)
  then show ?thesis using put_type[of q "\<lambda>d. D_table m kvs" "D_table m' kvs'"] type_container(1) by (cases "q = []") auto
qed

lemma descend_good:
  "good_place (root, path) \<Longrightarrow> fine (descend_keypart l c std root path ks) \<and> (\<forall>r. descend_keypart l c std root path ks = Inr r \<longrightarrow> good_place r)"
proof (induction l c std root path ks rule: descend_keypart.induct)
  case (2 l c std root path k ks)
  obtain m kvs where n: "node root path = D_table m kvs" "wf_table kvs" "wf_datum root" using good_placeD[OF "2.prems"] .
  show ?case
  proof (cases "tab_find kvs k")
    case None
    let ?new = "D_table ((meta_at l c)\<lparr>flag_stdexpr := std\<rparr>) []"
    show ?thesis
    proof (cases "tab_add kvs k ?new")
      case (Inr kvs1)
      show ?thesis using "2.IH"(1)[OF n(1) None, of kvs1] new_table_good[OF "2.prems" n(1) Inr] Inr None n(1) by simp
    qed (simp add: n None)
  next
    case (Some j)
    show ?thesis
    proof (cases "snd (kvs ! j)")
      case (D_table m' kvs')
      then show ?thesis using "2.IH"(3)[OF n(1) Some D_table found_table_good[OF "2.prems" n(1) Some]] n(1) Some by simp
    next
      case (D_array m' xs)
      show ?thesis
      proof (cases "xs \<noteq> [] \<and> datum_type (last xs) = TOML_TABLE")
        case True
        then have "good_place (root, path @ [j, length xs - 1])"
          using "2.prems" n(1) D_array tab_find_Some[OF Some] by (auto simp: good_place_def node_append type_container last_conv_nth)
        then show ?thesis using "2.IH"(2)[OF n(1) Some D_array] True n(1) Some D_array by simp
      qed (use n Some D_array in auto)
    qed (simp_all add: n Some)
  qed
qed simp

lemma locate_good:
  "good_place (root, path) \<Longrightarrow> fine (locate_table l c fi root path ks) \<and> (\<forall>r. locate_table l c fi root path ks = Inr r \<longrightarrow> good_place r)"
proof (induction l c fi root path ks rule: locate_table.induct)
  case (2 l c fi root path k ks)
  obtain m kvs where n: "node root path = D_table m kvs" "wf_table kvs" "wf_datum root" using good_placeD[OF "2.prems"] .
  show ?case
  proof (cases "tab_find kvs k")
    case None
    show ?thesis
    proof (cases "\<not> fi \<and> flag_explicit m")
      case False
      show ?thesis
      proof (cases "tab_add kvs k (D_table (meta_at l c) [])")
        case (Inr kvs1)
        show ?thesis using "2.IH"(1)[OF n(1) None False, of kvs1] new_table_good[OF "2.prems" n(1) Inr] Inr None n(1) False by simp
      qed (use n None False in simp)
    qed (simp add: n None)
  next
    case (Some j)
    show ?thesis
    proof (cases "snd (kvs ! j)")
      case (D_table m' kvs')
      then show ?thesis using "2.IH"(2)[OF n(1) Some D_table found_table_good[OF "2.prems" n(1) Some]] n(1) Some by simp
    qed (simp_all add: n Some)
  qed
qed simp

lemma locate_keeps:
  "locate_table l c fi root path ks = Inr (r, q) \<Longrightarrow> good_place (root, path) \<Longrightarrow> prefix p path \<Longrightarrow> table_at root p \<Longrightarrow> prefix p q \<and> table_at r p"
proof (induction l c fi root path ks rule: locate_table.induct)
  case (2 l c fi root path k ks)
  obtain m kvs where n: "node root path = D_table m kvs" "wf_table kvs" "wf_datum root" using good_placeD[OF "2.prems"(2)] .
  show ?case
  proof (cases "tab_find kvs k")
    case None
    then obtain kvs1 where a: "\<not> (\<not> fi \<and> flag_explicit m)" "tab_add kvs k (D_table (meta_at l c) []) = Inr kvs1"
        "locate_table l c False (put_table path m kvs1 root) (path @ [length kvs1 - 1]) ks = Inr (r, q)"
      using "2.prems"(1) n(1) by (auto simp: result_Inr)
    have "prefix p (path @ [length kvs1 - 1])" using "2.prems"(3) by (rule prefix_prefix)
    then show ?thesis
      using "2.IH"(1)[OF n(1) None a(1) _ a(3) new_table_good[OF "2.prems"(2) n(1) a(2)]] a(2) put_keeps[OF "2.prems"(2,3,4)] by simp
  next
    case (Some j)
    then obtain m' kvs' where t: "snd (kvs ! j) = D_table m' kvs'" "locate_table l c False root (path @ [j]) ks = Inr (r, q)"
      using "2.prems"(1) n(1) by (cases "snd (kvs ! j)") simp_all
    have "prefix p (path @ [j])" using "2.prems"(3) by (rule prefix_prefix)
    then show ?thesis using "2.IH"(2)[OF n(1) Some t(1,2) found_table_good[OF "2.prems"(2) n(1) Some]] t(1) "2.prems"(4) by simp
  qed
qed simp

section \<open>Values\<close>

lemma wf_map: "wf_table kvs \<Longrightarrow> (\<And>k v. (k, v) \<in> set kvs \<Longrightarrow> wf_datum (f v)) \<Longrightarrow> wf_table (map (\<lambda>(k, v). (k, f v)) kvs)"
  by (simp only: length_meaning length_map) (auto simp: list_all_iff)

lemma flag_wf: "wf_datum d \<Longrightarrow> wf_datum (set_flag_recursive d)"
proof (induction d rule: set_flag_recursive.induct)
  case (4 m kvs)
  then show ?case using wf_map[of kvs set_flag_recursive] wf_tableD[of kvs] by (simp only: set_flag_recursive.simps wf_datum.simps)
qed (auto simp: list_all_iff)

lemma source_wf: "wf_datum d \<Longrightarrow> wf_datum (set_source_recursive s d)"
proof (induction s d rule: set_source_recursive.induct)
  case (4 s m kvs)
  then show ?case using wf_map[of kvs "set_source_recursive s"] wf_tableD[of kvs] by (simp only: set_source_recursive.simps wf_datum.simps)
qed (auto simp: list_all_iff)

lemma source_type [simp]: "datum_type (set_source_recursive s d) = datum_type d"
  by (cases d) simp_all

definition good_val :: "(toml_datum \<times> scanner) toml \<Rightarrow> bool" where
  "good_val r \<longleftrightarrow> fine r \<and> (\<forall>v sp. r = Inr (v, sp) \<longrightarrow> wf_datum v)"

lemma good_val_then_do: "fine r \<Longrightarrow> (\<And>x. r = Inr x \<Longrightarrow> good_val (f x)) \<Longrightarrow> good_val (then_do r f)"
  by (cases r) (simp_all add: good_val_def fine_def)

lemma good_val_simps [simp]: "good_val (Inl (Syntax_error l m))" "good_val (Inr (v, sp)) \<longleftrightarrow> wf_datum v"
  by (simp_all add: good_val_def)

lemma array_append_wf:
  "wf_datum (D_array m xs) \<Longrightarrow> wf_datum v \<Longrightarrow> arr_emplace xs = Inr ys \<Longrightarrow> wf_datum (D_array m (ys[length ys - 1 := v]))"
  by (auto simp: arr_emplace_def list_all_append split: if_splits)

lemma add_wf: "wf_table kvs \<Longrightarrow> wf_datum v \<Longrightarrow> tab_add kvs k v = Inr kvs1 \<Longrightarrow> wf_table kvs1"
  by (auto simp: tab_add_wf split: if_splits)

definition good_tab :: "(toml_datum \<times> scanner) toml \<Rightarrow> bool" where
  "good_tab r \<longleftrightarrow> fine r \<and> (\<forall>tab sp. r = Inr (tab, sp) \<longrightarrow> good_place (tab, []))"

lemma good_tab_then_do: "fine r \<Longrightarrow> (\<And>x. r = Inr x \<Longrightarrow> good_tab (f x)) \<Longrightarrow> good_tab (then_do r f)"
  by (cases r) (simp_all add: good_tab_def fine_def)

lemma good_tab_simps [simp]: "good_tab (Inl (Syntax_error l m))" "good_tab (Inr (tab, sp)) \<longleftrightarrow> good_place (tab, [])"
  by (simp_all add: good_tab_def)

lemma entry_value_good:
  assumes "\<And>vt sp'. left sp' < left sp \<Longrightarrow> tok_ok vt \<Longrightarrow> good_val (parse vt sp')"
  shows "fine (entry_value sd parse sp)" "entry_value sd parse sp = Inr (vt, v, sp') \<Longrightarrow> wf_datum v"
proof -
  have g: "good_val (parse t sp2)" if "scan_value sd sp = Inr (eq, sp1)" "toktyp eq = TOK_EQUAL" "scan_value sd sp1 = Inr (t, sp2)" for eq sp1 t sp2
    using assms scan_value_less[OF that(1)] that(2) scan_value_le[OF that(3)] scan_value_ok[OF that(3)] by simp
  then have "fine (parse t sp2)" if "scan_value sd sp = Inr (eq, sp1)" "toktyp eq = TOK_EQUAL" "scan_value sd sp1 = Inr (t, sp2)" for eq sp1 t sp2
    using that by (auto simp: good_val_def)
  then show "fine (entry_value sd parse sp)" by (auto simp: entry_value_def intro!: fine_then_do)
  show "entry_value sd parse sp = Inr (vt, v, sp') \<Longrightarrow> wf_datum v" using g by (fastforce simp: entry_value_def result_Inr good_val_def)
qed

lemma table_entry_good:
  assumes "good_place (tab, [])" "tok_ok tok" "\<And>vt sp'. left sp' < left sp \<Longrightarrow> tok_ok vt \<Longrightarrow> good_val (parse vt sp')"
  shows "good_tab (table_entry sd parse tok tab sp)"
  unfolding table_entry_def
proof (rule good_tab_then_do[OF parse_key_fine[OF assms(2)]], clarify, rule good_tab_then_do, use descend_good[OF assms(1)] in blast, clarify)
  fix keys sp1 tab1 path
  assume k: "parse_key sd tok sp = Inr (keys, sp1)"
    and d: "descend_keypart (tok_lineno tok) (tok_colno tok) False tab [] (butlast keys) = Inr (tab1, path)"
  have g: "good_place (tab1, path)" using descend_good[OF assms(1)] d by blast
  obtain m kvs where n: "node tab1 path = D_table m kvs" "wf_table kvs" using good_placeD[OF g] .
  have "\<And>vt sp'. left sp' < left sp1 \<Longrightarrow> tok_ok vt \<Longrightarrow> good_val (parse vt sp')" using assms(3) parse_key_le[OF k] by simp
  note v = entry_value_good[of sp1 parse, OF this]
  have add: "good_place (put_table path m' kvs1 tab1, [])" if "wf_datum x" "tab_add kvs key x = Inr kvs1" for x key kvs1 m'
    using put_table_good(1)[OF g add_wf[OF n(2) that]] good_root by blast
  show "good_tab (in_table tab1 path (\<lambda>m kvs. if flag_inlined m then Inl (Syntax_error (tok_lineno tok) ''inline table cannot be extended'')
      else then_do (entry_value sd parse sp1) (\<lambda>(vt, v, sp2). then_do (or_error (tok_lineno vt) (tab_add kvs (last keys) v))
        (\<lambda>kvs1. Inr (put_table path (m\<lparr>flag_explicit := True\<rparr>) kvs1 tab1, sp2)))))"
    unfolding in_table_at[OF n(1)] using v(1) by (auto simp: or_error_Inr intro!: good_tab_then_do intro: add[OF v(2)])
qed

lemma parse_val_good:
  "2 * left sp + 3 \<le> n \<or> toktyp tok = TOK_FIN \<and> 0 < n \<Longrightarrow> tok_ok tok \<Longrightarrow> good_val (parse_val sd n tok sp)"
  "2 * left sp + 2 \<le> n \<Longrightarrow> wf_datum (D_array m xs) \<Longrightarrow> good_val (array_loop sd n m xs need sp)"
  "2 * left sp + 2 \<le> n \<Longrightarrow> good_place (tab, []) \<Longrightarrow> good_val (table_loop sd n tab need sp)"
proof (induction n arbitrary: tok m xs tab need sp)
  case (Suc n)
  {
    case 1
    have m: "wf_datum (D_array (tok_meta tok) [])" "good_place (D_table (tok_meta tok) [], [])" by (simp_all add: tok_meta_def meta_at_def good_place_def)
    show ?case
    proof (cases "token_value tok")
      case (Some r)
      then show ?thesis using token_value_fine[OF 1(2) Some] by (auto simp: parse_val.simps intro: good_val_then_do)
    next
      case None
      then show ?thesis using 1 Suc.IH(2)[OF _ m(1)] Suc.IH(3)[OF _ m(2)] by (auto simp: parse_val.simps)
    qed
  next
    case 2
    show ?case unfolding array_loop.simps
    proof (rule good_val_then_do, simp, clarify)
      fix tok sp1
      assume s: "scan_value sd sp = Inr (tok, sp1)"
      have f: "2 * left sp1 + 3 \<le> n \<or> toktyp tok = TOK_FIN \<and> 0 < n" using scan_value_less[OF s] 2(1) by (cases "toktyp tok = TOK_FIN") auto
      then have v: "good_val (parse_val sd n tok sp1)" using Suc.IH(1) scan_value_ok[OF s] by simp
      have l: "good_val (array_loop sd n m xs b sp1)" if "toktyp tok \<noteq> TOK_FIN" for b using Suc.IH(2)[OF _ 2(2)] f that by simp
      have a: "good_val (array_loop sd n m (ys[length ys - 1 := w]) True sp2)"
        if "parse_val sd n tok sp1 = Inr (w, sp2)" "arr_emplace xs = Inr ys" for w sp2 ys
      proof -
        have "toktyp tok \<noteq> TOK_FIN" using that(1) f by (cases n) (auto simp: parse_val.simps token_value_def)
        moreover have "wf_datum w" using v that(1) by (simp add: good_val_def)
        ultimately show ?thesis using Suc.IH(2)[OF _ array_append_wf[OF 2(2) _ that(2)]] f parse_val_le(1)[OF that(1)] by simp
      qed
      show "good_val (if toktyp tok = TOK_ENDL then array_loop sd n m xs need sp1
          else if toktyp tok = TOK_RBRACK then Inr (set_flag_recursive (D_array m xs), sp1)
          else if toktyp tok = TOK_COMMA
          then if need then array_loop sd n m xs False sp1 else Inl (Syntax_error (tok_lineno tok) ''syntax error while parsing array: unexpected comma'')
          else if need then Inl (Syntax_error (tok_lineno tok) ''syntax error while parsing array: missing comma'')
          else then_do (parse_val sd n tok sp1) (\<lambda>(v, sp2). then_do (or_error (tok_lineno tok) (array_error (arr_emplace xs)))
            (\<lambda>ys. array_loop sd n m (ys[length ys - 1 := v]) True sp2)))"
        using l v flag_wf[OF 2(2)] by (auto simp: or_error_Inr good_val_def[of "parse_val sd n tok sp1"] simp del: One_nat_def intro!: good_val_then_do a)
    qed
  next
    case 3
    show ?case unfolding table_loop.simps
    proof (rule good_val_then_do, simp, clarify)
      fix tok sp1
      assume s: "scan_key sd sp = Inr (tok, sp1)"
      have l: "good_val (table_loop sd n tab b sp1)" if "toktyp tok \<in> {TOK_COMMA, TOK_ENDL}" for b
        using Suc.IH(3)[OF _ 3(2)] scan_key_less[OF s] 3(1) that by auto
      have v: "good_val (parse_val sd n vt sp')" if "left sp' < left sp1" "tok_ok vt" for vt sp'
        using Suc.IH(1) that scan_key_le[OF s] 3(1) by simp
      have e: "good_tab (table_entry sd (parse_val sd n) tok tab sp1)" using table_entry_good[OF 3(2) scan_key_ok[OF s] v] .
      have "good_val (table_loop sd n tab1 True sp2)" if "table_entry sd (parse_val sd n) tok tab sp1 = Inr (tab1, sp2)" for tab1 sp2
      proof -
        have "left sp2 < left sp1" by (rule table_entry_less[OF that]) (rule parse_val_le(1))
        then show ?thesis using Suc.IH(3) e that scan_key_le[OF s] 3(1) by (simp add: good_tab_def)
      qed
      then show "good_val (if toktyp tok = TOK_RBRACE then Inr (set_flag_recursive tab, sp1)
          else if toktyp tok = TOK_COMMA then if need then table_loop sd n tab False sp1 else Inl (Syntax_error (tok_lineno tok) ''unexpected comma'')
          else if toktyp tok = TOK_ENDL then table_loop sd n tab need sp1
          else if need then Inl (Syntax_error (tok_lineno tok) ''missing comma'')
          else then_do (table_entry sd (parse_val sd n) tok tab sp1) (\<lambda>(tab1, sp2). table_loop sd n tab1 True sp2))"
        using l e flag_wf[of tab] 3(2) by (auto simp: good_tab_def good_place_def intro!: good_val_then_do)
    qed
  }
qed (simp_all add: parse_val.simps array_loop.simps table_loop.simps)

section \<open>Expressions and documents\<close>

abbreviation places_well :: "(toml_datum \<times> nat list) toml \<Rightarrow> bool" where
  "places_well r \<equiv> fine r \<and> (\<forall>x. r = Inr x \<longrightarrow> good_place x)"

text \<open>Only tables carry the mark of a header, so the table of a header is one.\<close>

lemma std_place_good:
  assumes "good_place (root, path)"
  shows "places_well (std_table_place l c key root path)"
proof -
  obtain m kvs where n: "node root path = D_table m kvs" "wf_table kvs" using good_placeD[OF assms] .
  show ?thesis
  proof (cases "tab_find kvs key")
    case None
    then show ?thesis using new_table_good[OF assms n(1)] by (auto simp: std_table_place_def n(1) result_Inr)
  next
    case (Some j)
    then have "map_of kvs key = Some (snd (kvs ! j))" using tab_find_map_of[of kvs key] by simp
    then have "wf_datum (snd (kvs ! j))" using wf_tableD[OF n(2)] map_of_SomeD by metis
    then have "flag_stdexpr (datum_meta (snd (kvs ! j))) \<Longrightarrow> datum_type (snd (kvs ! j)) = TOML_TABLE" by (cases "snd (kvs ! j)") simp_all
    then show ?thesis using found_table_good[OF assms n(1) Some] by (auto simp: std_table_place_def n(1) Some guard_Inr)
  qed
qed

lemma mark_good:
  assumes "good_place (root, path)"
  shows "good_place (node_upd path (mark_explicit l c) root, path)"
proof -
  obtain m kvs where n: "node root path = D_table m kvs" "wf_table kvs" "wf_datum root" using good_placeD[OF assms] .
  have "node_upd path (mark_explicit l c) root = put_table path (m\<lparr>flag_explicit := True, d_lineno := l, d_colno := c\<rparr>) kvs root" if "node root path = D_table m kvs"
    using that unfolding put_table_def
    by (induction path "mark_explicit l c" root rule: node_upd.induct) (auto simp: mark_explicit_def split: if_splits)
  then show ?thesis using put_table_good(1)[OF assms n(2)] n(1) by simp
qed

lemma array_slot_good:
  assumes "wf_table kvs"
  shows "fine (array_slot l c key m kvs)" "array_slot l c key m kvs = Inr (kvs1, idx) \<Longrightarrow> wf_table kvs1 \<and> idx < length kvs1"
proof -
  have a: "wf_table kvs1 \<and> tab_find kvs1 key \<noteq> None" if "tab_add kvs key (D_array (meta_at l c) []) = Inr kvs1" for kvs1
    using add_wf[OF assms _ that] that tab_find_None[of kvs1 key] by (auto simp: tab_add_wf[OF assms] meta_at_def split: if_splits)
  then show "fine (array_slot l c key m kvs)" by (auto simp: array_slot_def or_error_Inr split: option.split intro!: fine_then_do)
  show "array_slot l c key m kvs = Inr (kvs1, idx) \<Longrightarrow> wf_table kvs1 \<and> idx < length kvs1"
    using a assms tab_find_Some by (auto simp: array_slot_def result_Inr split: option.splits)
qed

lemma append_table_good:
  assumes "wf_datum d"
  shows "fine (append_table l c d)"
    "append_table l c d = Inr (d', i) \<Longrightarrow> \<exists>am ys m'. d' = D_array am ys \<and> wf_datum d' \<and> i < length ys \<and> ys ! i = D_table m' []"
proof -
  show "fine (append_table l c d)" by (auto simp: append_table_def split: toml_datum.split intro!: fine_then_do)
  assume a: "append_table l c d = Inr (d', i)"
  then obtain am xs ys where x: "d = D_array am xs" "arr_emplace xs = Inr ys" "i = length ys - 1" "d' = D_array am (ys[length ys - 1 := D_table (meta_at l c) []])"
    by (auto simp: append_table_def result_Inr split: toml_datum.splits)
  have "wf_datum d'" using array_append_wf[of am xs "D_table (meta_at l c) []"] assms x by simp
  moreover have "i < length ys" using x(2,3) by (auto simp: arr_emplace_def split: if_splits)
  ultimately show "\<exists>am ys m'. d' = D_array am ys \<and> wf_datum d' \<and> i < length ys \<and> ys ! i = D_table m' []" using x(3,4) by auto
qed

lemma array_place_good:
  assumes "good_place (root, path)"
  shows "places_well (array_table_place l c key root path)"
proof -
  obtain m kvs where n: "node root path = D_table m kvs" "wf_table kvs" using good_placeD[OF assms] .
  note slot = array_slot_good[OF n(2), of l c key m]
  have app: "wf_datum (snd (kvs1 ! idx))" if "array_slot l c key m kvs = Inr (kvs1, idx)" for kvs1 idx
    using slot(2)[OF that] wf_tableD[of kvs1] by (metis nth_mem prod.collapse)
  have "good_place (put_table path m (set_value kvs1 idx arr) root, path @ [idx, i])"
    if s: "array_slot l c key m kvs = Inr (kvs1, idx)" "append_table l c (snd (kvs1 ! idx)) = Inr (arr, i)" for kvs1 idx arr i
  proof -
    obtain am ys m' where y: "arr = D_array am ys" "wf_datum arr" "i < length ys" "ys ! i = D_table m' []"
      using append_table_good(2)[OF app[OF s(1)] s(2)] by blast
    have w: "wf_table (set_value kvs1 idx arr)" using wf_set_value[of kvs1] slot(2)[OF s(1)] y(2) by blast
    then show ?thesis using put_table_good[OF assms w, of m] y slot(2)[OF s(1)] by (simp add: good_place_def node_append)
  qed
  then show ?thesis using slot(1) append_table_good(1)[OF app]
    by (auto simp: array_table_place_def n(1) result_Inr intro!: fine_then_do)
qed

definition good_parser :: "parser toml \<Rightarrow> bool" where
  "good_parser r \<longleftrightarrow> fine r \<and> (\<forall>p. r = Inr p \<longrightarrow> good_place (p_toptab p, p_curtab p))"

lemma good_parser_then_do: "fine r \<Longrightarrow> (\<And>x. r = Inr x \<Longrightarrow> good_parser (f x)) \<Longrightarrow> good_parser (then_do r f)"
  by (cases r) (simp_all add: good_parser_def fine_def)

lemma good_parser_simps [simp]: "good_parser (Inl (Syntax_error l m))" "good_parser (Inr p) \<longleftrightarrow> good_place (p_toptab p, p_curtab p)"
  by (simp_all add: good_parser_def)

lemma std_expr_good:
  assumes "good_place (p_toptab p, [])" "toktyp tok = TOK_LBRACK"
  shows "good_parser (parse_std_table_expr sd tok p)"
proof -
  have d: "fine (descend_keypart l c True (p_toptab p) [] ks)" "descend_keypart l c True (p_toptab p) [] ks = Inr (root, path) \<Longrightarrow> good_place (root, path)"
    for l c ks root path using descend_good[OF assms(1)] by blast+
  have s: "good_place (root, path) \<Longrightarrow> fine (std_table_place l c key root path)"
    "std_table_place l c key root path = Inr (r, q) \<Longrightarrow> good_place (root, path) \<Longrightarrow> good_place (r, q)" for l c key root path r q
    using std_place_good by blast+
  show ?thesis
    by (auto simp: parse_std_table_expr_def assms(2) d(1) intro!: good_parser_then_do parse_key_fine scan_key_ok mark_good s(1)[OF d(2)]
        dest!: s(2)[OF _ d(2)])
qed

lemma array_expr_good:
  assumes "good_place (p_toptab p, [])" "toktyp tok = TOK_LLBRACK"
  shows "good_parser (parse_array_table_expr sd tok p)"
proof -
  have d: "fine (descend_keypart l c True (p_toptab p) [] ks)" "descend_keypart l c True (p_toptab p) [] ks = Inr (root, path) \<Longrightarrow> good_place (root, path)"
    for l c ks root path using descend_good[OF assms(1)] by blast+
  have s: "good_place (root, path) \<Longrightarrow> fine (array_table_place l c key root path)"
    "array_table_place l c key root path = Inr (r, q) \<Longrightarrow> good_place (root, path) \<Longrightarrow> good_place (r, q)" for l c key root path r q
    using array_place_good by blast+
  show ?thesis
    by (auto simp: parse_array_table_expr_def assms(2) d(1) intro!: good_parser_then_do parse_key_fine scan_key_ok s(1)[OF d(2)] dest!: s(2)[OF _ d(2)])
qed

lemma keyvalue_good:
  assumes "good_place (p_toptab p, p_curtab p)" "tok_ok tok"
  shows "good_parser (parse_keyvalue_expr sd tok p)"
  unfolding parse_keyvalue_expr_def
proof (rule good_parser_then_do[OF parse_key_fine[OF assms(2)]], clarify, rule good_parser_then_do, simp, clarify)
  fix keys sp1 eq sp2
  let ?d = "locate_table (tok_lineno tok) (tok_colno tok) True (p_toptab p) (p_curtab p) (butlast keys)"
  have d: "fine ?d" "?d = Inr (root, path) \<Longrightarrow> good_place (root, path)" for root path using locate_good[OF assms(1)] by blast+
  have "good_parser (in_table root path (\<lambda>m kvs.
      if flag_inlined m then Inl (Syntax_error (tok_lineno tok) ''inline table cannot be extended'')
      else if length keys > 1 \<and> flag_explicit m
      then Inl (Syntax_error (tok_lineno tok) ''cannot extend a previously defined table using dotted expression'')
      else then_do (scan_value sd sp2) (\<lambda>(vt, sp3). then_do (parse_val sd (val_fuel sp3) vt sp3) (\<lambda>(v, sp4).
        then_do (or_error (tok_lineno tok) (tab_add kvs (last keys) v)) (\<lambda>kvs1. Inr (p\<lparr>p_scanner := sp4, p_toptab := put_table path m kvs1 root\<rparr>))))))"
    if p: "?d = Inr (root, path)" for root path
  proof -
    obtain m kvs where n: "node root path = D_table m kvs" "wf_table kvs" using good_placeD[OF d(2)[OF p]] .
    have v: "fine (parse_val sd (val_fuel sp3) vt sp3)" "parse_val sd (val_fuel sp3) vt sp3 = Inr (x, sp4) \<Longrightarrow> wf_datum x"
      if "scan_value sd sp2 = Inr (vt, sp3)" for vt sp3 x sp4
      using parse_val_good(1)[of sp3 "val_fuel sp3" vt sd] scan_value_ok[OF that] by (auto simp: val_fuel_def good_val_def)
    have keep: "prefix (p_curtab p) path" "table_at root (p_curtab p)" using locate_keeps[OF p assms(1)] assms(1) by (auto simp: good_place_def)
    have add: "good_place (put_table path m kvs1 root, p_curtab p)" if "wf_datum x" "tab_add kvs key x = Inr kvs1" for x key kvs1
      using put_table_good(1)[OF d(2)[OF p] add_wf[OF n(2) that], of m] put_keeps[OF d(2)[OF p] keep, of m kvs1] by (auto simp: good_place_def)
    show ?thesis unfolding in_table_at[OF n(1)] by (auto simp: or_error_Inr intro!: good_parser_then_do v(1) add dest: v(2))
  qed
  then show "good_parser (if toktyp eq \<noteq> TOK_EQUAL then Inl (Syntax_error (tok_lineno eq) (''expect '' @ [CHR 0x27] @ ''='' @ [CHR 0x27]))
    else then_do ?d (\<lambda>(root, path). in_table root path (\<lambda>m kvs.
      if flag_inlined m then Inl (Syntax_error (tok_lineno tok) ''inline table cannot be extended'')
      else if length keys > 1 \<and> flag_explicit m
      then Inl (Syntax_error (tok_lineno tok) ''cannot extend a previously defined table using dotted expression'')
      else then_do (scan_value sd sp2) (\<lambda>(vt, sp3). then_do (parse_val sd (val_fuel sp3) vt sp3) (\<lambda>(v, sp4).
        then_do (or_error (tok_lineno tok) (tab_add kvs (last keys) v)) (\<lambda>kvs1. Inr (p\<lparr>p_scanner := sp4, p_toptab := put_table path m kvs1 root\<rparr>)))))))"
    using d(1) by (auto intro!: good_parser_then_do)
qed

lemma expr_good:
  assumes "good_place (p_toptab p, p_curtab p)" "tok_ok tok"
  shows "good_parser (parse_expr sd tok p)"
  using std_expr_good[OF good_root[OF assms(1)]] array_expr_good[OF good_root[OF assms(1)]] keyvalue_good[OF assms] by (simp add: parse_expr_def)

definition good_document :: "toml_datum toml \<Rightarrow> bool" where
  "good_document r \<longleftrightarrow> (case r of Inr t \<Rightarrow> wf_datum t \<and> datum_type t = TOML_TABLE | Inl e \<Rightarrow> (\<exists>l m. e = Syntax_error l m))"

lemma good_document_then_do: "fine r \<Longrightarrow> (\<And>x. r = Inr x \<Longrightarrow> good_document (f x)) \<Longrightarrow> good_document (then_do r f)"
proof (cases r)
  case (Inl e)
  then show "fine r \<Longrightarrow> good_document (then_do r f)" by (cases e) (simp_all add: good_document_def)
qed simp

lemma loop_good: "good_place (p_toptab p, p_curtab p) \<Longrightarrow> good_document (toml_loop sd p)"
proof (induction sd p rule: toml_loop.induct)
  case (1 sd p)
  have e: "good_parser (parse_expr sd tok (p\<lparr>p_scanner := sp\<rparr>))" if "scan_key sd (p_scanner p) = Inr (tok, sp)" for tok sp
    using expr_good[of "p\<lparr>p_scanner := sp\<rparr>" tok sd] "1.prems" scan_key_ok[OF that] by simp
  have "good_document (toml_loop sd (p1\<lparr>p_scanner := sp1\<rparr>))"
    if "scan_key sd (p_scanner p) = Inr (tok, sp)" "toktyp tok \<noteq> TOK_FIN" "toktyp tok \<noteq> TOK_ENDL" "parse_expr sd tok (p\<lparr>p_scanner := sp\<rparr>) = Inr p1"
      "scan_key sd (p_scanner p1) = Inr (t2, sp1)" "toktyp t2 = TOK_FIN \<or> toktyp t2 = TOK_ENDL" for tok sp p1 t2 sp1
    using "1.IH"(2)[OF that(1) refl that(2-5) refl that(6)] e[OF that(1)] that(4) by (simp add: good_parser_def)
  moreover have "good_document (toml_loop sd (p\<lparr>p_scanner := sp\<rparr>))"
    if "scan_key sd (p_scanner p) = Inr (tok, sp)" "toktyp tok = TOK_ENDL" for tok sp
    using "1.IH"(1)[OF that(1) refl] that(2) "1.prems" by simp
  moreover have "good_document (Inr (p_toptab p))" using "1.prems" by (simp add: good_document_def good_place_def)
  moreover have "good_document (Inl (Syntax_error l m))" for l m by (simp add: good_document_def)
  ultimately show ?case using e unfolding toml_loop.simps[of sd p]
    by (auto simp: good_parser_def intro!: good_document_then_do)
qed

lemma check_utf8_fine [simp]: "fine (check_utf8 line s)"
proof (induction line s rule: check_utf8.induct)
  case (1 line s)
  then show ?case by (subst check_utf8.simps) (auto split: option.split)
qed

lemma fine_error: "fine (Inl e) \<Longrightarrow> \<exists>l m. e = Syntax_error l m"
  by (cases e) simp_all


lemma parsed_wf: "toml_parse sd u src = Inr t \<Longrightarrow> wf_datum t \<and> datum_type t = TOML_TABLE"
  using loop_good[of "\<lparr>p_scanner = scan_init src, p_toptab = D_table (meta_at 1 1) [], p_curtab = []\<rparr>" sd]
  by (auto simp: toml_parse_def toml_parse_named_def then_do_Inr good_document_def good_place_def source_wf)



text \<open>Two short documents with a key of the first and a dotted key of the second.\<close>

definition sample_text :: "bool \<Rightarrow> string" where
  "sample_text other = (if other then ''b.c=true'' else ''a='' @ [DQ] @ ''x'' @ [DQ])"

definition sample_tree :: "bool \<Rightarrow> toml_datum" where
  "sample_tree other = D_table (meta_at 1 1) (if other then [(''b'', D_table (meta_at 1 1) [(''c'', D_scalar (meta_at 1 5) (S_boolean True))])]
     else [(''a'', D_scalar (meta_at 1 4) (S_string ''x''))])"

definition sample_merged :: toml_datum where
  "sample_merged = D_table (meta_at 1 1) [(''a'', D_scalar (meta_at 1 4) (S_string ''x'')),
     (''b'', D_table (meta_at 1 1) [(''c'', D_scalar (meta_at 1 5) (S_boolean True))])]"


end
