(* ===== verification/Toml_Config.thy ===== *)
theory Toml_Config
  imports Toml_Parse
begin

text \<open>
  From the text of a configuration file to the settings of the server: documents of sections with strings and numbers, how they are written, and that the parser
  gives them back; the accessors of \<^verbatim>\<open>tomlcpp.h\<close> then see the values that were written.
\<close>

section \<open>What the scanner makes of single tokens\<close>

definition scans :: "(token \<times> scanner) toml \<Rightarrow> (token \<Rightarrow> bool) \<Rightarrow> string \<Rightarrow> scanner \<Rightarrow> bool" where
  "scans r Q rest sp \<longleftrightarrow> (\<exists>tok sp'. r = Inr (tok, sp') \<and> Q tok \<and> sc_cur sp' = rest \<and> bracket_level sp' = bracket_level sp)"

lemma scansE:
  assumes "scans r Q rest sp"
  obtains tok sp' where "r = Inr (tok, sp')" "Q tok" "sc_cur sp' = rest" "bracket_level sp' = bracket_level sp"
  using assms by (auto simp: scans_def)

abbreviation is_tok :: "toktyp \<Rightarrow> token \<Rightarrow> bool" where "is_tok ty tok \<equiv> toktyp tok = ty"

lemma next_blank:
  "sc_cur sp = CHR '' '' # cs \<Longrightarrow> scan_next sd k sp = scan_next sd k (sp\<lparr>sc_cur := cs, sc_col := sc_col sp + 1\<rparr>)"
  by (subst scan_next.simps) (simp add: scan_get_def simple_token_def)

lemma next_fin: "sc_cur sp = [] \<Longrightarrow> scans (scan_next sd k sp) (is_tok TOK_FIN) [] sp"
  by (subst scan_next.simps) (simp add: scan_get_def scans_def mktoken_def)

lemma next_endl: "sc_cur sp = LF # cs \<Longrightarrow> scans (scan_next sd k sp) (is_tok TOK_ENDL) cs sp"
  by (subst scan_next.simps) (simp add: scan_get_def scans_def mktoken_def simple_token_def)

lemma next_equal: "sc_cur sp = CHR ''='' # cs \<Longrightarrow> scans (scan_next sd k sp) (is_tok TOK_EQUAL) cs sp"
  by (subst scan_next.simps) (simp add: scan_get_def scans_def mktoken_def simple_token_def)

lemma next_lbrack: "sc_cur sp = CHR ''['' # c # cs \<Longrightarrow> c \<noteq> CHR ''['' \<Longrightarrow> scans (scan_next sd True sp) (is_tok TOK_LBRACK) (c # cs) sp"
  by (subst scan_next.simps) (simp add: scan_get_def scans_def mktoken_def simple_token_def bracket_token_def scan_match_def)

text \<open>What may follow an expression: the end of the text or of the line.\<close>

abbreviation line_end :: "string \<Rightarrow> bool" where
  "line_end s \<equiv> s = [] \<or> hd s = LF"

lemma next_rbrack: "sc_cur sp = CHR '']'' # cs \<Longrightarrow> line_end cs \<Longrightarrow> scans (scan_next sd True sp) (is_tok TOK_RBRACK) cs sp"
  by (subst scan_next.simps; cases cs) (simp_all add: scan_get_def scans_def mktoken_def simple_token_def bracket_token_def scan_match_def)

lemma next_line_end: "sc_cur sp = s \<Longrightarrow> line_end s \<Longrightarrow> scans (scan_next sd k sp) (\<lambda>tok. toktyp tok = TOK_FIN \<or> toktyp tok = TOK_ENDL) (drop 1 s) sp"
  using next_fin[of sp sd k] next_endl[of sp "tl s" sd k] by (cases s) (auto simp: scans_def)

subsection \<open>Bare keys\<close>

definition bare_char :: "char \<Rightarrow> bool" where
  "bare_char c \<longleftrightarrow> isalnum c \<or> c = CHR ''_'' \<or> c = CHR ''-''"

definition bare_key :: "string \<Rightarrow> bool" where
  "bare_key k \<longleftrightarrow> k \<noteq> [] \<and> list_all bare_char k"

lemma no_bare: "\<not> bare_char CR" "\<not> bare_char LF" "\<not> bare_char (CHR '' '')" "\<not> bare_char TAB" "\<not> bare_char (CHR ''#'')" "\<not> bare_char (CHR ''['')"
    "\<not> bare_char (CHR '']'')" "\<not> bare_char DQ" "\<not> bare_char (CHR 0x27)" "\<not> bare_char (CHR ''.'')" "\<not> bare_char (CHR ''='')" "\<not> bare_char (CHR '','')"
    "\<not> bare_char (CHR ''{'')" "\<not> bare_char (CHR ''}'')"
  by (simp_all add: bare_char_def isalnum_def)

lemma bare_ne: "bare_char c \<Longrightarrow> \<not> bare_char d \<Longrightarrow> c \<noteq> d"
  by blast

lemmas bare_charD = no_bare[THEN bare_ne[rotated]]

lemma bare_no_token: "bare_char c \<Longrightarrow> simple_token c = None"
  by (simp add: simple_token_def bare_charD)

lemma literal_len_bare:
  assumes "list_all bare_char k" "rest = [] \<or> \<not> bare_char (hd rest) \<and> byte_val (hd rest) < 0x80"
  shows "literal_len (k @ rest) = length k"
  using assms(1)
proof (induction k)
  case Nil
  then show ?case using assms(2) by (cases rest) (auto simp: literal_len.simps bare_char_def)
next
  case (Cons c k)
  then show ?case by (subst literal_len.simps) (auto simp: bare_char_def)
qed

lemma next_bare:
  assumes "sc_cur sp = k @ rest" "bare_key k" "rest = [] \<or> \<not> bare_char (hd rest) \<and> byte_val (hd rest) < 0x80"
  shows "scans (scan_next sd True sp) (\<lambda>tok. toktyp tok = TOK_LIT \<and> tok_str tok = k) rest sp"
proof -
  obtain c cs where k: "k = c # cs" "bare_char c" using assms(2) by (cases k) (auto simp: bare_key_def)
  note c = bare_charD[OF k(2)] bare_no_token[OF k(2)]
  have "scan_next sd True sp = scan_literal sp" using assms(1) k(1) c by (subst scan_next.simps) (simp add: scan_get_def Let_def)
  moreover have "literal_len (sc_cur sp) = length k" using literal_len_bare[of k rest] assms by (simp add: bare_key_def)
  ultimately show ?thesis using assms(1) by (simp add: scan_literal_def Let_def scans_def mktoken_def)
qed

text \<open>The levels count only brackets.\<close>

lemma key_other: "scans (scan_next sd True sp) Q rest sp \<Longrightarrow> (\<And>tok. Q tok \<Longrightarrow> toktyp tok \<notin> {TOK_LBRACK, TOK_RBRACK, TOK_LBRACE, TOK_RBRACE}) \<Longrightarrow>
    scans (scan_key sd sp) Q rest sp"
  by (fastforce simp: scans_def scan_key_def check_overflow_def)

lemma value_other: "scans (scan_next sd False sp) Q rest sp \<Longrightarrow> (\<And>tok. Q tok \<Longrightarrow> toktyp tok \<notin> {TOK_LBRACK, TOK_RBRACK, TOK_LBRACE, TOK_RBRACE}) \<Longrightarrow>
    scans (scan_value sd sp) Q rest sp"
  by (fastforce simp: scans_def scan_value_def check_overflow_def)

subsection \<open>Strings\<close>

definition special :: "char \<Rightarrow> bool" where
  "special c \<longleftrightarrow> c = DQ \<or> c = BS"

definition escaped :: "string \<Rightarrow> string" where
  "escaped s = concat (map (\<lambda>c. if special c then [BS, c] else [c]) s)"

definition string_char :: "char \<Rightarrow> bool" where
  "string_char c \<longleftrightarrow> is_valid_char c \<or> c = TAB"

lemma escaped_simps [simp]: "escaped [] = []" "escaped (c # s) = (if special c then BS # c # escaped s else c # escaped s)"
  by (simp_all add: escaped_def)

lemma string_charD: "string_char c \<Longrightarrow> c \<noteq> CR \<and> c \<noteq> LF \<and> c \<noteq> NUL"
  by (auto simp: string_char_def is_valid_char_def)

lemma unescape_escaped: "list_all string_char s \<Longrightarrow> unescape l (escaped s) = Inr s"
proof (induction s)
  case Nil
  then show ?case by (simp add: unescape.simps)
next
  case (Cons c s)
  then have c: "c \<noteq> NUL" "unescape l (escaped s) = Inr s" using string_charD[of c] by simp_all
  show ?case
  proof (cases "special c")
    case True
    then have "simple_escape c = Some c" by (auto simp: special_def simple_escape_def)
    then show ?thesis using True c by (subst unescape.simps) (simp add: ch_at_def)
  next
    case False
    then show ?thesis using c by (subst unescape.simps) (simp add: special_def)
  qed
qed

text \<open>Up to the first special character nothing is escaped.\<close>

lemma escaped_split: "escaped s = takeWhile (\<lambda>c. \<not> special c) s @ escaped (dropWhile (\<lambda>c. \<not> special c) s)"
  by (induction s) auto

definition first_escape :: "nat \<Rightarrow> nat option \<Rightarrow> string \<Rightarrow> nat option" where
  "first_escape k e s = (case e of Some x \<Rightarrow> Some x | None \<Rightarrow> if list_all (\<lambda>c. \<not> special c) s then None else Some (k + length (takeWhile (\<lambda>c. \<not> special c) s)))"

lemma string_loop_reads:
  assumes "list_all string_char s" "sc_cur sp = escaped s @ DQ # rest" "n0 = k + length (sc_cur sp)"
  shows "\<exists>sp'. string_loop n0 e sp = Inr (first_escape k e s, sp') \<and> sc_cur sp' = DQ # rest \<and> bracket_level sp' = bracket_level sp"
  using assms
proof (induction s arbitrary: sp k e)
  case Nil
  then show ?case by (subst string_loop.simps) (simp add: scan_match_def first_escape_def split: option.split)
next
  case (Cons c s)
  have c: "c \<noteq> CR" "c \<noteq> LF" "is_valid_char c \<or> c = TAB" using Cons.prems(1) string_charD[of c] by (simp_all add: string_char_def)
  show ?case
  proof (cases "special c")
    case False
    let ?sp = "sp\<lparr>sc_cur := escaped s @ DQ # rest, sc_col := sc_col sp + 1\<rparr>"
    have "string_loop n0 e sp = string_loop n0 e ?sp"
      using Cons.prems(2) False c by (subst string_loop.simps) (auto simp: scan_match_def scan_get_def special_def)
    moreover have "first_escape (k + 1) e s = first_escape k e (c # s)" using False by (simp add: first_escape_def split: option.split)
    ultimately show ?thesis using Cons.IH[of ?sp "k + 1" e] Cons.prems False by simp
  next
    case True
    let ?sp1 = "sp\<lparr>sc_cur := c # escaped s @ DQ # rest, sc_col := sc_col sp + 1\<rparr>"
    let ?sp = "advance 1 ?sp1"
    have e: "scan_escape_chars ?sp1 = Inr 1" using True by (auto simp: scan_escape_chars_def special_def)
    have "string_loop n0 e sp = string_loop n0 (mark_escape n0 e ?sp1) ?sp"
      using Cons.prems(2) True e by (subst string_loop.simps) (simp add: scan_match_def scan_get_def)
    moreover have "mark_escape n0 e ?sp1 = first_escape k e (c # s)" using Cons.prems(2,3) True by (simp add: mark_escape_def first_escape_def split: option.split)
    moreover have "first_escape (k + 2) (first_escape k e (c # s)) s = first_escape k e (c # s)" using True by (simp add: first_escape_def split: option.split)
    ultimately show ?thesis using Cons.IH[of ?sp "k + 2" "first_escape k e (c # s)"] Cons.prems True by simp
  qed
qed

text \<open>The token of a quoted string and its value.\<close>

lemma norm_escaped:
  assumes "list_all string_char s" "toktyp tok = TOK_STRING" "tok_str tok = escaped s" "tok_u tok = U_escp (first_escape 0 None s)"
  shows "parse_norm tok = Inr s"
proof (cases "list_all (\<lambda>c. \<not> special c) s")
  case True
  then have "escaped s = s" by (induction s) auto
  then show ?thesis using assms True by (simp add: parse_norm_def first_escape_def)
next
  case False
  let ?p = "takeWhile (\<lambda>c. \<not> special c) s" and ?q = "dropWhile (\<lambda>c. \<not> special c) s"
  have q: "?q \<noteq> []" using False by (auto simp: list_all_iff)
  then obtain c t where ct: "?q = c # t" "special c" by (metis hd_dropWhile list.collapse list.sel(1))
  have "list_all string_char ?q" using assms(1) by (metis list_all_append takeWhile_dropWhile_id)
  then have "unescape (tok_lineno tok) (escaped ?q) = Inr ?q" by (rule unescape_escaped)
  moreover have "escaped s = ?p @ escaped ?q" by (rule escaped_split)
  moreover have "ch_at (escaped s) (length ?p) = BS" using \<open>escaped s = ?p @ escaped ?q\<close> ct by (simp add: ch_at_def nth_append)
  ultimately show ?thesis using assms False by (simp add: parse_norm_def first_escape_def)
qed

lemma next_string:
  assumes "sc_cur sp = DQ # escaped s @ DQ # rest" "list_all string_char s" "line_end rest"
  shows "scans (scan_next sd False sp) (\<lambda>tok. toktyp tok = TOK_STRING \<and> parse_norm tok = Inr s) rest sp"
proof -
  have "\<not> scan_nmatch sp DQ 3"
    using assms by (cases s; cases rest) (auto simp: scan_nmatch_def special_def numeral_3_eq_3)
  have "scan_next sd False sp = scan_string sp" using assms(1) by (subst scan_next.simps) (simp add: scan_get_def Let_def simple_token_def)
  let ?sp1 = "sp\<lparr>sc_cur := escaped s @ DQ # rest, sc_col := sc_col sp + 1\<rparr>"
  obtain sp2 where l: "string_loop (length (sc_cur ?sp1)) None ?sp1 = Inr (first_escape 0 None s, sp2)" "sc_cur sp2 = DQ # rest" "bracket_level sp2 = bracket_level sp"
    using string_loop_reads[of s ?sp1 rest "length (sc_cur ?sp1)" 0 None] assms(2) by auto
  let ?tok = "(mktoken ?sp1 TOK_STRING)\<lparr>tok_str := scanned ?sp1 sp2, tok_u := U_escp (first_escape 0 None s)\<rparr>"
  have "scan_get sp = (Some DQ, ?sp1)" using assms(1) by (simp add: scan_get_def)
  then have "scan_string sp = Inr (?tok, snd (scan_get sp2))" using \<open>\<not> scan_nmatch sp DQ 3\<close> l(1) by (simp add: scan_string_def Let_def)
  moreover have "parse_norm ?tok = Inr s" by (rule norm_escaped[OF assms(2)]) (simp_all add: mktoken_def scanned_def l(2))
  moreover have "sc_cur (snd (scan_get sp2)) = rest" "bracket_level (snd (scan_get sp2)) = bracket_level sp" using l(2,3) by (simp_all add: scan_get_def)
  ultimately show ?thesis using \<open>scan_next sd False sp = scan_string sp\<close> by (simp add: scans_def mktoken_def)
qed

subsection \<open>Numbers\<close>

lemma dec_length: "n < 10 ^ Suc k \<Longrightarrow> length (dec n) \<le> Suc k"
proof (induction k arbitrary: n)
  case 0
  then show ?case by (subst dec.simps) simp
next
  case (Suc k)
  then have "n div 10 < 10 ^ Suc k" by (simp add: div_less_iff_less_mult mult.commute)
  then show ?case using Suc.IH by (subst dec.simps) simp
qed

lemma dec_leading: "dec n = c # d # ds \<Longrightarrow> c \<noteq> CHR ''0''"
proof (induction n arbitrary: d ds rule: dec.induct)
  case (1 n)
  then have n: "\<not> n < 10" "dec (n div 10) @ [char_of (48 + n mod 10)] = c # d # ds" by (auto simp: dec.simps[of n] split: if_splits)
  then obtain es where e: "dec (n div 10) = c # es" by (cases "dec (n div 10)") simp_all
  show ?case
  proof (cases es)
    case Nil
    then have "n div 10 = digit_val c" using digits_val_dec[of "n div 10"] e by (simp add: digits_val_def)
    then have "digit_val c \<noteq> 0" using n(1) by simp
    then show ?thesis by (auto simp: digit_val_def)
  next
    case (Cons x xs)
    then show ?thesis using "1.IH"[OF n(1)] e by simp
  qed
qed

lemma isdigit_list: "isdigit c \<Longrightarrow> c \<in> set ''0123456789''"
proof -
  assume "isdigit c"
  then have "of_char c \<in> {48, 49, 50, 51, 52, 53, 54, 55, 56, 57 :: nat}" by (simp add: isdigit_def Let_def) arith
  then have "of_char c \<in> (of_char :: char \<Rightarrow> nat) ` set ''0123456789''" by simp
  then obtain d where "d \<in> set ''0123456789''" "of_char c = (of_char d :: nat)" by blast
  then show ?thesis by (simp only: of_char_eq_iff)
qed

lemma digit_ne: "isdigit c \<Longrightarrow> \<not> isdigit d \<Longrightarrow> c \<noteq> d"
  by blast

lemma no_digits: "\<not> isdigit (CHR ''_'')" "\<not> isdigit (CHR ''.'')" "\<not> isdigit (CHR ''+'')" "\<not> isdigit (CHR ''-'')" "\<not> isdigit (CHR '':'')" "\<not> isdigit (CHR ''x'')"
    "\<not> isdigit (CHR ''o'')" "\<not> isdigit (CHR ''b'')" "\<not> isdigit (CHR ''i'')" "\<not> isdigit (CHR ''n'')" "\<not> isdigit (CHR ''t'')" "\<not> isdigit (CHR ''f'')"
    "\<not> isdigit NUL" "\<not> isdigit LF" "\<not> isdigit CR" "\<not> isdigit (CHR '' '')" "\<not> isdigit TAB" "\<not> isdigit DQ" "\<not> isdigit (CHR 0x27)" "\<not> isdigit (CHR ''#'')"
    "\<not> isdigit (CHR ''['')" "\<not> isdigit (CHR '']'')"
  by (simp_all add: isdigit_def)

lemmas digitD = no_digits[THEN digit_ne[rotated]]

lemma digit_value:
  assumes "isdigit c"
  shows "digit_in 10 c" "hex_val c = digit_val c" "tolower c = c" "simple_token c = None"
proof -
  have v: "48 \<le> byte_val c" "byte_val c \<le> 57" using assms by (simp_all add: isdigit_def Let_def)
  then show "tolower c = c" "hex_val c = digit_val c" using assms by (simp_all add: tolower_def hex_val_def Let_def)
  then show "digit_in 10 c" using v by (simp add: digit_in_def is_hex_char_def toupper_def digit_val_def Let_def)
  show "simple_token c = None" using assms by (intro bare_no_token) (simp add: bare_char_def isalnum_def isdigit_def Let_def)
qed

lemma numstr_dec: "process_numstr (dec n) 10 = Inr (dec n)"
proof -
  have d: "i < length (dec n) \<Longrightarrow> isdigit (dec n ! i)" for i using dec_digits nth_mem by blast
  have f: "filter (\<lambda>c. c \<noteq> CHR ''_'') (dec n) = dec n" "map tolower (dec n) = dec n"
    using dec_digits digitD(1) digit_value(3) by (auto simp: filter_id_conv map_idI)
  obtain c cs where c: "dec n = c # cs" "isdigit c" using dec_digits[of _ n] by (cases "dec n") auto
  have "\<not> (c = CHR ''0'' \<and> isdigit (ch_at (dec n) 1))" using dec_leading[of n c] c by (cases cs) (auto simp: ch_at_def isdigit_def)
  moreover have "underscores_ok 10 (dec n)" "points_ok (dec n)" using d digitD(1,2) by (auto simp: underscores_ok_def points_ok_def list_all_iff)
  ultimately show ?thesis using f digitD[OF c(2)] c(1) by (simp add: process_numstr_def Let_def ch_at_def)
qed

lemma strtoll_dec:
  assumes "n < 2 ^ 63"
  shows "strtoll (dec n) 10 = (int n, [], True, False)"
proof -
  obtain c cs where c: "dec n = c # cs" "isdigit c" using dec_digits[of _ n] by (cases "dec n") auto
  have t: "takeWhile (digit_in 10) (dec n) = dec n" using dec_digits digit_value(1) by (auto simp: takeWhile_eq_all_conv)
  have "foldl (\<lambda>a c. 10 * a + hex_val c) 0 (dec n) = foldl (\<lambda>a c. 10 * a + digit_val c) 0 (dec n)"
    using dec_digits digit_value(2) by (intro foldl_cong) auto
  then have v: "foldl (\<lambda>a c. 10 * a + hex_val c) 0 (dec n) = n" using digits_val_dec[of n] by (simp add: digits_val_def)
  have "int n < 2 ^ 63" using assms by (metis of_nat_less_iff of_nat_numeral of_nat_power)
  then show ?thesis using t v digitD(3,4)[OF c(2)] c(1) by (simp add: strtoll_def Let_def ch_at_def)
qed

lemma copystr_dec:
  assumes "sc_cur sp = dec n @ rest" "line_end rest" "n < 2 ^ 63"
  obtains r where "scan_copystr sp 50 = dec n @ r" "line_end r"
proof -
  have len: "length (dec n) \<le> 19" using dec_length[of n 18] assms(3) by simp
  have "\<And>c. c \<in> set (dec n) \<Longrightarrow> c \<noteq> NUL" using dec_digits digitD(13) by blast
  then have "scan_copystr sp 50 = dec n @ c_str (take (49 - length (dec n)) rest)"
    using assms(1) len by (simp add: scan_copystr_def c_str_def takeWhile_append2)
  moreover have "line_end (c_str (take (49 - length (dec n)) rest))" using assms(2) len by (cases rest; cases "49 - length (dec n)") (auto simp: c_str_def)
  ultimately show ?thesis using that by blast
qed

lemma ch_at_dec: "line_end r \<Longrightarrow> isdigit (ch_at (dec n @ r) i) \<or> ch_at (dec n @ r) i \<in> {NUL, LF} \<or> length (dec n) < i"
  using dec_digits[of _ n] by (cases r) (auto simp: ch_at_def nth_append nth_Cons split: nat.split)

lemma ch_at_dec1: "line_end r \<Longrightarrow> isdigit (ch_at (dec n @ r) 1) \<or> ch_at (dec n @ r) 1 \<in> {NUL, LF}"
  using ch_at_dec[of r n 1] by (cases "dec n") auto

lemma dec_prefix:
  assumes "line_end rest" "\<forall>j < i. isdigit ((dec n @ rest) ! j)" "i < length (dec n @ rest)"
  shows "isdigit ((dec n @ rest) ! i) \<or> (dec n @ rest) ! i = LF"
proof -
  have l: "length (dec n) < length (dec n @ rest) \<Longrightarrow> (dec n @ rest) ! length (dec n) = LF" using assms(1) by (cases rest) simp_all
  consider "i < length (dec n)" | "i = length (dec n)" | "length (dec n) < i" by linarith
  then show ?thesis
  proof cases
    case 1
    then show ?thesis using dec_digits[of _ n] by (simp add: nth_append)
  next
    case 3
    then have "isdigit LF" using assms(2,3) l by (metis order_less_trans)
    then show ?thesis by (simp add: isdigit_def)
  qed (use l assms(3) in simp)
qed

lemma next_int:
  assumes "sc_cur sp = dec n @ rest" "line_end rest" "n < 2 ^ 63"
  shows "scans (scan_next sd False sp) (\<lambda>tok. toktyp tok = TOK_INTEGER \<and> tok_u tok = U_int64 (int n)) rest sp"
proof -
  obtain c cs where c: "dec n = c # cs" "isdigit c" using dec_digits[of _ n] by (cases "dec n") auto
  note D = digitD[OF c(2)] digit_value[OF c(2)]
  obtain r where r: "scan_copystr sp 50 = dec n @ r" "line_end r" using copystr_dec[OF assms] .
  have hd_r: "takeWhile (\<lambda>c. c \<in> set ''0123456789_+-.eE'') r = []" using r(2) by (cases r) auto
  have "\<And>c. c \<in> set (dec n) \<Longrightarrow> c \<in> set ''0123456789_+-.eE''" using dec_digits isdigit_list by fastforce
  then have sp: "strspn (dec n @ r) ''0123456789_+-.eE'' = length (dec n)" unfolding strspn_def by (subst takeWhile_append2) (use hd_r in auto)
  have dec: "scan_decimal sd sp = Inr ((mktoken sp TOK_INTEGER)\<lparr>tok_u := U_int64 (int n), tok_str := take (length (dec n)) (sc_cur sp)\<rparr>, advance (length (dec n)) sp)"
    using numstr_dec[of n] strtoll_dec[OF assms(3)] by (simp add: scan_decimal_def Let_def r(1) sp del: set_simps)
  have one: "ch_at (dec n @ r) 1 \<notin> {CHR ''x'', CHR ''o'', CHR ''b''}" using ch_at_dec1[OF r(2), of n] digitD(6,7,8) by auto
  have "ch_at (dec n @ r) 0 = c" using c(1) by (simp add: ch_at_def)
  then have num: "scan_number sd sp = scan_decimal sd sp" using one D by (simp add: scan_number_def Let_def r(1))
  have "\<not> test_time (sc_cur sp) \<and> \<not> test_date (sc_cur sp)"
    using dec_prefix[OF assms(2), of 2 n] dec_prefix[OF assms(2), of 4 n] assms(1)
    by (auto simp: test_time_def test_date_def less_Suc_eq eval_nat_numeral no_digits)
  then have "scan_nonstring_literal sd sp = scan_number sd sp"
    using assms(1) c isdigit_list[OF c(2)] D by (auto simp: scan_nonstring_literal_def test_bool_def test_number_def)
  moreover have "scan_next sd False sp = scan_nonstring_literal sd sp" using assms(1) c(1) D by (subst scan_next.simps) (simp add: scan_get_def Let_def)
  ultimately show ?thesis using num dec assms(1) by (simp add: scans_def mktoken_def)
qed

section \<open>Documents of sections\<close>

datatype cfg_val = C_str string | C_int nat

fun cfg_val_ok :: "cfg_val \<Rightarrow> bool" where
  "cfg_val_ok (C_str s) = list_all string_char s"
| "cfg_val_ok (C_int n) = (n < 2 ^ 63)"

fun print_val :: "cfg_val \<Rightarrow> string" where
  "print_val (C_str s) = DQ # escaped s @ [DQ]"
| "print_val (C_int n) = dec n"

definition print_entry :: "string \<times> cfg_val \<Rightarrow> string" where
  "print_entry kv = fst kv @ '' = '' @ print_val (snd kv)"

definition print_header :: "string \<Rightarrow> string" where
  "print_header name = CHR ''['' # name @ '']''"

text \<open>A section: its name, its entries and the number of empty lines after it.\<close>

type_synonym cfg_section = "string \<times> (string \<times> cfg_val) list \<times> nat"

definition section_lines :: "cfg_section \<Rightarrow> string list" where
  "section_lines sec = (case sec of (name, es, blanks) \<Rightarrow> print_header name # map print_entry es @ replicate blanks [])"

fun join_lines :: "string list \<Rightarrow> string" where
  "join_lines [] = []"
| "join_lines [l] = l"
| "join_lines (l # ls) = l @ LF # join_lines ls"

definition print_doc :: "cfg_section list \<Rightarrow> string" where
  "print_doc secs = join_lines (concat (map section_lines secs))"

text \<open>What the accessors see of a value.\<close>

fun datum_of :: "toml_datum \<Rightarrow> datum" where
  "datum_of DATUM_ZERO = T_Unknown"
| "datum_of (D_scalar m s) = (case s of S_string t \<Rightarrow> T_Str t | S_int64 n \<Rightarrow> T_Int n | t \<Rightarrow> T_Other)"
| "datum_of (D_array m xs) = T_Other"
| "datum_of (D_table m kvs) = T_Table (map (\<lambda>(k, v). (k, datum_of v)) kvs)"

fun val_datum :: "cfg_val \<Rightarrow> datum" where
  "val_datum (C_str s) = T_Str s"
| "val_datum (C_int n) = T_Int (int n)"

definition doc_datum :: "cfg_section list \<Rightarrow> datum" where
  "doc_datum secs = T_Table (map (\<lambda>(name, es, b). (name, T_Table (map (\<lambda>(k, v). (k, val_datum v)) es))) secs)"

definition entries_ok :: "(string \<times> cfg_val) list \<Rightarrow> bool" where
  "entries_ok es \<longleftrightarrow> list_all (\<lambda>(k, v). bare_key k \<and> cfg_val_ok v) es \<and> distinct (map fst es) \<and> length es \<le> TABLE_MAX"

definition doc_ok :: "cfg_section list \<Rightarrow> bool" where
  "doc_ok secs \<longleftrightarrow> list_all (\<lambda>(name, es, b). bare_key name \<and> entries_ok es) secs \<and> distinct (map fst secs) \<and> length secs \<le> TABLE_MAX"

section \<open>One line at a time\<close>

lemma rest_lines: "line_end (if ls = [] then [] else LF # join_lines ls)" "join_lines (l # ls) = l @ (if ls = [] then [] else LF # join_lines ls)"
  by (cases ls; simp)+

text \<open>The parser on its way through a document: the text left and the tree so far; no bracket is open.\<close>

definition parses_to :: "(string \<Rightarrow> bool) \<Rightarrow> parser \<Rightarrow> string \<Rightarrow> (toml_datum \<Rightarrow> bool) \<Rightarrow> nat list \<Rightarrow> bool" where
  "parses_to sd p rest T path \<longleftrightarrow>
     (\<exists>p'. toml_loop sd p = toml_loop sd p' \<and> sc_cur (p_scanner p') = rest \<and> bracket_level (p_scanner p') \<le> 0 \<and> T (p_toptab p') \<and> p_curtab p' = path)"

text \<open>A blank line is skipped, and so is the end of the line after an expression.\<close>

lemma blank_step:
  assumes "sc_cur (p_scanner p) = LF # rest" "bracket_level (p_scanner p) \<le> 0" "T (p_toptab p)"
  shows "parses_to sd p rest T (p_curtab p)"
proof -
  obtain tok sp where "scan_key sd (p_scanner p) = Inr (tok, sp)" "toktyp tok = TOK_ENDL" "sc_cur sp = rest" "bracket_level sp = bracket_level (p_scanner p)"
    using key_other[OF next_endl[OF assms(1), of sd True]] by (auto simp: scans_def)
  then show ?thesis using assms(2,3) unfolding parses_to_def
    by (intro exI[of _ "p\<lparr>p_scanner := sp\<rparr>"]) (simp add: toml_loop.simps[of sd p])
qed

lemma expr_step:
  assumes "scan_key sd (p_scanner p) = Inr (tok, sp)" "toktyp tok \<noteq> TOK_FIN" "toktyp tok \<noteq> TOK_ENDL" "parse_expr sd tok (p\<lparr>p_scanner := sp\<rparr>) = Inr p1"
    "sc_cur (p_scanner p1) = rest" "line_end rest" "bracket_level (p_scanner p1) \<le> 0" "T (p_toptab p1)"
  shows "parses_to sd p (drop 1 rest) T (p_curtab p1)"
proof -
  have "scans (scan_key sd (p_scanner p1)) (\<lambda>tok. toktyp tok = TOK_FIN \<or> toktyp tok = TOK_ENDL) (drop 1 rest) (p_scanner p1)"
    by (rule key_other[OF next_line_end[OF assms(5,6)]]) auto
  then obtain t sp1 where "scan_key sd (p_scanner p1) = Inr (t, sp1)" "toktyp t = TOK_FIN \<or> toktyp t = TOK_ENDL" "sc_cur sp1 = drop 1 rest"
      "bracket_level sp1 = bracket_level (p_scanner p1)"
    by (auto simp: scans_def)
  then show ?thesis using assms unfolding parses_to_def
    by (intro exI[of _ "p1\<lparr>p_scanner := sp1\<rparr>"]) (simp add: toml_loop.simps[of sd p])
qed

text \<open>After a key that is one word comes no dot.\<close>

lemma key_loop_one:
  assumes "scan_key sd sp = Inr (tok, sp1)" "toktyp tok \<noteq> TOK_DOT"
  shows "key_loop sd n [k] sp = Inr ([k], scan_restore sp sp1)"
  using assms by (subst key_loop.simps) simp

lemma parse_key_bare:
  assumes "toktyp tok = TOK_LIT" "tok_str tok = k" "scan_key sd sp = Inr (t, sp1)" "toktyp t \<noteq> TOK_DOT"
  shows "parse_key sd tok sp = Inr ([k], scan_restore sp sp1)"
  using assms key_loop_one[OF assms(3,4)] by (simp add: parse_key_def key_token_def parse_norm_def)

lemma key_lbrack:
  assumes "sc_cur sp = CHR ''['' # c # cs" "c \<noteq> CHR ''[''" "bracket_level sp \<le> 0"
  obtains tok sp' where "scan_key sd sp = Inr (tok, sp')" "toktyp tok = TOK_LBRACK" "sc_cur sp' = c # cs" "bracket_level sp' \<le> 1"
  using next_lbrack[OF assms(1,2), of sd] assms(3) that by (auto simp: scans_def scan_key_def check_overflow_def)

lemma key_rbrack:
  assumes "sc_cur sp = CHR '']'' # cs" "line_end cs"
  obtains tok sp' where "scan_key sd sp = Inr (tok, sp')" "toktyp tok = TOK_RBRACK" "sc_cur sp' = cs" "bracket_level sp' = bracket_level sp - 1"
  using next_rbrack[OF assms, of sd] that by (auto simp: scans_def scan_key_def check_overflow_def)

lemma key_bare:
  assumes "sc_cur sp = k @ c # cs" "bare_key k" "\<not> bare_char c" "byte_val c < 0x80"
  obtains tok sp' where "scan_key sd sp = Inr (tok, sp')" "toktyp tok = TOK_LIT" "tok_str tok = k" "sc_cur sp' = c # cs" "bracket_level sp' = bracket_level sp"
  using key_other[OF next_bare[OF assms(1,2), of sd]] assms(3,4) that by (auto simp: scans_def)

text \<open>The tree of the sections read so far.\<close>

definition sec_table :: "cfg_section \<Rightarrow> string \<times> toml_datum \<Rightarrow> bool" where
  "sec_table sec kd \<longleftrightarrow> fst kd = fst sec \<and> (\<exists>m kvs. snd kd = D_table m kvs \<and> \<not> flag_inlined m \<and>
     map (\<lambda>(k, v). (k, datum_of v)) kvs = map (\<lambda>(k, v). (k, val_datum v)) (fst (snd sec)))"

definition holds_doc :: "cfg_section list \<Rightarrow> toml_datum \<Rightarrow> bool" where
  "holds_doc secs t \<longleftrightarrow> (\<exists>m kvs. t = D_table m kvs \<and> \<not> flag_inlined m \<and> list_all2 sec_table secs kvs)"

lemma sec_tables_keys: "list_all2 sec_table secs kvs \<Longrightarrow> map fst kvs = map fst secs"
  by (induction rule: list_all2_induct) (simp_all add: sec_table_def)

lemma holds_datum:
  assumes "holds_doc secs t"
  shows "datum_of t = doc_datum secs"
proof -
  have "list_all2 sec_table secs kvs \<Longrightarrow>
      map (\<lambda>(k, v). (k, datum_of v)) kvs = map (\<lambda>(name, es, b). (name, T_Table (map (\<lambda>(k, v). (k, val_datum v)) es))) secs" for kvs
    by (induction rule: list_all2_induct) (auto simp: sec_table_def)
  then show ?thesis using assms by (auto simp: holds_doc_def doc_datum_def)
qed

text \<open>A header adds an empty section.\<close>

lemma header_step:
  assumes "sc_cur (p_scanner p) = print_header name @ rest" "line_end rest" "bracket_level (p_scanner p) \<le> 0" "bare_key name"
    "holds_doc secs (p_toptab p)" "name \<notin> fst ` set secs" "length secs < TABLE_MAX"
  shows "parses_to sd p (drop 1 rest) (holds_doc (secs @ [(name, [], 0)])) [length secs]"
proof -
  obtain c cs where n: "name = c # cs" "bare_char c" using assms(4) by (cases name) (auto simp: bare_key_def)
  obtain tok sp where t: "scan_key sd (p_scanner p) = Inr (tok, sp)" "toktyp tok = TOK_LBRACK" "sc_cur sp = name @ CHR '']'' # rest" "bracket_level sp \<le> 1"
    using key_lbrack[of "p_scanner p" c "cs @ CHR '']'' # rest" sd] assms(1,3) n bare_charD(6)[OF n(2)] by (auto simp: print_header_def)
  obtain kt sp1 where k: "scan_key sd sp = Inr (kt, sp1)" "toktyp kt = TOK_LIT" "tok_str kt = name" "sc_cur sp1 = CHR '']'' # rest"
      "bracket_level sp1 \<le> 1"
    using key_bare[OF t(3) assms(4) no_bare(7), of sd thesis] t(4) by simp
  obtain rt sp2 where r: "scan_key sd sp1 = Inr (rt, sp2)" "toktyp rt = TOK_RBRACK" "bracket_level sp2 \<le> 0"
    using key_rbrack[OF k(4) assms(2), of sd thesis] k(5) by simp
  note key = parse_key_bare[OF k(2,3) r(1)]
  have "sc_cur (scan_restore sp1 sp2) = CHR '']'' # rest" "bracket_level (scan_restore sp1 sp2) \<le> 0" using k(4) r(3) by (simp_all add: scan_restore_def)
  then obtain rb sp3 where b: "scan_key sd (scan_restore sp1 sp2) = Inr (rb, sp3)" "toktyp rb = TOK_RBRACK" "sc_cur sp3 = rest" "bracket_level sp3 \<le> 0"
    using key_rbrack[OF _ assms(2), of "scan_restore sp1 sp2" sd thesis] by simp
  obtain m kvs where tab: "p_toptab p = D_table m kvs" "\<not> flag_inlined m" "list_all2 sec_table secs kvs" using assms(5) by (auto simp: holds_doc_def)
  have l: "length kvs = length secs" using tab(3) by (simp add: list_all2_lengthD)
  have new: "name \<notin> fst ` set kvs" using sec_tables_keys[OF tab(3)] assms(6) by (metis list.set_map)
  let ?d = "D_table ((meta_at (tok_lineno kt) (tok_colno kt))\<lparr>flag_stdexpr := True\<rparr>) []"
  let ?root = "node_upd [length secs] (mark_explicit (tok_lineno kt) (tok_colno kt)) (D_table m (kvs @ [(name, ?d)]))"
  have place: "std_table_place (tok_lineno kt) (tok_colno kt) name (p_toptab p) [] = Inr (D_table m (kvs @ [(name, ?d)]), [length secs])"
    using tab new tab_find_None[of kvs name] tab_add_new[OF new, of ?d] l assms(7) by (simp add: std_table_place_def put_table_def)
  have e: "parse_expr sd tok (p\<lparr>p_scanner := sp\<rparr>) = Inr (p\<lparr>p_scanner := sp3, p_toptab := ?root, p_curtab := [length secs]\<rparr>)"
    using t(2) k(1) key r(2) b(1,2) place by (simp add: parse_expr_def parse_std_table_expr_def)
  have "holds_doc (secs @ [(name, [], 0)]) ?root"
    using tab l by (simp add: holds_doc_def set_value_def nth_append list_update_append list_all2_append sec_table_def mark_explicit_def meta_at_def)
  then show ?thesis using expr_step[OF t(1) _ _ e, of rest "holds_doc (secs @ [(name, [], 0)])"] t(2) b(3,4) assms(2) by simp
qed

text \<open>What a value on a line becomes.\<close>

lemma value_step:
  assumes "sc_cur sp = CHR '' '' # print_val v @ rest" "cfg_val_ok v" "line_end rest"
  obtains vt sp1 d where "scan_value sd sp = Inr (vt, sp1)" "token_value vt = Some (Inr d)" "datum_of d = val_datum v" "sc_cur sp1 = rest"
    "bracket_level sp1 = bracket_level sp"
proof -
  let ?sp = "sp\<lparr>sc_cur := print_val v @ rest, sc_col := sc_col sp + 1\<rparr>"
  have b: "scan_next sd False sp = scan_next sd False ?sp" by (rule next_blank) (rule assms(1))
  show thesis
  proof (cases v)
    case (C_str s)
    have "scans (scan_next sd False sp) (\<lambda>tok. toktyp tok = TOK_STRING \<and> parse_norm tok = Inr s) rest ?sp"
      unfolding b by (rule next_string) (use assms C_str in simp_all)
    then have "scans (scan_value sd sp) (\<lambda>tok. toktyp tok = TOK_STRING \<and> parse_norm tok = Inr s) rest sp"
      by (intro value_other) (auto simp: scans_def)
    then show thesis using C_str by (auto simp: scans_def token_value_def token_to_string_def intro: that)
  next
    case (C_int n)
    have "scans (scan_next sd False sp) (\<lambda>tok. toktyp tok = TOK_INTEGER \<and> tok_u tok = U_int64 (int n)) rest ?sp"
      unfolding b by (rule next_int) (use assms C_int in simp_all)
    then have "scans (scan_value sd sp) (\<lambda>tok. toktyp tok = TOK_INTEGER \<and> tok_u tok = U_int64 (int n)) rest sp"
      by (intro value_other) (auto simp: scans_def)
    then show thesis using C_int by (auto simp: scans_def token_value_def token_to_int64_def intro: that)
  qed
qed

text \<open>An entry is added to the last section.\<close>

lemma key_equal:
  assumes "sc_cur sp = '' ='' @ cs"
  obtains tok sp' where "scan_key sd sp = Inr (tok, sp')" "toktyp tok = TOK_EQUAL" "sc_cur sp' = cs" "bracket_level sp' = bracket_level sp"
proof -
  let ?sp = "sp\<lparr>sc_cur := CHR ''='' # cs, sc_col := sc_col sp + 1\<rparr>"
  have "scan_next sd True sp = scan_next sd True ?sp" using assms by (intro next_blank) simp
  moreover have "scans (scan_next sd True ?sp) (is_tok TOK_EQUAL) cs ?sp" by (rule next_equal) simp
  ultimately have "scans (scan_key sd sp) (is_tok TOK_EQUAL) cs sp" by (intro key_other) (auto simp: scans_def)
  then show thesis using that by (auto simp: scans_def)
qed

lemma entry_step:
  assumes "sc_cur (p_scanner p) = print_entry (k, v) @ rest" "line_end rest" "bracket_level (p_scanner p) \<le> 0" "bare_key k" "cfg_val_ok v"
    "holds_doc (secs @ [(name, es, b)]) (p_toptab p)" "p_curtab p = [length secs]" "k \<notin> fst ` set es" "length es < TABLE_MAX"
  shows "parses_to sd p (drop 1 rest) (holds_doc (secs @ [(name, es @ [(k, v)], b)])) [length secs]"
proof -
  have cur: "sc_cur (p_scanner p) = k @ CHR '' '' # CHR ''='' # CHR '' '' # print_val v @ rest" using assms(1) by (simp add: print_entry_def)
  obtain kt sp where t: "scan_key sd (p_scanner p) = Inr (kt, sp)" "toktyp kt = TOK_LIT" "tok_str kt = k"
      "sc_cur sp = CHR '' '' # CHR ''='' # CHR '' '' # print_val v @ rest" "bracket_level sp \<le> 0"
    using key_bare[OF cur assms(4) no_bare(3), of sd thesis] assms(3) by simp
  obtain et sp1 where e1: "scan_key sd sp = Inr (et, sp1)" "toktyp et = TOK_EQUAL" "bracket_level sp1 \<le> 0"
    using key_equal[of sp "CHR '' '' # print_val v @ rest" sd thesis] t(4,5) by simp
  note key = parse_key_bare[OF t(2,3) e1(1)]
  have "sc_cur (scan_restore sp sp1) = '' ='' @ CHR '' '' # print_val v @ rest" "bracket_level (scan_restore sp sp1) \<le> 0"
    using t(4) e1(3) by (simp_all add: scan_restore_def)
  then obtain eq sp2 where e2: "scan_key sd (scan_restore sp sp1) = Inr (eq, sp2)" "toktyp eq = TOK_EQUAL" "sc_cur sp2 = CHR '' '' # print_val v @ rest"
      "bracket_level sp2 \<le> 0"
    using key_equal[of "scan_restore sp sp1" "CHR '' '' # print_val v @ rest" sd thesis] by simp
  obtain vt sp3 d where d: "scan_value sd sp2 = Inr (vt, sp3)" "token_value vt = Some (Inr d)" "datum_of d = val_datum v" "sc_cur sp3 = rest"
      "bracket_level sp3 \<le> 0"
    using value_step[OF e2(3) assms(5,2), of sd thesis] e2(4) by simp
  have val: "parse_val sd (val_fuel sp3) vt sp3 = Inr (d, sp3)" using d(2) by (simp add: val_fuel_def numeral_3_eq_3 parse_val.simps)
  obtain m ss x m' kvs where tab: "p_toptab p = D_table m (ss @ [(name, D_table m' kvs)])" "\<not> flag_inlined m" "\<not> flag_inlined m'" "list_all2 sec_table secs ss"
      "map (\<lambda>(k, v). (k, datum_of v)) kvs = map (\<lambda>(k, v). (k, val_datum v)) es"
    using assms(6) by (auto simp: holds_doc_def list_all2_append1 list_all2_Cons1 sec_table_def)
  have l: "length ss = length secs" using tab(4) by (simp add: list_all2_lengthD)
  have "map fst kvs = map fst es" using arg_cong[OF tab(5), of "map fst"] by (simp add: o_def case_prod_unfold)
  then have new: "k \<notin> fst ` set kvs" "length kvs = length es" using assms(8) by (metis list.set_map, metis length_map)
  let ?root = "D_table m (ss @ [(name, D_table m' (kvs @ [(k, d)]))])"
  have at: "node (p_toptab p) [length secs] = D_table m' kvs" using tab(1) l by (simp add: nth_append)
  have put: "put_table [length secs] m' (kvs @ [(k, d)]) (p_toptab p) = ?root" using tab(1) l by (simp add: put_table_def flip: l)
  have e: "parse_expr sd kt (p\<lparr>p_scanner := sp\<rparr>) = Inr (p\<lparr>p_scanner := sp3, p_toptab := ?root\<rparr>)"
    using t(2) key e1(2) e2(1,2) d(1) val at put tab(3) tab_add_new[OF new(1), of d] new(2) assms(7,9)
    by (simp add: parse_expr_def parse_keyvalue_expr_def)
  have "holds_doc (secs @ [(name, es @ [(k, v)], b)]) ?root"
    using tab l d(3) by (simp add: holds_doc_def list_all2_append sec_table_def)
  then show ?thesis using expr_step[OF t(1) _ _ e, of rest "holds_doc (secs @ [(name, es @ [(k, v)], b)])"] t(2) d(4,5) assms(2,7) by simp
qed

section \<open>The whole document\<close>

lemma parses_refl: "sc_cur (p_scanner p) = rest \<Longrightarrow> bracket_level (p_scanner p) \<le> 0 \<Longrightarrow> T (p_toptab p) \<Longrightarrow> parses_to sd p rest T (p_curtab p)"
  by (auto simp: parses_to_def)

lemma parses_trans:
  assumes "parses_to sd p rest T path"
    "\<And>p'. sc_cur (p_scanner p') = rest \<Longrightarrow> bracket_level (p_scanner p') \<le> 0 \<Longrightarrow> T (p_toptab p') \<Longrightarrow> p_curtab p' = path \<Longrightarrow> parses_to sd p' rest' T' path'"
  shows "parses_to sd p rest' T' path'"
  using assms(1) assms(2) unfolding parses_to_def by metis

lemma line_rest: "join_lines (l # ls) = l @ (if ls = [] then [] else LF # join_lines ls)" "drop 1 (if ls = [] then [] else LF # join_lines ls) = join_lines ls"
  using rest_lines(2) by (cases ls; simp)+

lemma blanks_step:
  "sc_cur (p_scanner p) = join_lines (replicate b [] @ ls) \<Longrightarrow> bracket_level (p_scanner p) \<le> 0 \<Longrightarrow> T (p_toptab p) \<Longrightarrow> parses_to sd p (join_lines ls) T (p_curtab p)"
proof (induction b arbitrary: p)
  case 0
  then show ?case by (intro parses_refl) simp_all
next
  case (Suc b)
  show ?case
  proof (cases "replicate b [] @ ls = []")
    case True
    then show ?thesis using Suc.prems by (intro parses_refl) simp_all
  next
    case False
    then have "sc_cur (p_scanner p) = LF # join_lines (replicate b [] @ ls)" using Suc.prems(1) line_rest(1)[of "[]"] by simp
    then have "parses_to sd p (join_lines (replicate b [] @ ls)) T (p_curtab p)" using Suc.prems(2,3) by (rule blank_step)
    then show ?thesis by (rule parses_trans) (use Suc.IH in metis)
  qed
qed

lemma entries_step:
  "sc_cur (p_scanner p) = join_lines (map print_entry es @ ls) \<Longrightarrow> bracket_level (p_scanner p) \<le> 0 \<Longrightarrow> p_curtab p = [length secs] \<Longrightarrow>
    holds_doc (secs @ [(name, es0, b)]) (p_toptab p) \<Longrightarrow> entries_ok (es0 @ es) \<Longrightarrow>
    parses_to sd p (join_lines ls) (holds_doc (secs @ [(name, es0 @ es, b)])) [length secs]"
proof (induction es arbitrary: p es0)
  case Nil
  then show ?case using parses_refl[of p "join_lines ls" "holds_doc (secs @ [(name, es0, b)])" sd] by simp
next
  case (Cons e es)
  obtain k v where e: "e = (k, v)" by fastforce
  let ?ls = "map print_entry es @ ls" and ?T = "holds_doc (secs @ [(name, es0 @ [(k, v)], b)])"
  let ?rest = "if ?ls = [] then [] else LF # join_lines ?ls"
  have ok: "bare_key k" "cfg_val_ok v" "k \<notin> fst ` set es0" "length es0 < TABLE_MAX" using Cons.prems(5) e by (auto simp: entries_ok_def)
  have "sc_cur (p_scanner p) = print_entry (k, v) @ ?rest" using Cons.prems(1) e line_rest(1)[of "print_entry (k, v)" ?ls] by simp
  then have "parses_to sd p (drop 1 ?rest) ?T [length secs]" by (rule entry_step) (use ok Cons.prems in auto)
  then have "parses_to sd p (join_lines ?ls) ?T [length secs]" by (simp only: line_rest(2))
  then show ?case
  proof (rule parses_trans)
    fix p' :: parser assume "sc_cur (p_scanner p') = join_lines ?ls" "bracket_level (p_scanner p') \<le> 0" "?T (p_toptab p')" "p_curtab p' = [length secs]"
    then show "parses_to sd p' (join_lines ls) (holds_doc (secs @ [(name, es0 @ e # es, b)])) [length secs]"
      using Cons.IH[of p' "es0 @ [e]"] Cons.prems(5) e by simp
  qed
qed

lemma holds_blanks: "holds_doc (secs @ [(name, es, b)]) t \<longleftrightarrow> holds_doc (secs @ [(name, es, b')]) t"
  by (auto simp: holds_doc_def list_all2_append1 list_all2_Cons1 sec_table_def)

lemma section_step:
  assumes "sc_cur (p_scanner p) = join_lines (section_lines (name, es, b) @ ls)" "bracket_level (p_scanner p) \<le> 0" "holds_doc secs (p_toptab p)"
    "bare_key name" "entries_ok es" "name \<notin> fst ` set secs" "length secs < TABLE_MAX"
  shows "parses_to sd p (join_lines ls) (holds_doc (secs @ [(name, es, b)])) [length secs]"
proof -
  let ?l2 = "replicate b [] @ ls"
  let ?l1 = "map print_entry es @ ?l2"
  let ?rest = "if ?l1 = [] then [] else LF # join_lines ?l1"
  have "sc_cur (p_scanner p) = print_header name @ ?rest" using assms(1) line_rest(1)[of "print_header name" ?l1] by (simp add: section_lines_def)
  then have "parses_to sd p (drop 1 ?rest) (holds_doc (secs @ [(name, [], 0)])) [length secs]" by (rule header_step) (use assms in auto)
  then have "parses_to sd p (join_lines ?l1) (holds_doc (secs @ [(name, [], b)])) [length secs]"
    unfolding line_rest(2) parses_to_def holds_blanks[of secs name "[]" 0 _ b] .
  then have "parses_to sd p (join_lines ?l2) (holds_doc (secs @ [(name, es, b)])) [length secs]"
    by (rule parses_trans) (use entries_step[where ?es0.0 = "[]" and es = es] assms(5) in simp)
  then show ?thesis by (rule parses_trans) (use blanks_step in metis)
qed

lemma sections_step:
  "sc_cur (p_scanner p) = join_lines (concat (map section_lines secs)) \<Longrightarrow> bracket_level (p_scanner p) \<le> 0 \<Longrightarrow> holds_doc done (p_toptab p) \<Longrightarrow>
    doc_ok (done @ secs) \<Longrightarrow> \<exists>path. parses_to sd p [] (holds_doc (done @ secs)) path"
proof (induction secs arbitrary: p "done")
  case Nil
  then show ?case using parses_refl[of p "[]" "holds_doc done" sd] by auto
next
  case (Cons s secs)
  obtain name es b where s: "s = (name, es, b)" by (cases s)
  have "parses_to sd p (join_lines (concat (map section_lines secs))) (holds_doc (done @ [(name, es, b)])) [length done]"
    by (rule section_step) (use Cons.prems s in \<open>auto simp: doc_ok_def\<close>)
  then obtain p' where p': "toml_loop sd p = toml_loop sd p'" "sc_cur (p_scanner p') = join_lines (concat (map section_lines secs))"
      "bracket_level (p_scanner p') \<le> 0" "holds_doc (done @ [s]) (p_toptab p')"
    using s by (auto simp: parses_to_def)
  then show ?case using Cons.IH[of p' "done @ [s]"] Cons.prems(4) by (auto simp: parses_to_def)
qed

lemma source_datum: "datum_of (set_source_recursive name d) = datum_of d"
  by (induction d rule: datum_of.induct) (auto split: toml_scalar.split)

lemma parse_print:
  assumes "doc_ok secs"
  shows "\<exists>t. toml_parse_named sd False (print_doc secs) src = Inr t \<and> datum_of t = doc_datum secs"
proof -
  let ?p = "\<lparr>p_scanner = scan_init (print_doc secs), p_toptab = D_table (meta_at 1 1) [], p_curtab = []\<rparr>"
  have "\<exists>path. parses_to sd ?p [] (holds_doc ([] @ secs)) path"
    by (rule sections_step) (use assms in \<open>simp_all add: scan_init_def print_doc_def holds_doc_def meta_at_def\<close>)
  then obtain p' where p': "toml_loop sd ?p = toml_loop sd p'" "sc_cur (p_scanner p') = []" "holds_doc secs (p_toptab p')" by (auto simp: parses_to_def)
  have "scans (scan_key sd (p_scanner p')) (is_tok TOK_FIN) [] (p_scanner p')" by (rule key_other[OF next_fin[OF p'(2)]]) auto
  then have "toml_loop sd p' = Inr (p_toptab p')" by (subst toml_loop.simps) (auto simp: scans_def)
  then show ?thesis using p'(1) holds_datum[OF p'(3)] by (simp add: toml_parse_named_def source_datum)
qed

section \<open>From the file to the settings\<close>

text \<open>
  \<^verbatim>\<open>toml::parse_file_ex\<close> as \<^verbatim>\<open>load_configs\<close> calls it, with the default options: the tree as the accessors see it, or the message of the error.
\<close>

fun err_text :: "toml_err \<Rightarrow> string" where
  "err_text (Syntax_error line msg) = (if line = 0 then msg else ''(line '' @ dec line @ '') '' @ msg)"
| "err_text e = []"

definition file_datum :: "(string \<Rightarrow> bool) \<Rightarrow> (string \<Rightarrow> string + string) \<Rightarrow> string \<Rightarrow> string + datum" where
  "file_datum sd fs fname = (case toml_parse_file_ex sd False fs fname of Inl e \<Rightarrow> Inl (err_text e) | Inr t \<Rightarrow> Inr (datum_of t))"

lemma read_chunks_all: "got + length rest \<le> 2147483647 - 8192 - 1 \<Longrightarrow> read_chunks got rest = Inr (got + length rest)"
  by (induction got rest rule: read_chunks.induct) (subst read_chunks.simps, auto)

lemma file_print:
  assumes "doc_ok secs" "fs fname = Inr (print_doc secs)" "length (print_doc secs) \<le> 2147483647 - 8192 - 1"
  shows "file_datum sd fs fname = Inr (doc_datum secs)"
proof -
  have "read_chunks 0 (print_doc secs) = Inr (length (print_doc secs))" using read_chunks_all[of 0 "print_doc secs"] assms(3) by simp
  moreover obtain t where "toml_parse_named sd False (print_doc secs) (Some fname) = Inr t" "datum_of t = doc_datum secs" using parse_print[OF assms(1)] by blast
  ultimately show ?thesis using assms(2) by (simp add: file_datum_def toml_parse_file_ex_def toml_parse_file_named_def)
qed

text \<open>The value a document gives to a key of a section.\<close>

definition setting :: "cfg_section list \<Rightarrow> string \<Rightarrow> string \<Rightarrow> cfg_val option" where
  "setting secs name key = (case map_of secs name of None \<Rightarrow> None | Some (es, blanks) \<Rightarrow> map_of es key)"

lemma get_setting:
  assumes "setting secs name key = Some v"
  shows "datum_get (doc_datum secs) [name, key] = Some (val_datum v)"
proof -
  obtain es b where m: "map_of secs name = Some (es, b)" "map_of es key = Some v" using assms by (auto simp: setting_def split: option.splits)
  have "map_of (map (\<lambda>(k, v). (k, val_datum v)) es) key = Some (val_datum v)" using m(2) map_of_map[of val_datum es] by simp
  moreover have "map_of (map (\<lambda>(name, es, b). (name, T_Table (map (\<lambda>(k, v). (k, val_datum v)) es))) secs) name = Some (T_Table (map (\<lambda>(k, v). (k, val_datum v)) es))"
    using m(1) map_of_map[of "\<lambda>(es, b). T_Table (map (\<lambda>(k, v). (k, val_datum v)) es)" secs] by (simp add: case_prod_unfold)
  ultimately show ?thesis by (simp add: datum_get_def doc_datum_def)
qed


text \<open>The file that comes with the server, \<^verbatim>\<open>src/config/server.toml\<close>.\<close>

definition server_toml :: "cfg_section list" where
  "server_toml =
     [(''server'', [(''hostname'', C_str ''mail.detraced.org''), (''mailroot'', C_str ''/var/mail/vhosts'')], 1),
      (''ports'', [(''smtp'', C_int 25), (''imap4s'', C_int 993), (''imap4'', C_int 143), (''submissions'', C_int 587)], 1),
      (''database'', [(''dbpath'', C_str ''/var/lib/jams/users.db'')], 1),
      (''reporting'', [(''ip_alert_mta'', C_str ''john.doe@example.com'')], 0)]"

lemma server_toml_text:
  "print_doc server_toml = join_lines
     [''[server]'', ''hostname = '' @ [DQ] @ ''mail.detraced.org'' @ [DQ], ''mailroot = '' @ [DQ] @ ''/var/mail/vhosts'' @ [DQ], [],
      ''[ports]'', ''smtp = 25'', ''imap4s = 993'', ''imap4 = 143'', ''submissions = 587'', [],
      ''[database]'', ''dbpath = '' @ [DQ] @ ''/var/lib/jams/users.db'' @ [DQ], [],
      ''[reporting]'', ''ip_alert_mta = '' @ [DQ] @ ''john.doe@example.com'' @ [DQ]]"
  by code_simp

lemma server_toml_ok: "doc_ok server_toml" "length (print_doc server_toml) \<le> 2147483647 - 8192 - 1"
proof -
  have "list_all bare_key (map fst server_toml) \<and> list_all (\<lambda>(n, es, b). list_all bare_key (map fst es)) server_toml" by code_simp
  moreover have "list_all string_char (''mail.detraced.org'' @ ''/var/mail/vhosts'' @ ''/var/lib/jams/users.db'' @ ''john.doe@example.com'')" by code_simp
  ultimately show "doc_ok server_toml" by (simp add: doc_ok_def entries_ok_def server_toml_def)
  have "length (print_doc server_toml) = 228" unfolding server_toml_text by simp
  then show "length (print_doc server_toml) \<le> 2147483647 - 8192 - 1" by simp
qed


end
